(* ===== verification/Prelude.thy ===== *)
theory Prelude
  imports Main "HOL-Library.Word"
begin

text \<open>
  Shared vocabulary of the ShadowBox OS development: the machine integer types of
  \<^verbatim>\<open>include/types.h\<close>, the error numbers of \<^verbatim>\<open>include/errno.h\<close>, and the generic
  lemmas on bits, lists and optional results that the component theories rely on.

  Conventions used by every component theory:
  \<^item> a C \<^verbatim>\<open>uint8_t\<close>/\<^verbatim>\<open>uint32_t\<close>/\<^verbatim>\<open>uint64_t\<close> whose wrap-around can be observed is a
    \<open>word\<close>; an array index, a length or a count that the code keeps inside a fixed
    bound is a \<open>nat\<close>;
  \<^item> a C \<^verbatim>\<open>int\<close> result that carries \<^verbatim>\<open>-Exxx\<close> is an \<open>int\<close>, with the error numbers below;
  \<^item> a pointer that may be \<^verbatim>\<open>NULL\<close> is an \<open>option\<close>;
  \<^item> spin locks and interrupt flags are left out where every path through a function
    takes and releases the lock (the function is then one atomic step), and are part of
    the state where a path does not.
\<close>

unbundle bit_operations_syntax

type_synonym u8 = "8 word"
type_synonym u16 = "16 word"
type_synonym u32 = "32 word"
type_synonym u64 = "64 word"

section \<open>Error numbers (include/errno.h)\<close>

abbreviation (input) EPERM :: int where "EPERM \<equiv> 1"
abbreviation (input) ENOENT :: int where "ENOENT \<equiv> 2"
abbreviation (input) ESRCH :: int where "ESRCH \<equiv> 3"
abbreviation (input) EIO :: int where "EIO \<equiv> 5"
abbreviation (input) ECHILD :: int where "ECHILD \<equiv> 10"
abbreviation (input) EAGAIN :: int where "EAGAIN \<equiv> 11"
abbreviation (input) ENOMEM :: int where "ENOMEM \<equiv> 12"
abbreviation (input) EACCES :: int where "EACCES \<equiv> 13"
abbreviation (input) EFAULT :: int where "EFAULT \<equiv> 14"
abbreviation (input) EEXIST :: int where "EEXIST \<equiv> 17"
abbreviation (input) ENODEV :: int where "ENODEV \<equiv> 19"
abbreviation (input) EINVAL :: int where "EINVAL \<equiv> 22"
abbreviation (input) EMFILE :: int where "EMFILE \<equiv> 24"
abbreviation (input) EROFS :: int where "EROFS \<equiv> 30"
abbreviation (input) ENOTEMPTY :: int where "ENOTEMPTY \<equiv> 39"
abbreviation (input) ENOMSG :: int where "ENOMSG \<equiv> 42"

section \<open>Lemma collections\<close>

named_theorems bits_simps \<open>what one bit of a word is after a C bit operation\<close>

section \<open>Bits of words\<close>

text \<open>
  The C idioms \<^verbatim>\<open>w |= 1 << n\<close>, \<^verbatim>\<open>w &= ~(1 << n)\<close> and \<^verbatim>\<open>w & (1 << n)\<close>, over the
  simplifier's normal form \<open>2 ^ n\<close> of \<open>push_bit n 1\<close>.
\<close>

lemma bit_or_shift [bits_simps]:
  fixes w :: "'a::len word"
  shows "bit (w OR 2 ^ n) i \<longleftrightarrow> bit w i \<or> (i = n \<and> n < LENGTH('a))"
  by (auto simp: bit_or_iff bit_exp_iff)

lemma bit_and_not_shift [bits_simps]:
  fixes w :: "'a::len word"
  shows "bit (w AND NOT (2 ^ n)) i \<longleftrightarrow> bit w i \<and> i \<noteq> n"
  by (auto simp: bit_and_iff bit_not_iff bit_exp_iff dest: bit_imp_le_length)

lemma and_shift_eq_0 [bits_simps]:
  fixes w :: "'a::len word"
  shows "w AND 2 ^ n = 0 \<longleftrightarrow> \<not> bit w n"
proof
  assume "w AND 2 ^ n = 0"
  then have "\<not> bit (w AND 2 ^ n) n" by simp
  then show "\<not> bit w n"
    by (auto simp: bit_and_iff bit_exp_iff dest: bit_imp_le_length)
next
  assume "\<not> bit w n"
  then show "w AND 2 ^ n = 0"
    by (intro bit_eqI) (auto simp: bit_and_iff bit_exp_iff)
qed

lemma word_neq_0_bit:
  fixes w :: "'a::len word"
  assumes "w \<noteq> 0"
  shows "\<exists>n < LENGTH('a). bit w n"
  using assms by (metis bit_eqI bit_0_eq bot_apply bot_bool_def bit_imp_le_length)

section \<open>Lists\<close>

lemma nth_remove_swap_set:
  \<comment> \<open>dropping the last element after copying it over position \<open>i\<close>\<close>
  assumes "i < length xs"
  shows "set (butlast (xs[i := last xs])) \<subseteq> set xs"
proof -
  have "set (butlast (xs[i := last xs])) \<subseteq> set (xs[i := last xs])"
    by (auto dest: in_set_butlastD)
  also have "\<dots> \<subseteq> insert (last xs) (set xs)" by (rule set_update_subset_insert)
  also have "\<dots> = set xs" using assms by (cases "xs = []") auto
  finally show ?thesis .
qed

lemma map_take_upt: "n \<le> length xs \<Longrightarrow> map ((!) xs) [0..<n] = take n xs"
  by (auto intro: nth_equalityI)

end
