(* ===== verification/Kstring.thy ===== *)
theory Kstring
  imports Prelude
begin

text \<open>
  The kernel's string and memory routines (\<^verbatim>\<open>lib/kstring.c\<close>) and the user-pointer
  checks built on them (\<^verbatim>\<open>kernel/memory.c\<close>).

  Memory is a function from addresses to bytes, so that source and destination may
  alias: \<^verbatim>\<open>memmove\<close> is specified against the memory before the call. Addresses are
  \<open>nat\<close>: no C object wraps around the address space. The unbounded loops of
  \<^verbatim>\<open>strlen\<close>, \<^verbatim>\<open>strcmp\<close>, \<^verbatim>\<open>strcpy\<close> and \<^verbatim>\<open>strcat\<close> are partial functions, \<open>None\<close> for a run
  that never meets a NUL byte; the lemmas show that they return on NUL-terminated
  strings. The bounded loops recurse over the number of bytes.
\<close>

type_synonym mem = "nat \<Rightarrow> u8"

section \<open>lib/kstring.c\<close>

partial_function (option) strcmp :: "mem \<Rightarrow> nat \<Rightarrow> nat \<Rightarrow> int option" where
  "strcmp m a b =
     (if m a \<noteq> 0 \<and> m a = m b then strcmp m (a + 1) (b + 1)
      else Some (uint (m a) - uint (m b)))"

text \<open>The loop counter \<open>i\<close> of \<^verbatim>\<open>strncmp\<close> counts up to \<open>n\<close>; \<open>n\<close> here is what is left.\<close>

fun strncmp :: "mem \<Rightarrow> nat \<Rightarrow> nat \<Rightarrow> nat \<Rightarrow> int" where
  "strncmp m a b 0 = 0"
| "strncmp m a b (Suc n) =
     (if m a \<noteq> m b then uint (m a) - uint (m b)
      else if m a = 0 then 0
      else strncmp m (a + 1) (b + 1) n)"

partial_function (option) strlen_from :: "mem \<Rightarrow> nat \<Rightarrow> nat \<Rightarrow> nat option" where
  "strlen_from m s len = (if m (s + len) \<noteq> 0 then strlen_from m s (len + 1) else Some len)"

definition strlen :: "mem \<Rightarrow> nat \<Rightarrow> nat option" where
  "strlen m s = strlen_from m s 0"

text \<open>\<^verbatim>\<open>while ((*dest++ = *src++));\<close> copies the NUL byte too.\<close>

partial_function (option) strcpy :: "mem \<Rightarrow> nat \<Rightarrow> nat \<Rightarrow> mem option" where
  "strcpy m dest src =
     (let c = m src; m' = m(dest := c)
      in if c \<noteq> 0 then strcpy m' (dest + 1) (src + 1) else Some m')"

fun strncpy_pad :: "mem \<Rightarrow> nat \<Rightarrow> nat \<Rightarrow> mem" where
  "strncpy_pad m dest 0 = m"
| "strncpy_pad m dest (Suc n) = strncpy_pad (m(dest := 0)) (dest + 1) n"

fun strncpy :: "mem \<Rightarrow> nat \<Rightarrow> nat \<Rightarrow> nat \<Rightarrow> mem" where
  "strncpy m dest src 0 = m"
| "strncpy m dest src (Suc n) =
     (if m src \<noteq> 0 then strncpy (m(dest := m src)) (dest + 1) (src + 1) n
      else strncpy_pad m dest (Suc n))"

definition strcat :: "mem \<Rightarrow> nat \<Rightarrow> nat \<Rightarrow> mem option" where
  "strcat m dest src =
     (case strlen m dest of None \<Rightarrow> None | Some n \<Rightarrow> strcpy m (dest + n) src)"

fun memset :: "mem \<Rightarrow> nat \<Rightarrow> u8 \<Rightarrow> nat \<Rightarrow> mem" where
  "memset m d val 0 = m"
| "memset m d val (Suc len) = memset (m(d := val)) (d + 1) val len"

fun memcpy :: "mem \<Rightarrow> nat \<Rightarrow> nat \<Rightarrow> nat \<Rightarrow> mem" where
  "memcpy m d s 0 = m"
| "memcpy m d s (Suc len) = memcpy (m(d := m s)) (d + 1) (s + 1) len"

fun memcpy_down :: "mem \<Rightarrow> nat \<Rightarrow> nat \<Rightarrow> nat \<Rightarrow> mem" where
  "memcpy_down m d s 0 = m"
| "memcpy_down m d s (Suc i) = memcpy_down (m(d + i := m (s + i))) d s i"

definition memmove :: "mem \<Rightarrow> nat \<Rightarrow> nat \<Rightarrow> nat \<Rightarrow> mem" where
  "memmove m d s len = (if d < s then memcpy m d s len else memcpy_down m d s len)"

fun memcmp :: "mem \<Rightarrow> nat \<Rightarrow> nat \<Rightarrow> nat \<Rightarrow> int" where
  "memcmp m a b 0 = 0"
| "memcmp m a b (Suc len) =
     (if m a \<noteq> m b then uint (m a) - uint (m b) else memcmp m (a + 1) (b + 1) len)"

section \<open>kernel/memory.c\<close>

abbreviation USER_SPACE_END :: u64 where
  "USER_SPACE_END \<equiv> 0x00007FFFFFFFFFFF"

definition is_user_page :: "u64 \<Rightarrow> bool" where
  "is_user_page addr \<longleftrightarrow> addr < USER_SPACE_END"

record user_ptr =
  ptr :: u64
  len :: u64

definition validate_user_ptr :: "user_ptr \<Rightarrow> u32 \<Rightarrow> int" where
  "validate_user_ptr uptr flags =
     (let start = ptr uptr; fin = start + len uptr
      in if fin < start then - EFAULT
         else if fin > USER_SPACE_END then - EFAULT
         else 0)"

definition copy_from_user :: "mem \<Rightarrow> u64 \<Rightarrow> u64 \<Rightarrow> u64 \<Rightarrow> int \<times> mem" where
  "copy_from_user m kernel_dest user_src n =
     (if validate_user_ptr \<lparr>ptr = user_src, len = n\<rparr> 1 \<noteq> 0 then (- EFAULT, m)
      else (0, memcpy m (unat kernel_dest) (unat user_src) (unat n)))"

definition copy_to_user :: "mem \<Rightarrow> u64 \<Rightarrow> u64 \<Rightarrow> u64 \<Rightarrow> int \<times> mem" where
  "copy_to_user m user_dest kernel_src n =
     (if validate_user_ptr \<lparr>ptr = user_dest, len = n\<rparr> 2 \<noteq> 0 then (- EFAULT, m)
      else (0, memcpy m (unat user_dest) (unat kernel_src) (unat n)))"

section \<open>C strings in memory\<close>

text \<open>\<open>cstring m a s\<close>: the NUL-terminated string at address \<open>a\<close> is \<open>s\<close>.\<close>

fun cstring :: "mem \<Rightarrow> nat \<Rightarrow> u8 list \<Rightarrow> bool" where
  "cstring m a [] \<longleftrightarrow> m a = 0"
| "cstring m a (c # cs) \<longleftrightarrow> c \<noteq> 0 \<and> m a = c \<and> cstring m (a + 1) cs"

lemma cstring_nth: "cstring m a s \<Longrightarrow> i < length s \<Longrightarrow> m (a + i) = s ! i \<and> s ! i \<noteq> 0"
proof (induction s arbitrary: a i)
  case (Cons c cs)
  then show ?case by (cases i) (use Cons.IH [of "a + 1"] in auto)
qed simp

lemma cstring_end: "cstring m a s \<Longrightarrow> m (a + length s) = 0"
proof (induction s arbitrary: a)
  case (Cons c cs)
  then show ?case using Cons.IH [of "a + 1"] by simp
qed simp

lemma cstring_cong:
  "(\<And>i. i \<le> length s \<Longrightarrow> m' (b + i) = m (a + i)) \<Longrightarrow> cstring m a s \<Longrightarrow> cstring m' b s"
proof (induction s arbitrary: a b)
  case Nil
  then show ?case using Nil.prems(1) [of 0] by simp
next
  case (Cons c cs)
  have "m' (b + 1 + i) = m (a + 1 + i)" if "i \<le> length cs" for i
    using Cons.prems(1) [of "Suc i"] that by simp
  moreover have "m' b = m a" using Cons.prems(1) [of 0] by simp
  ultimately show ?case using Cons.IH [of "b + 1" "a + 1"] Cons.prems(2) by auto
qed

lemma strlen_from_cstring:
  "cstring m (s + k) cs \<Longrightarrow> strlen_from m s k = Some (k + length cs)"
proof (induction cs arbitrary: k)
  case Nil
  then show ?case by (simp add: strlen_from.simps)
next
  case (Cons c cs)
  then have "strlen_from m s (k + 1) = Some (k + 1 + length cs)"
    using Cons.IH [of "k + 1"] by simp
  with Cons.prems show ?case by (subst strlen_from.simps) simp
qed

lemma strlen_cstring: "cstring m s cs \<Longrightarrow> strlen m s = Some (length cs)"
  using strlen_from_cstring [of m s 0] by (simp add: strlen_def)

text \<open>
  \<^verbatim>\<open>strcmp\<close> returns on two terminated strings, and returns 0 exactly when they are equal.
\<close>

lemma strcmp_cstring:
  "cstring m a s \<Longrightarrow> cstring m b t \<Longrightarrow> \<exists>r. strcmp m a b = Some r \<and> (r = 0 \<longleftrightarrow> s = t)"
proof (induction s arbitrary: a b t)
  case Nil
  then have "m a = 0" by simp
  then have "strcmp m a b = Some (- uint (m b))" by (simp add: strcmp.simps)
  moreover have "m b = 0 \<longleftrightarrow> t = []" using Nil.prems(2) by (cases t) auto
  ultimately show ?case by (auto simp: unsigned_eq_0_iff)
next
  case (Cons c cs)
  show ?case
  proof (cases "m a = m b")
    case True
    with Cons.prems obtain ds where t: "t = c # ds" by (cases t) auto
    with Cons.prems have "\<exists>r. strcmp m (a + 1) (b + 1) = Some r \<and> (r = 0 \<longleftrightarrow> cs = ds)"
      by (intro Cons.IH) auto
    moreover have "strcmp m a b = strcmp m (a + 1) (b + 1)"
      using True Cons.prems by (subst strcmp.simps) auto
    ultimately show ?thesis using t by auto
  next
    case False
    then have "strcmp m a b = Some (uint (m a) - uint (m b))"
      by (subst strcmp.simps) auto
    moreover have "c # cs \<noteq> t" using False Cons.prems by (cases t) auto
    ultimately show ?thesis using False by (auto simp: word_uint_eq_iff)
  qed
qed

section \<open>Block moves\<close>

lemma memset_spec: "memset m d v n x = (if d \<le> x \<and> x < d + n then v else m x)"
  by (induction m d v n arbitrary: x rule: memset.induct) auto

text \<open>
  What \<^verbatim>\<open>memcpy\<close> leaves in memory when no byte is overwritten before it is read:
  either the destination starts below the source or the two regions are apart.
\<close>

lemma memcpy_spec:
  "d \<le> s \<or> s + n \<le> d \<Longrightarrow>
   memcpy m d s n x = (if d \<le> x \<and> x < d + n then m (s + (x - d)) else m x)"
proof (induction n arbitrary: m d s)
  case (Suc n)
  have "Suc d \<le> Suc s \<or> Suc s + n \<le> Suc d" using Suc.prems by auto
  note IH = Suc.IH [OF this, of "m(d := m s)"]
  have step: "Suc s + (x - Suc d) = s + (x - d)" if "d < x" using that by simp
  show ?case
  proof (cases "d < x")
    case True
    then have "s + (x - d) \<noteq> d \<or> \<not> x < d + Suc n" using Suc.prems by auto
    then show ?thesis using True step by (simp add: IH del: fun_upd_apply) auto
  qed (use Suc.prems in \<open>auto simp: IH\<close>)
qed auto

lemma memcpy_frame: "x < d \<or> d + n \<le> x \<Longrightarrow> memcpy m d s n x = m x"
  by (induction n arbitrary: m d s) auto

lemma memcpy_down_spec:
  "s \<le> d \<Longrightarrow>
   memcpy_down m d s n x = (if d \<le> x \<and> x < d + n then m (s + (x - d)) else m x)"
proof (induction n arbitrary: m x)
  case (Suc i)
  note IH = Suc.IH [OF Suc.prems, of "m(d + i := m (s + i))"]
  show ?case
  proof (cases "x = d + i")
    case False
    then have "s + (x - d) \<noteq> d + i \<or> \<not> (d \<le> x \<and> x < d + i)" using Suc.prems by auto
    then show ?thesis using False by (simp add: IH del: fun_upd_apply) auto
  next
    case True
    then show ?thesis by (simp add: IH del: fun_upd_apply) (simp add: fun_upd_apply)
  qed
qed auto

lemma memmove_spec:
  "memmove m d s n x = (if d \<le> x \<and> x < d + n then m (s + (x - d)) else m x)"
  by (simp add: memmove_def memcpy_spec memcpy_down_spec)

lemma memcmp_0_iff: "memcmp m a b n = 0 \<longleftrightarrow> (\<forall>i<n. m (a + i) = m (b + i))"
proof (induction m a b n rule: memcmp.induct)
  case (2 m a b n)
  show ?case
  proof (cases "m a = m b")
    case True
    then show ?thesis using 2 by (auto simp: less_Suc_eq_0_disj)
  next
    case False
    then show ?thesis by (auto simp: word_uint_eq_iff intro!: exI [of _ 0])
  qed
qed simp

text \<open>
  \<^verbatim>\<open>strcpy\<close> terminates and copies when the source is a string and the destination does
  not overlap its tail: it starts below the source or behind its NUL byte.
\<close>

lemma strcpy_frame:
  "cstring m src cs \<Longrightarrow> dest \<le> src \<or> src + length cs < dest \<Longrightarrow>
   strcpy m dest src =
     Some (\<lambda>x. if dest \<le> x \<and> x \<le> dest + length cs then m (src + (x - dest)) else m x)"
proof (induction cs arbitrary: m src dest)
  case Nil
  then show ?case by (subst strcpy.simps) (auto simp: fun_eq_iff)
next
  case (Cons c cs)
  let ?m = "m(dest := c)"
  have src: "m src = c" "c \<noteq> 0" using Cons.prems(1) by auto
  have "cstring ?m (src + 1) cs"
    by (rule cstring_cong [of cs ?m "src + 1" m "src + 1"]) (use Cons.prems in auto)
  moreover have "dest + 1 \<le> src + 1 \<or> src + 1 + length cs < dest + 1"
    using Cons.prems(2) by auto
  ultimately have "strcpy ?m (dest + 1) (src + 1) =
    Some (\<lambda>x. if dest + 1 \<le> x \<and> x \<le> dest + 1 + length cs
               then ?m (src + 1 + (x - (dest + 1))) else ?m x)"
    by (rule Cons.IH)
  moreover have "strcpy m dest src = strcpy ?m (dest + 1) (src + 1)"
    using src by (subst strcpy.simps) (simp add: Let_def)
  moreover have "Suc (src + (x - Suc dest)) = src + (x - dest)" if "dest < x" for x
    using that by simp
  ultimately show ?case using src Cons.prems(2) by (auto simp: fun_eq_iff)
qed

lemma strcpy_cstring:
  assumes "cstring m src cs" and "dest \<le> src \<or> src + length cs < dest"
  shows "\<exists>m'. strcpy m dest src = Some m' \<and> cstring m' dest cs"
proof -
  let ?m = "\<lambda>x. if dest \<le> x \<and> x \<le> dest + length cs then m (src + (x - dest)) else m x"
  have "cstring ?m dest cs"
    by (rule cstring_cong [of cs ?m dest m src]) (use assms in auto)
  with strcpy_frame [OF assms] show ?thesis by blast
qed

text \<open>A string at \<open>a\<close> stays where memory below \<open>a\<close> or behind its NUL byte changes.\<close>

lemma cstring_append:
  "(\<And>i. i < length s \<Longrightarrow> m (a + i) = s ! i \<and> s ! i \<noteq> 0) \<Longrightarrow> cstring m (a + length s) t \<Longrightarrow>
   cstring m a (s @ t)"
proof (induction s arbitrary: a)
  case (Cons c cs)
  have "m (a + 1 + i) = cs ! i \<and> cs ! i \<noteq> 0" if "i < length cs" for i
    using Cons.prems(1) [of "Suc i"] that by simp
  moreover have "m a = c \<and> c \<noteq> 0" using Cons.prems(1) [of 0] by simp
  ultimately show ?case using Cons.IH [of "a + 1"] Cons.prems(2) by simp
qed simp

lemma strcat_cstring:
  assumes d: "cstring m dest s" and t: "cstring m src t"
    and apart: "dest + length s + length t < src \<or> src + length t < dest"
  shows "\<exists>m'. strcat m dest src = Some m' \<and> cstring m' dest (s @ t)"
proof -
  let ?d = "dest + length s"
  let ?m = "\<lambda>x. if ?d \<le> x \<and> x \<le> ?d + length t then m (src + (x - ?d)) else m x"
  have "strcpy m ?d src = Some ?m" by (rule strcpy_frame [OF t]) (use apart in auto)
  then have eq: "strcat m dest src = Some ?m" by (simp add: strcat_def strlen_cstring [OF d])
  have tail: "cstring ?m ?d t" by (rule cstring_cong [of t ?m ?d m src]) (use t in auto)
  have "cstring ?m dest (s @ t)"
    by (rule cstring_append) (use cstring_nth [OF d] tail in auto)
  with eq show ?thesis by blast
qed

section \<open>User pointers\<close>

text \<open>The two comparisons on wrapped 64-bit sums accept exactly the true in-range sums.\<close>

lemma validate_user_ptr_iff:
  "validate_user_ptr u f = 0 \<longleftrightarrow> uint (ptr u) + uint (len u) \<le> uint USER_SPACE_END"
proof -
  let ?a = "ptr u" and ?n = "len u"
  have "uint (?a + ?n) = (if uint ?a + uint ?n < 2 ^ 64 then uint ?a + uint ?n
      else uint ?a + uint ?n - 2 ^ 64)"
    using uint_plus_if' [of ?a ?n] by simp
  moreover have "uint ?n < 2 ^ 64" "uint ?a < 2 ^ 64" using uint_lt2p [of ?n] uint_lt2p [of ?a] by auto
  ultimately show ?thesis
    by (auto simp: validate_user_ptr_def Let_def word_less_def word_le_def)
qed

lemma unat_of_uint_le: "uint a + uint n \<le> k \<Longrightarrow> unat a + unat n \<le> nat k"
  using nat_mono [of "uint a + uint n" k] by (simp add: nat_add_distrib)

lemma copy_from_user_0:
  assumes "copy_from_user m d s n = (0, m')"
  shows "uint s + uint n \<le> uint USER_SPACE_END \<and> m' = memcpy m (unat d) (unat s) (unat n)"
  using assms validate_user_ptr_iff [of "\<lparr>ptr = s, len = n\<rparr>" 1]
  by (auto simp: copy_from_user_def split: if_splits)

lemma copy_to_user_0:
  assumes "copy_to_user m d s n = (0, m')"
  shows "uint d + uint n \<le> uint USER_SPACE_END \<and> m' = memcpy m (unat d) (unat s) (unat n)"
  using assms validate_user_ptr_iff [of "\<lparr>ptr = d, len = n\<rparr>" 2]
  by (auto simp: copy_to_user_def split: if_splits)

section \<open>Properties\<close>

text \<open>
  \<^verbatim>\<open>memmove\<close> is a simultaneous copy: whatever the overlap of the two regions, every
  byte of the destination holds the byte the source had before the call, and no other
  byte changes.
\<close>

theorem memmove_correct:
  "memmove m d s n = (\<lambda>x. if d \<le> x \<and> x < d + n then m (s + (x - d)) else m x)"
  by (rule ext) (rule memmove_spec)

text \<open>
  C37. A user copy is confined to user space, for every 64-bit pointer and length, wrapping sums included: when the range ends
  beyond \<^verbatim>\<open>USER_SPACE_END\<close>, \<^verbatim>\<open>copy_to_user\<close> answers \<^verbatim>\<open>-EFAULT\<close> (the header promises \<open>-1\<close>) and writes nothing; otherwise it answers 0, no byte outside
  the range changes, and a range that the source does not run into holds the source's bytes. No byte at or above \<^verbatim>\<open>USER_SPACE_END\<close> ever changes.
\<close>

theorem copy_to_user_confined:
  "(if uint d + uint n > uint USER_SPACE_END then copy_to_user m d s n = (- EFAULT, m)
    else fst (copy_to_user m d s n) = 0
      \<and> (\<forall>x. x < unat d \<or> unat d + unat n \<le> x \<longrightarrow> snd (copy_to_user m d s n) x = m x)
      \<and> (unat d \<le> unat s \<or> unat s + unat n \<le> unat d \<longrightarrow>
          (\<forall>i < unat n. snd (copy_to_user m d s n) (unat d + i) = m (unat s + i))))
   \<and> (\<forall>x \<ge> unat USER_SPACE_END. snd (copy_to_user m d s n) x = m x)"
proof (cases "validate_user_ptr \<lparr>ptr = d, len = n\<rparr> 2 = 0")
  case True
  then have le: "uint d + uint n \<le> uint USER_SPACE_END" by (simp add: validate_user_ptr_iff)
  then have "unat d + unat n \<le> unat USER_SPACE_END"
    using unat_of_uint_le [OF le] by simp
  then show ?thesis using True le by (auto simp: copy_to_user_def memcpy_frame memcpy_spec)
next
  case False
  then have "uint d + uint n > uint USER_SPACE_END" by (simp add: validate_user_ptr_iff)
  then show ?thesis using False by (auto simp: copy_to_user_def)
qed

theorem copy_to_user_confined_witness:
  "copy_to_user (\<lambda>_. 7) 0xFFFFFFFFFFFFFFFF 0 2 = (- EFAULT, \<lambda>_. 7)
   \<and> fst (copy_to_user (\<lambda>_. 7) 4096 8192 3) = 0 \<and> snd (copy_to_user (\<lambda>_. 7) 4096 8192 3) (unat USER_SPACE_END) = 7"
  using copy_to_user_confined [where d = "0xFFFFFFFFFFFFFFFF" and n = 2 and m = "\<lambda>_. 7" and s = 0]
    copy_to_user_confined [where d = 4096 and n = 3 and m = "\<lambda>_. 7" and s = 8192] by simp

end
