(* ===== verification/Ring.thy ===== *)
theory Ring
  imports Prelude
begin

text \<open>
  The bounded first-in first-out queue that the kernel implements over and over with a
  fixed array and two positions: the input event ring, the two directions of a pseudo
  terminal and the pipe buffer. One slot stays unused, so that equal positions mean
  "empty"; \<open>N\<close> slots hold at most \<open>N - 1\<close> elements.

  The interface is a pair of locales. \<open>fifo\<close> is the contract of one put and one get
  against the list of queued elements; \<open>fifo_stream\<close> adds the loops that move many
  elements and stop when the ring is full or empty. The array representation itself is
  shared as \<open>ring_list\<close> with its two update lemmas, from which each component
  discharges the contract.
\<close>

section \<open>The array representation\<close>

text \<open>The elements from position \<open>tail\<close> up to position \<open>head\<close>, around the end.\<close>

definition ring_list :: "'a list \<Rightarrow> nat \<Rightarrow> nat \<Rightarrow> 'a list" where
  "ring_list buf head tail =
     (let N = length buf
      in map (\<lambda>i. buf ! ((tail + i) mod N)) [0..<(head + N - tail) mod N])"

definition ring_ok :: "nat \<Rightarrow> 'a list \<Rightarrow> nat \<Rightarrow> nat \<Rightarrow> bool" where
  "ring_ok N buf head tail \<longleftrightarrow> 1 < N \<and> length buf = N \<and> head < N \<and> tail < N"

lemma length_ring_list: "length (ring_list buf head tail) = (head + length buf - tail) mod length buf"
  by (simp add: ring_list_def Let_def)

lemma ring_dist_cases:
  fixes head tail N :: nat
  assumes "head < N" "tail < N"
  shows "(head + N - tail) mod N = (if tail \<le> head then head - tail else head + N - tail)"
proof (cases "tail \<le> head")
  case True
  then have "head + N - tail = (head - tail) + N" by arith
  then show ?thesis using assms True by (simp del: add_diff_assoc2)
next
  case False
  then show ?thesis using assms by simp
qed

lemma Suc_mod_cases: "(i::nat) < N \<Longrightarrow> Suc i mod N = (if Suc i = N then 0 else Suc i)"
  by auto

lemma ring_list_bound: "ring_ok N buf head tail \<Longrightarrow> length (ring_list buf head tail) \<le> N - 1"
  by (auto simp: ring_ok_def length_ring_list ring_dist_cases)

lemma ring_full_iff:
  assumes "ring_ok N buf head tail"
  shows "(head + 1) mod N = tail \<longleftrightarrow> length (ring_list buf head tail) = N - 1"
  using assms by (auto simp: ring_ok_def length_ring_list ring_dist_cases Suc_mod_cases)

lemma ring_empty_iff:
  assumes "ring_ok N buf head tail"
  shows "head = tail \<longleftrightarrow> ring_list buf head tail = []"
proof -
  have "ring_list buf head tail = [] \<longleftrightarrow> (head + N - tail) mod N = 0"
    using assms length_ring_list [of buf head tail] by (simp add: ring_ok_def flip: length_0_conv)
  then show ?thesis using assms by (auto simp: ring_ok_def ring_dist_cases)
qed

lemma ring_index_head:
  fixes head tail N :: nat
  assumes "head < N" "tail < N" "i < (head + N - tail) mod N"
  shows "(tail + i) mod N \<noteq> head"
proof (cases "tail + i < N")
  case True
  then show ?thesis using assms by (simp add: ring_dist_cases split: if_splits)
next
  case False
  then have "(tail + i) mod N = (tail + i - N) mod N" by (intro le_mod_geq) simp
  also have "\<dots> = tail + i - N"
    using assms False by (intro mod_less) (simp add: ring_dist_cases split: if_splits)
  finally have "(tail + i) mod N = tail + i - N" .
  then show ?thesis using assms False by (auto simp: ring_dist_cases split: if_splits)
qed

lemma ring_list_put:
  assumes ok: "ring_ok N buf head tail" and room: "(head + 1) mod N \<noteq> tail"
  shows "ring_list (buf[head := x]) ((head + 1) mod N) tail = ring_list buf head tail @ [x]"
proof -
  let ?k = "(head + N - tail) mod N"
  have b: "length buf = N" "head < N" "tail < N" using ok by (auto simp: ring_ok_def)
  have k: "((head + 1) mod N + N - tail) mod N = Suc ?k"
    using b room by (auto simp: ring_dist_cases Suc_mod_cases split: if_splits)
  have last: "(tail + ?k) mod N = head" using b by (auto simp: ring_dist_cases)
  have "map (\<lambda>i. buf[head := x] ! ((tail + i) mod N)) [0..<?k] =
        map (\<lambda>i. buf ! ((tail + i) mod N)) [0..<?k]"
    using ring_index_head [OF b(2,3)] by (intro map_cong) (auto simp: nth_list_update_neq [OF not_sym])
  with b k last show ?thesis by (simp add: ring_list_def Let_def)
qed

lemma ring_list_get:
  assumes ok: "ring_ok N buf head tail" and ne: "head \<noteq> tail"
  shows "ring_list buf head tail = buf ! tail # ring_list buf head ((tail + 1) mod N)"
proof -
  let ?k = "(head + N - (tail + 1) mod N) mod N"
  have b: "length buf = N" "head < N" "tail < N" using ok by (auto simp: ring_ok_def)
  have k: "(head + N - tail) mod N = Suc ?k"
    using b ne by (auto simp: ring_dist_cases Suc_mod_cases split: if_splits)
  have sh: "(tail + Suc i) mod N = ((tail + 1) mod N + i) mod N" for i
    by (simp add: mod_simps)
  have "map (\<lambda>i. buf ! ((tail + i) mod N)) [0..<Suc ?k] =
        buf ! tail # map (\<lambda>i. buf ! ((tail + Suc i) mod N)) [0..<?k]"
    using b by (simp only: upt_conv_Cons [OF zero_less_Suc] map_Suc_upt [symmetric] list.map map_map o_def) simp
  also have "\<dots> = buf ! tail # map (\<lambda>i. buf ! (((tail + 1) mod N + i) mod N)) [0..<?k]"
    by (simp only: sh)
  finally show ?thesis using b k by (simp add: ring_list_def Let_def)
qed

lemma ring_ok_put: "ring_ok N buf head tail \<Longrightarrow> ring_ok N (buf[head := x]) ((head + 1) mod N) tail"
  by (simp add: ring_ok_def)

lemma ring_ok_get: "ring_ok N buf head tail \<Longrightarrow> ring_ok N buf head ((tail + 1) mod N)"
  by (simp add: ring_ok_def)

section \<open>The contract\<close>

locale fifo =
  fixes invar :: "'s \<Rightarrow> bool"
    and contents :: "'s \<Rightarrow> 'a list"
    and bound :: nat
    and put :: "'a \<Rightarrow> 's \<Rightarrow> 's option"
    and get :: "'s \<Rightarrow> ('a \<times> 's) option"
  assumes contents_bound: "invar s \<Longrightarrow> length (contents s) \<le> bound"
    and put_full: "invar s \<Longrightarrow> length (contents s) = bound \<Longrightarrow> put x s = None"
    and put_room: "invar s \<Longrightarrow> length (contents s) < bound \<Longrightarrow>
          \<exists>s'. put x s = Some s' \<and> invar s' \<and> contents s' = contents s @ [x]"
    and get_empty: "invar s \<Longrightarrow> contents s = [] \<Longrightarrow> get s = None"
    and get_cons: "invar s \<Longrightarrow> contents s = x # xs \<Longrightarrow>
          \<exists>s'. get s = Some (x, s') \<and> invar s' \<and> contents s' = xs"
begin

lemma put_Some_iff: "invar s \<Longrightarrow> (\<exists>s'. put x s = Some s') \<longleftrightarrow> length (contents s) < bound"
  using put_full [of s x] put_room [of s x] contents_bound [of s] by force

lemma put_contents: "invar s \<Longrightarrow> put x s = Some s' \<Longrightarrow> invar s' \<and> contents s' = contents s @ [x]"
  using put_room [of s x] put_Some_iff [of s x] by auto

lemma get_contents: "invar s \<Longrightarrow> get s = Some (x, s') \<Longrightarrow> invar s' \<and> contents s = x # contents s'"
  using get_empty [of s] get_cons [of s] by (cases "contents s") fastforce+

lemma put_then_get_empty:
  assumes "invar s" "contents s = []" "put x s = Some s'"
  shows "\<exists>s''. get s' = Some (x, s'') \<and> contents s'' = []"
  using put_contents [OF assms(1,3)] get_cons [of s' x "[]"] assms(2) by auto

end

locale fifo_stream = fifo invar contents bound put get
  for invar :: "'s \<Rightarrow> bool" and contents :: "'s \<Rightarrow> 'a list" and bound :: nat
    and put :: "'a \<Rightarrow> 's \<Rightarrow> 's option" and get :: "'s \<Rightarrow> ('a \<times> 's) option" +
  fixes put_all :: "'a list \<Rightarrow> 's \<Rightarrow> nat \<times> 's"
    and get_upto :: "nat \<Rightarrow> 's \<Rightarrow> 'a list \<times> 's"
  assumes put_all_Nil: "put_all [] s = (0, s)"
    and put_all_Cons: "put_all (x # xs) s =
          (case put x s of None \<Rightarrow> (0, s) | Some s' \<Rightarrow> map_prod Suc id (put_all xs s'))"
    and get_upto_0: "get_upto 0 s = ([], s)"
    and get_upto_Suc: "get_upto (Suc n) s =
          (case get s of None \<Rightarrow> ([], s) | Some (x, s') \<Rightarrow> map_prod (Cons x) id (get_upto n s'))"
begin

lemma put_all_spec:
  assumes "invar s"
  shows "\<exists>s'. put_all xs s = (min (length xs) (bound - length (contents s)), s') \<and> invar s' \<and>
    contents s' = contents s @ take (bound - length (contents s)) xs"
  using assms
proof (induction xs arbitrary: s)
  case Nil
  then show ?case by (simp add: put_all_Nil)
next
  case (Cons x xs)
  show ?case
  proof (cases "length (contents s) < bound")
    case True
    then obtain s1 where s1: "put x s = Some s1" "invar s1" "contents s1 = contents s @ [x]"
      using put_room [OF Cons.prems] by blast
    then have "bound - length (contents s) = Suc (bound - length (contents s1))"
      using True by simp
    with Cons.IH [OF s1(2)] s1 show ?thesis by (auto simp: put_all_Cons)
  next
    case False
    then have "length (contents s) = bound" using contents_bound [OF Cons.prems] by simp
    then show ?thesis using put_full [OF Cons.prems] Cons.prems by (simp add: put_all_Cons)
  qed
qed

lemma get_upto_spec:
  assumes "invar s"
  shows "\<exists>s'. get_upto n s = (take n (contents s), s') \<and> invar s' \<and> contents s' = drop n (contents s)"
  using assms
proof (induction n arbitrary: s)
  case 0
  then show ?case by (simp add: get_upto_0)
next
  case (Suc n)
  show ?case
  proof (cases "contents s")
    case Nil
    then show ?thesis using get_empty [OF Suc.prems] Suc.prems by (simp add: get_upto_Suc)
  next
    case (Cons x xs)
    then obtain s1 where s1: "get s = Some (x, s1)" "invar s1" "contents s1 = xs"
      using get_cons [OF Suc.prems] by blast
    with Suc.IH [OF s1(2)] Cons show ?thesis by (auto simp: get_upto_Suc)
  qed
qed

text \<open>What fits is read back in order, after what was already queued.\<close>

lemma put_all_get_upto:
  assumes "invar s" and "length (contents s) + length xs \<le> bound"
    and "put_all xs s = (k, s1)" and "get_upto (length (contents s) + length xs) s1 = (ys, s2)"
  shows "k = length xs \<and> ys = contents s @ xs \<and> contents s2 = []"
proof -
  from put_all_spec [OF assms(1), of xs] assms(2,3)
  have s1: "k = length xs" "invar s1" "contents s1 = contents s @ xs" by auto
  with get_upto_spec [OF s1(2), of "length (contents s) + length xs"] assms(4)
  show ?thesis by auto
qed

end

end
