(* ===== verification/Input_Ring.thy ===== *)
theory Input_Ring
  imports Ring
begin

text \<open>
  The unified input event ring of \<^verbatim>\<open>kernel/input.c\<close>: drivers push events from interrupt
  context, \<^verbatim>\<open>/dev/input\<close> polls them. Both operations run with interrupts disabled from
  their first to their last statement, so each is one atomic step. A full ring drops the
  new event.
\<close>

abbreviation INPUT_RING_SIZE :: nat where "INPUT_RING_SIZE \<equiv> 256"

text \<open>\<^verbatim>\<open>input_event_t\<close> without its field \<^verbatim>\<open>value\<close>, which nothing writes: it is 0 in every slot of the static ring.\<close>

record input_event =
  ev_type :: u8
  ev_code :: u8
  ev_x :: "16 word"
  ev_y :: "16 word"

record input_state =
  input_ring :: "input_event list"
  input_head :: nat
  input_tail :: nat

definition input_push :: "u8 \<Rightarrow> u8 \<Rightarrow> 16 word \<Rightarrow> 16 word \<Rightarrow> input_state \<Rightarrow> input_state" where
  "input_push type code x y s =
     (let nxt = (input_head s + 1) mod INPUT_RING_SIZE
      in if nxt \<noteq> input_tail s
         then s\<lparr>input_ring := (input_ring s)[input_head s :=
                  \<lparr>ev_type = type, ev_code = code, ev_x = x, ev_y = y\<rparr>],
                input_head := nxt\<rparr>
         else s)"

definition input_poll_event :: "input_state \<Rightarrow> (int \<times> input_event option) \<times> input_state" where
  "input_poll_event s =
     (if input_tail s = input_head s then ((0, None), s)
      else ((1, Some (input_ring s ! input_tail s)),
            s\<lparr>input_tail := (input_tail s + 1) mod INPUT_RING_SIZE\<rparr>))"

definition input_inv :: "input_state \<Rightarrow> bool" where
  "input_inv s \<longleftrightarrow> ring_ok INPUT_RING_SIZE (input_ring s) (input_head s) (input_tail s)"

definition input_events :: "input_state \<Rightarrow> input_event list" where
  "input_events s = ring_list (input_ring s) (input_head s) (input_tail s)"

lemma input_event_eta [simp]:
  "\<lparr>ev_type = ev_type e, ev_code = ev_code e, ev_x = ev_x e, ev_y = ev_y e\<rparr> = e"
  by simp

text \<open>The two operations as the put and the get of the queue contract.\<close>

definition input_put :: "input_event \<Rightarrow> input_state \<Rightarrow> input_state option" where
  "input_put e s =
     (let s' = input_push (ev_type e) (ev_code e) (ev_x e) (ev_y e) s
      in if (input_head s + 1) mod INPUT_RING_SIZE = input_tail s then None else Some s')"

definition input_get :: "input_state \<Rightarrow> (input_event \<times> input_state) option" where
  "input_get s =
     (case input_poll_event s of ((r, None), s') \<Rightarrow> None | ((r, Some e), s') \<Rightarrow> Some (e, s'))"

interpretation inp: fifo input_inv input_events "INPUT_RING_SIZE - 1" input_put input_get
proof
  fix s x
  assume "input_inv s"
  then have ok: "ring_ok INPUT_RING_SIZE (input_ring s) (input_head s) (input_tail s)"
    by (simp add: input_inv_def)
  show "length (input_events s) \<le> INPUT_RING_SIZE - 1"
    using ring_list_bound [OF ok] by (simp add: input_events_def)
  show "input_put x s = None" if "length (input_events s) = INPUT_RING_SIZE - 1"
    using ring_full_iff [OF ok] that by (simp add: input_put_def input_events_def)
  show "\<exists>s'. input_put x s = Some s' \<and> input_inv s' \<and> input_events s' = input_events s @ [x]"
    if "length (input_events s) < INPUT_RING_SIZE - 1"
    using ring_full_iff [OF ok] ring_list_put [OF ok, of x] ring_ok_put [OF ok, of x] that
    by (auto simp: input_put_def input_push_def input_inv_def input_events_def simp del: One_nat_def)
  show "input_get s = None" if "input_events s = []"
    using ring_empty_iff [OF ok] that
    by (simp add: input_get_def input_poll_event_def input_events_def)
  show "\<exists>s'. input_get s = Some (x, s') \<and> input_inv s' \<and> input_events s' = xs"
    if "input_events s = x # xs" for xs
    using ring_empty_iff [OF ok] ring_list_get [OF ok] ring_ok_get [OF ok] that
    by (auto simp: input_get_def input_poll_event_def input_events_def input_inv_def)
qed

lemma input_push_spec:
  assumes "input_inv s"
  shows "input_inv (input_push t c x y s)"
    and "input_events (input_push t c x y s) =
      (if length (input_events s) < 255
       then input_events s @ [\<lparr>ev_type = t, ev_code = c, ev_x = x, ev_y = y\<rparr>]
       else input_events s)"
proof -
  let ?e = "\<lparr>ev_type = t, ev_code = c, ev_x = x, ev_y = y\<rparr>"
  have *: "input_inv (input_push t c x y s) \<and> input_events (input_push t c x y s) =
      (if length (input_events s) < 255 then input_events s @ [?e] else input_events s)"
  proof (cases "length (input_events s) < 255")
    case True
    then obtain s' where s': "input_put ?e s = Some s'" using inp.put_room [OF assms] by auto
    then have "s' = input_push t c x y s" by (auto simp: input_put_def Let_def split: if_splits)
    with inp.put_contents [OF assms s'] True show ?thesis by simp
  next
    case False
    then have "length (input_events s) = INPUT_RING_SIZE - 1"
      using inp.contents_bound [OF assms] by simp
    then have "input_put ?e s = None" by (rule inp.put_full [OF assms])
    then have "input_push t c x y s = s"
      by (auto simp: input_put_def input_push_def Let_def split: if_splits)
    with False assms show ?thesis by simp
  qed
  then show "input_inv (input_push t c x y s)"
    and "input_events (input_push t c x y s) =
      (if length (input_events s) < 255 then input_events s @ [?e] else input_events s)"
    by auto
qed

section \<open>Runs of pushes and polls\<close>

text \<open>Interrupts and system calls interleave in any order: a run is a list of operations.\<close>

datatype input_op = Push u8 u8 "16 word" "16 word" | Poll

fun input_run :: "input_op list \<Rightarrow> input_state \<Rightarrow> input_event list \<times> input_state" where
  "input_run [] s = ([], s)"
| "input_run (Push t c x y # os) s = input_run os (input_push t c x y s)"
| "input_run (Poll # os) s =
     (case input_poll_event s of
        ((r, None), s') \<Rightarrow> input_run os s'
      | ((r, Some e), s') \<Rightarrow> map_prod (Cons e) id (input_run os s'))"

text \<open>The same run over a plain queue that holds at most 255 events.\<close>

fun queue_run :: "input_op list \<Rightarrow> input_event list \<Rightarrow> input_event list \<times> input_event list" where
  "queue_run [] q = ([], q)"
| "queue_run (Push t c x y # os) q =
     queue_run os (if length q < 255
       then q @ [\<lparr>ev_type = t, ev_code = c, ev_x = x, ev_y = y\<rparr>] else q)"
| "queue_run (Poll # os) q =
     (case q of [] \<Rightarrow> queue_run os [] | e # q' \<Rightarrow> map_prod (Cons e) id (queue_run os q'))"

lemma input_poll_cases:
  assumes "input_inv s"
  shows "input_events s = [] \<and> input_poll_event s = ((0, None), s) \<or>
    (\<exists>e s'. input_events s = e # input_events s' \<and> input_inv s' \<and>
       input_poll_event s = ((1, Some e), s'))"
proof (cases "input_events s")
  case Nil
  then have "input_get s = None" by (rule inp.get_empty [OF assms])
  then show ?thesis using Nil by (auto simp: input_get_def input_poll_event_def split: if_splits)
next
  case (Cons e es)
  then obtain s' where s': "input_get s = Some (e, s')" "input_inv s'" "input_events s' = es"
    using inp.get_cons [OF assms] by blast
  then have "input_poll_event s = ((1, Some e), s')"
    by (auto simp: input_get_def input_poll_event_def split: if_splits)
  with s' Cons show ?thesis by blast
qed

lemma input_run_refines:
  assumes "input_inv s"
  shows "fst (input_run os s) = fst (queue_run os (input_events s)) \<and>
    input_events (snd (input_run os s)) = snd (queue_run os (input_events s)) \<and>
    input_inv (snd (input_run os s))"
  using assms
proof (induction os arbitrary: s)
  case Nil
  then show ?case by simp
next
  case (Cons o' os)
  show ?case
  proof (cases o')
    case (Push t c x y)
    then show ?thesis
      using Cons.IH [OF input_push_spec(1) [OF Cons.prems]]
      by (simp add: input_push_spec(2) [OF Cons.prems])
  next
    case Poll
    from input_poll_cases [OF Cons.prems] show ?thesis
    proof (elim disjE conjE exE)
      assume "input_events s = []" "input_poll_event s = ((0, None), s)"
      then show ?thesis using Cons.IH [OF Cons.prems] Poll by simp
    next
      fix e s'
      assume "input_events s = e # input_events s'" "input_inv s'"
        "input_poll_event s = ((1, Some e), s')"
      then show ?thesis using Cons.IH [of s'] Poll by simp
    qed
  qed
qed

definition input_init :: input_state where
  "input_init = \<lparr>input_ring = replicate INPUT_RING_SIZE
      \<lparr>ev_type = 0, ev_code = 0, ev_x = 0, ev_y = 0\<rparr>, input_head = 0, input_tail = 0\<rparr>"

lemma input_init_inv: "input_inv input_init" "input_events input_init = []"
  by (simp_all add: input_inv_def input_init_def ring_ok_def input_events_def ring_list_def)

text \<open>
  C35. Every interleaving of pushes and polls, from boot, delivers exactly the events a
  bounded first-in first-out queue of 255 events would: in order, none twice, none
  invented, and an event is lost only when 255 are already waiting.
\<close>

theorem input_ring_refines_queue:
  "fst (input_run os input_init) = fst (queue_run os [])
   \<and> input_events (snd (input_run os input_init)) = snd (queue_run os [])"
  using input_run_refines [OF input_init_inv(1), of os] by (simp add: input_init_inv(2))

end
