(* ===== verification/Pty.thy ===== *)
theory Pty
  imports Ring
begin

text \<open>
  Pseudo terminals (\<^verbatim>\<open>kernel/pty.c\<close>): a table of eight devices, each with one ring per
  direction. The process side calls \<^verbatim>\<open>pty_write\<close>/\<^verbatim>\<open>pty_read\<close>, the desktop side
  \<^verbatim>\<open>pty_master_write\<close>/\<^verbatim>\<open>pty_master_read\<close>; \<^verbatim>\<open>pty_vfs_read\<close>/\<^verbatim>\<open>pty_vfs_write\<close> are the VFS
  callbacks. A caller's buffer is the list of its bytes; a read returns the bytes it
  stored. The ring positions are \<^verbatim>\<open>uint32_t\<close> below 4096, so their arithmetic cannot wrap.
\<close>

abbreviation PTY_MAX :: nat where "PTY_MAX \<equiv> 8"
abbreviation PTY_BUF_SIZE :: nat where "PTY_BUF_SIZE \<equiv> 4096"

record pty_device =
  master_fd :: int
  slave_fd :: int
  pty_name :: string
  m2s_buf :: "u8 list"
  m2s_head :: nat
  m2s_tail :: nat
  s2m_buf :: "u8 list"
  s2m_head :: nat
  s2m_tail :: nat

record pty_state =
  pty_devices :: "pty_device list"
  pty_count :: nat

section \<open>Operations\<close>

definition pty_reset :: "pty_device \<Rightarrow> pty_device" where
  "pty_reset d = d\<lparr>master_fd := -1, slave_fd := -1, m2s_head := 0, m2s_tail := 0,
     s2m_head := 0, s2m_tail := 0\<rparr>"

definition pty_subsystem_init :: "pty_state \<Rightarrow> pty_state" where
  "pty_subsystem_init s =
     \<lparr>pty_devices = map (\<lambda>d. (pty_reset d)\<lparr>pty_name := []\<rparr>) (pty_devices s), pty_count = 0\<rparr>"

text \<open>The decimal digits of the index, least significant first (\<^verbatim>\<open>_buf\<close>).\<close>

fun pty_num_buf :: "nat \<Rightarrow> nat list" where
  "pty_num_buf n = n mod 10 # (if n div 10 = 0 then [] else pty_num_buf (n div 10))"

declare pty_num_buf.simps [simp del]

definition pty_make_name :: "nat \<Rightarrow> string" where
  "pty_make_name idx = ''pty'' @ map (\<lambda>d. char_of (48 + d)) (rev (pty_num_buf idx))"

definition pty_create :: "pty_state \<Rightarrow> int \<times> pty_state" where
  "pty_create s =
     (if pty_count s \<ge> PTY_MAX then (-1, s)
      else let idx = pty_count s;
               dev = (pty_reset (pty_devices s ! idx))\<lparr>pty_name := pty_make_name idx\<rparr>
           in (int idx, s\<lparr>pty_devices := (pty_devices s)[idx := dev], pty_count := idx + 1\<rparr>))"

fun m2s_write_loop :: "u8 list \<Rightarrow> pty_device \<Rightarrow> nat \<times> pty_device" where
  "m2s_write_loop [] dev = (0, dev)"
| "m2s_write_loop (c # cs) dev =
     (let nxt = (m2s_head dev + 1) mod PTY_BUF_SIZE
      in if nxt = m2s_tail dev then (0, dev)
         else map_prod Suc id (m2s_write_loop cs
                (dev\<lparr>m2s_buf := (m2s_buf dev)[m2s_head dev := c], m2s_head := nxt\<rparr>)))"

fun s2m_read_loop :: "nat \<Rightarrow> pty_device \<Rightarrow> u8 list \<times> pty_device" where
  "s2m_read_loop 0 dev = ([], dev)"
| "s2m_read_loop (Suc n) dev =
     (if s2m_head dev = s2m_tail dev then ([], dev)
      else map_prod (Cons (s2m_buf dev ! s2m_tail dev)) id (s2m_read_loop n
             (dev\<lparr>s2m_tail := (s2m_tail dev + 1) mod PTY_BUF_SIZE\<rparr>)))"

fun s2m_write_loop :: "u8 list \<Rightarrow> pty_device \<Rightarrow> nat \<times> pty_device" where
  "s2m_write_loop [] dev = (0, dev)"
| "s2m_write_loop (c # cs) dev =
     (let nxt = (s2m_head dev + 1) mod PTY_BUF_SIZE
      in if nxt = s2m_tail dev then (0, dev)
         else map_prod Suc id (s2m_write_loop cs
                (dev\<lparr>s2m_buf := (s2m_buf dev)[s2m_head dev := c], s2m_head := nxt\<rparr>)))"

fun m2s_read_loop :: "nat \<Rightarrow> pty_device \<Rightarrow> u8 list \<times> pty_device" where
  "m2s_read_loop 0 dev = ([], dev)"
| "m2s_read_loop (Suc n) dev =
     (if m2s_head dev = m2s_tail dev then ([], dev)
      else map_prod (Cons (m2s_buf dev ! m2s_tail dev)) id (m2s_read_loop n
             (dev\<lparr>m2s_tail := (m2s_tail dev + 1) mod PTY_BUF_SIZE\<rparr>)))"

definition pty_bad_idx :: "int \<Rightarrow> pty_state \<Rightarrow> bool" where
  "pty_bad_idx idx s \<longleftrightarrow> idx < 0 \<or> idx \<ge> int (pty_count s)"

definition pty_write :: "int \<Rightarrow> u8 list \<Rightarrow> pty_state \<Rightarrow> int \<times> pty_state" where
  "pty_write idx buf s =
     (if pty_bad_idx idx s then (-1, s)
      else let (written, dev) = m2s_write_loop buf (pty_devices s ! nat idx)
           in (int written, s\<lparr>pty_devices := (pty_devices s)[nat idx := dev]\<rparr>))"

definition pty_read :: "int \<Rightarrow> nat \<Rightarrow> pty_state \<Rightarrow> (int \<times> u8 list) \<times> pty_state" where
  "pty_read idx n s =
     (if pty_bad_idx idx s then ((-1, []), s)
      else let (bs, dev) = s2m_read_loop n (pty_devices s ! nat idx)
           in ((int (length bs), bs), s\<lparr>pty_devices := (pty_devices s)[nat idx := dev]\<rparr>))"

definition pty_master_write :: "int \<Rightarrow> u8 list \<Rightarrow> pty_state \<Rightarrow> int \<times> pty_state" where
  "pty_master_write idx buf s =
     (if pty_bad_idx idx s then (-1, s)
      else let (written, dev) = s2m_write_loop buf (pty_devices s ! nat idx)
           in (int written, s\<lparr>pty_devices := (pty_devices s)[nat idx := dev]\<rparr>))"

definition pty_master_read :: "int \<Rightarrow> nat \<Rightarrow> pty_state \<Rightarrow> (int \<times> u8 list) \<times> pty_state" where
  "pty_master_read idx n s =
     (if pty_bad_idx idx s then ((-1, []), s)
      else let (bs, dev) = m2s_read_loop n (pty_devices s ! nat idx)
           in ((int (length bs), bs), s\<lparr>pty_devices := (pty_devices s)[nat idx := dev]\<rparr>))"

text \<open>The VFS callbacks turn the error result into 0 bytes; \<open>impl\<close> holds the index.\<close>

definition pty_vfs_read :: "int \<Rightarrow> nat \<Rightarrow> pty_state \<Rightarrow> (nat \<times> u8 list) \<times> pty_state" where
  "pty_vfs_read impl n s =
     (let ((r, bs), s') = pty_read impl n s in ((if r < 0 then 0 else nat r, bs), s'))"

definition pty_vfs_write :: "int \<Rightarrow> u8 list \<Rightarrow> pty_state \<Rightarrow> nat \<times> pty_state" where
  "pty_vfs_write impl buf s =
     (let (n, s') = pty_write impl buf s in (if n < 0 then 0 else nat n, s'))"

definition pty_destroy :: "int \<Rightarrow> pty_state \<Rightarrow> pty_state" where
  "pty_destroy idx s =
     (if pty_bad_idx idx s then s
      else s\<lparr>pty_devices := (pty_devices s)[nat idx :=
               (pty_reset (pty_devices s ! nat idx))\<lparr>pty_name := []\<rparr>]\<rparr>)"

section \<open>Invariant and contents\<close>

definition dev_ok :: "pty_device \<Rightarrow> bool" where
  "dev_ok d \<longleftrightarrow> ring_ok PTY_BUF_SIZE (m2s_buf d) (m2s_head d) (m2s_tail d)
     \<and> ring_ok PTY_BUF_SIZE (s2m_buf d) (s2m_head d) (s2m_tail d)"

definition pty_inv :: "pty_state \<Rightarrow> bool" where
  "pty_inv s \<longleftrightarrow> length (pty_devices s) = PTY_MAX \<and> pty_count s \<le> PTY_MAX
     \<and> (\<forall>d \<in> set (pty_devices s). dev_ok d)"

definition m2s_bytes :: "pty_device \<Rightarrow> u8 list" where
  "m2s_bytes d = ring_list (m2s_buf d) (m2s_head d) (m2s_tail d)"

definition s2m_bytes :: "pty_device \<Rightarrow> u8 list" where
  "s2m_bytes d = ring_list (s2m_buf d) (s2m_head d) (s2m_tail d)"

section \<open>Both directions are first-in first-out queues\<close>

definition m2s_put :: "u8 \<Rightarrow> pty_device \<Rightarrow> pty_device option" where
  "m2s_put c d = (if (m2s_head d + 1) mod PTY_BUF_SIZE = m2s_tail d then None
     else Some (d\<lparr>m2s_buf := (m2s_buf d)[m2s_head d := c],
                  m2s_head := (m2s_head d + 1) mod PTY_BUF_SIZE\<rparr>))"

definition m2s_get :: "pty_device \<Rightarrow> (u8 \<times> pty_device) option" where
  "m2s_get d = (if m2s_head d = m2s_tail d then None
     else Some (m2s_buf d ! m2s_tail d, d\<lparr>m2s_tail := (m2s_tail d + 1) mod PTY_BUF_SIZE\<rparr>))"

definition s2m_put :: "u8 \<Rightarrow> pty_device \<Rightarrow> pty_device option" where
  "s2m_put c d = (if (s2m_head d + 1) mod PTY_BUF_SIZE = s2m_tail d then None
     else Some (d\<lparr>s2m_buf := (s2m_buf d)[s2m_head d := c],
                  s2m_head := (s2m_head d + 1) mod PTY_BUF_SIZE\<rparr>))"

definition s2m_get :: "pty_device \<Rightarrow> (u8 \<times> pty_device) option" where
  "s2m_get d = (if s2m_head d = s2m_tail d then None
     else Some (s2m_buf d ! s2m_tail d, d\<lparr>s2m_tail := (s2m_tail d + 1) mod PTY_BUF_SIZE\<rparr>))"

text \<open>The other direction is part of each queue's invariant: no operation touches it.\<close>

definition m2s_inv :: "u8 list \<Rightarrow> pty_device \<Rightarrow> bool" where
  "m2s_inv other d \<longleftrightarrow> dev_ok d \<and> s2m_bytes d = other"

definition s2m_inv :: "u8 list \<Rightarrow> pty_device \<Rightarrow> bool" where
  "s2m_inv other d \<longleftrightarrow> dev_ok d \<and> m2s_bytes d = other"

lemmas m2s_defs = m2s_inv_def dev_ok_def m2s_bytes_def s2m_bytes_def m2s_put_def m2s_get_def
lemmas s2m_defs = s2m_inv_def dev_ok_def m2s_bytes_def s2m_bytes_def s2m_put_def s2m_get_def

interpretation m2s: fifo_stream "m2s_inv other" m2s_bytes "PTY_BUF_SIZE - 1" m2s_put m2s_get
  m2s_write_loop m2s_read_loop for other
proof
  fix s x
  assume "m2s_inv other s"
  then have ok: "ring_ok PTY_BUF_SIZE (m2s_buf s) (m2s_head s) (m2s_tail s)"
    and inv: "m2s_inv other s" by (auto simp: m2s_defs)
  show "length (m2s_bytes s) \<le> PTY_BUF_SIZE - 1"
    using ring_list_bound [OF ok] by (simp add: m2s_bytes_def)
  show "m2s_put x s = None" if "length (m2s_bytes s) = PTY_BUF_SIZE - 1"
    using ring_full_iff [OF ok] that by (simp add: m2s_put_def m2s_bytes_def)
  show "\<exists>s'. m2s_put x s = Some s' \<and> m2s_inv other s' \<and> m2s_bytes s' = m2s_bytes s @ [x]"
    if "length (m2s_bytes s) < PTY_BUF_SIZE - 1"
    using ring_full_iff [OF ok] ring_list_put [OF ok, of x] ring_ok_put [OF ok, of x] that inv
    by (auto simp: m2s_defs)
  show "m2s_get s = None" if "m2s_bytes s = []"
    using ring_empty_iff [OF ok] that by (simp add: m2s_get_def m2s_bytes_def)
  show "\<exists>s'. m2s_get s = Some (x, s') \<and> m2s_inv other s' \<and> m2s_bytes s' = xs"
    if "m2s_bytes s = x # xs" for xs
    using ring_empty_iff [OF ok] ring_list_get [OF ok] ring_ok_get [OF ok] that inv
    by (auto simp: m2s_defs)
qed (auto simp: m2s_put_def m2s_get_def Let_def)

interpretation s2m: fifo_stream "s2m_inv other" s2m_bytes "PTY_BUF_SIZE - 1" s2m_put s2m_get
  s2m_write_loop s2m_read_loop for other
proof
  fix s x
  assume "s2m_inv other s"
  then have ok: "ring_ok PTY_BUF_SIZE (s2m_buf s) (s2m_head s) (s2m_tail s)"
    and inv: "s2m_inv other s" by (auto simp: s2m_defs)
  show "length (s2m_bytes s) \<le> PTY_BUF_SIZE - 1"
    using ring_list_bound [OF ok] by (simp add: s2m_bytes_def)
  show "s2m_put x s = None" if "length (s2m_bytes s) = PTY_BUF_SIZE - 1"
    using ring_full_iff [OF ok] that by (simp add: s2m_put_def s2m_bytes_def)
  show "\<exists>s'. s2m_put x s = Some s' \<and> s2m_inv other s' \<and> s2m_bytes s' = s2m_bytes s @ [x]"
    if "length (s2m_bytes s) < PTY_BUF_SIZE - 1"
    using ring_full_iff [OF ok] ring_list_put [OF ok, of x] ring_ok_put [OF ok, of x] that inv
    by (auto simp: s2m_defs)
  show "s2m_get s = None" if "s2m_bytes s = []"
    using ring_empty_iff [OF ok] that by (simp add: s2m_get_def s2m_bytes_def)
  show "\<exists>s'. s2m_get s = Some (x, s') \<and> s2m_inv other s' \<and> s2m_bytes s' = xs"
    if "s2m_bytes s = x # xs" for xs
    using ring_empty_iff [OF ok] ring_list_get [OF ok] ring_ok_get [OF ok] that inv
    by (auto simp: s2m_defs)
qed (auto simp: s2m_put_def s2m_get_def Let_def)

section \<open>Every operation keeps the invariant\<close>

lemma pty_dev_ok: "pty_inv s \<Longrightarrow> \<not> pty_bad_idx idx s \<Longrightarrow> dev_ok (pty_devices s ! nat idx)"
  by (auto simp: pty_inv_def pty_bad_idx_def)

lemma pty_inv_update:
  "pty_inv s \<Longrightarrow> dev_ok d \<Longrightarrow> pty_inv (s\<lparr>pty_devices := (pty_devices s)[i := d]\<rparr>)"
  by (auto simp: pty_inv_def dest!: set_update_subset_insert [THEN subsetD])

lemma dev_ok_reset [simp]: "dev_ok d \<Longrightarrow> dev_ok (pty_reset d)"
  by (simp add: dev_ok_def pty_reset_def ring_ok_def)

lemma dev_ok_name [simp]: "dev_ok (d\<lparr>pty_name := nm\<rparr>) = dev_ok d"
  by (simp add: dev_ok_def)

lemma m2s_write_dev:
  assumes "dev_ok d"
  shows "\<exists>d'. m2s_write_loop bs d = (min (length bs) (4095 - length (m2s_bytes d)), d') \<and> dev_ok d'
    \<and> m2s_bytes d' = m2s_bytes d @ take (4095 - length (m2s_bytes d)) bs \<and> s2m_bytes d' = s2m_bytes d"
  using m2s.put_all_spec [of "s2m_bytes d" d bs] assms by (auto simp: m2s_inv_def)

lemma m2s_read_dev:
  assumes "dev_ok d"
  shows "\<exists>d'. m2s_read_loop n d = (take n (m2s_bytes d), d') \<and> dev_ok d'
    \<and> m2s_bytes d' = drop n (m2s_bytes d) \<and> s2m_bytes d' = s2m_bytes d"
  using m2s.get_upto_spec [of "s2m_bytes d" d n] assms by (auto simp: m2s_inv_def)

lemma s2m_write_dev:
  assumes "dev_ok d"
  shows "\<exists>d'. s2m_write_loop bs d = (min (length bs) (4095 - length (s2m_bytes d)), d') \<and> dev_ok d'
    \<and> s2m_bytes d' = s2m_bytes d @ take (4095 - length (s2m_bytes d)) bs \<and> m2s_bytes d' = m2s_bytes d"
  using s2m.put_all_spec [of "m2s_bytes d" d bs] assms by (auto simp: s2m_inv_def)

lemma s2m_read_dev:
  assumes "dev_ok d"
  shows "\<exists>d'. s2m_read_loop n d = (take n (s2m_bytes d), d') \<and> dev_ok d'
    \<and> s2m_bytes d' = drop n (s2m_bytes d) \<and> m2s_bytes d' = m2s_bytes d"
  using s2m.get_upto_spec [of "m2s_bytes d" d n] assms by (auto simp: s2m_inv_def)

text \<open>What each transfer does to the table, on both branches.\<close>

lemma pty_write_spec:
  assumes inv: "pty_inv s" and ok: "\<not> pty_bad_idx idx s"
  shows "\<exists>d'. pty_write idx bs s = (int (min (length bs) (4095 - length (m2s_bytes (pty_devices s ! nat idx)))),
       s\<lparr>pty_devices := (pty_devices s)[nat idx := d']\<rparr>) \<and> dev_ok d'
    \<and> m2s_bytes d' = m2s_bytes (pty_devices s ! nat idx)
         @ take (4095 - length (m2s_bytes (pty_devices s ! nat idx))) bs
    \<and> s2m_bytes d' = s2m_bytes (pty_devices s ! nat idx)"
  using m2s_write_dev [OF pty_dev_ok [OF assms], of bs] ok by (auto simp: pty_write_def)

lemma pty_master_read_spec:
  assumes inv: "pty_inv s" and ok: "\<not> pty_bad_idx idx s"
  shows "\<exists>d'. pty_master_read idx n s =
      ((int (length (take n (m2s_bytes (pty_devices s ! nat idx)))),
        take n (m2s_bytes (pty_devices s ! nat idx))),
       s\<lparr>pty_devices := (pty_devices s)[nat idx := d']\<rparr>) \<and> dev_ok d'
    \<and> m2s_bytes d' = drop n (m2s_bytes (pty_devices s ! nat idx))
    \<and> s2m_bytes d' = s2m_bytes (pty_devices s ! nat idx)"
  using m2s_read_dev [OF pty_dev_ok [OF assms], of n] ok by (auto simp: pty_master_read_def)

lemma pty_master_write_spec:
  assumes inv: "pty_inv s" and ok: "\<not> pty_bad_idx idx s"
  shows "\<exists>d'. pty_master_write idx bs s = (int (min (length bs) (4095 - length (s2m_bytes (pty_devices s ! nat idx)))),
       s\<lparr>pty_devices := (pty_devices s)[nat idx := d']\<rparr>) \<and> dev_ok d'
    \<and> s2m_bytes d' = s2m_bytes (pty_devices s ! nat idx)
         @ take (4095 - length (s2m_bytes (pty_devices s ! nat idx))) bs
    \<and> m2s_bytes d' = m2s_bytes (pty_devices s ! nat idx)"
  using s2m_write_dev [OF pty_dev_ok [OF assms], of bs] ok by (auto simp: pty_master_write_def)

lemma pty_read_spec:
  assumes inv: "pty_inv s" and ok: "\<not> pty_bad_idx idx s"
  shows "\<exists>d'. pty_read idx n s =
      ((int (length (take n (s2m_bytes (pty_devices s ! nat idx)))),
        take n (s2m_bytes (pty_devices s ! nat idx))),
       s\<lparr>pty_devices := (pty_devices s)[nat idx := d']\<rparr>) \<and> dev_ok d'
    \<and> s2m_bytes d' = drop n (s2m_bytes (pty_devices s ! nat idx))
    \<and> m2s_bytes d' = m2s_bytes (pty_devices s ! nat idx)"
  using s2m_read_dev [OF pty_dev_ok [OF assms], of n] ok by (auto simp: pty_read_def)

lemma pty_inv_create: "pty_inv s \<Longrightarrow> pty_inv (snd (pty_create s))"
proof -
  assume inv: "pty_inv s"
  show ?thesis
  proof (cases "pty_count s \<ge> PTY_MAX")
    case False
    let ?d = "(pty_reset (pty_devices s ! pty_count s))\<lparr>pty_name := pty_make_name (pty_count s)\<rparr>"
    have "dev_ok ?d" using inv False by (simp add: pty_inv_def)
    from pty_inv_update [OF inv this, of "pty_count s"] False
    show ?thesis by (simp add: pty_create_def Let_def pty_inv_def)
  qed (simp add: pty_create_def inv)
qed

lemma pty_inv_transfer:
  assumes "pty_inv s"
  shows "pty_inv (snd (pty_write idx bs s))" "pty_inv (snd (pty_master_write idx bs s))"
    "pty_inv (snd (pty_read idx n s))" "pty_inv (snd (pty_master_read idx n s))"
proof -
  show "pty_inv (snd (pty_write idx bs s))"
    using pty_write_spec [OF assms, of idx bs] assms
    by (cases "pty_bad_idx idx s") (auto simp: pty_write_def intro: pty_inv_update)
  show "pty_inv (snd (pty_master_write idx bs s))"
    using pty_master_write_spec [OF assms, of idx bs] assms
    by (cases "pty_bad_idx idx s") (auto simp: pty_master_write_def intro: pty_inv_update)
  show "pty_inv (snd (pty_read idx n s))"
    using pty_read_spec [OF assms, of idx n] assms
    by (cases "pty_bad_idx idx s") (auto simp: pty_read_def intro: pty_inv_update)
  show "pty_inv (snd (pty_master_read idx n s))"
    using pty_master_read_spec [OF assms, of idx n] assms
    by (cases "pty_bad_idx idx s") (auto simp: pty_master_read_def intro: pty_inv_update)
qed

lemma pty_inv_destroy: "pty_inv s \<Longrightarrow> pty_inv (pty_destroy idx s)"
  using pty_inv_update [of s _ "nat idx"] pty_dev_ok [of s idx] by (simp add: pty_destroy_def)

text \<open>The state of the static table at boot, after \<^verbatim>\<open>pty_subsystem_init\<close>.\<close>

definition pty_boot :: pty_state where
  "pty_boot = pty_subsystem_init \<lparr>pty_devices = replicate PTY_MAX
     \<lparr>master_fd = 0, slave_fd = 0, pty_name = [], m2s_buf = replicate PTY_BUF_SIZE 0, m2s_head = 0,
      m2s_tail = 0, s2m_buf = replicate PTY_BUF_SIZE 0, s2m_head = 0, s2m_tail = 0\<rparr>, pty_count = 0\<rparr>"

lemma pty_inv_boot: "pty_inv pty_boot"
  by (simp add: pty_inv_def pty_boot_def pty_subsystem_init_def dev_ok_def ring_ok_def pty_reset_def)

section \<open>Properties\<close>

text \<open>
  The pseudo terminal carries a process's output to the desktop: bytes accepted by
  \<^verbatim>\<open>pty_write\<close> come out of \<^verbatim>\<open>pty_master_read\<close> unchanged, in order and after what was
  already queued; the opposite direction and every other terminal are untouched.
\<close>

theorem pty_output_roundtrip:
  assumes inv: "pty_inv s" and idx: "0 \<le> idx" "idx < int (pty_count s)"
    and room: "length (m2s_bytes (pty_devices s ! nat idx)) + length bs \<le> 4095"
    and wr: "pty_write idx bs s = (k, s1)"
    and rd: "pty_master_read idx (length (m2s_bytes (pty_devices s ! nat idx)) + length bs) s1
               = ((r, out), s2)"
  shows "k = int (length bs) \<and> out = m2s_bytes (pty_devices s ! nat idx) @ bs \<and> r = int (length out)
    \<and> m2s_bytes (pty_devices s2 ! nat idx) = []
    \<and> s2m_bytes (pty_devices s2 ! nat idx) = s2m_bytes (pty_devices s ! nat idx)
    \<and> (\<forall>j. j \<noteq> nat idx \<longrightarrow> pty_devices s2 ! j = pty_devices s ! j) \<and> pty_inv s2"
proof -
  let ?d = "pty_devices s ! nat idx"
  have ok: "\<not> pty_bad_idx idx s" using idx by (simp add: pty_bad_idx_def)
  have lt: "nat idx < length (pty_devices s)" using inv idx by (auto simp: pty_inv_def)
  from pty_write_spec [OF inv ok, of bs] wr room obtain d1 where
    s1: "s1 = s\<lparr>pty_devices := (pty_devices s)[nat idx := d1]\<rparr>" and k: "k = int (length bs)"
    and d1: "m2s_bytes d1 = m2s_bytes ?d @ bs" "s2m_bytes d1 = s2m_bytes ?d"
    by auto
  have inv1: "pty_inv s1" using pty_inv_transfer(1) [OF inv, of idx bs] wr by simp
  have ok1: "\<not> pty_bad_idx idx s1" using ok s1 by (simp add: pty_bad_idx_def)
  have dev1: "pty_devices s1 ! nat idx = d1" using s1 lt by simp
  from pty_master_read_spec [OF inv1 ok1, of "length (m2s_bytes ?d) + length bs"] rd d1 dev1
  obtain d2 where s2: "s2 = s1\<lparr>pty_devices := (pty_devices s1)[nat idx := d2]\<rparr>"
    and out: "out = m2s_bytes ?d @ bs" "r = int (length out)"
    and d2: "m2s_bytes d2 = []" "s2m_bytes d2 = s2m_bytes ?d" by auto
  have "pty_inv s2" using pty_inv_transfer(4) [OF inv1, of idx] rd by (metis snd_conv)
  then show ?thesis using k out d2 s1 s2 lt by simp
qed

lemma pty_boot_device: "m2s_bytes (pty_devices (snd (pty_create pty_boot)) ! 0) = []"
  by (simp add: pty_create_def pty_boot_def pty_subsystem_init_def pty_reset_def m2s_bytes_def
      ring_list_def)

theorem pty_output_roundtrip_witness:
  "\<exists>s1 s2 r. pty_write 0 [104, 105] (snd (pty_create pty_boot)) = (2, s1)
     \<and> pty_master_read 0 2 s1 = ((r, [104, 105]), s2)"
proof -
  let ?s = "snd (pty_create pty_boot)"
  obtain k s1 where wr: "pty_write 0 [104, 105] ?s = (k, s1)" by fastforce
  obtain r out s2 where rd: "pty_master_read 0 2 s1 = ((r, out), s2)" by (metis surj_pair)
  have count: "pty_count ?s = 1" by (simp add: pty_create_def pty_boot_def pty_subsystem_init_def)
  have "k = int (length [104, 105 :: u8]) \<and> out = [104, 105]"
    using pty_output_roundtrip [of ?s 0 "[104, 105]" k s1 r out s2,
        OF pty_inv_create [OF pty_inv_boot]] wr rd count pty_boot_device
    by (simp add: numeral_2_eq_2)
  then show ?thesis using wr rd by simp
qed

end
