(* ===== verification/Pmm.thy ===== *)
theory Pmm
  imports Prelude
begin

text \<open>
  The physical page allocator (\<^verbatim>\<open>arch/x86_64/mm/pmm.c\<close>): one bit per 4 KiB block in a
  byte array placed after the kernel image, a block total and a counter of used blocks.

  \<^verbatim>\<open>bitmap\<close> is a bare pointer, so it is a function from byte indices to bytes: an index
  past the bitmap touches whatever memory lies there, as in the code. Block numbers are
  \<open>nat\<close> (a 64-bit address divided by 4096), addresses and the counter are 64-bit words.
  \<^verbatim>\<open>pmm_init\<close> is modelled from the point where the Multiboot memory map and the module
  list have been located; walking the raw tag bytes is not part of the model. Each
  allocator call holds \<^verbatim>\<open>pmm_lock\<close> throughout and is one atomic step.
\<close>

abbreviation PAGE_SIZE :: nat where "PAGE_SIZE \<equiv> 4096"

record pmm =
  bitmap :: "nat \<Rightarrow> u8"
  max_blocks :: nat
  used_blocks :: u64

section \<open>Bitmap primitives\<close>

definition bitmap_set :: "(nat \<Rightarrow> u8) \<Rightarrow> nat \<Rightarrow> (nat \<Rightarrow> u8)" where
  "bitmap_set bm b = bm(b div 8 := bm (b div 8) OR push_bit (b mod 8) 1)"

definition bitmap_clear :: "(nat \<Rightarrow> u8) \<Rightarrow> nat \<Rightarrow> (nat \<Rightarrow> u8)" where
  "bitmap_clear bm b = bm(b div 8 := bm (b div 8) AND NOT (push_bit (b mod 8) 1))"

definition bitmap_test :: "(nat \<Rightarrow> u8) \<Rightarrow> nat \<Rightarrow> bool" where
  "bitmap_test bm b \<longleftrightarrow> bm (b div 8) AND push_bit (b mod 8) 1 \<noteq> 0"

section \<open>Initialisation from the memory map\<close>

record mmap_entry =
  ent_addr :: u64
  ent_len :: u64
  ent_type :: u32

abbreviation MULTIBOOT_MEMORY_AVAILABLE :: u32 where "MULTIBOOT_MEMORY_AVAILABLE \<equiv> 1"

definition blk :: "u64 \<Rightarrow> nat" where
  "blk a = unat (a div 4096)"

definition highest_addr :: "mmap_entry list \<Rightarrow> u64" where
  "highest_addr es = fold (\<lambda>e h. if ent_type e = MULTIBOOT_MEMORY_AVAILABLE
     then (if ent_addr e + ent_len e > h then ent_addr e + ent_len e else h) else h) es 0"

definition bitmap_bytes :: "nat \<Rightarrow> nat" where
  "bitmap_bytes blocks = (if blocks div 8 * 8 < blocks then blocks div 8 + 1 else blocks div 8)"

text \<open>\<^verbatim>\<open>for (b = start; b < end; b++) { bitmap_clear(b); used_blocks--; }\<close>\<close>

definition pmm_free_range :: "nat \<Rightarrow> nat \<Rightarrow> pmm \<Rightarrow> pmm" where
  "pmm_free_range lo hi s = fold (\<lambda>b s. s\<lparr>bitmap := bitmap_clear (bitmap s) b,
     used_blocks := used_blocks s - 1\<rparr>) [lo..<hi] s"

text \<open>\<^verbatim>\<open>for (...) if (!bitmap_test(b)) { bitmap_set(b); used_blocks++; }\<close>\<close>

definition pmm_reserve :: "nat \<Rightarrow> pmm \<Rightarrow> pmm" where
  "pmm_reserve b s = (if \<not> bitmap_test (bitmap s) b
     then s\<lparr>bitmap := bitmap_set (bitmap s) b, used_blocks := used_blocks s + 1\<rparr> else s)"

definition pmm_reserve_range :: "nat \<Rightarrow> nat \<Rightarrow> pmm \<Rightarrow> pmm" where
  "pmm_reserve_range lo hi s = fold pmm_reserve [lo..<hi] s"

definition pmm_free_entry :: "mmap_entry \<Rightarrow> pmm \<Rightarrow> pmm" where
  "pmm_free_entry e s = (if ent_type e = MULTIBOOT_MEMORY_AVAILABLE
     then pmm_free_range (blk (ent_addr e + 4096 - 1)) (blk (ent_addr e + ent_len e)) s else s)"

definition pmm_reserve_module :: "u32 \<times> u32 \<Rightarrow> pmm \<Rightarrow> pmm" where
  "pmm_reserve_module md s =
     pmm_reserve_range (unat (fst md) div PAGE_SIZE) (unat (snd md + 4096 - 1) div PAGE_SIZE) s"

text \<open>
  \<open>mem\<close> is the memory the bitmap is laid over, \<open>kernel_end\<close> the end of the kernel image,
  \<open>mods\<close> the start and end addresses of the boot modules (32-bit fields, so rounding the
  end up wraps in 32 bits).
\<close>

definition pmm_init ::
  "(nat \<Rightarrow> u8) \<Rightarrow> u64 \<Rightarrow> mmap_entry list \<Rightarrow> (u32 \<times> u32) list \<Rightarrow> pmm" where
  "pmm_init mem kernel_end entries mods =
     (let blocks = blk (highest_addr entries);
          bitmap_size = bitmap_bytes blocks;
          s0 = \<lparr>bitmap = (\<lambda>i. if i < bitmap_size then 0xFF else mem i),
                max_blocks = blocks, used_blocks = of_nat blocks\<rparr>;
          s1 = fold pmm_free_entry entries s0;
          end_of_reserved = kernel_end + of_nat bitmap_size;
          reserved_blocks = blk (end_of_reserved + 4096 - 1);
          s2 = pmm_reserve_range 0 reserved_blocks s1
      in fold pmm_reserve_module mods s2)"

section \<open>Allocation\<close>

fun pmm_scan :: "(nat \<Rightarrow> u8) \<Rightarrow> nat \<Rightarrow> nat \<Rightarrow> nat option" where
  "pmm_scan bm i 0 = None"
| "pmm_scan bm i (Suc n) = (if \<not> bitmap_test bm i then Some i else pmm_scan bm (i + 1) n)"

definition pmm_alloc_page :: "pmm \<Rightarrow> u64 \<times> pmm" where
  "pmm_alloc_page s =
     (case pmm_scan (bitmap s) 0 (max_blocks s) of
        None \<Rightarrow> (0, s)
      | Some i \<Rightarrow> (of_nat i * 4096,
          s\<lparr>bitmap := bitmap_set (bitmap s) i, used_blocks := used_blocks s + 1\<rparr>))"

definition pmm_free_page :: "u64 \<Rightarrow> pmm \<Rightarrow> pmm" where
  "pmm_free_page addr s =
     (let block = blk addr
      in if bitmap_test (bitmap s) block
         then s\<lparr>bitmap := bitmap_clear (bitmap s) block, used_blocks := used_blocks s - 1\<rparr>
         else s)"

definition pmm_get_info :: "pmm \<Rightarrow> nat \<times> u64" where
  "pmm_get_info s = (max_blocks s, used_blocks s)"

definition pmm_total_pages :: "pmm \<Rightarrow> nat" where
  "pmm_total_pages s = max_blocks s"

section \<open>What one bit says after each primitive\<close>

lemma same_bit: "(a::nat) div 8 = b div 8 \<and> a mod 8 = b mod 8 \<longleftrightarrow> a = b"
  by (metis div_mod_decomp)

lemma bitmap_test_bit: "bitmap_test bm b \<longleftrightarrow> bit (bm (b div 8)) (b mod 8)"
  by (simp add: bitmap_test_def bits_simps)

lemma bitmap_test_set: "bitmap_test (bitmap_set bm b) c \<longleftrightarrow> c = b \<or> bitmap_test bm c"
proof (cases "c div 8 = b div 8")
  case True
  then have "c mod 8 = b mod 8 \<longleftrightarrow> c = b" using same_bit by metis
  then show ?thesis using True
    by (auto simp: bitmap_test_bit bitmap_set_def bit_or_shift)
next
  case False
  then have "c \<noteq> b" by auto
  then show ?thesis using False by (simp add: bitmap_test_bit bitmap_set_def)
qed

lemma bitmap_test_clear: "bitmap_test (bitmap_clear bm b) c \<longleftrightarrow> c \<noteq> b \<and> bitmap_test bm c"
proof (cases "c div 8 = b div 8")
  case True
  then have "c mod 8 = b mod 8 \<longleftrightarrow> c = b" using same_bit by metis
  then show ?thesis using True
    by (auto simp: bitmap_test_bit bitmap_clear_def bit_and_not_shift)
next
  case False
  then have "c \<noteq> b" by auto
  then show ?thesis using False by (simp add: bitmap_test_bit bitmap_clear_def)
qed

lemmas bitmap_tests [simp] = bitmap_test_set bitmap_test_clear

section \<open>Abstract view: the set of used blocks\<close>

definition used_set :: "pmm \<Rightarrow> nat set" where
  "used_set s = {b. b < max_blocks s \<and> bitmap_test (bitmap s) b}"

lemma finite_used_set [simp]: "finite (used_set s)"
  by (simp add: used_set_def)

lemma used_set_bound: "card (used_set s) \<le> max_blocks s"
proof -
  have "used_set s \<subseteq> {..<max_blocks s}" by (auto simp: used_set_def)
  then show ?thesis using card_mono [of "{..<max_blocks s}"] by auto
qed

text \<open>
  The invariant: addresses fit (52-bit block numbers), the counter is the number of used
  blocks, and block 0 is never handed out, so that address 0 can mean "out of memory".
\<close>

definition pmm_inv :: "pmm \<Rightarrow> bool" where
  "pmm_inv s \<longleftrightarrow> max_blocks s \<le> 2 ^ 52 \<and> used_blocks s = of_nat (card (used_set s))
     \<and> (0 < max_blocks s \<longrightarrow> 0 \<in> used_set s)"

lemma blk_of_nat: "i \<le> 2 ^ 52 - 1 \<Longrightarrow> blk (of_nat i * 4096) = i"
proof -
  assume "i \<le> 2 ^ 52 - 1"
  then have "unat (of_nat i * 4096 :: u64) = i * 4096"
    by (simp add: unat_word_ariths unat_of_nat)
  then show ?thesis by (simp add: blk_def unat_div)
qed

lemma blk_bound: "blk a < 2 ^ 52"
  using unsigned_less [of a, where 'a = nat] by (simp add: blk_def unat_div less_mult_imp_div_less)

lemma pmm_scan_Some:
  "pmm_scan bm i n = Some j \<Longrightarrow>
     i \<le> j \<and> j < i + n \<and> \<not> bitmap_test bm j \<and> (\<forall>k. i \<le> k \<and> k < j \<longrightarrow> bitmap_test bm k)"
proof (induction bm i n rule: pmm_scan.induct)
  case (2 bm i n)
  show ?case
  proof (cases "bitmap_test bm i")
    case True
    with 2 have "Suc i \<le> j \<and> j < Suc i + n \<and> \<not> bitmap_test bm j
        \<and> (\<forall>k. Suc i \<le> k \<and> k < j \<longrightarrow> bitmap_test bm k)" by simp
    moreover have "bitmap_test bm k" if "i \<le> k" "k < j" "\<forall>k. Suc i \<le> k \<and> k < j \<longrightarrow> bitmap_test bm k" for k
      using that True by (cases "k = i") auto
    ultimately show ?thesis by auto
  next
    case False
    with "2.prems" show ?thesis by auto
  qed
qed simp

lemma all_from_Suc:
  "(\<forall>k. i \<le> k \<and> k < i + Suc n \<longrightarrow> P k) \<longleftrightarrow> P i \<and> (\<forall>k. Suc i \<le> k \<and> k < Suc i + n \<longrightarrow> P k)"
  (is "?L \<longleftrightarrow> ?R")
proof
  assume ?L
  then show ?R by simp
next
  assume R: ?R
  have "P k" if "i \<le> k" "k < i + Suc n" for k
    using R that by (cases "k = i") simp_all
  then show ?L by blast
qed

lemma pmm_scan_None: "pmm_scan bm i n = None \<longleftrightarrow> (\<forall>k. i \<le> k \<and> k < i + n \<longrightarrow> bitmap_test bm k)"
proof (induction n arbitrary: i)
  case (Suc n)
  show ?case by (subst all_from_Suc) (simp add: Suc.IH)
qed auto

text \<open>The whole behaviour of one allocation, on both branches.\<close>

lemma pmm_alloc_cases:
  assumes inv: "pmm_inv s"
  obtains (full) "used_set s = {..<max_blocks s}" "pmm_alloc_page s = (0, s)"
  | (page) i s' where "pmm_alloc_page s = (of_nat i * 4096, s')" "i < max_blocks s" "0 < i"
      "i \<notin> used_set s" "\<forall>k < i. k \<in> used_set s" "used_set s' = insert i (used_set s)"
      "used_blocks s' = used_blocks s + 1" "max_blocks s' = max_blocks s"
proof (cases "pmm_scan (bitmap s) 0 (max_blocks s)")
  case None
  then have "used_set s = {..<max_blocks s}" by (auto simp: pmm_scan_None used_set_def)
  then show ?thesis using None by (intro full) (simp_all add: pmm_alloc_page_def)
next
  case (Some i)
  let ?s = "s\<lparr>bitmap := bitmap_set (bitmap s) i, used_blocks := used_blocks s + 1\<rparr>"
  from pmm_scan_Some [OF Some] have i: "i < max_blocks s" "i \<notin> used_set s" "\<forall>k < i. k \<in> used_set s"
    by (auto simp: used_set_def)
  then have "0 < i" using inv by (cases i) (auto simp: pmm_inv_def)
  moreover have "used_set ?s = insert i (used_set s)" using i by (auto simp: used_set_def)
  ultimately show ?thesis using i Some by (intro page [of i ?s]) (auto simp: pmm_alloc_page_def)
qed

lemma pmm_inv_alloc:
  assumes inv: "pmm_inv s"
  shows "pmm_inv (snd (pmm_alloc_page s))"
proof (rule pmm_alloc_cases [OF inv])
  fix i s'
  assume a: "pmm_alloc_page s = (of_nat i * 4096, s')"
    and new: "i \<notin> used_set s" "used_set s' = insert i (used_set s)"
      "used_blocks s' = used_blocks s + 1" "max_blocks s' = max_blocks s"
  have "card (used_set s') = Suc (card (used_set s))" using new by simp
  then have "used_blocks s' = of_nat (card (used_set s'))" using inv new by (simp add: pmm_inv_def)
  then show "pmm_inv (snd (pmm_alloc_page s))" using inv a new by (simp add: pmm_inv_def)
qed (simp add: inv)

lemma pmm_page_nonzero:
  assumes "pmm_inv s" "0 < i" "i < max_blocks s"
  shows "(of_nat i * 4096 :: u64) \<noteq> 0" "blk (of_nat i * 4096) = i"
proof -
  have "i \<le> 2 ^ 52 - 1" using assms by (auto simp: pmm_inv_def)
  then show b: "blk (of_nat i * 4096) = i" by (rule blk_of_nat)
  show "(of_nat i * 4096 :: u64) \<noteq> 0"
  proof
    assume "(of_nat i * 4096 :: u64) = 0"
    with b assms(2) show False by (simp add: blk_def)
  qed
qed

text \<open>Freeing a used block of the managed range.\<close>

lemma pmm_free_spec:
  assumes "blk a < max_blocks s" "blk a \<in> used_set s"
  shows "used_set (pmm_free_page a s) = used_set s - {blk a}"
    and "used_blocks (pmm_free_page a s) = used_blocks s - 1"
    and "max_blocks (pmm_free_page a s) = max_blocks s"
  using assms by (auto simp: pmm_free_page_def used_set_def Let_def)

lemma pmm_inv_free:
  assumes "pmm_inv s" "blk a < max_blocks s" "blk a \<noteq> 0"
  shows "pmm_inv (pmm_free_page a s)"
proof (cases "blk a \<in> used_set s")
  case True
  then have "card (used_set s) = Suc (card (used_set s - {blk a}))"
    by (rule card.remove [OF finite_used_set])
  then have "used_blocks s - 1 = of_nat (card (used_set s - {blk a}))"
    using assms(1) by (simp add: pmm_inv_def)
  then show ?thesis using assms pmm_free_spec [OF assms(2) True] by (auto simp: pmm_inv_def)
next
  case False
  then have "pmm_free_page a s = s"
    using assms by (auto simp: pmm_free_page_def used_set_def Let_def)
  with assms show ?thesis by simp
qed

section \<open>Initialisation establishes the invariant\<close>

text \<open>
  During initialisation the counter must follow the bitmap over the whole managed range.
  Freeing a range keeps them in step only when every block of it is managed and still
  marked used, that is when the available regions do not overlap.
\<close>

definition counted :: "pmm \<Rightarrow> bool" where
  "counted s \<longleftrightarrow> used_blocks s = of_nat (card (used_set s))"

lemma pmm_free_step_counted:
  assumes "counted s" "b \<in> used_set s"
  shows "counted (s\<lparr>bitmap := bitmap_clear (bitmap s) b, used_blocks := used_blocks s - 1\<rparr>)"
    and "used_set (s\<lparr>bitmap := bitmap_clear (bitmap s) b, used_blocks := used_blocks s - 1\<rparr>)
           = used_set s - {b}"
proof -
  let ?s = "s\<lparr>bitmap := bitmap_clear (bitmap s) b, used_blocks := used_blocks s - 1\<rparr>"
  show us: "used_set ?s = used_set s - {b}" by (auto simp: used_set_def)
  have "card (used_set s) = Suc (card (used_set s - {b}))"
    by (rule card.remove [OF finite_used_set assms(2)])
  then show "counted ?s" using assms(1) us by (simp add: counted_def)
qed

lemma pmm_free_range_counted:
  assumes "counted s" "{lo..<hi} \<subseteq> used_set s"
  shows "counted (pmm_free_range lo hi s) \<and> used_set (pmm_free_range lo hi s) = used_set s - {lo..<hi}
    \<and> max_blocks (pmm_free_range lo hi s) = max_blocks s"
  using assms
proof (induction hi)
  case 0
  then show ?case by (simp add: pmm_free_range_def)
next
  case (Suc hi)
  show ?case
  proof (cases "lo \<le> hi")
    case True
    let ?s = "pmm_free_range lo hi s"
    have "{lo..<hi} \<subseteq> used_set s" using Suc.prems(2) by auto
    with Suc.IH Suc.prems(1) have IH: "counted ?s" "used_set ?s = used_set s - {lo..<hi}"
      "max_blocks ?s = max_blocks s" by auto
    have "hi \<in> used_set ?s" using Suc.prems(2) True IH(2) by auto
    note step = pmm_free_step_counted [OF IH(1) this]
    have "pmm_free_range lo (Suc hi) s =
        ?s\<lparr>bitmap := bitmap_clear (bitmap ?s) hi, used_blocks := used_blocks ?s - 1\<rparr>"
      using True by (simp add: pmm_free_range_def)
    moreover have "{lo..<Suc hi} = insert hi {lo..<hi}" using True by auto
    ultimately show ?thesis using step IH by auto
  next
    case False
    then show ?thesis using Suc.prems by (simp add: pmm_free_range_def)
  qed
qed

lemma pmm_reserve_counted:
  assumes "counted s" "b < max_blocks s"
  shows "counted (pmm_reserve b s) \<and> used_set (pmm_reserve b s) = insert b (used_set s)
    \<and> max_blocks (pmm_reserve b s) = max_blocks s"
proof (cases "bitmap_test (bitmap s) b")
  case True
  then have "b \<in> used_set s" using assms by (simp add: used_set_def)
  then show ?thesis using True assms by (auto simp: pmm_reserve_def)
next
  case False
  let ?s = "s\<lparr>bitmap := bitmap_set (bitmap s) b, used_blocks := used_blocks s + 1\<rparr>"
  have us: "used_set ?s = insert b (used_set s)" using assms by (auto simp: used_set_def)
  have "b \<notin> used_set s" using False by (simp add: used_set_def)
  then have "card (used_set ?s) = Suc (card (used_set s))" using us by simp
  then show ?thesis using False assms us by (simp add: pmm_reserve_def counted_def)
qed

lemma pmm_reserve_list_counted:
  assumes "counted s" "\<forall>b \<in> set bs. b < max_blocks s"
  shows "counted (fold pmm_reserve bs s) \<and> used_set (fold pmm_reserve bs s) = used_set s \<union> set bs
    \<and> max_blocks (fold pmm_reserve bs s) = max_blocks s"
  using assms
proof (induction bs arbitrary: s)
  case (Cons b bs)
  have step: "counted (pmm_reserve b s)" "used_set (pmm_reserve b s) = insert b (used_set s)"
      "max_blocks (pmm_reserve b s) = max_blocks s"
    using pmm_reserve_counted [of s b] Cons.prems by auto
  with Cons.IH [of "pmm_reserve b s"] Cons.prems(2) show ?case by auto
qed simp

text \<open>The blocks an entry of the memory map frees, and those a module covers.\<close>

definition entry_blocks :: "mmap_entry \<Rightarrow> nat set" where
  "entry_blocks e = (if ent_type e = MULTIBOOT_MEMORY_AVAILABLE
     then {blk (ent_addr e + 4096 - 1)..<blk (ent_addr e + ent_len e)} else {})"

definition module_blocks :: "u32 \<times> u32 \<Rightarrow> nat set" where
  "module_blocks md = {unat (fst md) div PAGE_SIZE..<unat (snd md + 4096 - 1) div PAGE_SIZE}"

lemma pmm_free_entries_counted:
  assumes "counted s" "\<forall>e \<in> set es. entry_blocks e \<subseteq> used_set s"
    and "\<forall>i < length es. \<forall>j < i. entry_blocks (es ! i) \<inter> entry_blocks (es ! j) = {}"
  shows "counted (fold pmm_free_entry es s)
    \<and> used_set (fold pmm_free_entry es s) = used_set s - \<Union> (entry_blocks ` set es)
    \<and> max_blocks (fold pmm_free_entry es s) = max_blocks s"
  using assms
proof (induction es arbitrary: s)
  case (Cons e es)
  let ?s = "pmm_free_entry e s"
  have s1: "counted ?s" "used_set ?s = used_set s - entry_blocks e" "max_blocks ?s = max_blocks s"
    using pmm_free_range_counted [OF Cons.prems(1)] Cons.prems
    by (auto simp: pmm_free_entry_def entry_blocks_def)
  have disj: "entry_blocks f \<inter> entry_blocks e = {}" if f: "f \<in> set es" for f
  proof -
    from f obtain i where "i < length es" "f = es ! i" by (auto simp: in_set_conv_nth)
    then show ?thesis using Cons.prems(3) [rule_format, of "Suc i" 0] by simp
  qed
  have "\<forall>f \<in> set es. entry_blocks f \<subseteq> used_set ?s"
    using Cons.prems(2) disj s1(2) by fastforce
  moreover have "\<forall>i < length es. \<forall>j < i. entry_blocks (es ! i) \<inter> entry_blocks (es ! j) = {}"
    using Cons.prems(3) by (metis Suc_less_eq length_Cons nth_Cons_Suc)
  ultimately show ?case using Cons.IH [OF s1(1)] s1 by auto
qed simp

lemma pmm_modules_counted:
  assumes "counted s" "\<forall>md \<in> set mods. \<forall>b \<in> module_blocks md. b < max_blocks s"
  shows "counted (fold pmm_reserve_module mods s)
    \<and> used_set (fold pmm_reserve_module mods s) = used_set s \<union> \<Union> (module_blocks ` set mods)
    \<and> max_blocks (fold pmm_reserve_module mods s) = max_blocks s"
  using assms
proof (induction mods arbitrary: s)
  case (Cons md mods)
  have "counted (pmm_reserve_module md s)
      \<and> used_set (pmm_reserve_module md s) = used_set s \<union> module_blocks md
      \<and> max_blocks (pmm_reserve_module md s) = max_blocks s"
    using pmm_reserve_list_counted [OF Cons.prems(1),
        of "[unat (fst md) div PAGE_SIZE..<unat (snd md + 4096 - 1) div PAGE_SIZE]"] Cons.prems(2)
    by (simp add: pmm_reserve_module_def pmm_reserve_range_def module_blocks_def)
  then show ?case using Cons.IH [of "pmm_reserve_module md s"] Cons.prems(2) by auto
qed simp

lemma highest_addr_fold_ge:
  fixes h :: u64
  shows "h \<le> fold (\<lambda>e h. if ent_type e = MULTIBOOT_MEMORY_AVAILABLE
     then (if ent_addr e + ent_len e > h then ent_addr e + ent_len e else h) else h) es h"
  by (induction es arbitrary: h) (auto intro: order_trans less_imp_le)

lemma highest_addr_ge:
  assumes "e \<in> set es" "ent_type e = MULTIBOOT_MEMORY_AVAILABLE"
  shows "ent_addr e + ent_len e \<le> highest_addr es"
proof -
  from assms(1) obtain xs ys where es: "es = xs @ e # ys" by (auto simp: in_set_conv_decomp)
  define f where "f = (\<lambda>(e :: mmap_entry) (h :: u64). if ent_type e = MULTIBOOT_MEMORY_AVAILABLE
     then (if ent_addr e + ent_len e > h then ent_addr e + ent_len e else h) else h)"
  have ge: "h \<le> fold f zs h" for h zs unfolding f_def by (rule highest_addr_fold_ge)
  have "ent_addr e + ent_len e \<le> f e (fold f xs 0)" using assms(2) by (auto simp: f_def)
  also have "\<dots> \<le> fold f ys (f e (fold f xs 0))" by (rule ge)
  finally show ?thesis by (simp add: highest_addr_def f_def [symmetric] es)
qed

lemma blk_mono: "a \<le> b \<Longrightarrow> blk a \<le> blk b"
  by (simp add: blk_def unat_div div_le_mono word_le_nat_alt)

lemma entry_blocks_managed:
  "e \<in> set es \<Longrightarrow> entry_blocks e \<subseteq> {..<blk (highest_addr es)}"
  using blk_mono [OF highest_addr_ge] by (auto simp: entry_blocks_def intro: order_less_le_trans)

lemma pmm_all_used:
  "used_set \<lparr>bitmap = (\<lambda>i. if i < bitmap_bytes n then 0xFF else mem i), max_blocks = n, used_blocks = u\<rparr>
   = {..<n}"
proof -
  have "b div 8 < bitmap_bytes n" if "b < n" for b
    using that by (auto simp: bitmap_bytes_def)
  moreover have "bit (0xFF :: u8) (b mod 8)" for b :: nat
  proof -
    have "b mod 8 < 8" by simp
    then have "b mod 8 \<in> {0, 1, 2, 3, 4, 5, 6, 7}" by auto
    then show ?thesis by auto
  qed
  ultimately show ?thesis by (auto simp: used_set_def bitmap_test_bit)
qed

section \<open>Properties\<close>

text \<open>
  \<^verbatim>\<open>pmm_init\<close> on a memory map whose available regions do not overlap establishes the
  allocator's invariant: the counter equals the number of used blocks, block 0 is
  reserved, and the free blocks are exactly the available blocks that belong neither to
  the kernel image with its bitmap nor to a boot module.
\<close>

theorem pmm_init_correct:
  fixes entries mods kernel_end
  defines "n \<equiv> blk (highest_addr entries)"
    and "res \<equiv> blk (kernel_end + of_nat (bitmap_bytes (blk (highest_addr entries))) + 4096 - 1)"
  assumes disjoint: "\<forall>i < length entries. \<forall>j < i.
      entry_blocks (entries ! i) \<inter> entry_blocks (entries ! j) = {}"
    and res: "0 < res" "res \<le> n"
    and mods: "\<forall>md \<in> set mods. \<forall>b \<in> module_blocks md. b < n"
  shows "pmm_inv (pmm_init mem kernel_end entries mods)
    \<and> {..<n} - used_set (pmm_init mem kernel_end entries mods)
        = \<Union> (entry_blocks ` set entries) - {..<res} - \<Union> (module_blocks ` set mods)"
proof -
  define s0 where "s0 = \<lparr>bitmap = (\<lambda>i. if i < bitmap_bytes n then 0xFF else mem i),
      max_blocks = n, used_blocks = of_nat n\<rparr>"
  define s1 where "s1 = fold pmm_free_entry entries s0"
  define s2 where "s2 = fold pmm_reserve [0..<res] s1"
  define s3 where "s3 = fold pmm_reserve_module mods s2"
  have u0: "used_set s0 = {..<n}" "max_blocks s0 = n" "counted s0"
    unfolding s0_def counted_def by (simp_all add: pmm_all_used)
  have in_n: "\<forall>e \<in> set entries. entry_blocks e \<subseteq> {..<n}"
    unfolding n_def using entry_blocks_managed by blast
  have u1: "counted s1" "used_set s1 = {..<n} - \<Union> (entry_blocks ` set entries)" "max_blocks s1 = n"
    using pmm_free_entries_counted [OF u0(3), of entries] in_n disjoint u0 by (auto simp: s1_def)
  have u2: "counted s2" "used_set s2 = used_set s1 \<union> {..<res}" "max_blocks s2 = n"
    using pmm_reserve_list_counted [OF u1(1), of "[0..<res]"] u1(3) res by (auto simp: s2_def)
  have u3: "counted s3" "used_set s3 = used_set s2 \<union> \<Union> (module_blocks ` set mods)" "max_blocks s3 = n"
    using pmm_modules_counted [OF u2(1), of mods] u2(3) mods by (auto simp: s3_def)
  have eq: "pmm_init mem kernel_end entries mods = s3"
    by (simp add: pmm_init_def Let_def s3_def s2_def s1_def s0_def n_def res_def
        pmm_reserve_range_def)
  have "n \<le> 2 ^ 52" using blk_bound [of "highest_addr entries"] by (simp add: n_def)
  moreover have "0 \<in> used_set s3" using u3 u2 res by auto
  ultimately have "pmm_inv s3" using u3 by (simp add: pmm_inv_def counted_def)
  moreover have "{..<n} - used_set s3
      = \<Union> (entry_blocks ` set entries) - {..<res} - \<Union> (module_blocks ` set mods)"
    using in_n u3 u2 u1 by auto
  ultimately show ?thesis by (simp add: eq)
qed

text \<open>A PC-like map: low memory, one megabyte at 1 MiB, a reserved hole, a boot module.\<close>

definition demo_map :: "mmap_entry list" where
  "demo_map = [\<lparr>ent_addr = 0, ent_len = 0x9F000, ent_type = 1\<rparr>,
     \<lparr>ent_addr = 0x9F000, ent_len = 0x61000, ent_type = 2\<rparr>,
     \<lparr>ent_addr = 0x100000, ent_len = 0x100000, ent_type = 1\<rparr>]"

lemma demo_map_blocks:
  "blk (highest_addr demo_map) = 512" "map entry_blocks demo_map = [{0..<159}, {}, {256..<512}]"
  "bitmap_bytes 512 = 64"
  by (simp_all add: demo_map_def highest_addr_def blk_def entry_blocks_def bitmap_bytes_def)

theorem pmm_init_correct_witness:
  "pmm_inv (pmm_init (\<lambda>_. 0) 0x120000 demo_map [(0x150000, 0x151000)])
   \<and> {..<512} - used_set (pmm_init (\<lambda>_. 0) 0x120000 demo_map [(0x150000, 0x151000)])
       = {289..<336} \<union> {337..<512}"
proof -
  have res: "blk (0x120000 + of_nat (bitmap_bytes 512) + 4096 - 1) = 289"
    unfolding demo_map_blocks by (simp add: blk_def)
  have md: "module_blocks (0x150000, 0x151000) = {336..<337}" by (simp add: module_blocks_def)
  have ent: "entry_blocks (demo_map ! i) = [{0..<159}, {}, {256..<512}] ! i" if "i < 3" for i
    using that demo_map_blocks(2) by (metis demo_map_def length_Cons list.size(3) nth_map
        numeral_3_eq_3)
  have len: "length demo_map = 3" by (simp add: demo_map_def)
  have un: "\<Union> (entry_blocks ` set demo_map) = {0..<159} \<union> {256..<512}"
    using arg_cong [OF demo_map_blocks(2), of set] by auto
  have disj: "\<forall>i < length demo_map. \<forall>j < i.
      entry_blocks (demo_map ! i) \<inter> entry_blocks (demo_map ! j) = {}"
    unfolding len by (auto simp: ent numeral_3_eq_3 less_Suc_eq)
  have mods: "\<forall>md \<in> set [(0x150000, 0x151000)]. \<forall>b \<in> module_blocks md. b < 512"
    by (simp add: md)
  have "pmm_inv (pmm_init (\<lambda>_. 0) 0x120000 demo_map [(0x150000, 0x151000)])
    \<and> {..<512} - used_set (pmm_init (\<lambda>_. 0) 0x120000 demo_map [(0x150000, 0x151000)])
        = {0..<159} \<union> {256..<512} - {..<289} - {336..<337}"
    using pmm_init_correct [where entries = demo_map and kernel_end = "0x120000"
        and mods = "[(0x150000, 0x151000)]" and mem = "\<lambda>_. 0", OF disj]
    unfolding demo_map_blocks(1) un res using mods by (simp add: md)
  moreover have "{0..<159} \<union> {256..<512} - {..<289} - {336..<337} = {289..<336} \<union> {337..<512::nat}"
    by auto
  ultimately show ?thesis by simp
qed

text \<open>
  The life of a page: the allocator state together with the set of addresses that
  callers hold. A caller frees only an address it holds.
\<close>

inductive pmm_step :: "pmm \<times> u64 set \<Rightarrow> pmm \<times> u64 set \<Rightarrow> bool" where
  take_page: "pmm_alloc_page s = (a, s') \<Longrightarrow> a \<noteq> 0 \<Longrightarrow> pmm_step (s, own) (s', insert a own)"
| no_page: "pmm_alloc_page s = (0, s') \<Longrightarrow> pmm_step (s, own) (s', own)"
| give_back: "a \<in> own \<Longrightarrow> pmm_step (s, own) (pmm_free_page a s, own - {a})"

inductive_cases pmm_stepE: "pmm_step (s, own) t"

text \<open>Held addresses are distinct used pages of the managed range.\<close>

definition pmm_owned :: "pmm \<times> u64 set \<Rightarrow> bool" where
  "pmm_owned t \<longleftrightarrow> pmm_inv (fst t) \<and>
     (\<forall>a \<in> snd t. \<exists>i. a = of_nat i * 4096 \<and> 0 < i \<and> i < max_blocks (fst t) \<and> i \<in> used_set (fst t))"

lemma pmm_alloc_fresh:
  assumes own: "pmm_owned (s, own)" and al: "pmm_alloc_page s = (a, s')" and "a \<noteq> 0"
  shows "a \<notin> own \<and> pmm_owned (s', insert a own)"
proof -
  have inv: "pmm_inv s" using own by (simp add: pmm_owned_def)
  have inv': "pmm_inv s'" using pmm_inv_alloc [OF inv] al by simp
  obtain i where i: "a = of_nat i * 4096" "i < max_blocks s" "0 < i" "i \<notin> used_set s"
      "used_set s' = insert i (used_set s)" "max_blocks s' = max_blocks s"
    using pmm_alloc_cases [OF inv] al \<open>a \<noteq> 0\<close> by (metis fst_conv snd_conv)
  have "a \<notin> own"
  proof
    assume "a \<in> own"
    then obtain j where j: "a = of_nat j * 4096" "0 < j" "j < max_blocks s" "j \<in> used_set s"
      using own by (auto simp: pmm_owned_def)
    then have "j = i" using pmm_page_nonzero(2) [OF inv] i by metis
    with j i show False by simp
  qed
  moreover have "pmm_owned (s', insert a own)"
    using own inv' i by (auto simp: pmm_owned_def)
  ultimately show ?thesis by blast
qed

lemma pmm_give_back_owned:
  assumes own: "pmm_owned (s, own)" and a: "a \<in> own"
  shows "pmm_owned (pmm_free_page a s, own - {a})"
proof -
  have inv: "pmm_inv s" using own by (simp add: pmm_owned_def)
  obtain i where i: "a = of_nat i * 4096" "0 < i" "i < max_blocks s" "i \<in> used_set s"
    using own a by (auto simp: pmm_owned_def)
  have b: "blk a = i" using pmm_page_nonzero(2) [OF inv i(2,3)] i(1) by simp
  have inv': "pmm_inv (pmm_free_page a s)" using pmm_inv_free [OF inv] b i by simp
  have us: "used_set (pmm_free_page a s) = used_set s - {i}"
      "max_blocks (pmm_free_page a s) = max_blocks s"
    using pmm_free_spec [of a s] b i by auto
  have "\<exists>j. c = of_nat j * 4096 \<and> 0 < j \<and> j < max_blocks s \<and> j \<in> used_set s - {i}"
    if c: "c \<in> own" "c \<noteq> a" for c
    using own c i(1) by (auto simp: pmm_owned_def)
  then show ?thesis using inv' us by (auto simp: pmm_owned_def)
qed

lemma pmm_step_owned: "pmm_step t u \<Longrightarrow> pmm_owned t \<Longrightarrow> pmm_owned u"
proof (induction rule: pmm_step.induct)
  case (take_page s a s' own)
  then show ?case using pmm_alloc_fresh by blast
next
  case (no_page s s' own)
  then have inv: "pmm_inv s" by (simp add: pmm_owned_def)
  then have "s' = s"
    using no_page.hyps pmm_page_nonzero(1) [OF inv] by (rule_tac pmm_alloc_cases [OF inv]) auto
  with no_page.prems show ?case by simp
next
  case (give_back a own s)
  then show ?case using pmm_give_back_owned by blast
qed

text \<open>
  C7. No page is ever handed out twice: after any sequence of allocations and frees of
  held pages, an allocation returns either 0 (and then every block is in use) or the
  page-aligned address of a page no caller holds, which is the lowest free one.
\<close>

theorem pmm_alloc_exclusive:
  assumes run: "pmm_step\<^sup>*\<^sup>* (s0, {}) (s, own)" and inv: "pmm_inv s0"
    and al: "pmm_alloc_page s = (a, s')"
  shows "(a = 0 \<and> used_set s = {..<max_blocks s}) \<or>
    (a \<notin> own \<and> (\<exists>i. a = of_nat i * 4096 \<and> i < max_blocks s \<and> i \<notin> used_set s
       \<and> (\<forall>k < i. k \<in> used_set s) \<and> used_set s' = insert i (used_set s)))"
proof -
  have "pmm_owned (s, own)"
    using run
  proof (induction rule: rtranclp_induct)
    case base
    show ?case using inv by (simp add: pmm_owned_def)
  next
    case (step t u)
    then show ?case using pmm_step_owned by blast
  qed
  then have own: "pmm_owned (s, own)" "pmm_inv s" by (auto simp: pmm_owned_def)
  from own(2) show ?thesis
  proof (cases rule: pmm_alloc_cases)
    case full
    then show ?thesis using al by simp
  next
    case (page i s'')
    then have "a \<noteq> 0" using al pmm_page_nonzero(1) [OF own(2)] by simp
    then have "a \<notin> own" using pmm_alloc_fresh [OF own(1) al] by simp
    with page al show ?thesis by auto
  qed
qed

definition pmm_demo :: pmm where
  "pmm_demo = \<lparr>bitmap = (\<lambda>_. 0)(0 := 1), max_blocks = 4, used_blocks = 1\<rparr>"

lemma pmm_demo_used: "used_set pmm_demo = {0}"
  by (auto simp: pmm_demo_def used_set_def bitmap_test_bit bit_1_iff)

lemma pmm_demo_inv: "pmm_inv pmm_demo"
  using pmm_demo_used by (simp add: pmm_inv_def pmm_demo_def)

lemma pmm_demo_alloc: "fst (pmm_alloc_page pmm_demo) = 4096"
  by code_simp

theorem pmm_alloc_exclusive_witness:
  "\<exists>s own. pmm_step\<^sup>*\<^sup>* (pmm_demo, {}) (s, own) \<and> own = {4096} \<and> fst (pmm_alloc_page s) \<notin> own"
proof -
  obtain s where s: "pmm_alloc_page pmm_demo = (4096, s)"
    using pmm_demo_alloc by (metis prod.collapse)
  then have run: "pmm_step\<^sup>*\<^sup>* (pmm_demo, {}) (s, {4096})"
    using pmm_step.take_page [OF s, of "{}"] by simp
  obtain a s' where a: "pmm_alloc_page s = (a, s')" by fastforce
  have "a = 0 \<or> a \<notin> {4096}"
    using pmm_alloc_exclusive [OF run pmm_demo_inv a] by blast
  then have "a \<notin> {4096}" by auto
  with run a show ?thesis by auto
qed

text \<open>
  Freeing undoes allocating: giving back the page just allocated restores the set of
  used blocks and the counter, and a second free of it changes nothing.
\<close>

theorem pmm_alloc_free:
  assumes inv: "pmm_inv s" and al: "pmm_alloc_page s = (a, s')" and "a \<noteq> 0"
  shows "used_set (pmm_free_page a s') = used_set s \<and> used_blocks (pmm_free_page a s') = used_blocks s
    \<and> pmm_free_page a (pmm_free_page a s') = pmm_free_page a s'"
proof -
  obtain i where i: "a = of_nat i * 4096" "i < max_blocks s" "0 < i" "i \<notin> used_set s"
      "used_set s' = insert i (used_set s)" "max_blocks s' = max_blocks s"
      "used_blocks s' = used_blocks s + 1"
    using pmm_alloc_cases [OF inv] al \<open>a \<noteq> 0\<close> by (metis fst_conv snd_conv)
  have b: "blk a = i" using pmm_page_nonzero(2) [OF inv i(3,2)] i(1) by simp
  have f: "used_set (pmm_free_page a s') = used_set s"
      "used_blocks (pmm_free_page a s') = used_blocks s"
    using pmm_free_spec [of a s'] i b by auto
  have "\<not> bitmap_test (bitmap (pmm_free_page a s')) i"
    by (simp add: pmm_free_page_def b Let_def)
  then have "pmm_free_page a (pmm_free_page a s') = pmm_free_page a s'"
    by (subst pmm_free_page_def) (simp add: b)
  with f show ?thesis by blast
qed

theorem pmm_alloc_free_witness:
  "\<exists>s'. pmm_alloc_page pmm_demo = (4096, s') \<and> used_set (pmm_free_page 4096 s') = {0}"
proof -
  obtain s' where s': "pmm_alloc_page pmm_demo = (4096, s')"
    using pmm_demo_alloc by (metis prod.collapse)
  have "used_set (pmm_free_page 4096 s') = used_set pmm_demo"
    using pmm_alloc_free [OF pmm_demo_inv s'] by simp
  with s' show ?thesis by (simp add: pmm_demo_used)
qed

end
