(* ===== verification/Sched.thy ===== *)
theory Sched
  imports Prelude "HOL-Library.Multiset"
begin

text \<open>
  The run queue of \<^verbatim>\<open>kernel/sched.c\<close>: a binary min-heap of process pointers ordered by
  virtual runtime, with a weight per nice level.

  A process pointer is a \<open>nat\<close>; \<open>procs\<close> is the store the pointers refer to, since the
  heap order depends on fields that \<^verbatim>\<open>sched_enqueue\<close> and \<^verbatim>\<open>sched_pick_next\<close> write.
  \<open>runqueue\<close> holds the first \<^verbatim>\<open>rq_size\<close> slots of the array. The array grows by doubling;
  \<^verbatim>\<open>kmalloc\<close> does not return \<^verbatim>\<open>NULL\<close> for a positive size, it panics. \<open>sched_locked\<close> is the
  spin lock: taking it while it is held never returns, which is the result \<open>None\<close>.
  The page-table walk that \<^verbatim>\<open>sched_init\<close> does for a debug message is left out.
\<close>

abbreviation (input) SCHED_FIFO :: int where "SCHED_FIFO \<equiv> 1"
abbreviation (input) SCHED_CLASS_CFS :: int where "SCHED_CLASS_CFS \<equiv> 0"

record sproc =
  vruntime :: u64
  nice :: int
  time_slice :: u64
  sched_policy :: int
  sched_class :: int

record sched =
  procs :: "nat \<Rightarrow> sproc"
  runqueue :: "nat list"
  rq_capacity :: nat
  min_vruntime :: u64
  sched_locked :: bool

definition sched_granularity :: u64 where
  "sched_granularity = 10000000"

definition weight_table :: "nat list" where
  "weight_table = [88761, 71713, 56483, 46273, 36291, 29154, 23254, 18705, 14949, 11916,
     9548, 7620, 6100, 4904, 3906, 3121, 2501, 1991, 1586, 1277,
     1024, 820, 655, 526, 423, 335, 272, 215, 172, 137,
     110, 87, 70, 56, 45, 36, 29, 23, 18, 15]"

definition nice_to_weight :: "int \<Rightarrow> nat" where
  "nice_to_weight n =
     (let n1 = if n < -20 then -20 else n; n2 = if n1 > 19 then 19 else n1
      in weight_table ! nat (n2 + 20))"

definition sched_init :: "sched \<Rightarrow> sched" where
  "sched_init s = s\<lparr>sched_locked := False, rq_capacity := 64, runqueue := []\<rparr>"

section \<open>Heap primitives\<close>

definition swap_nodes :: "nat list \<Rightarrow> nat \<Rightarrow> nat \<Rightarrow> nat list" where
  "swap_nodes q i j = q[i := q ! j, j := q ! i]"

fun heapify_up :: "(nat \<Rightarrow> u64) \<Rightarrow> nat list \<Rightarrow> nat \<Rightarrow> nat list" where
  "heapify_up key q idx =
     (if idx > 0
      then let parent = (idx - 1) div 2
           in if key (q ! idx) \<ge> key (q ! parent) then q
              else heapify_up key (swap_nodes q idx parent) parent
      else q)"

declare heapify_up.simps [simp del]

text \<open>The index of the smallest key among a node and its children.\<close>

definition smallest_of :: "(nat \<Rightarrow> u64) \<Rightarrow> nat list \<Rightarrow> nat \<Rightarrow> nat" where
  "smallest_of key q idx =
     (let left = 2 * idx + 1; right = 2 * idx + 2;
          s1 = if left < length q \<and> key (q ! left) < key (q ! idx) then left else idx
      in if right < length q \<and> key (q ! right) < key (q ! s1) then right else s1)"

lemma smallest_of_cases:
  "smallest_of key q idx = idx \<or> (idx < smallest_of key q idx \<and> smallest_of key q idx < length q)"
  by (auto simp: smallest_of_def Let_def)

lemma length_swap_nodes [simp]: "length (swap_nodes q i j) = length q"
  by (simp add: swap_nodes_def)

function heapify_down :: "(nat \<Rightarrow> u64) \<Rightarrow> nat list \<Rightarrow> nat \<Rightarrow> nat list" where
  "heapify_down key q idx =
     (let smallest = smallest_of key q idx
      in if smallest = idx then q
         else heapify_down key (swap_nodes q idx smallest) smallest)"
  by pat_completeness auto
termination
proof (relation "measure (\<lambda>(key, q, idx). length q - idx)")
  fix key :: "nat \<Rightarrow> u64" and q idx x
  assume "x = smallest_of key q idx" "x \<noteq> idx"
  then have "idx < x" "x < length q" using smallest_of_cases [of key q idx] by auto
  then show "((key, swap_nodes q idx x, x), key, q, idx) \<in> measure (\<lambda>(key, q, idx). length q - idx)"
    by simp
qed simp

declare heapify_down.simps [simp del]

section \<open>Operations\<close>

definition vruntime_delta :: "sproc \<Rightarrow> u64" where
  "vruntime_delta p = (sched_granularity * 1024) div of_nat (nice_to_weight (nice p))"

definition key_of :: "sched \<Rightarrow> nat \<Rightarrow> u64" where
  "key_of s p = vruntime (procs s p)"

text \<open>\<^verbatim>\<open>if (v == 0) v = min; if (v < min) v = min;\<close>\<close>

definition start_vruntime :: "u64 \<Rightarrow> u64 \<Rightarrow> u64" where
  "start_vruntime mv v =
     (let v1 = (if v = 0 then mv else v) in if v1 < mv then mv else v1)"

definition grow_rq :: "sched \<Rightarrow> sched" where
  "grow_rq s = (if length (runqueue s) \<ge> rq_capacity s then s\<lparr>rq_capacity := rq_capacity s * 2\<rparr> else s)"

definition sched_enqueue :: "nat \<Rightarrow> sched \<Rightarrow> sched option" where
  "sched_enqueue p s =
     (if p = 0 then Some s
      else if sched_locked s then None
      else let s1 = grow_rq s
           in if p \<in> set (runqueue s1) then Some s1
              else let pr = procs s1 p;
                       v = start_vruntime (min_vruntime s1) (vruntime pr);
                       s2 = s1\<lparr>procs := (procs s1)(p := pr\<lparr>vruntime := v, sched_class := SCHED_CLASS_CFS\<rparr>)\<rparr>
                   in Some (s2\<lparr>runqueue := heapify_up (key_of s2) (runqueue s2 @ [p])
                                                  (length (runqueue s2))\<rparr>))"

text \<open>Charging the chosen process one granule: runtime, the queue's minimum, time slice.\<close>

definition sched_charge :: "nat \<Rightarrow> sched \<Rightarrow> sched" where
  "sched_charge p s =
     (let pr = procs s p;
          v = vruntime pr + vruntime_delta pr;
          ts = (if time_slice pr > 5 then time_slice pr - 5 else 0)
      in s\<lparr>procs := (procs s)(p := pr\<lparr>vruntime := v, time_slice := ts\<rparr>),
           min_vruntime := (if v > min_vruntime s then v else min_vruntime s)\<rparr>)"

definition sched_pop_root :: "sched \<Rightarrow> sched" where
  "sched_pop_root s =
     (let q = butlast ((runqueue s)[0 := last (runqueue s)])
      in s\<lparr>runqueue := (if q \<noteq> [] then heapify_down (key_of s) q 0 else q)\<rparr>)"

text \<open>
  The early return for a FIFO process with time left leaves the process at the root and
  the lock held, as the code does.
\<close>

definition sched_pick_next :: "sched \<Rightarrow> (nat option \<times> sched) option" where
  "sched_pick_next s =
     (if sched_locked s then None
      else if runqueue s = [] then Some (None, s)
      else let p = runqueue s ! 0;
               s1 = sched_charge p s
           in if sched_policy (procs s1 p) = SCHED_FIFO \<and> time_slice (procs s1 p) > 0
              then Some (Some p, s1\<lparr>sched_locked := True\<rparr>)
              else Some (Some p, sched_pop_root s1))"

fun index_of :: "nat \<Rightarrow> nat list \<Rightarrow> nat option" where
  "index_of p [] = None"
| "index_of p (x # xs) = (if x = p then Some 0 else map_option Suc (index_of p xs))"

definition sched_remove :: "nat \<Rightarrow> sched \<Rightarrow> sched option" where
  "sched_remove p s =
     (if p = 0 then Some s
      else if sched_locked s then None
      else case index_of p (runqueue s) of
             None \<Rightarrow> Some s
           | Some i \<Rightarrow>
               let q = butlast ((runqueue s)[i := last (runqueue s)])
               in Some (s\<lparr>runqueue := (if i < length q
                    then heapify_up (key_of s) (heapify_down (key_of s) q i) i else q)\<rparr>))"

definition sched_enqueue_on :: "nat \<Rightarrow> int \<Rightarrow> sched \<Rightarrow> sched option" where
  "sched_enqueue_on p cpu_id s = sched_enqueue p s"

text \<open>\<open>loads ! i\<close> is \<^verbatim>\<open>cpus[i].rq->nr_running\<close>, or \<open>None\<close> where a CPU has no run queue.\<close>

fun find_idlest_from :: "u64 option list \<Rightarrow> nat \<Rightarrow> nat \<Rightarrow> u64 \<Rightarrow> nat" where
  "find_idlest_from [] i idlest min_load = idlest"
| "find_idlest_from (l # ls) i idlest min_load =
     (let load = (case l of None \<Rightarrow> 0 | Some n \<Rightarrow> n)
      in if i = 0 \<or> load < min_load then find_idlest_from ls (i + 1) i load
         else find_idlest_from ls (i + 1) idlest min_load)"

definition sched_find_idlest_cpu :: "u64 option list \<Rightarrow> nat" where
  "sched_find_idlest_cpu loads = find_idlest_from loads 0 0 0"

section \<open>The heap order\<close>

definition is_heap :: "(nat \<Rightarrow> u64) \<Rightarrow> nat list \<Rightarrow> bool" where
  "is_heap key q \<longleftrightarrow> (\<forall>c. 0 < c \<and> c < length q \<longrightarrow> key (q ! ((c - 1) div 2)) \<le> key (q ! c))"

lemma nth_swap_nodes:
  "i < length q \<Longrightarrow> j < length q \<Longrightarrow> c < length q \<Longrightarrow>
   swap_nodes q i j ! c = (if c = i then q ! j else if c = j then q ! i else q ! c)"
  by (auto simp: swap_nodes_def nth_list_update)

lemma mset_swap_nodes [simp]: "i < length q \<Longrightarrow> j < length q \<Longrightarrow> mset (swap_nodes q i j) = mset q"
  unfolding swap_nodes_def by (rule mset_swap)

text \<open>
  While a node moves up, only its own link to its parent may be wrong, and its children
  already respect its parent. While a node moves down, only the links to its children may
  be wrong, and they respect its parent.
\<close>

definition heap_up_at :: "(nat \<Rightarrow> u64) \<Rightarrow> nat list \<Rightarrow> nat \<Rightarrow> bool" where
  "heap_up_at key q i \<longleftrightarrow>
     (\<forall>c. 0 < c \<and> c < length q \<and> c \<noteq> i \<longrightarrow> key (q ! ((c - 1) div 2)) \<le> key (q ! c)) \<and>
     (\<forall>c. 0 < c \<and> c < length q \<and> (c - 1) div 2 = i \<and> 0 < i \<longrightarrow> key (q ! ((i - 1) div 2)) \<le> key (q ! c))"

definition heap_down_at :: "(nat \<Rightarrow> u64) \<Rightarrow> nat list \<Rightarrow> nat \<Rightarrow> bool" where
  "heap_down_at key q i \<longleftrightarrow>
     (\<forall>c. 0 < c \<and> c < length q \<and> (c - 1) div 2 \<noteq> i \<longrightarrow> key (q ! ((c - 1) div 2)) \<le> key (q ! c)) \<and>
     (\<forall>c. 0 < c \<and> c < length q \<and> (c - 1) div 2 = i \<and> 0 < i \<longrightarrow> key (q ! ((i - 1) div 2)) \<le> key (q ! c))"

lemma parent_less: "0 < c \<Longrightarrow> (c - 1) div 2 < (c::nat)"
  by auto

lemma heap_up_step:
  assumes up: "heap_up_at key q i" and i: "0 < i" "i < length q"
    and bad: "\<not> key (q ! i) \<ge> key (q ! ((i - 1) div 2))"
  shows "heap_up_at key (swap_nodes q i ((i - 1) div 2)) ((i - 1) div 2)"
proof -
  let ?p = "(i - 1) div 2"
  let ?q = "swap_nodes q i ?p"
  have p: "?p < i" "?p < length q" using i by auto
  have n: "?q ! c = (if c = i then q ! ?p else if c = ?p then q ! i else q ! c)" if "c < length q" for c
    using nth_swap_nodes [OF i(2) p(2) that] .
  have ord: "key (q ! i) < key (q ! ?p)" using bad by simp
  have up1: "key (q ! ((c - 1) div 2)) \<le> key (q ! c)" if "0 < c" "c < length q" "c \<noteq> i" for c
    using up that by (simp add: heap_up_at_def)
  have up2: "key (q ! ?p) \<le> key (q ! c)" if "0 < c" "c < length q" "(c - 1) div 2 = i" for c
    using up that i by (simp add: heap_up_at_def)
  have a: "key (?q ! ((c - 1) div 2)) \<le> key (?q ! c)" if c: "0 < c" "c < length q" "c \<noteq> ?p" for c
  proof -
    have pc: "(c - 1) div 2 < length q" using c parent_less [of c] by simp
    show ?thesis
    proof (cases "c = i")
      case True
      then show ?thesis using ord c p n [OF pc] n [OF c(2)] by simp
    next
      case False
      note e = up1 [OF c(1,2) False]
      show ?thesis
      proof (cases "(c - 1) div 2 = i")
        case True
        then show ?thesis using up2 [OF c(1,2) True] c False p n [OF pc] n [OF c(2)] by simp
      next
        case F2: False
        then show ?thesis
          using e ord c False n [OF pc] n [OF c(2)] by (auto intro: order_trans less_imp_le)
      qed
    qed
  qed
  have b: "key (?q ! ((?p - 1) div 2)) \<le> key (?q ! c)"
    if c: "0 < c" "c < length q" "(c - 1) div 2 = ?p" "0 < ?p" for c
  proof -
    have pp: "(?p - 1) div 2 < ?p" using c(4) by (rule parent_less)
    have "c \<noteq> ?p" using c parent_less [of c] by auto
    have up3: "key (q ! ((?p - 1) div 2)) \<le> key (q ! ?p)" using up1 [of ?p] c(4) p by simp
    have gp: "?q ! ((?p - 1) div 2) = q ! ((?p - 1) div 2)"
      using n [of "(?p - 1) div 2"] pp p(1) i(2) by (simp del: One_nat_def)
    show ?thesis
    proof (cases "c = i")
      case True
      then show ?thesis using up3 n [OF c(2)] by (simp only: gp) simp
    next
      case False
      then have "key (q ! ?p) \<le> key (q ! c)" using up1 [OF c(1,2) False] by (simp only: c(3))
      with up3 have "key (q ! ((?p - 1) div 2)) \<le> key (q ! c)" by (rule order_trans)
      moreover have "?q ! c = q ! c" using False \<open>c \<noteq> ?p\<close> n [OF c(2)] by simp
      ultimately show ?thesis by (simp only: gp)
    qed
  qed
  show ?thesis unfolding heap_up_at_def using a b by simp
qed

lemma heapify_up_heap:
  "heap_up_at key q i \<Longrightarrow> i < length q \<Longrightarrow> is_heap key (heapify_up key q i)"
proof (induction key q i rule: heapify_up.induct)
  case (1 key q idx)
  show ?case
  proof (cases "idx > 0 \<and> \<not> key (q ! idx) \<ge> key (q ! ((idx - 1) div 2))")
    case True
    then have "is_heap key (heapify_up key (swap_nodes q idx ((idx - 1) div 2)) ((idx - 1) div 2))"
      using "1.IH" [OF _ refl] heap_up_step [OF "1.prems"(1)] "1.prems"(2) by auto
    then show ?thesis using True by (subst heapify_up.simps) (simp add: Let_def)
  next
    case False
    then have "heapify_up key q idx = q" by (subst heapify_up.simps) (auto simp: Let_def)
    moreover have "key (q ! ((c - 1) div 2)) \<le> key (q ! c)" if "0 < c" "c < length q" for c
      using that "1.prems"(1) False by (cases "c = idx") (auto simp: heap_up_at_def)
    ultimately show ?thesis by (simp add: is_heap_def)
  qed
qed

lemma mset_heapify_up: "i < length q \<Longrightarrow> mset (heapify_up key q i) = mset q"
proof (induction key q i rule: heapify_up.induct)
  case (1 key q idx)
  then show ?case by (subst heapify_up.simps) (auto simp: Let_def)
qed

lemma child_cases: "0 < c \<Longrightarrow> (c - 1) div 2 = i \<longleftrightarrow> c = 2 * i + 1 \<or> c = 2 * i + (2::nat)"
  by auto

lemma smallest_of_le:
  assumes "0 < c" "c < length q" "(c - 1) div 2 = idx"
  shows "key (q ! smallest_of key q idx) \<le> key (q ! c)"
    and "key (q ! smallest_of key q idx) \<le> key (q ! idx)"
proof -
  have "c = 2 * idx + 1 \<or> c = 2 * idx + 2" using assms child_cases by blast
  then show "key (q ! smallest_of key q idx) \<le> key (q ! c)"
    using assms(2) by (auto simp: smallest_of_def Let_def not_less intro: less_imp_le order_trans)
  show "key (q ! smallest_of key q idx) \<le> key (q ! idx)"
    by (auto simp: smallest_of_def Let_def not_less intro: less_imp_le order_trans)
qed

lemma smallest_of_child:
  assumes "smallest_of key q i \<noteq> i"
  shows "(smallest_of key q i - 1) div 2 = i \<and> 0 < smallest_of key q i
    \<and> smallest_of key q i < length q \<and> i < smallest_of key q i
    \<and> key (q ! smallest_of key q i) < key (q ! i)"
  using assms by (auto simp: smallest_of_def Let_def intro: less_trans split: if_splits)

text \<open>
  One step down from a node whose links to its children may be wrong. The link above the
  node is right afterwards even if it was wrong before, which \<^verbatim>\<open>sched_remove\<close> relies on.
\<close>

lemma heap_down_step:
  assumes other: "\<And>c. 0 < c \<Longrightarrow> c < length q \<Longrightarrow> c \<noteq> i \<Longrightarrow> (c - 1) div 2 \<noteq> i \<Longrightarrow>
      key (q ! ((c - 1) div 2)) \<le> key (q ! c)"
    and above: "\<And>c. 0 < c \<Longrightarrow> c < length q \<Longrightarrow> (c - 1) div 2 = i \<Longrightarrow> 0 < i \<Longrightarrow>
      key (q ! ((i - 1) div 2)) \<le> key (q ! c)"
    and m: "m = smallest_of key q i" "m \<noteq> i" and i: "i < length q"
  shows "heap_down_at key (swap_nodes q i m) m"
proof -
  let ?q = "swap_nodes q i m"
  have mc: "(m - 1) div 2 = i" "0 < m" "m < length q" "i < m" "key (q ! m) < key (q ! i)"
    using smallest_of_child [of key q i] m by auto
  have n: "?q ! c = (if c = i then q ! m else if c = m then q ! i else q ! c)" if "c < length q" for c
    using nth_swap_nodes [OF i mc(3) that] .
  have least: "key (q ! m) \<le> key (q ! c)" if "0 < c" "c < length q" "(c - 1) div 2 = i" for c
    using smallest_of_le(1) [OF that, of key] m by simp
  have a: "key (?q ! ((c - 1) div 2)) \<le> key (?q ! c)"
    if c: "0 < c" "c < length q" "(c - 1) div 2 \<noteq> m" for c
  proof -
    have pc: "(c - 1) div 2 < length q" using c parent_less [of c] by simp
    show ?thesis
    proof (cases "(c - 1) div 2 = i")
      case True
      have "c \<noteq> i" using True c parent_less [of c] by auto
      then show ?thesis using least [OF c(1,2) True] mc n [OF pc] n [OF c(2)] True by auto
    next
      case False
      show ?thesis
      proof (cases "c = i")
        case True
        then have "key (q ! ((i - 1) div 2)) \<le> key (q ! m)" using above [OF mc(2,3,1)] c by simp
        then show ?thesis using True False c(3) n [OF pc] n [OF c(2)] by simp
      next
        case F2: False
        then have "c \<noteq> m" using False mc by auto
        then show ?thesis using other [OF c(1,2) F2 False] F2 False c(3) n [OF pc] n [OF c(2)] by simp
      qed
    qed
  qed
  have b: "key (?q ! ((m - 1) div 2)) \<le> key (?q ! c)"
    if c: "0 < c" "c < length q" "(c - 1) div 2 = m" for c
  proof -
    have "c \<noteq> i" "c \<noteq> m" using c parent_less [of c] mc by auto
    moreover have "key (q ! m) \<le> key (q ! c)" using other [OF c(1,2)] c(3) mc \<open>c \<noteq> i\<close> by auto
    ultimately show ?thesis using mc n [OF c(2)] n [OF i] by simp
  qed
  show ?thesis unfolding heap_down_at_def using a b by simp
qed

lemma heapify_down_heap:
  "heap_down_at key q i \<Longrightarrow> i < length q \<Longrightarrow> is_heap key (heapify_down key q i)"
proof (induction key q i rule: heapify_down.induct)
  case (1 key q idx)
  let ?m = "smallest_of key q idx"
  show ?case
  proof (cases "?m = idx")
    case True
    then have "heapify_down key q idx = q" by (subst heapify_down.simps) simp
    moreover have "key (q ! ((c - 1) div 2)) \<le> key (q ! c)" if "0 < c" "c < length q" for c
      using that "1.prems"(1) smallest_of_le(1) [OF that, of idx key] True
      by (cases "(c - 1) div 2 = idx") (auto simp: heap_down_at_def)
    ultimately show ?thesis by (simp add: is_heap_def)
  next
    case False
    have "heap_down_at key (swap_nodes q idx ?m) ?m"
      by (rule heap_down_step [OF _ _ refl False "1.prems"(2)])
        (use "1.prems"(1) in \<open>auto simp: heap_down_at_def\<close>)
    then have "is_heap key (heapify_down key (swap_nodes q idx ?m) ?m)"
      using "1.IH" [OF refl False] smallest_of_child [OF False] by simp
    then show ?thesis using False by (subst heapify_down.simps) (simp add: Let_def)
  qed
qed

lemma mset_heapify_down: "i < length q \<Longrightarrow> mset (heapify_down key q i) = mset q"
proof (induction key q i rule: heapify_down.induct)
  case (1 key q idx)
  let ?m = "smallest_of key q idx"
  show ?case
  proof (cases "?m = idx")
    case False
    then show ?thesis using "1.IH" [OF refl False] smallest_of_child [OF False] "1.prems"
      by (subst heapify_down.simps) (simp add: Let_def)
  qed (subst heapify_down.simps, simp)
qed

lemma length_heapify_down: "i < length q \<Longrightarrow> length (heapify_down key q i) = length q"
  using mset_heapify_down [of i q key] by (metis size_mset)

text \<open>The element at the root of a heap is the smallest.\<close>

lemma is_heap_root: "is_heap key q \<Longrightarrow> i < length q \<Longrightarrow> key (q ! 0) \<le> key (q ! i)"
proof (induction i rule: less_induct)
  case (less i)
  show ?case
  proof (cases "i = 0")
    case False
    then have "key (q ! 0) \<le> key (q ! ((i - 1) div 2))"
      using less.IH [of "(i - 1) div 2"] less.prems by simp
    also have "\<dots> \<le> key (q ! i)" using less.prems False by (simp add: is_heap_def)
    finally show ?thesis .
  qed simp
qed

lemma heap_up_at_heap: "is_heap key q \<Longrightarrow> heap_up_at key q i"
proof -
  assume h: "is_heap key q"
  have "key (q ! ((i - 1) div 2)) \<le> key (q ! c)"
    if c: "0 < c" "c < length q" "(c - 1) div 2 = i" "0 < i" for c
  proof -
    have "i < length q" using c parent_less [of c] by simp
    then have "key (q ! ((i - 1) div 2)) \<le> key (q ! i)" using h c(4) by (simp add: is_heap_def)
    also have "\<dots> \<le> key (q ! c)" using h c by (auto simp: is_heap_def)
    finally show ?thesis .
  qed
  then show ?thesis using h by (simp add: heap_up_at_def is_heap_def)
qed

text \<open>Replacing an element by the last one and repairing in both directions.\<close>

lemma heap_replace_heap:
  assumes heap: "is_heap key q0" and len: "length q = length q0 - 1"
    and same: "\<And>c. c < length q \<Longrightarrow> c \<noteq> i \<Longrightarrow> q ! c = q0 ! c" and i: "i < length q"
  shows "is_heap key (heapify_up key (heapify_down key q i) i)"
proof -
  have h: "key (q0 ! ((c - 1) div 2)) \<le> key (q0 ! c)" if "0 < c" "c < length q" for c
    using heap that len by (simp add: is_heap_def)
  have other: "key (q ! ((c - 1) div 2)) \<le> key (q ! c)"
    if "0 < c" "c < length q" "c \<noteq> i" "(c - 1) div 2 \<noteq> i" for c
    using h [OF that(1,2)] same [of c] same [of "(c - 1) div 2"] that parent_less [of c] by simp
  have above: "key (q ! ((i - 1) div 2)) \<le> key (q ! c)"
    if c: "0 < c" "c < length q" "(c - 1) div 2 = i" "0 < i" for c
  proof -
    have "c \<noteq> i" "(i - 1) div 2 < i" using c parent_less [of c] parent_less [of i] by auto
    then show ?thesis
      using h [OF c(1,2)] h [OF c(4) i] same [of c] same [of "(i - 1) div 2"] c i
      by (auto intro: order_trans)
  qed
  show ?thesis
  proof (cases "smallest_of key q i = i")
    case True
    then have "heapify_down key q i = q" by (subst heapify_down.simps) simp
    moreover have "heap_up_at key q i"
      unfolding heap_up_at_def using other above smallest_of_le(1) [of _ q i key] True by metis
    ultimately show ?thesis using heapify_up_heap i by simp
  next
    case False
    let ?m = "smallest_of key q i"
    have m: "?m < length q" using smallest_of_child [OF False] by simp
    have "heap_down_at key (swap_nodes q i ?m) ?m"
      by (rule heap_down_step [OF other above refl False i])
    then have "is_heap key (heapify_down key (swap_nodes q i ?m) ?m)"
      using heapify_down_heap m by simp
    then have H: "is_heap key (heapify_down key q i)"
      using False by (subst heapify_down.simps) (simp add: Let_def)
    then have "heap_up_at key (heapify_down key q i) i" by (rule heap_up_at_heap)
    then show ?thesis using heapify_up_heap length_heapify_down [OF i] i by simp
  qed
qed

section \<open>Operations keep the run queue well formed\<close>

definition sched_inv :: "sched \<Rightarrow> bool" where
  "sched_inv s \<longleftrightarrow> distinct (runqueue s) \<and> is_heap (key_of s) (runqueue s)
     \<and> length (runqueue s) \<le> rq_capacity s \<and> 0 < rq_capacity s \<and> \<not> sched_locked s
     \<and> 0 \<notin> set (runqueue s)"

lemma is_heap_key_cong:
  "(\<And>p. p \<in> set q \<Longrightarrow> key p = key' p) \<Longrightarrow> is_heap key q = is_heap key' q"
proof -
  assume k: "\<And>p. p \<in> set q \<Longrightarrow> key p = key' p"
  have "key (q ! ((c - 1) div 2)) = key' (q ! ((c - 1) div 2)) \<and> key (q ! c) = key' (q ! c)"
    if "0 < c" "c < length q" for c
    using k [of "q ! c"] k [of "q ! ((c - 1) div 2)"] that parent_less [of c] by simp
  then show ?thesis by (simp add: is_heap_def)
qed

lemma is_heap_append:
  assumes "is_heap key q"
  shows "is_heap key (heapify_up key (q @ [p]) (length q))"
proof (rule heapify_up_heap)
  have a: "key ((q @ [p]) ! ((c - 1) div 2)) \<le> key ((q @ [p]) ! c)"
    if "0 < c" "c < Suc (length q)" "c \<noteq> length q" for c
    using assms that parent_less [of c] by (simp add: is_heap_def nth_append)
  have b: False if "0 < c" "c < Suc (length q)" "(c - 1) div 2 = length q" for c
    using that parent_less [of c] by simp
  show "heap_up_at key (q @ [p]) (length q)"
    unfolding heap_up_at_def using a b by fastforce
qed simp

lemma is_heap_butlast: "is_heap key q \<Longrightarrow> is_heap key (butlast q)"
proof -
  assume h: "is_heap key q"
  have "key (butlast q ! ((c - 1) div 2)) \<le> key (butlast q ! c)" if "0 < c" "c < length q - 1" for c
    using h that parent_less [of c] by (simp add: is_heap_def nth_butlast)
  then show ?thesis by (simp add: is_heap_def)
qed

lemma mset_butlast_replace:
  assumes "i < length q"
  shows "mset (butlast (q[i := last q])) = mset q - {# q ! i #}"
proof -
  let ?q = "q[i := last q]"
  have ne: "?q \<noteq> []" "q \<noteq> []" using assms by auto
  have "last ?q = last q" using ne assms by (auto simp: last_conv_nth nth_list_update)
  moreover have "mset ?q = mset (butlast ?q @ [last ?q])"
    using append_butlast_last_id [OF ne(1)] by simp
  ultimately have "mset ?q = add_mset (last q) (mset (butlast ?q))" by simp
  moreover have "mset ?q = add_mset (last q) (mset q - {# q ! i #})"
    using assms by (simp add: mset_update)
  ultimately show ?thesis by simp
qed

lemma start_vruntime_max: "start_vruntime mv v = max mv v"
  by (auto simp: start_vruntime_def max_def Let_def not_le)

lemma grow_rq_simps [simp]:
  "runqueue (grow_rq s) = runqueue s" "procs (grow_rq s) = procs s"
  "min_vruntime (grow_rq s) = min_vruntime s" "sched_locked (grow_rq s) = sched_locked s"
  "key_of (grow_rq s) = key_of s"
  by (simp_all add: grow_rq_def key_of_def fun_eq_iff)

lemma sched_inv_grow: "sched_inv s \<Longrightarrow> sched_inv (grow_rq s) \<and> length (runqueue s) < rq_capacity (grow_rq s)"
  by (auto simp: sched_inv_def) (auto simp: grow_rq_def)

text \<open>Enqueueing a process that is not queued yet.\<close>

lemma sched_enqueue_new:
  assumes inv: "sched_inv s" and new: "p \<notin> set (runqueue s)" and p0: "p \<noteq> 0"
  obtains s' where "sched_enqueue p s = Some s'" "sched_inv s'"
    "mset (runqueue s') = add_mset p (mset (runqueue s))" "min_vruntime s' = min_vruntime s"
    "vruntime (procs s' p) = max (min_vruntime s) (vruntime (procs s p))"
    "\<forall>r. r \<noteq> p \<longrightarrow> procs s' r = procs s r"
proof -
  define v where "v = max (min_vruntime s) (vruntime (procs s p))"
  define s2 where "s2 = (grow_rq s)\<lparr>
      procs := (procs s)(p := (procs s p)\<lparr>vruntime := v, sched_class := SCHED_CLASS_CFS\<rparr>)\<rparr>"
  define s' where "s' = s2\<lparr>runqueue := heapify_up (key_of s2) (runqueue s @ [p]) (length (runqueue s))\<rparr>"
  have unl: "\<not> sched_locked s" using inv by (simp add: sched_inv_def)
  have eq: "sched_enqueue p s = Some s'"
    using unl new p0 by (simp add: sched_enqueue_def s'_def s2_def v_def start_vruntime_max Let_def)
  have key2: "key_of s2 r = key_of s r" if "r \<in> set (runqueue s)" for r
    using that new by (auto simp: key_of_def s2_def)
  have "is_heap (key_of s2) (runqueue s)"
    using inv is_heap_key_cong [of "runqueue s" "key_of s2" "key_of s"] key2 by (simp add: sched_inv_def)
  then have "is_heap (key_of s2) (runqueue s')"
    using is_heap_append by (simp add: s'_def)
  moreover have "key_of s' = key_of s2" by (simp add: s'_def key_of_def fun_eq_iff)
  ultimately have heap: "is_heap (key_of s') (runqueue s')" by simp
  have ms: "mset (runqueue s') = mset (p # runqueue s)"
    using mset_heapify_up [of "length (runqueue s)" "runqueue s @ [p]"] by (simp add: s'_def)
  then have "distinct (runqueue s')" "length (runqueue s') = Suc (length (runqueue s))"
      "0 \<notin> set (runqueue s')"
    using inv new p0 mset_eq_imp_distinct_iff [OF ms] mset_eq_length [OF ms] mset_eq_setD [OF ms]
    by (auto simp: sched_inv_def)
  moreover have "rq_capacity s' = rq_capacity (grow_rq s)" "\<not> sched_locked s'"
    using unl by (simp_all add: s'_def s2_def)
  ultimately have "sched_inv s'"
    using sched_inv_grow [OF inv] heap by (auto simp: sched_inv_def)
  with eq ms show ?thesis using that [of s'] by (simp add: s'_def s2_def v_def)
qed

lemma sched_charge_simps [simp]:
  "runqueue (sched_charge p s) = runqueue s" "sched_locked (sched_charge p s) = sched_locked s"
  "rq_capacity (sched_charge p s) = rq_capacity s"
  "vruntime (procs (sched_charge p s) p) = vruntime (procs s p) + vruntime_delta (procs s p)"
  "sched_policy (procs (sched_charge p s) p) = sched_policy (procs s p)"
  "r \<noteq> p \<Longrightarrow> procs (sched_charge p s) r = procs s r"
  by (simp_all add: sched_charge_def Let_def)

lemma sched_charge_slice:
  "time_slice (procs (sched_charge p s) p) > 0 \<longleftrightarrow> time_slice (procs s p) > 5"
proof (cases "time_slice (procs s p) > 5")
  case True
  then have "time_slice (procs s p) - 5 \<noteq> 0" by (metis eq_iff_diff_eq_0 less_irrefl)
  then have "0 < time_slice (procs s p) - 5" by (simp only: word_greater_zero_iff) simp
  then show ?thesis using True by (simp add: sched_charge_def Let_def)
qed (simp add: sched_charge_def Let_def)

lemma sched_pop_root_simps [simp]:
  "procs (sched_pop_root s) = procs s" "sched_locked (sched_pop_root s) = sched_locked s"
  "rq_capacity (sched_pop_root s) = rq_capacity s" "min_vruntime (sched_pop_root s) = min_vruntime s"
  "key_of (sched_pop_root s) = key_of s"
  by (simp_all add: sched_pop_root_def Let_def key_of_def fun_eq_iff)

lemma heap_down_at_cong:
  assumes "heap_down_at key q i" "\<And>p. p \<in> set q \<Longrightarrow> key p = key' p"
  shows "heap_down_at key' q i"
proof -
  have k: "key' (q ! c) = key (q ! c)" if "c < length q" for c using assms(2) that by simp
  have "(c - 1) div 2 < length q" if "0 < c" "c < length q" for c
    using that parent_less [of c] by simp
  moreover have "(i - 1) div 2 < length q" if "(c - 1) div 2 = i" "0 < c" "c < length q" for c
    using that by auto
  ultimately show ?thesis using assms(1) k unfolding heap_down_at_def by (metis (no_types, lifting))
qed

text \<open>Removing the root of a heap whose other keys are unchanged.\<close>

lemma sched_pop_root_spec:
  assumes heap: "is_heap key (runqueue s)" and ne: "runqueue s \<noteq> []"
    and dist: "distinct (runqueue s)"
    and key: "\<And>r. r \<noteq> runqueue s ! 0 \<Longrightarrow> key_of s r = key r"
  shows "mset (runqueue s) = add_mset (runqueue s ! 0) (mset (runqueue (sched_pop_root s)))
    \<and> is_heap (key_of s) (runqueue (sched_pop_root s))"
proof -
  define q where "q = butlast ((runqueue s)[0 := last (runqueue s)])"
  have len: "0 < length (runqueue s)" "length q = length (runqueue s) - 1"
    using ne by (auto simp: q_def)
  have rq: "runqueue (sched_pop_root s) = (if q \<noteq> [] then heapify_down (key_of s) q 0 else q)"
    by (simp add: sched_pop_root_def q_def)
  have ms: "mset (runqueue s) = add_mset (runqueue s ! 0) (mset q)"
    using mset_butlast_replace [OF len(1)] len(1) by (simp add: q_def)
  then have "mset (runqueue s) = mset ((runqueue s ! 0) # q)" by simp
  from mset_eq_imp_distinct_iff [OF this] dist have fresh: "runqueue s ! 0 \<notin> set q" by simp
  have same: "q ! c = runqueue s ! c" if "c < length q" "c \<noteq> 0" for c
    using that by (simp add: q_def nth_butlast)
  have "heap_down_at key q 0"
  proof -
    have "key (q ! ((c - 1) div 2)) \<le> key (q ! c)" if c: "0 < c" "c < length q" "(c - 1) div 2 \<noteq> 0" for c
    proof -
      have "(c - 1) div 2 < length q" using c parent_less [of c] by simp
      then have "q ! c = runqueue s ! c" "q ! ((c - 1) div 2) = runqueue s ! ((c - 1) div 2)"
        using c same by blast+
      moreover have "c < length (runqueue s)" using c(2) len(2) by linarith
      then have "key (runqueue s ! ((c - 1) div 2)) \<le> key (runqueue s ! c)"
        using heap c(1) unfolding is_heap_def by blast
      ultimately show ?thesis by simp
    qed
    then show ?thesis by (simp add: heap_down_at_def)
  qed
  then have "heap_down_at (key_of s) q 0"
    by (rule heap_down_at_cong) (use key fresh in metis)
  then have "is_heap (key_of s) (runqueue (sched_pop_root s))"
    using heapify_down_heap [of "key_of s" q 0] by (auto simp: rq is_heap_def)
  moreover have "mset (runqueue (sched_pop_root s)) = mset q"
    using mset_heapify_down [of 0 q] by (auto simp: rq)
  ultimately show ?thesis using ms by simp
qed

text \<open>Picking from a non-empty queue, outside the FIFO shortcut.\<close>

lemma sched_pick_next_cfs:
  assumes inv: "sched_inv s" and ne: "runqueue s \<noteq> []"
    and cfs: "\<not> (sched_policy (procs s (runqueue s ! 0)) = SCHED_FIFO
                 \<and> time_slice (procs s (runqueue s ! 0)) > 5)"
  shows "\<exists>s'. sched_pick_next s = Some (Some (runqueue s ! 0), s') \<and> sched_inv s'
    \<and> mset (runqueue s) = add_mset (runqueue s ! 0) (mset (runqueue s'))
    \<and> vruntime (procs s' (runqueue s ! 0)) = vruntime (procs s (runqueue s ! 0))
        + vruntime_delta (procs s (runqueue s ! 0))
    \<and> (\<forall>r. r \<noteq> runqueue s ! 0 \<longrightarrow> procs s' r = procs s r)"
proof -
  let ?p = "runqueue s ! 0"
  let ?s1 = "sched_charge ?p s"
  let ?s' = "sched_pop_root ?s1"
  have i: "\<not> sched_locked s" "distinct (runqueue s)" "is_heap (key_of s) (runqueue s)"
    using inv by (auto simp: sched_inv_def)
  have eq: "sched_pick_next s = Some (Some ?p, ?s')"
    using i(1) ne cfs sched_charge_slice [of ?p s] by (auto simp: sched_pick_next_def Let_def)
  have pop: "mset (runqueue s) = add_mset ?p (mset (runqueue ?s'))"
      "is_heap (key_of ?s1) (runqueue ?s')"
    using sched_pop_root_spec [of "key_of s" ?s1] i ne by (auto simp: key_of_def)
  then have "mset (runqueue s) = mset (?p # runqueue ?s')" by simp
  from mset_eq_imp_distinct_iff [OF this] mset_eq_length [OF this] mset_eq_setD [OF this]
  have "sched_inv ?s'" using inv pop(2) by (auto simp: sched_inv_def)
  then show ?thesis using eq pop by simp
qed

lemma index_of_Some: "index_of p q = Some i \<Longrightarrow> i < length q \<and> q ! i = p"
  by (induction q arbitrary: i) (auto split: if_splits)

lemma index_of_None: "index_of p q = None \<longleftrightarrow> p \<notin> set q"
  by (induction q) auto

lemma is_heap_replace_last:
  assumes "is_heap key q0" "i < length q0" "q = butlast (q0[i := last q0])"
  shows "is_heap key (if i < length q then heapify_up key (heapify_down key q i) i else q)"
proof (cases "i < length q")
  case True
  have "is_heap key (heapify_up key (heapify_down key q i) i)"
    by (rule heap_replace_heap [OF assms(1) _ _ True])
      (use assms in \<open>auto simp: nth_butlast\<close>)
  then show ?thesis using True by simp
next
  case False
  then have "i = length q0 - 1" using assms(2,3) by simp
  then have "q = butlast q0" using assms(2,3) by (simp add: butlast_list_update)
  then show ?thesis using False is_heap_butlast [OF assms(1)] by simp
qed

lemma sched_remove_spec:
  assumes inv: "sched_inv s"
  shows "\<exists>s'. sched_remove p s = Some s' \<and> sched_inv s' \<and> mset (runqueue s') = mset (runqueue s) - {#p#}
    \<and> procs s' = procs s"
proof (cases "index_of p (runqueue s)")
  case None
  then have "p \<notin># mset (runqueue s)" by (simp add: index_of_None)
  then have "mset (runqueue s) - {#p#} = mset (runqueue s)" by (rule diff_single_trivial)
  then show ?thesis using None inv by (simp add: sched_remove_def sched_inv_def)
next
  case (Some i)
  note i = index_of_Some [OF Some]
  define q where "q = butlast ((runqueue s)[i := last (runqueue s)])"
  define q' where "q' = (if i < length q then heapify_up (key_of s) (heapify_down (key_of s) q i) i else q)"
  have I: "\<not> sched_locked s" "distinct (runqueue s)" "is_heap (key_of s) (runqueue s)"
    using inv by (auto simp: sched_inv_def)
  have "p \<in> set (runqueue s)" using i nth_mem by blast
  then have "p \<noteq> 0" using inv by (metis sched_inv_def)
  then have eq: "sched_remove p s = Some (s\<lparr>runqueue := q'\<rparr>)"
    using Some I(1) by (simp add: sched_remove_def q_def q'_def Let_def)
  have "mset q' = mset q"
    using mset_heapify_down [of i q "key_of s"] mset_heapify_up [of i "heapify_down (key_of s) q i"]
      length_heapify_down [of i q] by (auto simp: q'_def)
  also have "\<dots> = mset (runqueue s) - {#p#}"
    using mset_butlast_replace [of i "runqueue s"] i by (simp add: q_def)
  finally have ms: "mset q' = mset (runqueue s) - {#p#}" .
  have "mset (runqueue s) = mset (p # q')" using ms i by (metis insert_DiffM in_set_conv_nth mset.simps(2) set_mset_mset)
  from mset_eq_imp_distinct_iff [OF this] mset_eq_length [OF this] mset_eq_setD [OF this] I inv
  have d: "distinct q'" "length q' \<le> length (runqueue s)" "0 \<notin> set q'" by (auto simp: sched_inv_def)
  have "is_heap (key_of s) q'"
    using is_heap_replace_last [OF I(3), of i q] i by (simp add: q'_def q_def)
  moreover have "key_of (s\<lparr>runqueue := q'\<rparr>) = key_of s" by (simp add: key_of_def fun_eq_iff)
  ultimately have "sched_inv (s\<lparr>runqueue := q'\<rparr>)" using inv d by (auto simp: sched_inv_def)
  then show ?thesis using eq ms by simp
qed

section \<open>What clients of the run queue rely on\<close>

lemma sched_inv_upd_proc:
  assumes "sched_inv s" "p \<notin> set (runqueue s)"
  shows "sched_inv (s\<lparr>procs := (procs s)(p := x)\<rparr>)"
proof -
  have "is_heap (key_of (s\<lparr>procs := (procs s)(p := x)\<rparr>)) (runqueue s) = is_heap (key_of s) (runqueue s)"
    using assms(2) by (intro is_heap_key_cong) (auto simp: key_of_def)
  then show ?thesis using assms(1) by (simp add: sched_inv_def)
qed

definition no_fifo :: "sched \<Rightarrow> bool" where
  "no_fifo s \<longleftrightarrow> (\<forall>p. sched_policy (procs s p) \<noteq> SCHED_FIFO)"

lemma sched_enqueue_client:
  assumes inv: "sched_inv s" and p: "p \<noteq> 0"
  obtains s' where "sched_enqueue p s = Some s'" "sched_inv s'"
    "set (runqueue s') = insert p (set (runqueue s))" "no_fifo s' = no_fifo s"
proof (cases "p \<in> set (runqueue s)")
  case True
  then have "sched_enqueue p s = Some (grow_rq s)"
    using inv p by (simp add: sched_enqueue_def sched_inv_def Let_def)
  then show ?thesis using that [of "grow_rq s"] True sched_inv_grow [OF inv]
    by (auto simp: no_fifo_def)
next
  case False
  obtain s' where s': "sched_enqueue p s = Some s'" "sched_inv s'"
    "mset (runqueue s') = add_mset p (mset (runqueue s))"
    using sched_enqueue_new [OF inv False p] .
  have "sched_policy (procs s' r) = sched_policy (procs s r)" for r
    using s'(1) p by (auto simp: sched_enqueue_def Let_def split: if_splits)
  then show ?thesis using that [OF s'(1,2)] s'(3) by (simp add: no_fifo_def flip: set_mset_mset)
qed

lemma sched_pick_next_client:
  assumes inv: "sched_inv s" and nf: "no_fifo s" and ne: "runqueue s \<noteq> []"
  obtains p s' where "sched_pick_next s = Some (Some p, s')" "sched_inv s'" "no_fifo s'"
    "p \<in> set (runqueue s)" "set (runqueue s') = set (runqueue s) - {p}"
    "length (runqueue s') < length (runqueue s)"
proof -
  let ?p = "runqueue s ! 0"
  obtain s' where s': "sched_pick_next s = Some (Some ?p, s')" "sched_inv s'"
    "mset (runqueue s) = add_mset ?p (mset (runqueue s'))"
    using sched_pick_next_cfs [OF inv ne] nf by (auto simp: no_fifo_def)
  then have "mset (runqueue s) = mset (?p # runqueue s')" by simp
  from mset_eq_setD [OF this] mset_eq_length [OF this] mset_eq_imp_distinct_iff [OF this]
  have q: "set (runqueue s') = set (runqueue s) - {?p}" "length (runqueue s') < length (runqueue s)"
    using inv by (auto simp: sched_inv_def)
  have "sched_policy (procs s' r) = sched_policy (procs s r)" for r
    using s'(1) ne nf by (auto simp: sched_pick_next_def sched_charge_def Let_def no_fifo_def split: if_splits)
  then show ?thesis using that [OF s'(1,2)] q nf ne by (simp add: no_fifo_def)
qed

lemma sched_pick_next_empty:
  "sched_inv s \<Longrightarrow> runqueue s = [] \<Longrightarrow> sched_pick_next s = Some (None, s)"
  by (simp add: sched_pick_next_def sched_inv_def)

lemma sched_remove_client:
  assumes "sched_inv s"
  obtains s' where "sched_remove p s = Some s'" "sched_inv s'" "no_fifo s' = no_fifo s"
    "set (runqueue s') \<subseteq> set (runqueue s)" "length (runqueue s') \<le> length (runqueue s)"
proof -
  obtain s' where s': "sched_remove p s = Some s'" "sched_inv s'" "mset (runqueue s') = mset (runqueue s) - {#p#}"
    "procs s' = procs s" using sched_remove_spec [OF assms] by blast
  then have "mset (runqueue s') \<subseteq># mset (runqueue s)" by simp
  from set_mset_mono [OF this] size_mset_mono [OF this] show ?thesis
    using that [OF s'(1,2)] s'(4) by (simp add: no_fifo_def)
qed

section \<open>Properties\<close>

text \<open>
  C4. The scheduler picks a process with the least virtual runtime: from a well-formed non-empty
  run queue, unless its head is a FIFO process with more than 5 ticks of its slice left, \<^verbatim>\<open>sched_pick_next\<close> returns a
  queued process whose runtime is at most that of every queued process, removes exactly
  that process, charges it, changes no other process, releases the lock and leaves a well-formed queue.
\<close>

theorem sched_pick_next_min:
  assumes inv: "sched_inv s" and ne: "runqueue s \<noteq> []"
    and head: "\<not> (sched_policy (procs s (runqueue s ! 0)) = SCHED_FIFO \<and> time_slice (procs s (runqueue s ! 0)) > 5)"
  shows "\<exists>p s'. sched_pick_next s = Some (Some p, s') \<and> p \<in> set (runqueue s)
    \<and> (\<forall>r \<in> set (runqueue s). vruntime (procs s p) \<le> vruntime (procs s r))
    \<and> mset (runqueue s') = mset (runqueue s) - {#p#}
    \<and> vruntime (procs s' p) = vruntime (procs s p) + vruntime_delta (procs s p)
    \<and> (\<forall>r. r \<noteq> p \<longrightarrow> procs s' r = procs s r) \<and> \<not> sched_locked s' \<and> sched_inv s'"
proof -
  let ?p = "runqueue s ! 0"
  have p: "?p \<in> set (runqueue s)" using ne by simp
  have heap: "is_heap (key_of s) (runqueue s)" using inv by (simp add: sched_inv_def)
  have least: "vruntime (procs s ?p) \<le> vruntime (procs s r)" if "r \<in> set (runqueue s)" for r
    using is_heap_root [OF heap] that by (auto simp: in_set_conv_nth key_of_def)
  obtain s' where s': "sched_pick_next s = Some (Some ?p, s')" "sched_inv s'" "mset (runqueue s) = add_mset ?p (mset (runqueue s'))"
    "vruntime (procs s' ?p) = vruntime (procs s ?p) + vruntime_delta (procs s ?p)" "\<forall>r. r \<noteq> ?p \<longrightarrow> procs s' r = procs s r"
    using sched_pick_next_cfs [OF inv ne head] by blast
  moreover have "\<not> sched_locked s'" using s'(2) by (simp add: sched_inv_def)
  ultimately show ?thesis using p least by auto
qed

definition demo_proc :: "u64 \<Rightarrow> sproc" where
  "demo_proc v = \<lparr>vruntime = v, nice = 0, time_slice = 10, sched_policy = 0, sched_class = 0\<rparr>"

definition sched_demo :: sched where
  "sched_demo = \<lparr>procs = (\<lambda>p. demo_proc (if p = 1 then 5 else if p = 2 then 9 else 7)),
     runqueue = [1, 2, 3], rq_capacity = 64, min_vruntime = 0, sched_locked = False\<rparr>"

lemma sched_demo_inv: "sched_inv sched_demo"
proof -
  have "key_of sched_demo ([1, 2, 3] ! ((c - 1) div 2)) \<le> key_of sched_demo ([1, 2, 3] ! c)"
    if "0 < c" "c < 3" for c :: nat
  proof -
    from that have "c = 1 \<or> c = 2" by auto
    then show ?thesis by (auto simp: key_of_def sched_demo_def demo_proc_def)
  qed
  moreover have "length [1, 2, 3 :: nat] = 3" by simp
  ultimately have "is_heap (key_of sched_demo) [1, 2, 3]" unfolding is_heap_def by metis
  then show ?thesis by (simp add: sched_inv_def sched_demo_def)
qed

theorem sched_pick_next_min_witness:
  "\<exists>s'. sched_pick_next sched_demo = Some (Some 1, s') \<and> mset (runqueue s') = {#2, 3#}"
proof -
  obtain p s' where p: "sched_pick_next sched_demo = Some (Some p, s')" "p \<in> {1, 2, 3}"
    "\<forall>r \<in> {1, 2, 3}. vruntime (procs sched_demo p) \<le> vruntime (procs sched_demo r)"
    "mset (runqueue s') = mset [1, 2, 3] - {#p#}"
    using sched_pick_next_min [OF sched_demo_inv] by (auto simp: sched_demo_def demo_proc_def)
  then have "p = 1" by (auto simp: sched_demo_def demo_proc_def)
  with p show ?thesis by auto
qed

text \<open>
  Enqueueing keeps the run queue well formed and never starves the others: a new
  process is added exactly once and starts no lower than the queue's minimum runtime; a
  process that is already queued is not added again and no process changes.
\<close>

theorem sched_enqueue_correct:
  assumes inv: "sched_inv s" and p0: "p \<noteq> 0"
  shows "\<exists>s'. sched_enqueue p s = Some s' \<and> sched_inv s'
    \<and> (if p \<in> set (runqueue s) then runqueue s' = runqueue s \<and> procs s' = procs s
       else mset (runqueue s') = add_mset p (mset (runqueue s))
         \<and> vruntime (procs s' p) = max (min_vruntime s) (vruntime (procs s p))
         \<and> (\<forall>r. r \<noteq> p \<longrightarrow> procs s' r = procs s r))"
proof (cases "p \<in> set (runqueue s)")
  case True
  then have "sched_enqueue p s = Some (grow_rq s)"
    using inv p0 by (simp add: sched_enqueue_def sched_inv_def Let_def)
  then show ?thesis using True sched_inv_grow [OF inv] by simp
next
  case False
  from sched_enqueue_new [OF inv False p0] show ?thesis using False by (metis (no_types, lifting))
qed

theorem sched_enqueue_correct_witness:
  "\<exists>s'. sched_enqueue 4 sched_demo = Some s' \<and> sched_inv s' \<and> mset (runqueue s') = {#4, 1, 2, 3#}"
  using sched_enqueue_correct [OF sched_demo_inv, of 4] by (auto simp: sched_demo_def)

text \<open>
  Removing a process takes out exactly that process and restores the heap order,
  whichever position it had.
\<close>

theorem sched_remove_correct:
  assumes "sched_inv s"
  shows "\<exists>s'. sched_remove p s = Some s' \<and> sched_inv s'
    \<and> mset (runqueue s') = mset (runqueue s) - {#p#} \<and> procs s' = procs s"
  using sched_remove_spec [OF assms] .

theorem sched_remove_correct_witness:
  "\<exists>s'. sched_remove 1 sched_demo = Some s' \<and> sched_inv s' \<and> mset (runqueue s') = {#2, 3#}"
  using sched_remove_correct [OF sched_demo_inv, of 1] by (auto simp: sched_demo_def)

text \<open>
  The FIFO shortcut loses the scheduler lock: when the head of the queue is a FIFO
  process with time left, \<^verbatim>\<open>sched_pick_next\<close> returns it with the lock still held, and
  every later scheduler call blocks for ever.
\<close>

theorem sched_pick_next_fifo_deadlock:
  assumes inv: "sched_inv s" and ne: "runqueue s \<noteq> []"
    and p: "p \<noteq> 0" and fifo: "sched_policy (procs s (runqueue s ! 0)) = SCHED_FIFO"
      "time_slice (procs s (runqueue s ! 0)) > 5"
  shows "\<exists>s'. sched_pick_next s = Some (Some (runqueue s ! 0), s') \<and> runqueue s' = runqueue s
    \<and> sched_pick_next s' = None \<and> sched_enqueue p s' = None \<and> sched_remove p s' = None"
proof -
  let ?s' = "(sched_charge (runqueue s ! 0) s)\<lparr>sched_locked := True\<rparr>"
  have "sched_pick_next s = Some (Some (runqueue s ! 0), ?s')"
    using inv ne fifo sched_charge_slice [of "runqueue s ! 0" s]
    by (simp add: sched_pick_next_def sched_inv_def Let_def)
  moreover have "sched_pick_next ?s' = None" "sched_enqueue p ?s' = None" "sched_remove p ?s' = None"
    using p by (simp_all add: sched_pick_next_def sched_enqueue_def sched_remove_def)
  ultimately show ?thesis by simp
qed

definition sched_fifo_demo :: sched where
  "sched_fifo_demo = sched_demo\<lparr>procs := (\<lambda>p. (procs sched_demo p)\<lparr>sched_policy := SCHED_FIFO\<rparr>)\<rparr>"

theorem sched_pick_next_fifo_deadlock_witness:
  "\<exists>s'. sched_pick_next sched_fifo_demo = Some (Some 1, s') \<and> sched_pick_next s' = None"
proof -
  have "key_of sched_fifo_demo = key_of sched_demo"
    by (simp add: fun_eq_iff key_of_def sched_fifo_demo_def)
  then have "sched_inv sched_fifo_demo"
    using sched_demo_inv by (simp add: sched_inv_def sched_fifo_demo_def)
  from sched_pick_next_fifo_deadlock [OF this, of 1] show ?thesis
    by (auto simp: sched_fifo_demo_def sched_demo_def demo_proc_def)
qed

end
