(* ===== verification/Task.thy ===== *)
theory Task
  imports Sched "HOL-Library.Monad_Syntax"
begin

text \<open>
  The process table and descriptor tables of \<^verbatim>\<open>kernel/task.c\<close>.

  \<open>kernel\<close> is the store of the objects those functions reach through pointers: processes,
  open files, the nodes and pipes behind them. A pointer is a \<open>nat\<close>, \<open>0\<close> is \<^verbatim>\<open>NULL\<close>. The
  scheduling fields of \<^verbatim>\<open>struct process\<close> live in the store of \<open>Sched\<close>, the other fields in
  \<open>task\<close>. The process list is the cyclic list the code builds through \<^verbatim>\<open>next\<close>; a walk over
  it that never comes back to its start has no result (\<open>None\<close>), and so has a call that
  spins on a held scheduler lock.

  What the functions read from elsewhere (the addresses that \<^verbatim>\<open>slab_alloc\<close>, \<^verbatim>\<open>kmalloc\<close>
  and \<^verbatim>\<open>vmm_create_address_space\<close> return, model-specific registers, the saved user stack
  pointer) is an argument. Objects that are given to \<^verbatim>\<open>kfree\<close> and \<^verbatim>\<open>close\<close> callbacks
  that are invoked are recorded in the state. The register switch itself
  (\<^verbatim>\<open>switch_to\<close>) is assembly and is not modelled; \<^verbatim>\<open>task_exec\<close>, which ends in a switch to
  user mode, is not modelled either.
\<close>

section \<open>State\<close>

abbreviation (input) MAX_FDS :: nat where "MAX_FDS \<equiv> 256"
abbreviation (input) KERNEL_STACK_SIZE :: u64 where "KERNEL_STACK_SIZE \<equiv> 16384"

abbreviation (input) TASK_RUNNING :: u32 where "TASK_RUNNING \<equiv> 0"
abbreviation (input) TASK_READY :: u32 where "TASK_READY \<equiv> 1"
abbreviation (input) TASK_BLOCKED :: u32 where "TASK_BLOCKED \<equiv> 2"
abbreviation (input) TASK_ZOMBIE :: u32 where "TASK_ZOMBIE \<equiv> 3"

abbreviation (input) SIGKILL :: nat where "SIGKILL \<equiv> 9"
abbreviation (input) SIGCHLD :: nat where "SIGCHLD \<equiv> 17"
abbreviation (input) SIGSTOP :: nat where "SIGSTOP \<equiv> 19"

record sigaction =
  sa_handler :: u64
  sa_flags :: u64
  sa_restorer :: u64
  sa_mask :: u64

record task =
  pid :: u32
  ppid :: u32
  state :: u32
  uid :: u32
  gid :: u32
  euid :: u32
  egid :: u32
  ctx :: "u64 list"
  cr3 :: u64
  kstack :: u64
  fds :: "nat list"
  ipc_status :: int
  ipc_peer :: u32
  ipc_msg_ptr :: u64
  ipc_waiters :: nat
  ipc_next_waiter :: nat
  brk_start :: u64
  brk_end :: u64
  cwd :: nat
  sig_pending :: u64
  sig_blocked :: u64
  sig_actions :: "sigaction list"
  exit_status :: int
  pnext :: nat
  user_rsp :: u64
  pname :: string

record open_file =
  node :: nat
  foffset :: u64
  fflags :: u32
  refcount :: u32

record fnode =
  nflags :: u32
  impl :: nat
  has_close :: bool

record pipe_ends =
  readers :: int
  writers :: int

record cpu =
  cpu_cr3 :: u64
  tss_rsp0 :: u64
  syscall_kernel_stack :: u64
  syscall_user_stack :: u64

record kernel =
  ksched :: sched
  tasks :: "nat \<Rightarrow> task"
  proc_list :: nat
  current_proc :: nat
  next_pid :: u32
  pcid_supported :: bool
  files :: "nat \<Rightarrow> open_file"
  nodes :: "nat \<Rightarrow> fnode"
  pipes :: "nat \<Rightarrow> pipe_ends"
  freed_files :: "nat set"
  freed_pipes :: "nat set"
  freed_nodes :: "nat set"
  freed_procs :: "nat set"
  close_calls :: "nat list"
  kcpu :: cpu

text \<open>\<^verbatim>\<open>memset(p, 0, sizeof(struct process))\<close>.\<close>

definition zero_sigaction :: sigaction where
  "zero_sigaction = \<lparr>sa_handler = 0, sa_flags = 0, sa_restorer = 0, sa_mask = 0\<rparr>"

definition zero_task :: task where
  "zero_task = \<lparr>pid = 0, ppid = 0, state = 0, uid = 0, gid = 0, euid = 0, egid = 0, ctx = [],
     cr3 = 0, kstack = 0, fds = replicate MAX_FDS 0, ipc_status = 0, ipc_peer = 0,
     ipc_msg_ptr = 0, ipc_waiters = 0, ipc_next_waiter = 0, brk_start = 0, brk_end = 0,
     cwd = 0, sig_pending = 0, sig_blocked = 0, sig_actions = replicate 32 zero_sigaction,
     exit_status = 0, pnext = 0, user_rsp = 0, pname = []\<rparr>"

definition zero_sproc :: sproc where
  "zero_sproc = \<lparr>vruntime = 0, nice = 0, time_slice = 0, sched_policy = 0, sched_class = 0\<rparr>"

definition upd_task :: "nat \<Rightarrow> (task \<Rightarrow> task) \<Rightarrow> kernel \<Rightarrow> kernel" where
  "upd_task p f k = k\<lparr>tasks := (tasks k)(p := f (tasks k p))\<rparr>"

definition upd_file :: "nat \<Rightarrow> (open_file \<Rightarrow> open_file) \<Rightarrow> kernel \<Rightarrow> kernel" where
  "upd_file p f k = k\<lparr>files := (files k)(p := f (files k p))\<rparr>"

definition upd_pipe :: "nat \<Rightarrow> (pipe_ends \<Rightarrow> pipe_ends) \<Rightarrow> kernel \<Rightarrow> kernel" where
  "upd_pipe p f k = k\<lparr>pipes := (pipes k)(p := f (pipes k p))\<rparr>"

definition upd_sproc :: "nat \<Rightarrow> sproc \<Rightarrow> kernel \<Rightarrow> kernel" where
  "upd_sproc p pr k = k\<lparr>ksched := (ksched k)\<lparr>procs := (procs (ksched k))(p := pr)\<rparr>\<rparr>"

definition k_enqueue :: "nat \<Rightarrow> kernel \<Rightarrow> kernel option" where
  "k_enqueue p k = map_option (\<lambda>s. k\<lparr>ksched := s\<rparr>) (sched_enqueue p (ksched k))"

section \<open>Descriptor tables\<close>

fun first_free :: "nat list \<Rightarrow> nat \<Rightarrow> nat option" where
  "first_free [] i = None"
| "first_free (f # fs) i = (if f = 0 then Some i else first_free fs (Suc i))"

text \<open>A new open file, as \<^verbatim>\<open>sys_open\<close> initialises it at the address \<^verbatim>\<open>kmalloc\<close> returned.\<close>

definition new_file :: "nat \<Rightarrow> nat \<Rightarrow> u32 \<Rightarrow> kernel \<Rightarrow> kernel" where
  "new_file f n flags k =
     k\<lparr>files := (files k)(f := \<lparr>node = n, foffset = 0, fflags = flags, refcount = 0\<rparr>),
       freed_files := freed_files k - {f}\<rparr>"

definition process_fd_install :: "nat \<Rightarrow> nat \<Rightarrow> kernel \<Rightarrow> int \<times> kernel" where
  "process_fd_install p f k =
     (case first_free (fds (tasks k p)) 0 of
        Some i \<Rightarrow>
          (let k1 = upd_task p (\<lambda>t. t\<lparr>fds := (fds t)[i := f]\<rparr>) k
           in (int i, if f \<noteq> 0 then upd_file f (\<lambda>fl. fl\<lparr>refcount := refcount fl + 1\<rparr>) k1 else k1))
      | None \<Rightarrow> (- EMFILE, k))"

definition process_fd_get :: "nat \<Rightarrow> int \<Rightarrow> kernel \<Rightarrow> nat" where
  "process_fd_get p fd k =
     (if fd < 0 \<or> fd \<ge> int MAX_FDS then 0 else fds (tasks k p) ! nat fd)"

text \<open>The part of \<^verbatim>\<open>process_fd_close\<close> that runs when the last reference is gone.\<close>

definition release_node :: "nat \<Rightarrow> kernel \<Rightarrow> kernel" where
  "release_node f k =
     (let fl = files k f; n = node fl
      in if n = 0 then k
         else if nflags (nodes k n) = 5 then
           (let p = impl (nodes k n);
                k1 = (if fflags fl = 0 then upd_pipe p (\<lambda>e. e\<lparr>readers := readers e - 1\<rparr>) k else k);
                k2 = (if fflags fl = 1 then upd_pipe p (\<lambda>e. e\<lparr>writers := writers e - 1\<rparr>) k1 else k1)
            in if readers (pipes k2 p) \<le> 0 \<and> writers (pipes k2 p) \<le> 0
               then k2\<lparr>freed_pipes := insert p (freed_pipes k2), freed_nodes := insert n (freed_nodes k2)\<rparr>
               else k2)
         else if has_close (nodes k n) then k\<lparr>close_calls := close_calls k @ [n]\<rparr> else k)"

definition process_fd_close :: "nat \<Rightarrow> int \<Rightarrow> kernel \<Rightarrow> kernel" where
  "process_fd_close p fd k =
     (if fd < 0 \<or> fd \<ge> int MAX_FDS then k
      else let f = fds (tasks k p) ! nat fd
           in if f = 0 then k
              else let k1 = upd_task p (\<lambda>t. t\<lparr>fds := (fds t)[nat fd := 0]\<rparr>) k;
                       k2 = upd_file f (\<lambda>fl. fl\<lparr>refcount := refcount fl - 1\<rparr>) k1
                   in if refcount (files k2 f) = 0
                      then (let k3 = release_node f k2 in k3\<lparr>freed_files := insert f (freed_files k3)\<rparr>)
                      else k2)"

definition process_fd_fork :: "nat \<Rightarrow> nat \<Rightarrow> kernel \<Rightarrow> kernel" where
  "process_fd_fork parent child k =
     fold (\<lambda>i k. let f = fds (tasks k parent) ! i;
                     k1 = upd_task child (\<lambda>t. t\<lparr>fds := (fds t)[i := f]\<rparr>) k
                 in if f \<noteq> 0 then upd_file f (\<lambda>fl. fl\<lparr>refcount := refcount fl + 1\<rparr>) k1 else k1)
       [0..<MAX_FDS] k"

section \<open>The process list\<close>

text \<open>\<^verbatim>\<open>do { ... p = p->next; } while (p != proc_list);\<close> looking for a process.\<close>

partial_function (option) proc_scan :: "kernel \<Rightarrow> (task \<Rightarrow> bool) \<Rightarrow> nat \<Rightarrow> nat option" where
  "proc_scan k P p =
     (if P (tasks k p) then Some p
      else let n = pnext (tasks k p) in if n = proc_list k then Some 0 else proc_scan k P n)"

definition proc_find :: "u32 \<Rightarrow> kernel \<Rightarrow> nat option" where
  "proc_find i k = (if proc_list k = 0 then Some 0 else proc_scan k (\<lambda>t. pid t = i) (proc_list k))"

text \<open>The same loop with a body that updates the process.\<close>

partial_function (option) ring_do :: "(nat \<Rightarrow> kernel \<Rightarrow> kernel) \<Rightarrow> nat \<Rightarrow> kernel \<Rightarrow> kernel option" where
  "ring_do body p k =
     (let k' = body p k; n = pnext (tasks k' p)
      in if n = proc_list k' then Some k' else ring_do body n k')"

section \<open>Creating and ending processes\<close>

definition task_init :: "nat \<Rightarrow> u64 \<Rightarrow> nat \<Rightarrow> kernel \<Rightarrow> kernel option" where
  "task_init p cr root k =
     (if p = 0 then None
      else Some (upd_sproc p zero_sproc
        (k\<lparr>tasks := (tasks k)(p := zero_task\<lparr>pid := next_pid k, state := TASK_RUNNING, cr3 := cr,
                       cwd := root, pname := ''init'', pnext := p\<rparr>),
           next_pid := next_pid k + 1, current_proc := p, proc_list := p\<rparr>)))"

definition sigchld_bit :: u64 where
  "sigchld_bit = push_bit (SIGCHLD - 1) 1"

definition reparent :: "nat \<Rightarrow> kernel \<Rightarrow> kernel" where
  "reparent p k =
     (if ppid (tasks k p) = pid (tasks k (current_proc k)) \<and> p \<noteq> current_proc k
      then upd_task p (\<lambda>t. t\<lparr>ppid := 1, sig_pending := sig_pending t OR sigchld_bit\<rparr>) k
      else k)"

definition close_all :: "nat \<Rightarrow> kernel \<Rightarrow> kernel" where
  "close_all p k =
     fold (\<lambda>i k. if fds (tasks k p) ! i \<noteq> 0 then process_fd_close p (int i) k else k) [0..<MAX_FDS] k"

definition notify_parent :: "nat \<Rightarrow> kernel \<Rightarrow> kernel option" where
  "notify_parent q k =
     (if q = 0 then Some k
      else let k1 = upd_task q (\<lambda>t. t\<lparr>sig_pending := sig_pending t OR sigchld_bit\<rparr>) k
           in if state (tasks k1 q) = TASK_BLOCKED
              then k_enqueue q (upd_task q (\<lambda>t. t\<lparr>state := TASK_READY\<rparr>) k1)
              else Some k1)"

text \<open>The state in which \<^verbatim>\<open>do_exit\<close> enters its final \<^verbatim>\<open>while (1) yield();\<close>.\<close>

definition do_exit :: "int \<Rightarrow> kernel \<Rightarrow> kernel option" where
  "do_exit status k = do {
     let c = current_proc k;
     let k1 = upd_task c (\<lambda>t. t\<lparr>exit_status := status, state := TASK_ZOMBIE\<rparr>) k;
     let k2 = close_all c k1;
     k3 \<leftarrow> (if proc_list k2 \<noteq> 0 then ring_do reparent (proc_list k2) k2 else Some k2);
     q \<leftarrow> proc_find (ppid (tasks k3 c)) k3;
     notify_parent q k3
   }"

definition task_exit :: "int \<Rightarrow> kernel \<Rightarrow> kernel option" where
  "task_exit = do_exit"

text \<open>What process creation reads from the allocators and the hardware.\<close>

record spawn_env =
  e_proc :: nat
  e_cr3 :: u64
  e_kstack :: u64
  e_gs_base :: u64
  e_kern_gs_base :: u64
  e_user_stack :: u64

definition link_proc :: "nat \<Rightarrow> kernel \<Rightarrow> kernel" where
  "link_proc p k =
     (let k1 = upd_task p (\<lambda>t. t\<lparr>pnext := pnext (tasks k (proc_list k))\<rparr>) k
      in upd_task (proc_list k) (\<lambda>t. t\<lparr>pnext := p\<rparr>) k1)"

definition tag_cr3 :: "kernel \<Rightarrow> u64 \<Rightarrow> u32 \<Rightarrow> u64" where
  "tag_cr3 k c i = (if pcid_supported k then c OR (ucast i AND 0xFFF) else c)"

text \<open>The new kernel stack, from the address the context points to upwards.\<close>

definition thread_frame :: "spawn_env \<Rightarrow> u64 \<Rightarrow> u64 \<Rightarrow> u64 \<Rightarrow> u64 list" where
  "thread_frame e thread_start entry arg =
     [0, 0, 0, 0, 0, 0, e_kern_gs_base e, e_gs_base e, thread_start, entry, arg]"

definition task_create_proc :: "spawn_env \<Rightarrow> u64 \<Rightarrow> u64 \<Rightarrow> u64 \<Rightarrow> kernel \<Rightarrow> (nat \<times> kernel) option" where
  "task_create_proc e thread_start entry arg k =
     (let p = e_proc e; cur = tasks k (current_proc k)
      in if p = 0 then Some (0, k)
         else do {
           let t = zero_task\<lparr>pname := ''kthread'', pid := next_pid k, ppid := pid cur,
                     state := TASK_READY, cr3 := tag_cr3 k (e_cr3 e) (next_pid k),
                     kstack := e_kstack e, ctx := thread_frame e thread_start entry arg,
                     uid := uid cur, gid := gid cur, euid := euid cur, egid := egid cur,
                     cwd := cwd cur\<rparr>;
           let k1 = upd_sproc p zero_sproc (k\<lparr>tasks := (tasks k)(p := t), next_pid := next_pid k + 1\<rparr>);
           k2 \<leftarrow> k_enqueue p (link_proc p k1);
           Some (p, k2)
         })"

text \<open>
  The registers the system call entry saved at the top of the parent's kernel stack;
  \<open>regs ! (n - 1)\<close> is the word at \<^verbatim>\<open>parent_stack_top - n\<close>.
\<close>

definition fork_frame :: "spawn_env \<Rightarrow> u64 \<Rightarrow> u64 list \<Rightarrow> u64 list" where
  "fork_frame e fork_child_entry regs =
     (let rbp = regs ! 0; rbx = regs ! 1; r12 = regs ! 2; r13 = regs ! 3; r14 = regs ! 4;
          r15 = regs ! 5; rip = regs ! 6; rfl = regs ! 7; r10 = regs ! 8; r9 = regs ! 9;
          r8 = regs ! 10; rdi = regs ! 11; rsi = regs ! 12; rdx = regs ! 13
      in [r15, r14, r13, r12, rbx, rbp, e_kern_gs_base e, e_gs_base e, fork_child_entry,
          rbp, rbx, r12, r13, r14, r15, rip, rfl, r10, r9, r8, rdi, rsi, rdx, e_user_stack e])"

definition fork_fd :: "nat \<Rightarrow> nat \<Rightarrow> kernel \<Rightarrow> kernel" where
  "fork_fd c i k =
     (let f = fds (tasks k c) ! i
      in if f = 0 then k
         else let k1 = upd_file f (\<lambda>fl. fl\<lparr>refcount := refcount fl + 1\<rparr>) k;
                  fl = files k1 f; n = node fl
              in if n \<noteq> 0 \<and> nflags (nodes k1 n) = 5
                 then (if fflags fl = 0 then upd_pipe (impl (nodes k1 n)) (\<lambda>e. e\<lparr>readers := readers e + 1\<rparr>) k1
                       else if fflags fl = 1 then upd_pipe (impl (nodes k1 n)) (\<lambda>e. e\<lparr>writers := writers e + 1\<rparr>) k1
                       else k1)
                 else k1)"

definition task_fork :: "spawn_env \<Rightarrow> u64 \<Rightarrow> u64 list \<Rightarrow> kernel \<Rightarrow> (nat \<times> kernel) option" where
  "task_fork e fork_child_entry regs k = do {
     let c = e_proc e;
     let par = tasks k (current_proc k);
     let t = par\<lparr>pid := next_pid k, ppid := pid par, state := TASK_READY, ctx := [],
                 exit_status := 0, sig_pending := 0\<rparr>;
     let k1 = upd_sproc c (procs (ksched k) (current_proc k))
                (k\<lparr>tasks := (tasks k)(c := t), next_pid := next_pid k + 1\<rparr>);
     let k2 = fold (fork_fd c) [0..<MAX_FDS] k1;
     let k3 = upd_task c (\<lambda>t. t\<lparr>cr3 := tag_cr3 k (e_cr3 e) (pid t), kstack := e_kstack e,
                 user_rsp := e_user_stack e, ctx := fork_frame e fork_child_entry regs\<rparr>) k2;
     k4 \<leftarrow> k_enqueue c (link_proc c k3);
     Some (c, k4)
   }"

section \<open>Scheduling\<close>

definition k_pick :: "kernel \<Rightarrow> (nat \<times> kernel) option" where
  "k_pick k = (case sched_pick_next (ksched k) of
       None \<Rightarrow> None
     | Some (r, s) \<Rightarrow> Some (case r of None \<Rightarrow> 0 | Some p \<Rightarrow> p, k\<lparr>ksched := s\<rparr>))"

definition runnable :: "task \<Rightarrow> bool" where
  "runnable t \<longleftrightarrow> state t = TASK_READY \<or> state t = TASK_RUNNING"

text \<open>\<^verbatim>\<open>while (next && (next->state != TASK_READY && next->state != TASK_RUNNING))\<close>\<close>

partial_function (option) pick_runnable :: "nat \<Rightarrow> kernel \<Rightarrow> (nat \<times> kernel) option" where
  "pick_runnable p k =
     (if p = 0 \<or> runnable (tasks k p) then Some (p, k)
      else Option.bind (if state (tasks k p) = TASK_ZOMBIE
                        then map_option (\<lambda>s. k\<lparr>ksched := s\<rparr>) (sched_remove p (ksched k))
                        else Some k)
             (\<lambda>k1. Option.bind (k_pick k1) (\<lambda>(p', k2). pick_runnable p' k2)))"

text \<open>\<open>user_stack\<close> is what \<^verbatim>\<open>syscall_get_user_stack\<close> returns.\<close>

definition switch_cpu :: "nat \<Rightarrow> nat \<Rightarrow> kernel \<Rightarrow> kernel" where
  "switch_cpu old p k =
     (let t = tasks k p;
          c1 = (if cr3 (tasks k old) \<noteq> cr3 t then (kcpu k)\<lparr>cpu_cr3 := cr3 t\<rparr> else kcpu k)
      in k\<lparr>kcpu := c1\<lparr>tss_rsp0 := kstack t + KERNEL_STACK_SIZE,
                     syscall_kernel_stack := kstack t + KERNEL_STACK_SIZE,
                     syscall_user_stack := user_rsp t\<rparr>\<rparr>)"

definition schedule :: "u64 \<Rightarrow> kernel \<Rightarrow> kernel option" where
  "schedule user_stack k =
     (if current_proc k = 0 then Some k
      else do {
        (p0, k0) \<leftarrow> k_pick k;
        (p, k1) \<leftarrow> pick_runnable p0 k0;
        if p = 0 \<or> p = current_proc k1 then Some k1
        else do {
          let old = current_proc k1;
          k2 \<leftarrow> (if state (tasks k1 old) = TASK_RUNNING \<and> kstack (tasks k1 old) \<noteq> 0
                then k_enqueue old (upd_task old (\<lambda>t. t\<lparr>state := TASK_READY\<rparr>) k1) else Some k1);
          let k3 = upd_task old (\<lambda>t. t\<lparr>user_rsp := user_stack\<rparr>) k2;
          let k4 = upd_task p (\<lambda>t. t\<lparr>state := TASK_RUNNING\<rparr>) k3;
          Some (switch_cpu old p (k4\<lparr>current_proc := p\<rparr>))
        }
      })"

definition yield :: "u64 \<Rightarrow> kernel \<Rightarrow> kernel option" where
  "yield = schedule"

section \<open>Process information\<close>

record proc_info =
  i_pid :: u32
  i_ppid :: u32
  i_state :: u32
  i_kstack :: u64
  i_cr3 :: u64
  i_name :: string

definition info_of :: "task \<Rightarrow> proc_info" where
  "info_of t = \<lparr>i_pid = pid t, i_ppid = ppid t, i_state = state t, i_kstack = kstack t, i_cr3 = cr3 t,
     i_name = (if pname t \<noteq> [] then take 31 (pname t) else if pid t = 0 then ''kernel'' else ''process'')\<rparr>"

text \<open>The entries written to the buffer; their number is the result.\<close>

partial_function (option) info_loop :: "kernel \<Rightarrow> nat \<Rightarrow> nat \<Rightarrow> proc_info list \<Rightarrow> proc_info list option" where
  "info_loop k mx p acc =
     (if length acc \<ge> mx then Some acc
      else let acc' = acc @ [info_of (tasks k p)]; n = pnext (tasks k p)
           in if n = proc_list k then Some acc' else info_loop k mx n acc')"

definition task_proc_info :: "nat \<Rightarrow> kernel \<Rightarrow> proc_info list option" where
  "task_proc_info mx k = (if proc_list k = 0 then Some [] else info_loop k mx (proc_list k) [])"


section \<open>The first run of a forked child\<close>

text \<open>
  The stack pops of \<^verbatim>\<open>arch/x86_64/kernel/switch.S\<close> on a saved context: \<^verbatim>\<open>switch_to\<close> restores
  the callee-saved registers and the two GS bases and returns to the word above them;
  \<^verbatim>\<open>fork_child_entry\<close> pops the user registers and clears \<^verbatim>\<open>rax\<close>.
\<close>

record user_regs =
  r_rbp :: u64
  r_rbx :: u64
  r_r12 :: u64
  r_r13 :: u64
  r_r14 :: u64
  r_r15 :: u64
  r_rcx :: u64
  r_r11 :: u64
  r_r10 :: u64
  r_r9 :: u64
  r_r8 :: u64
  r_rdi :: u64
  r_rsi :: u64
  r_rdx :: u64
  r_rsp :: u64
  r_rax :: u64

fun switch_to_pop :: "u64 list \<Rightarrow> (u64 \<times> u64 \<times> u64 \<times> u64 list) option" where
  "switch_to_pop (r15 # r14 # r13 # r12 # rbx # rbp # kgs # gs # rip # st) = Some (kgs, gs, rip, st)"
| "switch_to_pop _ = None"

fun fork_child_pop :: "u64 list \<Rightarrow> user_regs option" where
  "fork_child_pop (rbp # rbx # r12 # r13 # r14 # r15 # rcx # r11 # r10 # r9 # r8 # rdi # rsi # rdx # rsp # st) =
     Some \<lparr>r_rbp = rbp, r_rbx = rbx, r_r12 = r12, r_r13 = r13, r_r14 = r14, r_r15 = r15, r_rcx = rcx, r_r11 = r11,
           r_r10 = r10, r_r9 = r9, r_r8 = r8, r_rdi = rdi, r_rsi = rsi, r_rdx = rdx, r_rsp = rsp, r_rax = 0\<rparr>"
| "fork_child_pop _ = None"

text \<open>The registers of the parent at its system call, from the words of its save area.\<close>

definition saved_regs :: "u64 list \<Rightarrow> u64 \<Rightarrow> user_regs" where
  "saved_regs regs rsp =
     \<lparr>r_rbp = regs ! 0, r_rbx = regs ! 1, r_r12 = regs ! 2, r_r13 = regs ! 3, r_r14 = regs ! 4, r_r15 = regs ! 5,
      r_rcx = regs ! 6, r_r11 = regs ! 7, r_r10 = regs ! 8, r_r9 = regs ! 9, r_r8 = regs ! 10, r_rdi = regs ! 11,
      r_rsi = regs ! 12, r_rdx = regs ! 13, r_rsp = rsp, r_rax = 0\<rparr>"

section \<open>Basic facts\<close>

lemma upd_task_simps [simp]:
  "tasks (upd_task p f k) = (tasks k)(p := f (tasks k p))"
  "proc_list (upd_task p f k) = proc_list k" "current_proc (upd_task p f k) = current_proc k"
  "files (upd_task p f k) = files k" "nodes (upd_task p f k) = nodes k" "pipes (upd_task p f k) = pipes k"
  "freed_files (upd_task p f k) = freed_files k" "ksched (upd_task p f k) = ksched k"
  "next_pid (upd_task p f k) = next_pid k"
  by (simp_all add: upd_task_def)

lemma upd_file_simps [simp]:
  "files (upd_file p g k) = (files k)(p := g (files k p))" "tasks (upd_file p g k) = tasks k"
  "proc_list (upd_file p g k) = proc_list k" "current_proc (upd_file p g k) = current_proc k"
  "freed_files (upd_file p g k) = freed_files k" "ksched (upd_file p g k) = ksched k"
  "nodes (upd_file p g k) = nodes k" "pipes (upd_file p g k) = pipes k"
  "next_pid (upd_file p g k) = next_pid k"
  by (simp_all add: upd_file_def)

lemma upd_pipe_simps [simp]:
  "pipes (upd_pipe p h k) = (pipes k)(p := h (pipes k p))" "tasks (upd_pipe p h k) = tasks k"
  "proc_list (upd_pipe p h k) = proc_list k" "current_proc (upd_pipe p h k) = current_proc k"
  "files (upd_pipe p h k) = files k" "freed_files (upd_pipe p h k) = freed_files k"
  "ksched (upd_pipe p h k) = ksched k" "nodes (upd_pipe p h k) = nodes k"
  "next_pid (upd_pipe p h k) = next_pid k"
  by (simp_all add: upd_pipe_def)

lemma upd_sproc_simps [simp]:
  "tasks (upd_sproc p q k) = tasks k" "files (upd_sproc p q k) = files k"
  "proc_list (upd_sproc p q k) = proc_list k" "current_proc (upd_sproc p q k) = current_proc k"
  "freed_files (upd_sproc p q k) = freed_files k" "nodes (upd_sproc p q k) = nodes k"
  "pipes (upd_sproc p q k) = pipes k" "next_pid (upd_sproc p q k) = next_pid k"
  by (simp_all add: upd_sproc_def)

lemma k_enqueue_simps:
  assumes "k_enqueue p k = Some k'"
  shows "tasks k' = tasks k" "files k' = files k" "proc_list k' = proc_list k"
    "current_proc k' = current_proc k" "freed_files k' = freed_files k" "next_pid k' = next_pid k"
  using assms by (auto simp: k_enqueue_def)

lemma release_node_simps [simp]:
  "tasks (release_node f k) = tasks k" "files (release_node f k) = files k"
  "proc_list (release_node f k) = proc_list k" "current_proc (release_node f k) = current_proc k"
  "freed_files (release_node f k) = freed_files k" "ksched (release_node f k) = ksched k"
  "next_pid (release_node f k) = next_pid k"
  by (simp_all add: release_node_def Let_def)

lemma process_fd_close_simps [simp]:
  "proc_list (process_fd_close p fd k) = proc_list k"
  "current_proc (process_fd_close p fd k) = current_proc k"
  "pnext (tasks (process_fd_close p fd k) q) = pnext (tasks k q)"
  "ppid (tasks (process_fd_close p fd k) q) = ppid (tasks k q)"
  "ksched (process_fd_close p fd k) = ksched k"
  "q \<noteq> p \<Longrightarrow> tasks (process_fd_close p fd k) q = tasks k q"
  by (simp_all add: process_fd_close_def Let_def)

section \<open>The process ring\<close>

fun chain :: "(nat \<Rightarrow> nat) \<Rightarrow> nat list \<Rightarrow> nat \<Rightarrow> bool" where
  "chain nx [] e \<longleftrightarrow> True"
| "chain nx [p] e \<longleftrightarrow> nx p = e"
| "chain nx (p # q # ps) e \<longleftrightarrow> nx p = q \<and> chain nx (q # ps) e"

definition is_ring :: "kernel \<Rightarrow> nat list \<Rightarrow> bool" where
  "is_ring k ps \<longleftrightarrow> ps \<noteq> [] \<and> distinct ps \<and> 0 \<notin> set ps \<and> hd ps = proc_list k
     \<and> chain (\<lambda>p. pnext (tasks k p)) ps (proc_list k)"

lemma chain_cong: "(\<And>p. p \<in> set ps \<Longrightarrow> nx p = nx' p) \<Longrightarrow> chain nx ps e = chain nx' ps e"
  by (induction nx ps e rule: chain.induct) auto

lemma is_ring_cong:
  "proc_list k = proc_list k' \<Longrightarrow> (\<And>p. p \<in> set ps \<Longrightarrow> pnext (tasks k p) = pnext (tasks k' p)) \<Longrightarrow>
   is_ring k ps = is_ring k' ps"
  using chain_cong [of ps "\<lambda>p. pnext (tasks k p)" "\<lambda>p. pnext (tasks k' p)"] by (simp add: is_ring_def)

definition find_ptr :: "(nat \<Rightarrow> bool) \<Rightarrow> nat list \<Rightarrow> nat" where
  "find_ptr P ps = (case find P ps of None \<Rightarrow> 0 | Some p \<Rightarrow> p)"

lemma proc_scan_chain:
  "chain (\<lambda>p. pnext (tasks k p)) (p # ps) (proc_list k) \<Longrightarrow> proc_list k \<notin> set ps \<Longrightarrow>
   proc_scan k P p = Some (find_ptr (\<lambda>q. P (tasks k q)) (p # ps))"
proof (induction ps arbitrary: p)
  case Nil
  then show ?case by (subst proc_scan.simps) (simp add: find_ptr_def)
next
  case (Cons q ps)
  then have "q \<noteq> proc_list k" "pnext (tasks k p) = q" by auto
  then show ?case using Cons.IH [of q] Cons.prems
    by (subst proc_scan.simps) (auto simp: find_ptr_def)
qed

lemma is_ring_head:
  assumes "is_ring k ps"
  obtains qs where "ps = proc_list k # qs" "proc_list k \<notin> set qs" "proc_list k \<noteq> 0"
    "chain (\<lambda>p. pnext (tasks k p)) (proc_list k # qs) (proc_list k)"
  using assms by (cases ps) (auto simp: is_ring_def)

lemma proc_scan_ring:
  assumes "is_ring k ps"
  shows "proc_scan k P (proc_list k) = Some (find_ptr (\<lambda>q. P (tasks k q)) ps)"
  using is_ring_head [OF assms] proc_scan_chain by metis

lemma find_ptr_cases:
  assumes "0 \<notin> set ps"
  shows "(find_ptr P ps \<noteq> 0 \<and> find_ptr P ps \<in> set ps \<and> P (find_ptr P ps)) \<or>
         (find_ptr P ps = 0 \<and> (\<forall>p \<in> set ps. \<not> P p))"
proof (cases "find P ps")
  case None
  then have "find_ptr P ps = 0" by (simp add: find_ptr_def)
  moreover have "\<forall>p \<in> set ps. \<not> P p" using None by (auto simp: find_None_iff)
  ultimately show ?thesis by blast
next
  case (Some p)
  then have "p \<in> set ps" "P p" by (auto simp: find_Some_iff)
  moreover have "find_ptr P ps = p" using Some by (simp add: find_ptr_def)
  ultimately show ?thesis using assms by metis
qed

lemma proc_find_ring:
  "is_ring k ps \<Longrightarrow> proc_find i k = Some (find_ptr (\<lambda>q. pid (tasks k q) = i) ps)"
  using proc_scan_ring [of k ps] by (auto simp: proc_find_def elim: is_ring_head)

lemma ring_do_chain:
  assumes body: "\<And>p k. proc_list (body p k) = proc_list k" "\<And>p q k. pnext (tasks (body p k) q) = pnext (tasks k q)"
  shows "chain (\<lambda>p. pnext (tasks k p)) (p # ps) (proc_list k) \<Longrightarrow> proc_list k \<notin> set ps \<Longrightarrow>
    ring_do body p k = Some (fold body (p # ps) k)"
proof (induction ps arbitrary: p k)
  case Nil
  then show ?case by (subst ring_do.simps) (simp add: body)
next
  case (Cons q ps)
  then have "q \<noteq> proc_list k" "pnext (tasks k p) = q" by auto
  then show ?case using Cons.IH [of "body p k" q] Cons.prems
    by (subst ring_do.simps) (auto simp: body)
qed

lemma ring_do_ring:
  assumes "\<And>p k. proc_list (body p k) = proc_list k" "\<And>p q k. pnext (tasks (body p k) q) = pnext (tasks k q)"
    and "is_ring k ps"
  shows "ring_do body (proc_list k) k = Some (fold body ps k)"
  using is_ring_head [OF assms(3)] ring_do_chain [of body, OF assms(1,2)] by metis

lemma is_ring_link:
  assumes "is_ring k ps" "p \<notin> set ps" "p \<noteq> 0"
  shows "is_ring (link_proc p k) (proc_list k # p # tl ps)"
proof -
  let ?h = "proc_list k"
  obtain qs where ps: "ps = ?h # qs" "?h \<notin> set qs" "?h \<noteq> 0"
    "chain (\<lambda>p. pnext (tasks k p)) (?h # qs) ?h" using is_ring_head [OF assms(1)] .
  let ?nx = "\<lambda>q. pnext (tasks (link_proc p k) q)"
  have nx: "?nx ?h = p" "?nx p = pnext (tasks k ?h)" "\<And>q. q \<noteq> ?h \<Longrightarrow> q \<noteq> p \<Longrightarrow> ?nx q = pnext (tasks k q)"
    using assms ps by (auto simp: link_proc_def Let_def)
  have "chain ?nx (p # qs) ?h"
  proof (cases qs)
    case Nil
    then show ?thesis using ps nx by simp
  next
    case (Cons q qs')
    have "q \<noteq> ?h \<and> q \<noteq> p" if "q \<in> set qs" for q using that ps(1,2) assms(2) by (metis list.set_intros(2))
    then have "chain ?nx qs ?h = chain (\<lambda>p. pnext (tasks k p)) qs ?h"
      using nx(3) by (intro chain_cong) blast
    then show ?thesis using Cons ps nx by simp
  qed
  then have "chain ?nx (?h # p # qs) ?h" using nx by simp
  moreover have "proc_list (link_proc p k) = ?h" by (simp add: link_proc_def Let_def)
  ultimately show ?thesis using assms ps by (auto simp: is_ring_def)
qed


section \<open>Reference counts of open files\<close>

text \<open>The number of descriptor slots of the processes \<open>ps\<close> that hold the file \<open>f\<close>.\<close>

definition refs :: "nat list \<Rightarrow> (nat \<Rightarrow> nat list) \<Rightarrow> nat \<Rightarrow> nat" where
  "refs ps F f = (\<Sum>p\<leftarrow>ps. count_list (F p) f)"

definition fd_ok :: "nat list \<Rightarrow> (nat \<Rightarrow> nat list) \<Rightarrow> (nat \<Rightarrow> u32) \<Rightarrow> nat set \<Rightarrow> bool" where
  "fd_ok ps F R Z \<longleftrightarrow> distinct ps \<and> length ps < 2 ^ 24 \<and> (\<forall>p \<in> set ps. length (F p) = MAX_FDS)
     \<and> (\<forall>f. f \<noteq> 0 \<longrightarrow> R f = of_nat (refs ps F f) \<or> (f \<in> Z \<and> refs ps F f = 0))
     \<and> 0 \<notin> Z \<and> (\<forall>f \<in> Z. refs ps F f = 0)"

definition fd_inv :: "kernel \<Rightarrow> nat list \<Rightarrow> bool" where
  "fd_inv k ps \<longleftrightarrow> fd_ok ps (\<lambda>p. fds (tasks k p)) (\<lambda>f. refcount (files k f)) (freed_files k)"

lemma fd_inv_cong:
  assumes "\<And>p. p \<in> set ps \<Longrightarrow> fds (tasks k p) = fds (tasks k' p)"
    and "\<And>f. refcount (files k f) = refcount (files k' f)" "freed_files k = freed_files k'"
  shows "fd_inv k ps = fd_inv k' ps"
proof -
  have "refs ps (\<lambda>p. fds (tasks k p)) = refs ps (\<lambda>p. fds (tasks k' p))"
    using assms(1) by (auto simp: refs_def fun_eq_iff cong: map_cong)
  then show ?thesis using assms by (simp add: fd_inv_def fd_ok_def)
qed

lemma count_list_update:
  "i < length xs \<Longrightarrow>
   count_list (xs[i := v]) f + (if xs ! i = f then 1 else 0) = count_list xs f + (if v = f then 1 else 0)"
proof (induction xs arbitrary: i)
  case (Cons x xs)
  show ?case
  proof (cases i)
    case (Suc j)
    then have "count_list (xs[j := v]) f + (if xs ! j = f then 1 else 0) = count_list xs f + (if v = f then 1 else 0)"
      using Cons by simp
    then show ?thesis using Suc by (cases "xs ! j = f"; cases "v = f") simp_all
  qed auto
qed simp

lemma refs_fun_upd:
  assumes "distinct ps" "p \<in> set ps"
  shows "refs ps (F(p := l)) f + count_list (F p) f = refs ps F f + count_list l f"
  using assms
proof (induction ps)
  case (Cons q ps)
  show ?case
  proof (cases "q = p")
    case True
    then have "refs ps (F(p := l)) f = refs ps F f"
      using Cons.prems unfolding refs_def by (intro arg_cong [where f = sum_list] map_cong) auto
    then show ?thesis using True by (simp add: refs_def)
  next
    case False
    then show ?thesis using Cons by (simp add: refs_def)
  qed
qed simp

lemma refs_slot:
  assumes "distinct ps" "p \<in> set ps" "i < length (F p)"
  shows "refs ps (F(p := (F p)[i := v])) f + (if F p ! i = f then 1 else 0) = refs ps F f + (if v = f then 1 else 0)"
  using refs_fun_upd [OF assms(1,2), of F "(F p)[i := v]" f] count_list_update [OF assms(3), of v f] by linarith

lemma refs_bound:
  "\<forall>p \<in> set ps. length (F p) = MAX_FDS \<Longrightarrow> refs ps F f \<le> MAX_FDS * length ps"
proof (induction ps)
  case (Cons p ps)
  have "count_list (F p) f \<le> MAX_FDS" using Cons.prems count_le_length [of "F p" f] by simp
  then show ?case using Cons by (simp add: refs_def)
qed (simp add: refs_def)

lemma fd_ok_refs_less: "fd_ok ps F R Z \<Longrightarrow> refs ps F f < 2 ^ 32"
  using refs_bound [of ps F f] by (auto simp: fd_ok_def)

lemma fd_ok_open:
  assumes ok: "fd_ok ps F R Z" and p: "p \<in> set ps" and i: "i < MAX_FDS" "F p ! i = 0"
    and f: "f \<noteq> 0" "f \<notin> Z"
  shows "fd_ok ps (F(p := (F p)[i := f])) (R(f := R f + 1)) Z"
proof -
  have d: "distinct ps" "length (F p) = MAX_FDS" using ok p by (auto simp: fd_ok_def)
  have r: "refs ps (F(p := (F p)[i := f])) g = refs ps F g + (if f = g then 1 else 0)" if "g \<noteq> 0" for g
    using refs_slot [OF d(1) p, of i F f g] d i that by simp
  have rf: "R f = of_nat (refs ps F f)" using ok f unfolding fd_ok_def by blast
  have zero: "refs ps (F(p := (F p)[i := f])) g = 0" if "g \<in> Z" for g
    using ok that r [of g] f unfolding fd_ok_def by (metis add_0)
  show ?thesis using ok zero r rf f d by (auto simp: fd_ok_def)
qed

lemma fd_ok_close:
  assumes ok: "fd_ok ps F R Z" and p: "p \<in> set ps" and i: "i < MAX_FDS" and f: "F p ! i = f" "f \<noteq> 0"
  shows "fd_ok ps (F(p := (F p)[i := 0])) (R(f := R f - 1)) (if R f - 1 = 0 then insert f Z else Z)"
proof -
  let ?F = "F(p := (F p)[i := 0])"
  have d: "distinct ps" "length (F p) = MAX_FDS" using ok p by (auto simp: fd_ok_def)
  have r: "refs ps ?F g + (if f = g then 1 else 0) = refs ps F g" if "g \<noteq> 0" for g
    using refs_slot [OF d(1) p, of i F 0 g] d i f that by simp
  from r [OF f(2)] have rf: "refs ps F f = Suc (refs ps ?F f)" by simp
  then have nz: "f \<notin> Z" using ok by (auto simp: fd_ok_def)
  have "R f = of_nat (refs ps F f)" using ok f nz unfolding fd_ok_def by blast
  then have Rf: "R f - 1 = of_nat (refs ps ?F f)" using rf by simp
  have "refs ps ?F f < 2 ^ 32" using rf fd_ok_refs_less [OF ok, of f] by simp
  then have iff: "R f - 1 = 0 \<longleftrightarrow> refs ps ?F f = 0"
    unfolding Rf by (auto simp: word_of_nat_eq_0_iff dest: dvd_imp_le)
  have zero: "refs ps ?F g = 0" if "g \<in> Z" for g
    using ok that r [of g] unfolding fd_ok_def by (metis add_is_0)
  have "(R(f := R f - 1)) g = of_nat (refs ps ?F g) \<or> (g \<in> Z \<and> refs ps ?F g = 0)" if "g \<noteq> 0" for g
  proof (cases "g = f")
    case False
    then have "refs ps ?F g = refs ps F g" using r [OF that] by simp
    then show ?thesis using ok that False unfolding fd_ok_def by simp
  qed (simp add: Rf)
  then have "\<forall>g. g \<noteq> 0 \<longrightarrow> (R(f := R f - 1)) g = of_nat (refs ps ?F g)
      \<or> (g \<in> (if R f - 1 = 0 then insert f Z else Z) \<and> refs ps ?F g = 0)" by (metis insertCI)
  moreover have "\<forall>g \<in> (if R f - 1 = 0 then insert f Z else Z). refs ps ?F g = 0" using zero iff by auto
  ultimately show ?thesis using ok d f unfolding fd_ok_def by auto
qed


lemma first_free_Some:
  "first_free xs j = Some i \<Longrightarrow> j \<le> i \<and> i - j < length xs \<and> xs ! (i - j) = 0 \<and> (\<forall>m < i - j. xs ! m \<noteq> 0)"
proof (induction xs j arbitrary: i rule: first_free.induct)
  case (2 x xs j)
  show ?case
  proof (cases "x = 0")
    case False
    with 2 have "Suc j \<le> i \<and> i - Suc j < length xs \<and> xs ! (i - Suc j) = 0 \<and> (\<forall>m < i - Suc j. xs ! m \<noteq> 0)" by simp
    moreover then have "i - j = Suc (i - Suc j)" by linarith
    ultimately show ?thesis using False by (auto simp: less_Suc_eq_0_disj)
  qed (use 2 in simp)
qed simp

lemma first_free_None: "first_free xs j = None \<longleftrightarrow> 0 \<notin> set xs"
  by (induction xs j rule: first_free.induct) auto

lemma fd_inv_install:
  assumes inv: "fd_inv k ps" and p: "p \<in> set ps" and f: "f \<noteq> 0" "f \<notin> freed_files k"
  shows "fd_inv (snd (process_fd_install p f k)) ps"
proof (cases "first_free (fds (tasks k p)) 0")
  case None
  then show ?thesis using inv by (simp add: process_fd_install_def)
next
  case (Some i)
  let ?F = "\<lambda>p. fds (tasks k p)" and ?k' = "snd (process_fd_install p f k)"
  have i: "i < MAX_FDS" "?F p ! i = 0"
    using first_free_Some [OF Some] inv p by (auto simp: fd_inv_def fd_ok_def)
  have "(\<lambda>q. fds (tasks ?k' q)) = ?F(p := (?F p)[i := f])"
    "(\<lambda>g. refcount (files ?k' g)) = (\<lambda>g. refcount (files k g))(f := refcount (files k f) + 1)"
    "freed_files ?k' = freed_files k"
    using Some f by (auto simp: process_fd_install_def fun_eq_iff)
  then show ?thesis
    using fd_ok_open [OF inv [unfolded fd_inv_def] p i f] by (simp only: fd_inv_def)
qed

lemma fd_inv_close:
  assumes inv: "fd_inv k ps" and p: "p \<in> set ps"
  shows "fd_inv (process_fd_close p fd k) ps"
proof (cases "fd < 0 \<or> fd \<ge> int MAX_FDS \<or> fds (tasks k p) ! nat fd = 0")
  case True
  then show ?thesis using inv by (auto simp: process_fd_close_def Let_def)
next
  case False
  let ?F = "\<lambda>p. fds (tasks k p)" and ?R = "\<lambda>g. refcount (files k g)" and ?k' = "process_fd_close p fd k"
  define i f where "i = nat fd" and "f = ?F p ! i"
  have i: "i < MAX_FDS" "?F p ! i = f" "f \<noteq> 0" using False by (auto simp: i_def f_def)
  have "(\<lambda>q. fds (tasks ?k' q)) = ?F(p := (?F p)[i := 0])"
    "(\<lambda>g. refcount (files ?k' g)) = ?R(f := ?R f - 1)"
    "freed_files ?k' = (if ?R f - 1 = 0 then insert f (freed_files k) else freed_files k)"
    using False by (auto simp: process_fd_close_def Let_def fun_eq_iff i_def f_def)
  then show ?thesis
    using fd_ok_close [OF inv [unfolded fd_inv_def] p i] by (simp only: fd_inv_def)
qed

lemma fd_inv_close_all:
  assumes "fd_inv k ps" "p \<in> set ps"
  shows "fd_inv (close_all p k) ps"
proof -
  have "fd_inv (fold (\<lambda>i k. if fds (tasks k p) ! i \<noteq> 0 then process_fd_close p (int i) k else k) is k) ps" for "is"
    using assms by (induction "is" arbitrary: k) (simp_all add: fd_inv_close)
  then show ?thesis by (simp add: close_all_def)
qed

lemma fold_fork_fd:
  assumes "n \<le> length (fds (tasks k c))"
  shows "tasks (fold (fork_fd c) [0..<n] k) = tasks k \<and> freed_files (fold (fork_fd c) [0..<n] k) = freed_files k
    \<and> proc_list (fold (fork_fd c) [0..<n] k) = proc_list k
    \<and> ksched (fold (fork_fd c) [0..<n] k) = ksched k
    \<and> (\<forall>g. g \<noteq> 0 \<longrightarrow> refcount (files (fold (fork_fd c) [0..<n] k) g)
           = refcount (files k g) + of_nat (count_list (take n (fds (tasks k c))) g))"
  using assms
proof (induction n)
  case (Suc n)
  let ?k = "fold (fork_fd c) [0..<n] k"
  have IH: "tasks ?k = tasks k" "freed_files ?k = freed_files k" "proc_list ?k = proc_list k" "ksched ?k = ksched k"
    "\<forall>g. g \<noteq> 0 \<longrightarrow> refcount (files ?k g) = refcount (files k g) + of_nat (count_list (take n (fds (tasks k c))) g)"
    using Suc by auto
  have take: "take (Suc n) (fds (tasks k c)) = take n (fds (tasks k c)) @ [fds (tasks k c) ! n]"
    using Suc.prems by (simp add: take_Suc_conv_app_nth)
  have step: "tasks (fork_fd c n ?k) = tasks ?k" "freed_files (fork_fd c n ?k) = freed_files ?k"
    "proc_list (fork_fd c n ?k) = proc_list ?k" "ksched (fork_fd c n ?k) = ksched ?k"
    "\<And>g. g \<noteq> 0 \<Longrightarrow> refcount (files (fork_fd c n ?k) g)
       = refcount (files ?k g) + (if fds (tasks ?k c) ! n = g then 1 else 0)"
    by (auto simp: fork_fd_def Let_def)
  show ?case using IH step by (simp add: take)
qed simp

lemma fd_ok_fork:
  assumes ok: "fd_ok (h # qs) F R Z" and c: "c \<notin> set (h # qs)" "F' c = F p" "p \<in> set (h # qs)"
    and same: "\<And>q. q \<in> set (h # qs) \<Longrightarrow> F' q = F q" and len: "Suc (length (h # qs)) < 2 ^ 24"
    and R: "\<And>g. g \<noteq> 0 \<Longrightarrow> R' g = R g + of_nat (count_list (F p) g)"
  shows "fd_ok (h # c # qs) F' R' Z"
proof -
  have map: "map (\<lambda>q. count_list (F' q) g) qs = map (\<lambda>q. count_list (F q) g) qs" for g
    using same by (intro map_cong) auto
  have r: "refs (h # c # qs) F' g = refs (h # qs) F g + count_list (F p) g" for g
    using same [of h] c(2) by (simp add: refs_def map)
  have le: "count_list (F p) g \<le> refs (h # qs) F g" for g
    using c(3) member_le_sum_list [of "count_list (F p) g" "map (\<lambda>q. count_list (F q) g) (h # qs)"]
    by (auto simp: refs_def)
  have zero: "refs (h # c # qs) F' g = 0" if "refs (h # qs) F g = 0" for g using that le [of g] r [of g] by simp
  have "R' g = of_nat (refs (h # c # qs) F' g) \<or> (g \<in> Z \<and> refs (h # c # qs) F' g = 0)" if "g \<noteq> 0" for g
    using ok that zero [of g] R [OF that] r [of g] unfolding fd_ok_def by (metis of_nat_add)
  moreover have "\<forall>q \<in> set (h # c # qs). length (F' q) = MAX_FDS"
    using ok c same unfolding fd_ok_def by (metis insert_iff list.simps(15))
  moreover have "\<forall>g \<in> Z. refs (h # c # qs) F' g = 0" "distinct (h # c # qs)" "0 \<notin> Z"
    using ok zero c(1) unfolding fd_ok_def by auto
  moreover have "length (h # c # qs) < 2 ^ 24" using len by simp
  ultimately show ?thesis unfolding fd_ok_def by blast
qed


section \<open>The kernel invariant\<close>

text \<open>
  \<open>ps\<close> lists the processes in ring order. Process ids are distinct and below the next one
  to be given out; every queued process is in the ring.
\<close>

definition sched_part :: "kernel \<Rightarrow> nat list \<Rightarrow> bool" where
  "sched_part k ps \<longleftrightarrow> sched_inv (ksched k) \<and> no_fifo (ksched k) \<and> set (runqueue (ksched k)) \<subseteq> set ps"

definition pid_part :: "kernel \<Rightarrow> nat list \<Rightarrow> bool" where
  "pid_part k ps \<longleftrightarrow> inj_on (\<lambda>p. pid (tasks k p)) (set ps) \<and> (\<forall>p \<in> set ps. pid (tasks k p) < next_pid k)"

definition task_inv :: "kernel \<Rightarrow> nat list \<Rightarrow> bool" where
  "task_inv k ps \<longleftrightarrow> is_ring k ps \<and> fd_inv k ps \<and> sched_part k ps \<and> pid_part k ps \<and> current_proc k \<in> set ps"

lemma task_invD:
  assumes "task_inv k ps"
  shows "is_ring k ps" "fd_inv k ps" "sched_part k ps" "pid_part k ps" "current_proc k \<in> set ps"
    "p \<in> set ps \<Longrightarrow> p \<noteq> 0"
proof -
  show "is_ring k ps" "fd_inv k ps" "sched_part k ps" "pid_part k ps" "current_proc k \<in> set ps"
    using assms by (simp_all add: task_inv_def)
  show "p \<noteq> 0" if "p \<in> set ps" using assms that unfolding task_inv_def is_ring_def by metis
qed

text \<open>Operations that touch neither links, ids, descriptors nor the queue.\<close>

lemma task_inv_cong:
  assumes "proc_list k' = proc_list k" "current_proc k' = current_proc k" "next_pid k' = next_pid k"
    "ksched k' = ksched k" "freed_files k' = freed_files k" "\<And>f. refcount (files k' f) = refcount (files k f)"
    "\<And>p. pnext (tasks k' p) = pnext (tasks k p)" "\<And>p. pid (tasks k' p) = pid (tasks k p)"
    "\<And>p. fds (tasks k' p) = fds (tasks k p)"
  shows "task_inv k' ps = task_inv k ps"
  using is_ring_cong [of k' k ps] fd_inv_cong [of ps k' k] assms
  by (simp add: task_inv_def sched_part_def pid_part_def)

lemma k_enqueue_inv:
  assumes "task_inv k ps" "p \<in> set ps"
  obtains k' where "k_enqueue p k = Some k'" "task_inv k' ps" "tasks k' = tasks k"
    "current_proc k' = current_proc k" "proc_list k' = proc_list k" "kcpu k' = kcpu k"
    "set (runqueue (ksched k')) = insert p (set (runqueue (ksched k)))"
proof -
  note I = task_invD [OF assms(1)]
  obtain s' where s': "sched_enqueue p (ksched k) = Some s'" "sched_inv s'"
    "set (runqueue s') = insert p (set (runqueue (ksched k)))" "no_fifo s' = no_fifo (ksched k)"
    using sched_enqueue_client [of "ksched k" p] I(3) I(6) [OF assms(2)] by (auto simp: sched_part_def)
  let ?k = "k\<lparr>ksched := s'\<rparr>"
  have "is_ring ?k ps" "fd_inv ?k ps"
    using I is_ring_cong [of ?k k ps] fd_inv_cong [of ps ?k k] by simp_all
  then have "task_inv ?k ps"
    using I s' assms(2) by (auto simp: task_inv_def sched_part_def pid_part_def)
  then show ?thesis using that [of ?k] s' by (simp add: k_enqueue_def)
qed

lemma task_inv_install:
  assumes inv: "task_inv k ps" and p: "p \<in> set ps" and f: "f \<noteq> 0" "f \<notin> freed_files k"
  shows "task_inv (snd (process_fd_install p f k)) ps"
proof -
  let ?k = "snd (process_fd_install p f k)"
  have "is_ring ?k ps = is_ring k ps"
    by (rule is_ring_cong) (auto simp: process_fd_install_def Let_def split: option.split)
  moreover have "sched_part ?k ps = sched_part k ps" "pid_part ?k ps = pid_part k ps"
      "current_proc ?k = current_proc k"
    by (auto simp: process_fd_install_def Let_def sched_part_def pid_part_def inj_on_def split: option.split)
  ultimately show ?thesis using inv fd_inv_install [of k ps p f] assms by (simp add: task_inv_def)
qed

lemma process_fd_close_keeps [simp]:
  "pid (tasks (process_fd_close p fd k) q) = pid (tasks k q)"
  "state (tasks (process_fd_close p fd k) q) = state (tasks k q)"
  "next_pid (process_fd_close p fd k) = next_pid k"
  by (simp_all add: process_fd_close_def Let_def)

lemma task_inv_close:
  assumes "task_inv k ps" "p \<in> set ps"
  shows "task_inv (process_fd_close p fd k) ps"
  using assms fd_inv_close [of k ps p fd] is_ring_cong [of "process_fd_close p fd k" k ps]
  by (simp add: task_inv_def sched_part_def pid_part_def)

lemma task_inv_close_all:
  assumes "task_inv k ps" "p \<in> set ps"
  shows "task_inv (close_all p k) ps \<and> current_proc (close_all p k) = current_proc k
    \<and> (\<forall>q. state (tasks (close_all p k) q) = state (tasks k q)) \<and> proc_list (close_all p k) = proc_list k"
proof -
  let ?b = "\<lambda>i k. if fds (tasks k p) ! i \<noteq> 0 then process_fd_close p (int i) k else k"
  have "task_inv (fold ?b is k) ps \<and> current_proc (fold ?b is k) = current_proc k
    \<and> (\<forall>q. state (tasks (fold ?b is k) q) = state (tasks k q)) \<and> proc_list (fold ?b is k) = proc_list k" for "is"
    using assms(1) by (induction "is" arbitrary: k) (simp_all add: task_inv_close assms(2))
  then show ?thesis by (simp add: close_all_def)
qed

lemma close_all_fds:
  assumes "length (fds (tasks k p)) = MAX_FDS"
  shows "\<forall>i < MAX_FDS. fds (tasks (close_all p k) p) ! i = 0"
proof -
  let ?b = "\<lambda>i k. if fds (tasks k p) ! i \<noteq> 0 then process_fd_close p (int i) k else k"
  have step: "length (fds (tasks (?b i k) p)) = length (fds (tasks k p))"
    "i < length (fds (tasks k p)) \<Longrightarrow> i < MAX_FDS \<Longrightarrow> fds (tasks (?b i k) p) ! i = 0"
    "fds (tasks k p) ! j = 0 \<Longrightarrow> j < length (fds (tasks k p)) \<Longrightarrow> fds (tasks (?b i k) p) ! j = 0" for i j k
    by (cases "i = j"; auto simp: process_fd_close_def Let_def nth_list_update)+
  have "n \<le> MAX_FDS \<Longrightarrow> length (fds (tasks (fold ?b [0..<n] k) p)) = MAX_FDS
    \<and> (\<forall>i < n. fds (tasks (fold ?b [0..<n] k) p) ! i = 0)" for n
  proof (induction n)
    case (Suc n)
    let ?k = "fold ?b [0..<n] k"
    have IH: "length (fds (tasks ?k p)) = MAX_FDS" "\<forall>i < n. fds (tasks ?k p) ! i = 0" using Suc by auto
    have "fold ?b [0..<Suc n] k = ?b n ?k" by simp
    then show ?case
      using step(1) [where i = n and k = ?k] step(2) [where i = n and k = ?k]
        step(3) [where i = n and k = ?k] IH Suc.prems by (auto simp: less_Suc_eq)
  qed (simp add: assms)
  from this [of MAX_FDS] show ?thesis by (simp add: close_all_def)
qed


section \<open>Process exit\<close>

lemma reparent_simps [simp]:
  "proc_list (reparent p k) = proc_list k" "current_proc (reparent p k) = current_proc k"
  "pnext (tasks (reparent p k) q) = pnext (tasks k q)" "pid (tasks (reparent p k) q) = pid (tasks k q)"
  "fds (tasks (reparent p k) q) = fds (tasks k q)" "files (reparent p k) = files k"
  "freed_files (reparent p k) = freed_files k" "ksched (reparent p k) = ksched k"
  "next_pid (reparent p k) = next_pid k"
  by (simp_all add: reparent_def)

lemma fold_reparent_simps [simp]:
  "proc_list (fold reparent ps k) = proc_list k" "current_proc (fold reparent ps k) = current_proc k"
  "pnext (tasks (fold reparent ps k) q) = pnext (tasks k q)" "pid (tasks (fold reparent ps k) q) = pid (tasks k q)"
  "fds (tasks (fold reparent ps k) q) = fds (tasks k q)" "files (fold reparent ps k) = files k"
  "freed_files (fold reparent ps k) = freed_files k" "ksched (fold reparent ps k) = ksched k"
  "next_pid (fold reparent ps k) = next_pid k"
  by (induction ps arbitrary: k) simp_all

definition adopted :: "kernel \<Rightarrow> nat \<Rightarrow> bool" where
  "adopted k q \<longleftrightarrow> q \<noteq> current_proc k \<and> ppid (tasks k q) = pid (tasks k (current_proc k))"

lemma fold_reparent_tasks:
  "distinct ps \<Longrightarrow> tasks (fold reparent ps k) q =
     (if q \<in> set ps \<and> adopted k q
      then (tasks k q)\<lparr>ppid := 1, sig_pending := sig_pending (tasks k q) OR sigchld_bit\<rparr> else tasks k q)"
proof (induction ps arbitrary: k)
  case (Cons p ps)
  have t: "tasks (reparent p k) q = (if q = p \<and> adopted k q
      then (tasks k q)\<lparr>ppid := 1, sig_pending := sig_pending (tasks k q) OR sigchld_bit\<rparr> else tasks k q)" for q
    by (auto simp: reparent_def adopted_def)
  then have "q \<noteq> p \<Longrightarrow> adopted (reparent p k) q = adopted k q" for q by (simp add: adopted_def)
  then show ?case using Cons t by (cases "q = p") auto
qed simp

lemma task_inv_reparent: "task_inv (fold reparent qs k) ps = task_inv k ps"
  by (rule task_inv_cong) simp_all

lemma notify_parent_inv:
  assumes "task_inv k ps" "q \<in> set ps \<or> q = 0"
  obtains k' where "notify_parent q k = Some k'" "task_inv k' ps" "current_proc k' = current_proc k"
    "\<forall>r. fds (tasks k' r) = fds (tasks k r)" "\<forall>r. ppid (tasks k' r) = ppid (tasks k r)"
    "\<forall>r. exit_status (tasks k' r) = exit_status (tasks k r)"
    "\<forall>r. state (tasks k' r) = (if r = q \<and> q \<noteq> 0 \<and> state (tasks k r) = TASK_BLOCKED then TASK_READY else state (tasks k r))"
    "q \<noteq> 0 \<longrightarrow> sig_pending (tasks k' q) = sig_pending (tasks k q) OR sigchld_bit"
proof (cases "q = 0")
  case True
  then show ?thesis using that [of k] assms by (simp add: notify_parent_def)
next
  case False
  let ?k1 = "upd_task q (\<lambda>t. t\<lparr>sig_pending := sig_pending t OR sigchld_bit\<rparr>) k"
  let ?k2 = "upd_task q (\<lambda>t. t\<lparr>state := TASK_READY\<rparr>) ?k1"
  have i1: "task_inv ?k1 ps" using assms(1) by (subst task_inv_cong) simp_all
  have i2: "task_inv ?k2 ps" using i1 by (subst task_inv_cong) simp_all
  show ?thesis
  proof (cases "state (tasks k q) = TASK_BLOCKED")
    case True
    obtain k' where "k_enqueue q ?k2 = Some k'" "task_inv k' ps" "tasks k' = tasks ?k2" "current_proc k' = current_proc ?k2"
      using k_enqueue_inv [OF i2] False assms(2) by blast
    then show ?thesis using that [of k'] True False by (simp add: notify_parent_def)
  next
    case nb: False
    then show ?thesis using that [of ?k1] i1 False by (simp add: notify_parent_def)
  qed
qed

lemma task_inv_fds_length: "task_inv k ps \<Longrightarrow> p \<in> set ps \<Longrightarrow> length (fds (tasks k p)) = MAX_FDS"
  by (simp add: task_inv_def fd_inv_def fd_ok_def)

lemma close_all_other [simp]: "q \<noteq> p \<Longrightarrow> tasks (close_all p k) q = tasks k q"
proof -
  assume "q \<noteq> p"
  then have "tasks (fold (\<lambda>i k. if fds (tasks k p) ! i \<noteq> 0 then process_fd_close p (int i) k else k) is k) q = tasks k q"
    for "is" by (induction "is" arbitrary: k) simp_all
  then show ?thesis by (simp add: close_all_def)
qed

lemma close_all_keeps [simp]:
  "pid (tasks (close_all p k) q) = pid (tasks k q)" "ppid (tasks (close_all p k) q) = ppid (tasks k q)"
  "exit_status (tasks (close_all p k) q) = exit_status (tasks k q)"
proof -
  let ?b = "\<lambda>i k. if fds (tasks k p) ! i \<noteq> 0 then process_fd_close p (int i) k else k"
  have e: "exit_status (tasks (process_fd_close p fd k) q) = exit_status (tasks k q)" for fd k
    by (simp add: process_fd_close_def Let_def)
  have "pid (tasks (fold ?b is k) q) = pid (tasks k q) \<and> ppid (tasks (fold ?b is k) q) = ppid (tasks k q)
    \<and> exit_status (tasks (fold ?b is k) q) = exit_status (tasks k q)" for "is"
    by (induction "is" arbitrary: k) (simp_all add: e)
  then show "pid (tasks (close_all p k) q) = pid (tasks k q)" "ppid (tasks (close_all p k) q) = ppid (tasks k q)"
    "exit_status (tasks (close_all p k) q) = exit_status (tasks k q)" by (simp_all add: close_all_def)
qed

lemma do_exit_spec:
  assumes inv: "task_inv k ps"
  defines "c \<equiv> current_proc k"
  obtains k' where "do_exit status k = Some k'" "task_inv k' ps" "current_proc k' = c"
    "state (tasks k' c) = TASK_ZOMBIE" "exit_status (tasks k' c) = status"
    "\<forall>i < MAX_FDS. fds (tasks k' c) ! i = 0"
    "\<forall>q \<in> set ps. q \<noteq> c \<longrightarrow> ppid (tasks k' q) = (if ppid (tasks k q) = pid (tasks k c) then 1 else ppid (tasks k q))"
proof -
  have c: "c \<in> set ps" using inv by (simp add: task_inv_def c_def)
  define k1 where "k1 = upd_task c (\<lambda>t. t\<lparr>exit_status := status, state := TASK_ZOMBIE\<rparr>) k"
  define k2 where "k2 = close_all c k1"
  define k3 where "k3 = fold reparent ps k2"
  have i1: "task_inv k1 ps" using inv unfolding k1_def by (subst task_inv_cong) simp_all
  have i2: "task_inv k2 ps" and k2: "current_proc k2 = c" "\<forall>q. state (tasks k2 q) = state (tasks k1 q)"
    using task_inv_close_all [OF i1 c] by (auto simp: k2_def k1_def c_def)
  have z2: "\<forall>i < MAX_FDS. fds (tasks k2 c) ! i = 0"
    unfolding k2_def by (rule close_all_fds) (rule task_inv_fds_length [OF i1 c])
  have i3: "task_inv k3 ps" using i2 by (simp add: k3_def task_inv_reparent)
  have dist: "distinct ps" using inv by (simp add: task_inv_def is_ring_def)
  have ad: "\<not> adopted k2 c" using k2 by (simp add: adopted_def)
  then have k3c: "tasks k3 c = tasks k2 c" using fold_reparent_tasks [OF dist] by (simp add: k3_def)
  let ?q = "find_ptr (\<lambda>q. pid (tasks k3 q) = ppid (tasks k3 c)) ps"
  have q: "?q \<in> set ps \<or> ?q = 0"
    using find_ptr_cases [of ps "\<lambda>q. pid (tasks k3 q) = ppid (tasks k3 c)"] task_invD(1) [OF inv]
    by (auto simp: is_ring_def)
  obtain k' where k': "notify_parent ?q k3 = Some k'" "task_inv k' ps" "current_proc k' = current_proc k3"
    "\<forall>r. fds (tasks k' r) = fds (tasks k3 r)" "\<forall>r. ppid (tasks k' r) = ppid (tasks k3 r)"
    "\<forall>r. exit_status (tasks k' r) = exit_status (tasks k3 r)"
    "\<forall>r. state (tasks k' r) = (if r = ?q \<and> ?q \<noteq> 0 \<and> state (tasks k3 r) = TASK_BLOCKED then TASK_READY else state (tasks k3 r))"
    "?q \<noteq> 0 \<longrightarrow> sig_pending (tasks k' ?q) = sig_pending (tasks k3 ?q) OR sigchld_bit"
    using notify_parent_inv [OF i3 q] .
  have ring: "ring_do reparent (proc_list k2) k2 = Some k3"
    using ring_do_ring [of reparent k2 ps] task_invD(1) [OF i2] by (simp add: k3_def)
  have "proc_list k2 \<noteq> 0" using task_invD(1) [OF i2] is_ring_head by metis
  then have "do_exit status k = Some k'"
    using ring proc_find_ring [OF task_invD(1) [OF i3]] k'(1) k2(1)
    by (simp add: do_exit_def Let_def flip: k1_def k2_def c_def)
  moreover have "state (tasks k' c) = TASK_ZOMBIE" using k'(7) k3c k2 by (simp add: k1_def)
  moreover have "exit_status (tasks k' c) = status" using k'(6) k3c by (simp add: k2_def k1_def)
  moreover have "\<forall>i < MAX_FDS. fds (tasks k' c) ! i = 0" using k'(4) k3c z2 by simp
  moreover have "ppid (tasks k' q) = (if ppid (tasks k q) = pid (tasks k c) then 1 else ppid (tasks k q))"
    if "q \<in> set ps" "q \<noteq> c" for q
    using that k'(5) fold_reparent_tasks [OF dist, of k2 q] k2(1) by (simp add: k3_def adopted_def k2_def k1_def)
  moreover have "current_proc k' = c" using k'(3) k2(1) by (simp add: k3_def)
  ultimately show ?thesis using that k'(2) by blast
qed


section \<open>Process creation\<close>

text \<open>A process that is linked into the ring and queued, in a state \<open>k\<close> where it is initialised.\<close>

lemma adopt_child:
  assumes ring: "is_ring k ps" and p: "p \<notin> set ps" "p \<noteq> 0" and sp: "sched_part k ps"
    and fd: "fd_inv k (proc_list k # p # tl ps)" and pid: "pid_part k (proc_list k # p # tl ps)"
    and cur: "current_proc k \<in> set ps"
  obtains k' where "k_enqueue p (link_proc p k) = Some k'" "task_inv k' (proc_list k # p # tl ps)"
    "current_proc k' = current_proc k" "\<forall>q. pid (tasks k' q) = pid (tasks k q)"
    "\<forall>q. fds (tasks k' q) = fds (tasks k q)" "\<forall>q. ctx (tasks k' q) = ctx (tasks k q)"
    "\<forall>q. ppid (tasks k' q) = ppid (tasks k q)" "\<forall>q. state (tasks k' q) = state (tasks k q)"
    "p \<in> set (runqueue (ksched k'))"
proof -
  let ?k = "link_proc p k" and ?ps = "proc_list k # p # tl ps"
  have ps: "ps = proc_list k # tl ps" using ring by (cases ps) (auto simp: is_ring_def)
  have same: "fds (tasks ?k q) = fds (tasks k q)" "pid (tasks ?k q) = pid (tasks k q)"
    "ctx (tasks ?k q) = ctx (tasks k q)" "ppid (tasks ?k q) = ppid (tasks k q)"
    "state (tasks ?k q) = state (tasks k q)" "files ?k = files k"
    "freed_files ?k = freed_files k" "ksched ?k = ksched k" "next_pid ?k = next_pid k"
    "current_proc ?k = current_proc k" "proc_list ?k = proc_list k" for q
    by (simp_all add: link_proc_def Let_def)
  have "set ps \<subseteq> set ?ps" by (subst ps) auto
  then have "task_inv ?k ?ps"
    using is_ring_link [OF ring p] fd_inv_cong [of ?ps ?k k] same fd sp pid cur
    by (auto simp: task_inv_def sched_part_def pid_part_def)
  from k_enqueue_inv [OF this, of p] obtain k' where "k_enqueue p ?k = Some k'" "task_inv k' ?ps"
    "tasks k' = tasks ?k" "current_proc k' = current_proc ?k" "p \<in> set (runqueue (ksched k'))" by auto
  then show ?thesis using that same by simp
qed

lemma fd_inv_new:
  assumes "fd_inv k (h # qs)" "c \<notin> set (h # qs)" "Suc (length (h # qs)) < 2 ^ 24"
    and "fds (tasks k' c) = replicate MAX_FDS 0" "\<And>q. q \<noteq> c \<Longrightarrow> fds (tasks k' q) = fds (tasks k q)"
    and "files k' = files k" "freed_files k' = freed_files k"
  shows "fd_inv k' (h # c # qs)"
proof -
  have count: "g \<noteq> 0 \<Longrightarrow> count_list (replicate n 0) g = 0" for g n by (induction n) auto
  have map: "map (\<lambda>q. count_list (fds (tasks k' q)) g) qs = map (\<lambda>q. count_list (fds (tasks k q)) g) qs" for g
  proof (rule map_cong [OF refl])
    fix q assume "q \<in> set qs"
    then have "q \<noteq> c" using assms(2) by auto
    then show "count_list (fds (tasks k' q)) g = count_list (fds (tasks k q)) g" using assms(5) by simp
  qed
  have "refs (h # c # qs) (\<lambda>q. fds (tasks k' q)) g = refs (h # qs) (\<lambda>q. fds (tasks k q)) g" if "g \<noteq> 0" for g
    using assms(2,4,5) count [OF that, of MAX_FDS] by (simp add: refs_def map)
  moreover have "\<forall>q \<in> set (h # c # qs). length (fds (tasks k' q)) = MAX_FDS"
    using assms(1,4,5) unfolding fd_inv_def fd_ok_def by (metis insert_iff length_replicate list.simps(15))
  moreover have "g \<noteq> 0" if "g \<in> freed_files k" for g using assms(1) that unfolding fd_inv_def fd_ok_def by metis
  ultimately show ?thesis using assms(1,2,3,6,7) unfolding fd_inv_def fd_ok_def by simp
qed

lemma pid_part_new:
  assumes "pid_part k (h # qs)" "c \<notin> set (h # qs)" "next_pid k + 1 \<noteq> 0"
    and "pid (tasks k' c) = next_pid k" "\<And>q. q \<noteq> c \<Longrightarrow> pid (tasks k' q) = pid (tasks k q)"
    and "next_pid k' = next_pid k + 1"
  shows "pid_part k' (h # c # qs)"
proof -
  have lt: "next_pid k < next_pid k + 1" using assms(3) unatSuc [of "next_pid k"]
    by (simp add: word_less_nat_alt add.commute)
  have old: "pid (tasks k q) < next_pid k" "q \<noteq> c" if "q \<in> set (h # qs)" for q
    using assms(1,2) that by (auto simp: pid_part_def)
  have "\<forall>q \<in> set (h # qs). pid (tasks k' q) < next_pid k" using old assms(5) by simp
  moreover have "inj_on (\<lambda>q. pid (tasks k' q)) (set (h # qs))"
    using assms(1,2,5) old(2) unfolding pid_part_def inj_on_def by metis
  moreover have "set (h # c # qs) = insert c (set (h # qs))" by auto
  ultimately show ?thesis using assms(4,6) lt
    by (auto simp: pid_part_def dest: less_imp_neq intro: less_trans)
qed


lemma sched_part_upd_sproc:
  assumes "sched_part k ps" "p \<notin> set ps" "ksched k' = (ksched k)\<lparr>procs := (procs (ksched k))(p := x)\<rparr>"
    "sched_policy x \<noteq> SCHED_FIFO"
  shows "sched_part k' ps"
proof -
  have "p \<notin> set (runqueue (ksched k))" using assms(1,2) by (auto simp: sched_part_def)
  then show ?thesis using assms sched_inv_upd_proc [of "ksched k" p x]
    by (auto simp: sched_part_def no_fifo_def)
qed

lemma task_create_proc_spec:
  assumes inv: "task_inv k ps" and p: "e_proc e \<notin> set ps" "e_proc e \<noteq> 0"
    and room: "Suc (length ps) < 2 ^ 24" "next_pid k + 1 \<noteq> 0"
  obtains k' where "task_create_proc e ts entry arg k = Some (e_proc e, k')"
    "task_inv k' (hd ps # e_proc e # tl ps)" "pid (tasks k' (e_proc e)) = next_pid k"
    "ppid (tasks k' (e_proc e)) = pid (tasks k (current_proc k))" "e_proc e \<in> set (runqueue (ksched k'))"
proof -
  let ?p = "e_proc e" and ?cur = "tasks k (current_proc k)"
  note I = task_invD [OF inv]
  have ps: "ps = proc_list k # tl ps" "hd ps = proc_list k" using I(1) by (cases ps; auto simp: is_ring_def)+
  define t where "t = zero_task\<lparr>pname := ''kthread'', pid := next_pid k, ppid := pid ?cur,
                     state := TASK_READY, cr3 := tag_cr3 k (e_cr3 e) (next_pid k),
                     kstack := e_kstack e, ctx := thread_frame e ts entry arg,
                     uid := uid ?cur, gid := gid ?cur, euid := euid ?cur, egid := egid ?cur,
                     cwd := cwd ?cur\<rparr>"
  define k1 where "k1 = upd_sproc ?p zero_sproc (k\<lparr>tasks := (tasks k)(?p := t), next_pid := next_pid k + 1\<rparr>)"
  have k1: "tasks k1 = (tasks k)(?p := t)" "proc_list k1 = proc_list k" "current_proc k1 = current_proc k"
    "next_pid k1 = next_pid k + 1" "files k1 = files k" "freed_files k1 = freed_files k"
    "ksched k1 = (ksched k)\<lparr>procs := (procs (ksched k))(?p := zero_sproc)\<rparr>"
    by (simp_all add: k1_def) (simp add: upd_sproc_def)
  have t: "pid t = next_pid k" "ppid t = pid ?cur" "fds t = replicate MAX_FDS 0"
    by (simp_all add: t_def zero_task_def)
  have notin: "?p \<notin> set (proc_list k # tl ps)" using p(1) ps(1) by simp
  have fd: "fd_inv k1 (proc_list k1 # ?p # tl ps)" unfolding k1(2)
    by (rule fd_inv_new [of k]) (use I(2) ps(1) notin room(1) t(3) k1 in auto)
  have pp: "pid_part k1 (proc_list k1 # ?p # tl ps)" unfolding k1(2)
    by (rule pid_part_new [of k]) (use I(4) ps(1) notin room(2) t(1) k1 in auto)
  have "is_ring k1 ps = is_ring k ps" using p(1) k1 by (intro is_ring_cong) auto
  moreover have "sched_part k1 ps"
    by (rule sched_part_upd_sproc [OF I(3) p(1) k1(7)]) (simp add: zero_sproc_def)
  ultimately obtain k' where k': "k_enqueue ?p (link_proc ?p k1) = Some k'" "task_inv k' (proc_list k1 # ?p # tl ps)"
    "\<forall>q. pid (tasks k' q) = pid (tasks k1 q)" "\<forall>q. ppid (tasks k' q) = ppid (tasks k1 q)"
    "?p \<in> set (runqueue (ksched k'))"
    using adopt_child [of k1 ps ?p] p fd pp I(1,5) k1(3) by metis
  have "task_create_proc e ts entry arg k = Some (?p, k')"
    using p(2) k'(1) by (simp add: task_create_proc_def Let_def flip: t_def k1_def)
  then show ?thesis using that k' t k1 ps(2) by simp
qed

lemma task_fork_spec:
  assumes inv: "task_inv k ps" and p: "e_proc e \<notin> set ps" "e_proc e \<noteq> 0"
    and room: "Suc (length ps) < 2 ^ 24" "next_pid k + 1 \<noteq> 0"
  obtains k' where "task_fork e fce regs k = Some (e_proc e, k')"
    "task_inv k' (hd ps # e_proc e # tl ps)" "pid (tasks k' (e_proc e)) = next_pid k"
    "ppid (tasks k' (e_proc e)) = pid (tasks k (current_proc k))"
    "fds (tasks k' (e_proc e)) = fds (tasks k (current_proc k))"
    "ctx (tasks k' (e_proc e)) = fork_frame e fce regs" "e_proc e \<in> set (runqueue (ksched k'))"
proof -
  let ?c = "e_proc e" and ?par = "tasks k (current_proc k)"
  note I = task_invD [OF inv]
  have ps: "ps = proc_list k # tl ps" "hd ps = proc_list k" using I(1) by (cases ps; auto simp: is_ring_def)+
  define t where "t = ?par\<lparr>pid := next_pid k, ppid := pid ?par, state := TASK_READY, ctx := [],
                 exit_status := 0, sig_pending := 0\<rparr>"
  define k1 where "k1 = upd_sproc ?c (procs (ksched k) (current_proc k))
                (k\<lparr>tasks := (tasks k)(?c := t), next_pid := next_pid k + 1\<rparr>)"
  define k2 where "k2 = fold (fork_fd ?c) [0..<MAX_FDS] k1"
  define k3 where "k3 = upd_task ?c (\<lambda>t. t\<lparr>cr3 := tag_cr3 k (e_cr3 e) (pid t), kstack := e_kstack e,
                 user_rsp := e_user_stack e, ctx := fork_frame e fce regs\<rparr>) k2"
  have k1: "tasks k1 = (tasks k)(?c := t)" "proc_list k1 = proc_list k" "files k1 = files k" "freed_files k1 = freed_files k"
    "current_proc k1 = current_proc k" "next_pid k1 = next_pid k + 1"
    "ksched k1 = (ksched k)\<lparr>procs := (procs (ksched k))(?c := procs (ksched k) (current_proc k))\<rparr>"
    by (simp_all add: k1_def) (simp add: upd_sproc_def)
  have len: "length (fds (tasks k1 ?c)) = MAX_FDS"
    using task_inv_fds_length [OF inv I(5)] by (simp add: k1 t_def)
  have "current_proc (fork_fd ?c i k) = current_proc k \<and> next_pid (fork_fd ?c i k) = next_pid k" for i k
    by (simp add: fork_fd_def Let_def)
  then have cn: "current_proc (fold (fork_fd ?c) is k) = current_proc k \<and> next_pid (fold (fork_fd ?c) is k) = next_pid k" for "is" k
    by (induction "is" arbitrary: k) simp_all
  have k2: "tasks k2 = tasks k1" "freed_files k2 = freed_files k1" "proc_list k2 = proc_list k1" "ksched k2 = ksched k1"
    "current_proc k2 = current_proc k1" "next_pid k2 = next_pid k1"
    "\<And>g. g \<noteq> 0 \<Longrightarrow> refcount (files k2 g) = refcount (files k1 g) + of_nat (count_list (fds (tasks k1 ?c)) g)"
    using fold_fork_fd [of MAX_FDS k1 ?c] len cn [of "[0..<MAX_FDS]" k1] by (auto simp: k2_def)
  have k3: "fds (tasks k3 ?c) = fds ?par" "pid (tasks k3 ?c) = next_pid k" "ppid (tasks k3 ?c) = pid ?par"
    "ctx (tasks k3 ?c) = fork_frame e fce regs" "proc_list k3 = proc_list k" "current_proc k3 = current_proc k"
    "freed_files k3 = freed_files k" "next_pid k3 = next_pid k + 1" "ksched k3 = ksched k1"
    "\<And>q. q \<noteq> ?c \<Longrightarrow> tasks k3 q = tasks k q"
    "\<And>g. g \<noteq> 0 \<Longrightarrow> refcount (files k3 g) = refcount (files k g) + of_nat (count_list (fds ?par) g)"
    using k2 by (simp_all add: k3_def k1 t_def)
  have notin: "?c \<notin> set (proc_list k # tl ps)" using p(1) ps(1) by simp
  have ok: "fd_ok (proc_list k # tl ps) (\<lambda>q. fds (tasks k q)) (\<lambda>f. refcount (files k f)) (freed_files k)"
    using I(2) ps(1) by (simp add: fd_inv_def)
  have same: "fds (tasks k3 q) = fds (tasks k q)" if "q \<in> set (proc_list k # tl ps)" for q
    using that notin k3(10) by metis
  have "fd_ok (proc_list k # ?c # tl ps) (\<lambda>q. fds (tasks k3 q)) (\<lambda>f. refcount (files k3 f)) (freed_files k)"
    by (rule fd_ok_fork [OF ok notin, where p = "current_proc k"])
      (use k3 I(5) ps(1) room(1) same in auto)
  then have fd: "fd_inv k3 (proc_list k3 # ?c # tl ps)" by (simp add: fd_inv_def k3)
  have pp: "pid_part k3 (proc_list k3 # ?c # tl ps)" unfolding k3(5)
    by (rule pid_part_new [of k]) (use I(4) ps(1) notin room(2) k3 in auto)
  have "is_ring k3 ps = is_ring k ps" using p(1) k3(5,10) by (intro is_ring_cong) metis+
  moreover have "sched_part k1 ps"
    using sched_part_upd_sproc [OF I(3) p(1) k1(7)] I(3) by (auto simp: sched_part_def no_fifo_def)
  then have "sched_part k3 ps" using k3 by (simp add: sched_part_def)
  ultimately obtain k' where k': "k_enqueue ?c (link_proc ?c k3) = Some k'" "task_inv k' (proc_list k3 # ?c # tl ps)"
    "\<forall>q. pid (tasks k' q) = pid (tasks k3 q)" "\<forall>q. ppid (tasks k' q) = ppid (tasks k3 q)"
    "\<forall>q. fds (tasks k' q) = fds (tasks k3 q)" "\<forall>q. ctx (tasks k' q) = ctx (tasks k3 q)"
    "?c \<in> set (runqueue (ksched k'))"
    using adopt_child [of k3 ps ?c] p fd pp I(1,5) k3(6) by metis
  have "task_fork e fce regs k = Some (?c, k')"
    using k'(1) by (simp add: task_fork_def Let_def flip: t_def k1_def k2_def k3_def)
  then show ?thesis using that k' k3 ps(2) by simp
qed


section \<open>Scheduling keeps the invariant\<close>

lemma task_inv_ksched:
  assumes "task_inv k ps" "sched_inv s" "no_fifo s" "set (runqueue s) \<subseteq> set ps"
  shows "task_inv (k\<lparr>ksched := s\<rparr>) ps"
  using assms is_ring_cong [of "k\<lparr>ksched := s\<rparr>" k ps] fd_inv_cong [of ps "k\<lparr>ksched := s\<rparr>" k]
  by (simp add: task_inv_def sched_part_def pid_part_def)

lemma k_pick_inv:
  assumes inv: "task_inv k ps"
  obtains p s where "k_pick k = Some (p, k\<lparr>ksched := s\<rparr>)" "task_inv (k\<lparr>ksched := s\<rparr>) ps"
    "p = 0 \<or> p \<in> set (runqueue (ksched k)) \<and> length (runqueue s) < length (runqueue (ksched k))"
    "set (runqueue s) = set (runqueue (ksched k)) - {p}"
proof (cases "runqueue (ksched k) = []")
  case True
  then have "k_pick k = Some (0, k\<lparr>ksched := ksched k\<rparr>)"
    using sched_pick_next_empty [of "ksched k"] task_invD(3) [OF inv] by (simp add: k_pick_def sched_part_def)
  then show ?thesis using that [of 0 "ksched k"] inv True by simp
next
  case False
  have sp: "sched_inv (ksched k)" "no_fifo (ksched k)" "set (runqueue (ksched k)) \<subseteq> set ps"
    using task_invD(3) [OF inv] by (auto simp: sched_part_def)
  obtain p s where s: "sched_pick_next (ksched k) = Some (Some p, s)" "sched_inv s" "no_fifo s"
    "p \<in> set (runqueue (ksched k))" "set (runqueue s) = set (runqueue (ksched k)) - {p}"
    "length (runqueue s) < length (runqueue (ksched k))"
    using sched_pick_next_client [OF sp(1,2) False] .
  then have "task_inv (k\<lparr>ksched := s\<rparr>) ps" using task_inv_ksched [OF inv s(2,3)] sp(3) by blast
  then show ?thesis using that [of p s] s by (simp add: k_pick_def)
qed

lemma pick_runnable_inv:
  assumes "task_inv k ps" "p = 0 \<or> p \<in> set ps"
  shows "\<exists>p' s. pick_runnable p k = Some (p', k\<lparr>ksched := s\<rparr>) \<and> task_inv (k\<lparr>ksched := s\<rparr>) ps
    \<and> (p' = 0 \<or> runnable (tasks k p')) \<and> (p' = 0 \<or> p' = p \<or> p' \<in> set (runqueue (ksched k)))"
  using assms
proof (induction "length (runqueue (ksched k))" arbitrary: k p rule: less_induct)
  case less
  show ?case
  proof (cases "p = 0 \<or> runnable (tasks k p)")
    case True
    then show ?thesis using less.prems by (subst pick_runnable.simps) (auto intro!: exI [of _ "ksched k"])
  next
    case False
    have sp: "sched_inv (ksched k)" "no_fifo (ksched k)" "set (runqueue (ksched k)) \<subseteq> set ps"
      using task_invD(3) [OF less.prems(1)] by (auto simp: sched_part_def)
    obtain s0 where s0: "(if state (tasks k p) = TASK_ZOMBIE
        then map_option (\<lambda>s. k\<lparr>ksched := s\<rparr>) (sched_remove p (ksched k)) else Some k) = Some (k\<lparr>ksched := s0\<rparr>)"
      "sched_inv s0" "no_fifo s0" "set (runqueue s0) \<subseteq> set (runqueue (ksched k))"
      "length (runqueue s0) \<le> length (runqueue (ksched k))"
    proof (cases "state (tasks k p) = TASK_ZOMBIE")
      case z: True
      obtain s' where "sched_remove p (ksched k) = Some s'" "sched_inv s'" "no_fifo s' = no_fifo (ksched k)"
        "set (runqueue s') \<subseteq> set (runqueue (ksched k))" "length (runqueue s') \<le> length (runqueue (ksched k))"
        using sched_remove_client [OF sp(1)] .
      then show ?thesis using that [of s'] z sp(2) by simp
    next
      case nz: False
      then show ?thesis using that [of "ksched k"] sp by simp
    qed
    let ?k1 = "k\<lparr>ksched := s0\<rparr>"
    have i1: "task_inv ?k1 ps" using task_inv_ksched [OF less.prems(1) s0(2,3)] s0(4) sp(3) by blast
    obtain p' s where s: "k_pick ?k1 = Some (p', ?k1\<lparr>ksched := s\<rparr>)" "task_inv (?k1\<lparr>ksched := s\<rparr>) ps"
      "p' = 0 \<or> p' \<in> set (runqueue (ksched ?k1)) \<and> length (runqueue s) < length (runqueue (ksched ?k1))"
      "set (runqueue s) = set (runqueue (ksched ?k1)) - {p'}"
      using k_pick_inv [OF i1] .
    have rec: "pick_runnable p k = pick_runnable p' (k\<lparr>ksched := s\<rparr>)"
      using False s0(1) s(1) by (subst pick_runnable.simps) simp
    show ?thesis
    proof (cases "p' = 0")
      case True
      then have "pick_runnable p' (k\<lparr>ksched := s\<rparr>) = Some (0, k\<lparr>ksched := s\<rparr>)" by (subst pick_runnable.simps) simp
      then show ?thesis using rec s(2) by auto
    next
      case nz: False
      then have lt: "length (runqueue (ksched (k\<lparr>ksched := s\<rparr>))) < length (runqueue (ksched k))"
        using s(3) s0(5) by simp
      have "p' \<in> set (runqueue (ksched k))" using s(3) nz s0(4) by auto
      then have "p' \<in> set ps" using sp(3) by blast
      from less.hyps [OF lt, of p'] s(2) this obtain p2 s2 where
        "pick_runnable p' (k\<lparr>ksched := s\<rparr>) = Some (p2, k\<lparr>ksched := s2\<rparr>)" "task_inv (k\<lparr>ksched := s2\<rparr>) ps"
        "p2 = 0 \<or> runnable (tasks k p2)" "p2 = 0 \<or> p2 = p' \<or> p2 \<in> set (runqueue s)" by auto
      then show ?thesis using rec s(4) s0(4) \<open>p' \<in> set (runqueue (ksched k))\<close> by auto
    qed
  qed
qed


lemma schedule_spec:
  assumes inv: "task_inv k ps"
  obtains k' where "schedule u k = Some k'" "task_inv k' ps"
    "current_proc k' = current_proc k \<and> tasks k' = tasks k \<or>
     (current_proc k' \<noteq> current_proc k \<and> current_proc k' \<in> set (runqueue (ksched k))
      \<and> runnable (tasks k (current_proc k')) \<and> state (tasks k' (current_proc k')) = TASK_RUNNING
      \<and> (state (tasks k (current_proc k)) = TASK_RUNNING \<and> kstack (tasks k (current_proc k)) \<noteq> 0 \<longrightarrow>
           state (tasks k' (current_proc k)) = TASK_READY \<and> current_proc k \<in> set (runqueue (ksched k')))
      \<and> (\<forall>q. q \<noteq> current_proc k \<and> q \<noteq> current_proc k' \<longrightarrow> tasks k' q = tasks k q))"
proof -
  note I = task_invD [OF inv]
  define c where "c = current_proc k"
  have c0: "c \<noteq> 0" using I(5,6) by (auto simp: c_def)
  obtain p0 s0 where p0: "k_pick k = Some (p0, k\<lparr>ksched := s0\<rparr>)" "task_inv (k\<lparr>ksched := s0\<rparr>) ps"
    "p0 = 0 \<or> p0 \<in> set (runqueue (ksched k)) \<and> length (runqueue s0) < length (runqueue (ksched k))"
    "set (runqueue s0) = set (runqueue (ksched k)) - {p0}"
    using k_pick_inv [OF inv] .
  have "p0 = 0 \<or> p0 \<in> set ps" using p0(3) I(3) by (auto simp: sched_part_def)
  from pick_runnable_inv [OF p0(2) this] obtain p s where
    p: "pick_runnable p0 (k\<lparr>ksched := s0\<rparr>) = Some (p, k\<lparr>ksched := s\<rparr>)" "task_inv (k\<lparr>ksched := s\<rparr>) ps"
    "p = 0 \<or> runnable (tasks k p)" "p = 0 \<or> p = p0 \<or> p \<in> set (runqueue s0)" by auto
  let ?k1 = "k\<lparr>ksched := s\<rparr>"
  show ?thesis
  proof (cases "p = 0 \<or> p = c")
    case True
    then have "schedule u k = Some ?k1" using p0(1) p(1) c0 by (auto simp: schedule_def c_def)
    then show ?thesis using that [of ?k1] p(2) by (simp add: c_def)
  next
    case False
    let ?sw = "state (tasks k c) = TASK_RUNNING \<and> kstack (tasks k c) \<noteq> 0"
    let ?r = "upd_task c (\<lambda>t. t\<lparr>state := TASK_READY\<rparr>) ?k1"
    have "task_inv ?r ps" using p(2) by (subst task_inv_cong) simp_all
    from k_enqueue_inv [OF this, of c] I(5) obtain ke where
      ke: "k_enqueue c ?r = Some ke" "task_inv ke ps" "tasks ke = tasks ?r" "current_proc ke = c"
      "c \<in> set (runqueue (ksched ke))" by (auto simp: c_def)
    define k2 where "k2 = (if ?sw then ke else ?k1)"
    have i2: "task_inv k2 ps" using ke p(2) by (simp add: k2_def)
    have t2: "tasks k2 = (if ?sw then tasks ?r else tasks k)" "current_proc k2 = c" using ke by (simp_all add: k2_def c_def)
    define k4 where "k4 = upd_task p (\<lambda>t. t\<lparr>state := TASK_RUNNING\<rparr>) (upd_task c (\<lambda>t. t\<lparr>user_rsp := u\<rparr>) k2)"
    define k' where "k' = switch_cpu c p (k4\<lparr>current_proc := p\<rparr>)"
    have sch: "schedule u k = Some k'"
      using p0(1) p(1) c0 False ke(1) by (auto simp: schedule_def Let_def k'_def k4_def k2_def c_def)
    have i4: "task_inv k4 ps" using i2 unfolding k4_def by (subst task_inv_cong) simp_all
    have inq: "p \<in> set (runqueue (ksched k))" using False p(4) p0(3,4) by auto
    then have "p \<in> set ps" using I(3) by (auto simp: sched_part_def)
    have sw: "tasks k' = tasks k4" "ksched k' = ksched k4" "proc_list k' = proc_list k4" "current_proc k' = p"
      "files k' = files k4" "freed_files k' = freed_files k4" "next_pid k' = next_pid k4"
      by (simp_all add: k'_def switch_cpu_def Let_def)
    have "task_inv k' ps"
      using i4 \<open>p \<in> set ps\<close> is_ring_cong [of k' k4 ps] fd_inv_cong [of ps k' k4] sw
      by (simp add: task_inv_def sched_part_def pid_part_def)
    moreover have "state (tasks k' p) = TASK_RUNNING" "ksched k' = ksched k2"
      "?sw \<Longrightarrow> state (tasks k' c) = TASK_READY" "\<And>q. q \<noteq> c \<Longrightarrow> q \<noteq> p \<Longrightarrow> tasks k' q = tasks k q"
      using sw t2 False by (auto simp: k4_def)
    moreover have "?sw \<Longrightarrow> c \<in> set (runqueue (ksched k2))" using ke(5) by (simp add: k2_def)
    ultimately show ?thesis using that [OF sch] sw(4) False p(3) inq by (auto simp: c_def)
  qed
qed

section \<open>Reachable kernel states\<close>

text \<open>
  One operation of \<^verbatim>\<open>task.c\<close>. A pointer that an allocator returns is fresh: it is not the
  address of a process in the ring, and a new file is not held by any descriptor.
\<close>

inductive task_step :: "kernel \<Rightarrow> nat list \<Rightarrow> kernel \<Rightarrow> nat list \<Rightarrow> bool" where
  step_new_file: "f \<noteq> 0 \<Longrightarrow> refs ps (\<lambda>p. fds (tasks k p)) f = 0 \<Longrightarrow> task_step k ps (new_file f n flags k) ps"
| step_install: "p \<in> set ps \<Longrightarrow> f \<noteq> 0 \<Longrightarrow> f \<notin> freed_files k \<Longrightarrow>
    task_step k ps (snd (process_fd_install p f k)) ps"
| step_close: "p \<in> set ps \<Longrightarrow> task_step k ps (process_fd_close p fd k) ps"
| step_create: "e_proc e \<notin> set ps \<Longrightarrow> e_proc e \<noteq> 0 \<Longrightarrow> Suc (length ps) < 2 ^ 24 \<Longrightarrow> next_pid k + 1 \<noteq> 0 \<Longrightarrow>
    task_create_proc e ts entry arg k = Some (c, k') \<Longrightarrow> task_step k ps k' (hd ps # c # tl ps)"
| step_fork: "e_proc e \<notin> set ps \<Longrightarrow> e_proc e \<noteq> 0 \<Longrightarrow> Suc (length ps) < 2 ^ 24 \<Longrightarrow> next_pid k + 1 \<noteq> 0 \<Longrightarrow>
    task_fork e fce regs k = Some (c, k') \<Longrightarrow> task_step k ps k' (hd ps # c # tl ps)"
| step_exit: "do_exit status k = Some k' \<Longrightarrow> task_step k ps k' ps"
| step_schedule: "schedule u k = Some k' \<Longrightarrow> task_step k ps k' ps"

inductive task_reach :: "kernel \<Rightarrow> nat list \<Rightarrow> kernel \<Rightarrow> nat list \<Rightarrow> bool" for k0 ps0 where
  reach_start: "task_reach k0 ps0 k0 ps0"
| reach_step: "task_reach k0 ps0 k ps \<Longrightarrow> task_step k ps k' ps' \<Longrightarrow> task_reach k0 ps0 k' ps'"

inductive_cases task_stepE: "task_step k ps k' ps'"

lemma task_inv_new_file:
  assumes "task_inv k ps" "f \<noteq> 0" "refs ps (\<lambda>p. fds (tasks k p)) f = 0"
  shows "task_inv (new_file f n flags k) ps"
proof -
  have "fd_inv (new_file f n flags k) ps"
    using assms unfolding task_inv_def fd_inv_def fd_ok_def by (auto simp: new_file_def)
  then show ?thesis using assms(1) is_ring_cong [of "new_file f n flags k" k ps]
    by (simp add: task_inv_def sched_part_def pid_part_def new_file_def)
qed

lemma task_step_inv:
  assumes "task_step k ps k' ps'" "task_inv k ps"
  shows "task_inv k' ps'"
  using assms(1)
proof (cases rule: task_step.cases)
  case step_new_file
  then show ?thesis using task_inv_new_file [OF assms(2)] by simp
next
  case step_install
  then show ?thesis using task_inv_install [OF assms(2)] by simp
next
  case step_close
  then show ?thesis using task_inv_close [OF assms(2)] by simp
next
  case (step_create e ts entry arg c)
  obtain k'' where "task_create_proc e ts entry arg k = Some (e_proc e, k'')" "task_inv k'' (hd ps # e_proc e # tl ps)"
    using task_create_proc_spec [OF assms(2) step_create(2,3,4,5)] by metis
  then show ?thesis using step_create by simp
next
  case (step_fork e fce regs c)
  obtain k'' where "task_fork e fce regs k = Some (e_proc e, k'')" "task_inv k'' (hd ps # e_proc e # tl ps)"
    using task_fork_spec [OF assms(2) step_fork(2,3,4,5)] by metis
  then show ?thesis using step_fork by simp
next
  case (step_exit status)
  obtain k'' where "do_exit status k = Some k''" "task_inv k'' ps" using do_exit_spec [OF assms(2)] by metis
  then show ?thesis using step_exit by simp
next
  case (step_schedule u)
  obtain k'' where "schedule u k = Some k''" "task_inv k'' ps" using schedule_spec [OF assms(2)] by metis
  then show ?thesis using step_schedule by simp
qed

lemma task_reach_inv: "task_reach k0 ps0 k ps \<Longrightarrow> task_inv k0 ps0 \<Longrightarrow> task_inv k ps"
  by (induction rule: task_reach.induct) (auto intro: task_step_inv)


section \<open>Booting\<close>

text \<open>
  Before \<^verbatim>\<open>task_init\<close> the run queue is empty and no open file is allocated.
\<close>

definition boot_state :: "kernel \<Rightarrow> bool" where
  "boot_state k \<longleftrightarrow> sched_inv (ksched k) \<and> no_fifo (ksched k) \<and> runqueue (ksched k) = []
     \<and> next_pid k = 1 \<and> freed_files k = - {0}"

lemma task_init_inv:
  assumes boot: "boot_state k0" and init: "task_init p cr root k0 = Some k"
  shows "task_inv k [p]"
proof -
  have p: "p \<noteq> 0" using init by (auto simp: task_init_def split: if_splits)
  have count: "g \<noteq> 0 \<Longrightarrow> count_list (replicate n 0) g = 0" for g n by (induction n) auto
  define t where "t = zero_task\<lparr>pid := 1, state := TASK_RUNNING, cr3 := cr, cwd := root, pname := ''init'', pnext := p\<rparr>"
  have t: "pid t = 1" "pnext t = p" "fds t = replicate MAX_FDS 0"
    by (simp_all add: t_def zero_task_def)
  have n: "next_pid k0 = 1" "freed_files k0 = - {0}" using boot by (simp_all add: boot_state_def)
  have keq: "k = upd_sproc p zero_sproc
      (k0\<lparr>tasks := (tasks k0)(p := t), next_pid := 1 + 1, current_proc := p, proc_list := p\<rparr>)"
    using init p unfolding task_init_def n t_def by simp
  have k: "tasks k p = t"
    "proc_list k = p" "current_proc k = p" "next_pid k = 2" "freed_files k = - {0}"
    "ksched k = (ksched k0)\<lparr>procs := (procs (ksched k0))(p := zero_sproc)\<rparr>"
    unfolding keq by (simp_all add: n) (simp add: upd_sproc_def)
  have "is_ring k [p]" using p by (simp add: is_ring_def k t)
  moreover have "fd_inv k [p]"
  proof -
    have f: "fds (tasks k p) = replicate MAX_FDS 0" by (simp only: k t)
    then have "refs [p] (\<lambda>q. fds (tasks k q)) g = 0" if "g \<noteq> 0" for g
      using count [OF that, of MAX_FDS] by (simp only: refs_def list.map sum_list.Cons sum_list.Nil)
    then show ?thesis
      using f by (simp add: fd_inv_def fd_ok_def k)
  qed
  moreover have "sched_part k0 []" using boot by (simp add: boot_state_def sched_part_def)
  then have "sched_part k []" by (rule sched_part_upd_sproc [OF _ _ k(6)]) (simp_all add: zero_sproc_def)
  then have "sched_part k [p]" by (simp add: sched_part_def)
  moreover have "pid_part k [p]" by (simp add: pid_part_def k t)
  ultimately show ?thesis by (simp add: task_inv_def k)
qed

definition boot_kernel :: kernel where
  "boot_kernel = \<lparr>ksched = \<lparr>procs = (\<lambda>_. zero_sproc), runqueue = [], rq_capacity = 64, min_vruntime = 0,
      sched_locked = False\<rparr>, tasks = (\<lambda>_. zero_task), proc_list = 0, current_proc = 0, next_pid = 1,
     pcid_supported = False, files = (\<lambda>_. \<lparr>node = 0, foffset = 0, fflags = 0, refcount = 7\<rparr>),
     nodes = (\<lambda>_. \<lparr>nflags = 5, impl = 40, has_close = False\<rparr>),
     pipes = (\<lambda>_. \<lparr>readers = 1, writers = 1\<rparr>), freed_files = - {0}, freed_pipes = {}, freed_nodes = {},
     freed_procs = {}, close_calls = [],
     kcpu = \<lparr>cpu_cr3 = 0, tss_rsp0 = 0, syscall_kernel_stack = 0, syscall_user_stack = 0\<rparr>\<rparr>"

definition init_kernel :: kernel where
  "init_kernel = the (task_init 8 0x1000 0 boot_kernel)"

lemma init_kernel: "boot_state boot_kernel" "task_init 8 0x1000 0 boot_kernel = Some init_kernel" "task_inv init_kernel [8]"
proof -
  show b: "boot_state boot_kernel"
    by (simp add: boot_state_def boot_kernel_def no_fifo_def zero_sproc_def sched_inv_def is_heap_def)
  show i: "task_init 8 0x1000 0 boot_kernel = Some init_kernel"
    by (simp add: init_kernel_def task_init_def)
  show "task_inv init_kernel [8]" using task_init_inv [OF b i] .
qed

lemmas init_kernel_simps = init_kernel_def boot_kernel_def task_init_def upd_sproc_def zero_task_def

section \<open>Properties\<close>

text \<open>
  C12. The process table stays a ring with unique ids: in every state reached from
  \<^verbatim>\<open>task_init\<close> by creating, forking, exiting and scheduling processes and by descriptor
  operations, \<^verbatim>\<open>proc_find\<close> returns, finds every process of the ring under its own id, and
  answers \<^verbatim>\<open>NULL\<close> for exactly the ids no process has.
\<close>

theorem proc_table_correct:
  assumes "boot_state k0" "task_init p cr root k0 = Some k1" "task_reach k1 [p] k ps"
  shows "(\<forall>q \<in> set ps. proc_find (pid (tasks k q)) k = Some q)
    \<and> (\<forall>i. (\<forall>q \<in> set ps. pid (tasks k q) \<noteq> i) \<longleftrightarrow> proc_find i k = Some 0)"
proof -
  have inv: "task_inv k ps" using task_reach_inv [OF assms(3) task_init_inv [OF assms(1,2)]] .
  note I = task_invD [OF inv]
  have zero: "0 \<notin> set ps" using I(1) by (simp add: is_ring_def)
  have pf: "proc_find i k = Some (find_ptr (\<lambda>q. pid (tasks k q) = i) ps)" for i
    using proc_find_ring [OF I(1)] .
  have "find_ptr (\<lambda>r. pid (tasks k r) = pid (tasks k q)) ps = q" if "q \<in> set ps" for q
    using find_ptr_cases [OF zero, of "\<lambda>r. pid (tasks k r) = pid (tasks k q)"] that I(4)
    by (auto simp: pid_part_def inj_on_def)
  moreover have "(\<forall>q \<in> set ps. pid (tasks k q) \<noteq> i) \<longleftrightarrow> find_ptr (\<lambda>q. pid (tasks k q) = i) ps = 0" for i
    using find_ptr_cases [OF zero, of "\<lambda>q. pid (tasks k q) = i"] zero by auto
  ultimately show ?thesis using pf by simp
qed

theorem proc_table_correct_witness: "proc_find 1 init_kernel = Some 8 \<and> proc_find 9 init_kernel = Some 0"
proof -
  have p: "pid (tasks init_kernel 8) = 1" by (simp add: init_kernel_simps)
  have T: "\<forall>q \<in> set [8]. proc_find (pid (tasks init_kernel q)) init_kernel = Some q"
    "(\<forall>q \<in> set [8]. pid (tasks init_kernel q) \<noteq> 9) \<longleftrightarrow> proc_find 9 init_kernel = Some 0"
    using proc_table_correct [OF init_kernel(1,2) task_reach.reach_start] by blast+
  from T(1) p have "proc_find 1 init_kernel = Some 8" by simp
  moreover from T(2) p have "proc_find 9 init_kernel = Some 0" by simp
  ultimately show ?thesis by simp
qed

text \<open>
  C2. No descriptor dangles under the operations of \<^verbatim>\<open>task.c\<close>: in every state that opening a file, installing and closing
  descriptors, creating and forking processes, exiting and scheduling reach from the state after \<^verbatim>\<open>task_init\<close>, the reference
  count of an open file is the number of descriptors, over all processes, that hold it, and a file that a
  descriptor holds has not been freed. Other code that sets the count of a file itself, such as \<^verbatim>\<open>socket.c\<close> and \<^verbatim>\<open>sys_dup2\<close>, is not among these steps.
\<close>

theorem fd_refcount_safe:
  assumes "boot_state k0" "task_init p cr root k0 = Some k1" "task_reach k1 [p] k ps"
    and "q \<in> set ps" "i < MAX_FDS" "fds (tasks k q) ! i = f" "f \<noteq> 0"
  shows "f \<notin> freed_files k \<and> unat (refcount (files k f)) = (\<Sum>r\<leftarrow>ps. count_list (fds (tasks k r)) f)"
proof -
  let ?F = "\<lambda>r. fds (tasks k r)"
  have inv: "task_inv k ps" using task_reach_inv [OF assms(3) task_init_inv [OF assms(1,2)]] .
  have ok: "fd_ok ps ?F (\<lambda>f. refcount (files k f)) (freed_files k)"
    using task_invD(2) [OF inv] by (simp add: fd_inv_def)
  have "f \<in> set (?F q)" using assms(5,6) task_inv_fds_length [OF inv assms(4)] nth_mem by metis
  then have "0 < count_list (?F q) f" by (metis count_list_0_iff neq0_conv)
  also have "count_list (?F q) f \<le> refs ps ?F f"
    using assms(4) member_le_sum_list [of "count_list (?F q) f" "map (\<lambda>q. count_list (?F q) f) ps"]
    by (auto simp: refs_def)
  finally have pos: "0 < refs ps ?F f" .
  then have nf: "f \<notin> freed_files k" using ok unfolding fd_ok_def by (metis less_irrefl)
  moreover have "refcount (files k f) = of_nat (refs ps ?F f)"
    using ok assms(7) nf unfolding fd_ok_def by blast
  moreover have "unat (of_nat (refs ps ?F f) :: u32) = refs ps ?F f"
    using fd_ok_refs_less [OF ok, of f] by (simp add: unat_of_nat take_bit_nat_eq_self)
  ultimately show ?thesis by (simp add: refs_def)
qed


definition open_kernel :: kernel where
  "open_kernel = snd (process_fd_install 8 5 (new_file 5 9 0 init_kernel))"

lemma init_kernel_fields:
  "fds (tasks init_kernel 8) = replicate MAX_FDS 0" "freed_files init_kernel = - {0}"
  "current_proc init_kernel = 8" "next_pid init_kernel = 2" "proc_list init_kernel = 8"
  "pid (tasks init_kernel 8) = 1" "ppid (tasks init_kernel 8) = 0" "state (tasks init_kernel 8) = TASK_RUNNING"
  by (simp_all add: init_kernel_simps)

lemma first_free_replicate: "first_free (replicate (Suc n) 0) i = Some i"
  by simp

lemma open_kernel_eq:
  "open_kernel = upd_file 5 (\<lambda>fl. fl\<lparr>refcount := refcount fl + 1\<rparr>)
     (upd_task 8 (\<lambda>t. t\<lparr>fds := (fds t)[0 := 5]\<rparr>) (new_file 5 9 0 init_kernel))"
proof -
  have t: "tasks (new_file 5 9 0 init_kernel) = tasks init_kernel" by (simp add: new_file_def)
  have "first_free (fds (tasks (new_file 5 9 0 init_kernel) 8)) 0 = Some 0"
    unfolding t init_kernel_fields using first_free_replicate [of 255 0] by simp
  then show ?thesis by (simp add: open_kernel_def process_fd_install_def)
qed

lemma open_kernel_reach: "task_reach init_kernel [8] open_kernel [8]"
proof -
  have "refs [8] (\<lambda>p. fds (tasks init_kernel p)) 5 = 0"
    using task_invD(2) [OF init_kernel(3)] init_kernel_fields(2) unfolding fd_inv_def fd_ok_def by simp
  then have "task_step init_kernel [8] (new_file 5 9 0 init_kernel) [8]" by (intro step_new_file) simp_all
  moreover have "task_step (new_file 5 9 0 init_kernel) [8] open_kernel [8]"
    unfolding open_kernel_def by (rule step_install) (simp_all add: new_file_def)
  ultimately show ?thesis by (meson reach_start reach_step)
qed

theorem fd_refcount_safe_witness: "5 \<notin> freed_files open_kernel \<and>
   unat (refcount (files open_kernel 5)) = (\<Sum>r\<leftarrow>[8]. count_list (fds (tasks open_kernel r)) 5)"
proof (rule fd_refcount_safe [OF init_kernel(1,2) open_kernel_reach, where i = 0 and q = 8])
  have t: "tasks (new_file 5 9 0 init_kernel) = tasks init_kernel" by (simp add: new_file_def)
  show "fds (tasks open_kernel 8) ! 0 = 5"
    unfolding open_kernel_eq by (simp add: t init_kernel_fields(1))
qed simp_all

text \<open>
  C11. Scheduling chooses only runnable processes: \<^verbatim>\<open>schedule\<close> returns, keeps the process
  table invariant, and either leaves the current process running or switches to a process
  that was queued and ready; a preempted running process becomes ready and is queued
  again, and no other process is touched. A zombie or blocked process is never resumed.
\<close>

theorem schedule_correct:
  assumes "boot_state k0" "task_init p cr root k0 = Some k1" "task_reach k1 [p] k ps"
  shows "\<exists>k'. schedule u k = Some k' \<and> task_inv k' ps \<and>
    (current_proc k' = current_proc k \<and> tasks k' = tasks k \<or>
     (current_proc k' \<noteq> current_proc k \<and> current_proc k' \<in> set (runqueue (ksched k))
      \<and> runnable (tasks k (current_proc k')) \<and> state (tasks k' (current_proc k')) = TASK_RUNNING
      \<and> (state (tasks k (current_proc k)) = TASK_RUNNING \<and> kstack (tasks k (current_proc k)) \<noteq> 0 \<longrightarrow>
           state (tasks k' (current_proc k)) = TASK_READY \<and> current_proc k \<in> set (runqueue (ksched k')))
      \<and> (\<forall>q. q \<noteq> current_proc k \<and> q \<noteq> current_proc k' \<longrightarrow> tasks k' q = tasks k q)))"
  using schedule_spec [OF task_reach_inv [OF assms(3) task_init_inv [OF assms(1,2)]]] by blast

theorem schedule_correct_witness: "\<exists>k'. schedule 0 init_kernel = Some k' \<and> current_proc k' = 8"
proof -
  have "runqueue (ksched init_kernel) = []" by (simp add: init_kernel_simps)
  then show ?thesis
    using schedule_correct [OF init_kernel(1,2) task_reach.reach_start, of 0] init_kernel_fields(3) by auto
qed

text \<open>
  C31. Exit: \<^verbatim>\<open>task_exit\<close> returns to its idle loop with the process a zombie carrying its
  status and holding no descriptor, with every child handed to process 1, and with the
  process table and reference count invariants intact.
\<close>

theorem task_exit_correct:
  assumes "boot_state k0" "task_init p cr root k0 = Some k1" "task_reach k1 [p] k ps"
  shows "\<exists>k'. task_exit status k = Some k' \<and> task_inv k' ps
    \<and> state (tasks k' (current_proc k)) = TASK_ZOMBIE \<and> exit_status (tasks k' (current_proc k)) = status
    \<and> (\<forall>i < MAX_FDS. process_fd_get (current_proc k) (int i) k' = 0)
    \<and> (\<forall>q \<in> set ps. q \<noteq> current_proc k \<longrightarrow> ppid (tasks k' q) =
         (if ppid (tasks k q) = pid (tasks k (current_proc k)) then 1 else ppid (tasks k q)))"
proof -
  have inv: "task_inv k ps" using task_reach_inv [OF assms(3) task_init_inv [OF assms(1,2)]] .
  show ?thesis using do_exit_spec [OF inv, of status]
    by (metis (no_types, lifting) task_exit_def process_fd_get_def nat_int)
qed

theorem task_exit_correct_witness:
  "\<exists>k'. task_exit 3 open_kernel = Some k' \<and> process_fd_get 8 0 k' = 0"
proof -
  have "current_proc open_kernel = 8" unfolding open_kernel_eq by (simp add: new_file_def init_kernel_fields)
  moreover have "int 0 = 0" "(0::nat) < MAX_FDS" by simp_all
  ultimately show ?thesis
    using task_exit_correct [OF init_kernel(1,2) open_kernel_reach, of 3] by metis
qed


text \<open>
  C30. Fork: \<^verbatim>\<open>task_fork\<close> gives the child a fresh id and the parent's descriptors, queues it
  and keeps the invariants; when the scheduler first switches to it, the pops of
  \<^verbatim>\<open>switch_to\<close> and \<^verbatim>\<open>fork_child_entry\<close> leave it with exactly the registers the parent had
  at its system call, except that \<^verbatim>\<open>rax\<close> is \<open>0\<close>.
\<close>

theorem task_fork_correct:
  assumes "boot_state k0" "task_init p cr root k0 = Some k1" "task_reach k1 [p] k ps"
    and "e_proc e \<notin> set ps" "e_proc e \<noteq> 0" "Suc (length ps) < 2 ^ 24" "next_pid k + 1 \<noteq> 0"
  shows "\<exists>k'. task_fork e fce regs k = Some (e_proc e, k') \<and> task_inv k' (hd ps # e_proc e # tl ps)
    \<and> pid (tasks k' (e_proc e)) = next_pid k \<and> ppid (tasks k' (e_proc e)) = pid (tasks k (current_proc k))
    \<and> fds (tasks k' (e_proc e)) = fds (tasks k (current_proc k)) \<and> e_proc e \<in> set (runqueue (ksched k'))
    \<and> (\<exists>st. switch_to_pop (ctx (tasks k' (e_proc e))) = Some (e_kern_gs_base e, e_gs_base e, fce, st)
         \<and> fork_child_pop st = Some (saved_regs regs (e_user_stack e)))"
proof -
  have inv: "task_inv k ps" using task_reach_inv [OF assms(3) task_init_inv [OF assms(1,2)]] .
  obtain k' where k': "task_fork e fce regs k = Some (e_proc e, k')"
    "task_inv k' (hd ps # e_proc e # tl ps)" "pid (tasks k' (e_proc e)) = next_pid k"
    "ppid (tasks k' (e_proc e)) = pid (tasks k (current_proc k))"
    "fds (tasks k' (e_proc e)) = fds (tasks k (current_proc k))"
    "ctx (tasks k' (e_proc e)) = fork_frame e fce regs" "e_proc e \<in> set (runqueue (ksched k'))"
    using task_fork_spec [OF inv assms(4-7)] .
  have "\<exists>st. switch_to_pop (fork_frame e fce regs) = Some (e_kern_gs_base e, e_gs_base e, fce, st)
         \<and> fork_child_pop st = Some (saved_regs regs (e_user_stack e))"
    by (simp add: fork_frame_def saved_regs_def Let_def)
  then show ?thesis using k' by auto
qed

definition fork_env :: spawn_env where
  "fork_env = \<lparr>e_proc = 16, e_cr3 = 0x2000, e_kstack = 0x9000, e_gs_base = 1, e_kern_gs_base = 2, e_user_stack = 3\<rparr>"

theorem task_fork_correct_witness:
  "\<exists>k'. task_fork fork_env 77 (replicate 14 5) init_kernel = Some (16, k') \<and> pid (tasks k' 16) = 2"
  using task_fork_correct [OF init_kernel(1,2) task_reach.reach_start, of fork_env 77 "replicate 14 5"]
  by (auto simp: fork_env_def init_kernel_fields)


text \<open>
  A file that a process holds in one descriptor is counted once per open file when the last
  descriptor goes away, but \<^verbatim>\<open>task_fork\<close> adds one reader or writer per descriptor.
\<close>

lemma fold_fork_fd_one:
  assumes "\<And>j. j \<noteq> i \<Longrightarrow> j < n \<Longrightarrow> fds (tasks k c) ! j = 0" "i < n"
  shows "fold (fork_fd c) [0..<n] k = fork_fd c i k"
proof -
  have skip: "fold (fork_fd c) js k' = k'" if "tasks k' = tasks k" "\<forall>j \<in> set js. j \<noteq> i \<and> j < n" for js k'
    using that assms(1) by (induction js) (auto simp: fork_fd_def)
  have "[0..<n] = [0..<i] @ i # [Suc i..<n]" using assms(2) by (metis upt_conv_Cons upt_add_eq_append le_add_diff_inverse less_imp_le_nat zero_le)
  moreover have "tasks (fork_fd c i k) = tasks k" by (simp add: fork_fd_def Let_def)
  ultimately show ?thesis using skip [of k "[0..<i]"] skip [of "fork_fd c i k" "[Suc i..<n]"] assms(2) by simp
qed

text \<open>
  A pipe outlives its last reader after a fork: let a process hold the read end of a
  pipe in one descriptor and nothing else. Closing that descriptor drops the pipe's reader
  count by one; but if the process forks first and then both processes close the
  descriptor, the open file is freed and the reader count is what it was before the fork,
  so a writer never learns that nobody reads.
\<close>

theorem fork_leaks_pipe_reader:
  assumes cur: "fds (tasks k (current_proc k)) = (replicate MAX_FDS 0)[i := f]" "i < MAX_FDS" "f \<noteq> 0"
    and fl: "node (files k f) = n" "n \<noteq> 0" "nflags (nodes k n) = 5" "fflags (files k f) = 0" "refcount (files k f) = 1"
    and c: "e_proc e \<noteq> current_proc k" and fork: "task_fork e fce regs k = Some (c, k')"
  shows "readers (pipes (process_fd_close (current_proc k) (int i) k) (impl (nodes k n))) = readers (pipes k (impl (nodes k n))) - 1
    \<and> f \<in> freed_files (process_fd_close (current_proc k) (int i) (process_fd_close c (int i) k'))
    \<and> readers (pipes (process_fd_close (current_proc k) (int i) (process_fd_close c (int i) k')) (impl (nodes k n)))
        = readers (pipes k (impl (nodes k n)))"
proof -
  let ?p = "current_proc k" and ?P = "impl (nodes k n)"
  have fi: "fds (tasks k ?p) ! i = f" using cur by simp
  have one: "readers (pipes (process_fd_close ?p (int i) k) ?P) = readers (pipes k ?P) - 1"
    using cur(2,3) fl fi by (simp add: process_fd_close_def release_node_def Let_def)
  define t where "t = (tasks k ?p)\<lparr>pid := next_pid k, ppid := pid (tasks k ?p), state := TASK_READY, ctx := [],
                 exit_status := 0, sig_pending := 0\<rparr>"
  define k1 where "k1 = upd_sproc (e_proc e) (procs (ksched k) ?p)
                (k\<lparr>tasks := (tasks k)(e_proc e := t), next_pid := next_pid k + 1\<rparr>)"
  define k2 where "k2 = fold (fork_fd (e_proc e)) [0..<MAX_FDS] k1"
  define k3 where "k3 = upd_task (e_proc e) (\<lambda>t. t\<lparr>cr3 := tag_cr3 k (e_cr3 e) (pid t), kstack := e_kstack e,
                 user_rsp := e_user_stack e, ctx := fork_frame e fce regs\<rparr>) k2"
  have ce: "c = e_proc e" "k_enqueue c (link_proc c k3) = Some k'"
    using fork by (auto simp: task_fork_def Let_def simp flip: t_def k1_def k2_def k3_def split: Option.bind_splits)
  have k1: "fds (tasks k1 c) = (replicate MAX_FDS 0)[i := f]" "fds (tasks k1 ?p) = (replicate MAX_FDS 0)[i := f]"
    "files k1 = files k" "nodes k1 = nodes k" "pipes k1 = pipes k"
    using c cur by (simp_all add: k1_def t_def ce)
  have k2: "k2 = fork_fd c i k1"
    unfolding k2_def ce(1) [symmetric] by (rule fold_fork_fd_one) (use k1 cur in simp_all)
  have "fds (tasks k2 q) = fds (tasks k1 q)" "nodes k2 = nodes k" "files k2 f = (files k f)\<lparr>refcount := 2\<rparr>"
    "pipes k2 = (pipes k)(?P := (pipes k ?P)\<lparr>readers := readers (pipes k ?P) + 1\<rparr>)" for q
    using k1 cur(2,3) fl by (simp_all add: k2 fork_fd_def Let_def)
  then have k3: "fds (tasks k3 q) = fds (tasks k1 q)" "nodes k3 = nodes k" "files k3 f = (files k f)\<lparr>refcount := 2\<rparr>"
    "pipes k3 = (pipes k)(?P := (pipes k ?P)\<lparr>readers := readers (pipes k ?P) + 1\<rparr>)" for q
    by (simp_all add: k3_def)
  have "fds (tasks (link_proc c k3) q) = fds (tasks k3 q)" "nodes (link_proc c k3) = nodes k3"
    "files (link_proc c k3) = files k3" "pipes (link_proc c k3) = pipes k3" for q
    by (simp_all add: link_proc_def Let_def)
  then have k': "fds (tasks k' c) ! i = f" "fds (tasks k' ?p) ! i = f" "nodes k' = nodes k"
    "files k' f = (files k f)\<lparr>refcount := 2\<rparr>"
    "pipes k' ?P = (pipes k ?P)\<lparr>readers := readers (pipes k ?P) + 1\<rparr>"
    using ce(2) k3 k1 cur(2) by (auto simp: k_enqueue_def)
  have "?p \<noteq> c" using c ce by simp
  then show ?thesis using one k' cur(2,3) fl
    by (simp add: process_fd_close_def [of c] process_fd_close_def [of ?p] release_node_def Let_def)
qed

theorem fork_leaks_pipe_reader_witness:
  "\<exists>k'. task_fork fork_env 77 (replicate 14 5) open_kernel = Some (16, k') \<and>
     readers (pipes (process_fd_close 8 0 (process_fd_close 16 0 k')) 40) = 1"
proof -
  have o: "current_proc open_kernel = 8" "fds (tasks open_kernel 8) = (replicate MAX_FDS 0)[0 := 5]"
    "files open_kernel 5 = \<lparr>node = 9, foffset = 0, fflags = 0, refcount = 1\<rparr>" "next_pid open_kernel = 2"
    "nodes open_kernel 9 = \<lparr>nflags = 5, impl = 40, has_close = False\<rparr>" "readers (pipes open_kernel 40) = 1"
    unfolding open_kernel_eq by (simp_all add: new_file_def init_kernel_simps)
  have inv: "task_inv open_kernel [8]" using task_reach_inv [OF open_kernel_reach init_kernel(3)] .
  obtain k' where k': "task_fork fork_env 77 (replicate 14 5) open_kernel = Some (e_proc fork_env, k')"
    using task_fork_spec [OF inv, of fork_env 77 "replicate 14 5"] o(4) by (auto simp: fork_env_def)
  have "readers (pipes (process_fd_close 8 (int 0) (process_fd_close (e_proc fork_env) (int 0) k')) 40) = 1"
    using fork_leaks_pipe_reader [OF _ _ _ _ _ _ _ _ _ k', of 0 5 9] o by (simp add: fork_env_def)
  then show ?thesis using k' by (simp add: fork_env_def)
qed

end
