(* ===== verification/Signal.thy ===== *)
theory Signal
  imports Task
begin

text \<open>
  POSIX signals, \<^verbatim>\<open>kernel/signal.c\<close>, over the kernel state of \<open>Task\<close>: sending, the action
  table, the blocked mask, and delivery on return to the current process.

  A handler is its address (\<^verbatim>\<open>SIG_DFL\<close> is \<open>0\<close>, \<^verbatim>\<open>SIG_IGN\<close> is \<open>1\<close>, \<^verbatim>\<open>SIG_ERR\<close> is \<open>-1\<close>). The
  call of a kernel handler is the last thing delivery does, so it is a result value
  (\<open>Handled\<close>) rather than an effect.
\<close>

section \<open>Default actions\<close>

datatype sig_action = Term | Ign | Stop

definition get_default_action :: "nat \<Rightarrow> sig_action" where
  "get_default_action sig =
     (if sig \<in> {17, 18, 28, 23} then Ign
      else if sig \<in> {19, 20, 21, 22} then Stop
      else Term)"

section \<open>Operations\<close>

definition sig_bit :: "nat \<Rightarrow> u64" where
  "sig_bit sig = push_bit (sig - 1) 1"

definition send_signal :: "int \<Rightarrow> int \<Rightarrow> kernel \<Rightarrow> (int \<times> kernel) option" where
  "send_signal i sig k =
     (if sig < 1 \<or> sig > 31 then Some (- EINVAL, k)
      else do {
        p \<leftarrow> proc_find (word_of_int i) k;
        if p = 0 then Some (- ESRCH, k)
        else do {
          let k1 = upd_task p (\<lambda>t. t\<lparr>sig_pending := sig_pending t OR sig_bit (nat sig)\<rparr>) k;
          k2 \<leftarrow> (if state (tasks k1 p) = TASK_BLOCKED
                then k_enqueue p (upd_task p (\<lambda>t. t\<lparr>state := TASK_READY\<rparr>) k1) else Some k1);
          Some (0, k2)
        }
      })"

text \<open>\<open>act\<close> is \<open>None\<close> for a null pointer; the old action is what a non-null \<^verbatim>\<open>oldact\<close> receives.\<close>

definition sys_sigaction :: "int \<Rightarrow> sigaction option \<Rightarrow> kernel \<Rightarrow> int \<times> sigaction option \<times> kernel" where
  "sys_sigaction sig act k =
     (if sig < 1 \<or> sig > 31 then (- EINVAL, None, k)
      else if nat sig = SIGKILL \<or> nat sig = SIGSTOP then (- EINVAL, None, k)
      else let c = current_proc k
           in if c = 0 then (- ESRCH, None, k)
              else let old = sig_actions (tasks k c) ! (nat sig - 1)
                   in (0, Some old,
                       case act of None \<Rightarrow> k
                       | Some a \<Rightarrow> upd_task c (\<lambda>t. t\<lparr>sig_actions := (sig_actions t)[nat sig - 1 := a]\<rparr>) k))"

definition sys_signal :: "int \<Rightarrow> u64 \<Rightarrow> kernel \<Rightarrow> u64 \<times> kernel" where
  "sys_signal sig handler k =
     (case sys_sigaction sig (Some \<lparr>sa_handler = handler, sa_flags = 0, sa_restorer = 0, sa_mask = 0\<rparr>) k of
        (r, old, k') \<Rightarrow> if r < 0 then (- 1, k') else (case old of Some a \<Rightarrow> sa_handler a | None \<Rightarrow> 0, k'))"

definition unblockable :: "u64 \<Rightarrow> u64" where
  "unblockable m = (m AND NOT (sig_bit SIGKILL)) AND NOT (sig_bit SIGSTOP)"

definition sys_sigprocmask :: "int \<Rightarrow> u64 option \<Rightarrow> kernel \<Rightarrow> int \<times> u64 \<times> kernel" where
  "sys_sigprocmask how nset k =
     (let c = current_proc k
      in if c = 0 then (- ESRCH, 0, k)
         else let old = sig_blocked (tasks k c)
              in case nset of
                   None \<Rightarrow> (0, old, k)
                 | Some m \<Rightarrow>
                     (let setm = (\<lambda>b. upd_task c (\<lambda>t. t\<lparr>sig_blocked := unblockable b\<rparr>) k)
                      in if how = 0 then (0, old, setm (old OR m))
                         else if how = 1 then (0, old, setm (old AND NOT m))
                         else if how = 2 then (0, old, setm m)
                         else (- EINVAL, old, k)))"

datatype delivery = Nothing | Defaulted nat sig_action | Handled u64 nat

definition deliver_default :: "nat \<Rightarrow> kernel \<Rightarrow> (delivery \<times> kernel) option" where
  "deliver_default sig k =
     (case get_default_action sig of
        Term \<Rightarrow> map_option (Pair (Defaulted sig Term)) (task_exit (128 + int sig) k)
      | a \<Rightarrow> Some (Defaulted sig a, k))"

text \<open>The loop over signal numbers; \<open>pending\<close> is the set computed before it starts.\<close>

fun deliver_loop :: "u64 \<Rightarrow> nat \<Rightarrow> nat list \<Rightarrow> kernel \<Rightarrow> (delivery \<times> kernel) option" where
  "deliver_loop pending c [] k = Some (Nothing, k)"
| "deliver_loop pending c (sig # sigs) k =
     (if pending AND sig_bit sig \<noteq> 0 then
        (let k1 = upd_task c (\<lambda>t. t\<lparr>sig_pending := sig_pending t AND NOT (sig_bit sig)\<rparr>) k;
             h = sa_handler (sig_actions (tasks k1 c) ! (sig - 1))
         in if h = 1 then deliver_loop pending c sigs k1
            else if h = 0 then deliver_default sig k1
            else if h \<ge> 0xFFFFFFFF80000000 then Some (Handled h sig, k1)
            else deliver_default sig k1)
      else deliver_loop pending c sigs k)"

definition check_and_deliver_signals :: "kernel \<Rightarrow> (delivery \<times> kernel) option" where
  "check_and_deliver_signals k =
     (let c = current_proc k
      in if c = 0 then Some (Nothing, k)
         else let pending = sig_pending (tasks k c) AND NOT (sig_blocked (tasks k c))
              in if pending = 0 then Some (Nothing, k) else deliver_loop pending c [1..<32] k)"

section \<open>Bits of the signal sets\<close>

lemma bit_sig_bit [bits_simps]: "0 < sig \<Longrightarrow> sig \<le> 64 \<Longrightarrow> bit (sig_bit sig) j \<longleftrightarrow> j = sig - 1"
  by (auto simp: sig_bit_def push_bit_of_1 bit_exp_iff)

lemma and_sig_bit [bits_simps]: "w AND sig_bit sig = 0 \<longleftrightarrow> \<not> bit w (sig - 1)"
  by (simp add: sig_bit_def push_bit_of_1 and_shift_eq_0)

lemma bit_clear_sig [bits_simps]: "bit (w AND NOT (sig_bit sig)) j \<longleftrightarrow> bit w j \<and> j \<noteq> sig - 1"
  by (simp add: sig_bit_def push_bit_of_1 bit_and_not_shift)

lemma bit_set_sig [bits_simps]: "sig \<le> 64 \<Longrightarrow> 0 < sig \<Longrightarrow> bit (w OR sig_bit sig) j \<longleftrightarrow> bit w j \<or> j = sig - 1"
  by (auto simp: sig_bit_def push_bit_of_1 bit_or_shift)

lemma bit_unblockable [bits_simps]: "bit (unblockable m) j \<longleftrightarrow> bit m j \<and> j \<noteq> 8 \<and> j \<noteq> 18"
  by (simp add: unblockable_def bits_simps)

section \<open>Signals that cannot be caught or blocked\<close>

text \<open>What holds of every process: kill and stop are neither blocked nor handled.\<close>

definition sig_ok :: "task \<Rightarrow> bool" where
  "sig_ok t \<longleftrightarrow> \<not> bit (sig_blocked t) 8 \<and> \<not> bit (sig_blocked t) 18 \<and> length (sig_actions t) = 32
     \<and> sa_handler (sig_actions t ! 8) = 0 \<and> sa_handler (sig_actions t ! 18) = 0"

lemma sig_ok_zero: "sig_ok zero_task"
  by (simp add: sig_ok_def zero_task_def zero_sigaction_def)

lemma sig_ok_procmask: "sig_ok (tasks k p) \<Longrightarrow> sig_ok (tasks (snd (snd (sys_sigprocmask how m k))) p)"
  by (auto simp: sys_sigprocmask_def sig_ok_def bits_simps Let_def split: option.split)

lemma sig_ok_sigaction: "sig_ok (tasks k p) \<Longrightarrow> sig_ok (tasks (snd (snd (sys_sigaction sig act k))) p)"
proof -
  assume ok: "sig_ok (tasks k p)"
  have "nat sig - 1 \<noteq> 8 \<and> nat sig - 1 \<noteq> 18" if "\<not> (sig < 1 \<or> sig > 31)" "\<not> (nat sig = 9 \<or> nat sig = 19)"
    using that by auto
  then show ?thesis using ok by (auto simp: sys_sigaction_def sig_ok_def Let_def split: option.split)
qed

lemma sys_signal_kernel:
  "snd (sys_signal sig h k) =
     snd (snd (sys_sigaction sig (Some \<lparr>sa_handler = h, sa_flags = 0, sa_restorer = 0, sa_mask = 0\<rparr>) k))"
  by (auto simp: sys_signal_def split: prod.splits)

text \<open>One signal operation of the current process.\<close>

inductive sig_step :: "kernel \<Rightarrow> kernel \<Rightarrow> bool" where
  "sig_step k (snd (snd (sys_sigprocmask how m k)))"
| "sig_step k (snd (snd (sys_sigaction sig act k)))"
| "sig_step k (snd (sys_signal sig h k))"
| "send_signal i sig k = Some (r, k') \<Longrightarrow> sig_step k k'"

lemma send_signal_keeps:
  assumes "send_signal i sig k = Some (r, k')"
  shows "sig_blocked (tasks k' p) = sig_blocked (tasks k p)" "sig_actions (tasks k' p) = sig_actions (tasks k p)"
    "current_proc k' = current_proc k"
  using assms by (auto simp: send_signal_def Let_def k_enqueue_def split: if_splits Option.bind_splits)

lemma sig_step_ok: "sig_step k k' \<Longrightarrow> sig_ok (tasks k p) \<Longrightarrow> sig_ok (tasks k' p)"
proof (induction rule: sig_step.induct)
  case (4 i sig k r k')
  then show ?case by (simp add: sig_ok_def send_signal_keeps)
qed (simp_all add: sig_ok_procmask sig_ok_sigaction sys_signal_kernel)

lemma sig_steps_ok: "sig_step\<^sup>*\<^sup>* k k' \<Longrightarrow> sig_ok (tasks k p) \<Longrightarrow> sig_ok (tasks k' p)"
  by (induction rule: rtranclp_induct) (auto intro: sig_step_ok)


section \<open>Delivery\<close>

abbreviation handler_of :: "kernel \<Rightarrow> nat \<Rightarrow> nat \<Rightarrow> u64" where
  "handler_of k c sig \<equiv> sa_handler (sig_actions (tasks k c) ! (sig - 1))"

text \<open>What happens to the signal that is chosen.\<close>

definition act_on :: "nat \<Rightarrow> u64 \<Rightarrow> kernel \<Rightarrow> (delivery \<times> kernel) option" where
  "act_on sig h k = (if h \<ge> 0xFFFFFFFF80000000 then Some (Handled h sig, k) else deliver_default sig k)"

lemma upd_task_upd_task: "upd_task p f (upd_task p g k) = upd_task p (\<lambda>t. f (g t)) k"
  by (simp add: upd_task_def)

lemma upt_32: "m < 32 \<Longrightarrow> [m..<32] = m # [Suc m..<32]"
  by (simp add: upt_conv_Cons)

lemma deliver_loop_lowest:
  assumes "m \<le> s" "0 < m" "s < 32" "bit P (s - 1)" "handler_of k c s \<noteq> 1"
    and "\<And>r. m \<le> r \<Longrightarrow> r < s \<Longrightarrow> bit P (r - 1) \<Longrightarrow> handler_of k c r = 1"
  shows "\<exists>w. (\<forall>j. bit w j \<longleftrightarrow> bit (sig_pending (tasks k c)) j \<and> \<not> (m - 1 \<le> j \<and> j < s \<and> bit P j))
    \<and> deliver_loop P c [m..<32] k = act_on s (handler_of k c s) (upd_task c (\<lambda>t. t\<lparr>sig_pending := w\<rparr>) k)"
  using assms
proof (induction "s - m" arbitrary: m k)
  case 0
  then have ms: "m = s" by simp
  let ?w = "sig_pending (tasks k c) AND NOT (sig_bit s)"
  have k: "upd_task c (\<lambda>t. t\<lparr>sig_pending := sig_pending t AND NOT (sig_bit s)\<rparr>) k = upd_task c (\<lambda>t. t\<lparr>sig_pending := ?w\<rparr>) k"
    by (simp add: upd_task_def)
  have e: "bit ?w j \<longleftrightarrow> bit (sig_pending (tasks k c)) j \<and> \<not> (m - 1 \<le> j \<and> j < s \<and> bit P j)" for j
  proof -
    have "m - 1 \<le> j \<and> j < s \<and> bit P j \<longleftrightarrow> j = s - 1"
      using 0(3,5) ms by (auto intro!: le_antisym)
    then show ?thesis by (simp add: bits_simps)
  qed
  have "deliver_loop P c [m..<32] k = act_on s (handler_of k c s) (upd_task c (\<lambda>t. t\<lparr>sig_pending := ?w\<rparr>) k)"
    using 0 ms by (auto simp: upt_32 Let_def bits_simps k act_on_def)
  then show ?case using e by blast
next
  case (Suc d)
  then have m: "m < s" by simp
  define b where "b \<longleftrightarrow> bit P (m - 1)"
  define k1 where "k1 = (if b then upd_task c (\<lambda>t. t\<lparr>sig_pending := sig_pending t AND NOT (sig_bit m)\<rparr>) k else k)"
  have h: "handler_of k1 c r = handler_of k c r" for r by (simp add: k1_def)
  have "b \<Longrightarrow> handler_of k c m = 1" using Suc.prems(6) [of m] m by (simp add: b_def)
  then have step: "deliver_loop P c [m..<32] k = deliver_loop P c [Suc m..<32] k1"
    using m Suc.prems(3) by (simp add: upt_32 k1_def b_def bits_simps Let_def)
  have "\<exists>w. (\<forall>j. bit w j \<longleftrightarrow> bit (sig_pending (tasks k1 c)) j \<and> \<not> (Suc m - 1 \<le> j \<and> j < s \<and> bit P j))
    \<and> deliver_loop P c [Suc m..<32] k1 = act_on s (handler_of k1 c s) (upd_task c (\<lambda>t. t\<lparr>sig_pending := w\<rparr>) k1)"
  proof (rule Suc.hyps(1))
    show "handler_of k1 c s \<noteq> 1" using Suc.prems(5) h by simp
    show "handler_of k1 c r = 1" if "Suc m \<le> r" "r < s" "bit P (r - 1)" for r
      using Suc.prems(6) [of r] that h [of r] by simp
  qed (use Suc m in simp_all)
  then obtain w where w: "\<And>j. bit w j \<longleftrightarrow> bit (sig_pending (tasks k1 c)) j \<and> \<not> (m \<le> j \<and> j < s \<and> bit P j)"
    "deliver_loop P c [Suc m..<32] k1 = act_on s (handler_of k1 c s) (upd_task c (\<lambda>t. t\<lparr>sig_pending := w\<rparr>) k1)" by auto
  have sp: "bit (sig_pending (tasks k1 c)) j \<longleftrightarrow> bit (sig_pending (tasks k c)) j \<and> \<not> (b \<and> j = m - 1)" for j
    by (auto simp: k1_def bits_simps)
  have "bit w j \<longleftrightarrow> bit (sig_pending (tasks k c)) j \<and> \<not> (m - 1 \<le> j \<and> j < s \<and> bit P j)" for j
  proof (cases "j = m - 1")
    case True
    then show ?thesis using w(1) [of j] sp [of j] m Suc.prems(2) by (auto simp: b_def)
  next
    case False
    then have "m - 1 \<le> j \<longleftrightarrow> m \<le> j" by linarith
    then show ?thesis using w(1) [of j] sp [of j] False by simp
  qed
  moreover have "upd_task c (\<lambda>t. t\<lparr>sig_pending := w\<rparr>) k1 = upd_task c (\<lambda>t. t\<lparr>sig_pending := w\<rparr>) k"
    by (simp add: k1_def upd_task_upd_task)
  ultimately show ?case using w(2) step h by (metis (no_types))
qed

lemma send_signal_inv:
  assumes "task_inv k ps" "send_signal i sig k = Some (r, k')"
  shows "task_inv k' ps"
proof -
  let ?p = "find_ptr (\<lambda>q. pid (tasks k q) = word_of_int i) ps"
  have pf: "proc_find (word_of_int i) k = Some ?p" using proc_find_ring task_invD(1) [OF assms(1)] by simp
  have cs: "?p = 0 \<or> ?p \<in> set ps"
    using find_ptr_cases [of ps "\<lambda>q. pid (tasks k q) = word_of_int i"] task_invD(1) [OF assms(1)]
    by (auto simp: is_ring_def)
  let ?k1 = "upd_task ?p (\<lambda>t. t\<lparr>sig_pending := sig_pending t OR sig_bit (nat sig)\<rparr>) k"
  let ?k2 = "upd_task ?p (\<lambda>t. t\<lparr>state := TASK_READY\<rparr>) ?k1"
  have i1: "task_inv ?k1 ps" using assms(1) by (subst task_inv_cong) simp_all
  have i2: "task_inv ?k2 ps" using i1 by (subst task_inv_cong) simp_all
  have "task_inv k3 ps" if "k_enqueue ?p ?k2 = Some k3" "?p \<in> set ps" for k3
    using k_enqueue_inv [OF i2 that(2)] that(1) by (metis option.inject)
  then show ?thesis using assms cs i1 pf by (auto simp: send_signal_def Let_def split: if_splits Option.bind_splits)
qed

lemma sig_step_inv: "sig_step k k' \<Longrightarrow> task_inv k ps \<Longrightarrow> task_inv k' ps"
proof (induction rule: sig_step.induct)
  case (1 k how m)
  then show ?case by (subst task_inv_cong) (auto simp: sys_sigprocmask_def Let_def split: option.split)
next
  case (2 k sig act)
  then show ?case by (subst task_inv_cong) (auto simp: sys_sigaction_def Let_def split: option.split)
next
  case (3 k sig h)
  then show ?case unfolding sys_signal_kernel
    by (subst task_inv_cong) (auto simp: sys_sigaction_def Let_def split: option.split)
next
  case (4 i sig k r k')
  then show ?case using send_signal_inv by blast
qed

lemma sig_step_current: "sig_step k k' \<Longrightarrow> current_proc k' = current_proc k"
  by (induction rule: sig_step.induct)
    (auto simp: sys_sigprocmask_def sys_sigaction_def sys_signal_kernel send_signal_keeps Let_def split: option.split)

lemma sig_steps_inv: "sig_step\<^sup>*\<^sup>* k k' \<Longrightarrow> task_inv k ps \<Longrightarrow> task_inv k' ps \<and> current_proc k' = current_proc k"
  by (induction rule: rtranclp_induct) (auto intro: sig_step_inv simp: sig_step_current)

section \<open>Properties\<close>

text \<open>
  Signals are delivered lowest number first: if \<open>s\<close> is the lowest pending unblocked
  signal whose handler is not \<^verbatim>\<open>SIG_IGN\<close>, then one call of \<^verbatim>\<open>check_and_deliver_signals\<close> runs
  the action of \<open>s\<close> and nothing else, clears exactly \<open>s\<close> and the ignored signals below it
  from the pending set, and keeps blocked and higher signals pending.
\<close>

theorem deliver_lowest_signal:
  assumes c: "current_proc k = c" "c \<noteq> 0"
    and P: "P = sig_pending (tasks k c) AND NOT (sig_blocked (tasks k c))"
    and s: "1 \<le> s" "s \<le> 31" "bit P (s - 1)" "handler_of k c s \<noteq> 1"
    and low: "\<forall>r. 1 \<le> r \<and> r < s \<and> bit P (r - 1) \<longrightarrow> handler_of k c r = 1"
  shows "\<exists>w. (\<forall>j. bit w j \<longleftrightarrow> bit (sig_pending (tasks k c)) j \<and> \<not> (j < s \<and> bit P j))
    \<and> check_and_deliver_signals k = act_on s (handler_of k c s) (upd_task c (\<lambda>t. t\<lparr>sig_pending := w\<rparr>) k)"
proof -
  have "P \<noteq> 0" using s(3) by auto
  then have "check_and_deliver_signals k = deliver_loop P c [1..<32] k"
    using c by (simp add: check_and_deliver_signals_def Let_def flip: P)
  then show ?thesis using deliver_loop_lowest [of 1 s P k c] s low by auto
qed

definition sig_demo :: kernel where
  "sig_demo = upd_task 8 (\<lambda>t. t\<lparr>sig_pending := 18,
     sig_actions := (replicate 32 zero_sigaction)[1 := zero_sigaction\<lparr>sa_handler := 1\<rparr>,
       4 := zero_sigaction\<lparr>sa_handler := 0xFFFFFFFF80000010\<rparr>]\<rparr>) init_kernel"

theorem deliver_lowest_signal_witness:
  "\<exists>k'. check_and_deliver_signals sig_demo = Some (Handled 0xFFFFFFFF80000010 5, k')
     \<and> sig_pending (tasks k' 8) = 0"
proof -
  have d: "current_proc sig_demo = 8" "sig_pending (tasks sig_demo 8) = 18" "sig_blocked (tasks sig_demo 8) = 0"
    "handler_of sig_demo 8 5 = 0xFFFFFFFF80000010" "handler_of sig_demo 8 2 = 1"
    by (simp_all add: sig_demo_def init_kernel_simps)
  have b: "bit (18 :: u64) j \<longleftrightarrow> j = 1 \<or> j = 4" for j
  proof -
    have "(18 :: u64) = 2 ^ 1 OR 2 ^ 4" by simp
    then show ?thesis by (simp only: bits_simps bit_exp_iff) auto
  qed
  have "\<exists>w. (\<forall>j. bit w j \<longleftrightarrow> bit (sig_pending (tasks sig_demo 8)) j \<and> \<not> (j < 5 \<and> bit (18 :: u64) j))
    \<and> check_and_deliver_signals sig_demo =
        act_on 5 (handler_of sig_demo 8 5) (upd_task 8 (\<lambda>t. t\<lparr>sig_pending := w\<rparr>) sig_demo)"
  proof (rule deliver_lowest_signal)
    show "\<forall>r. 1 \<le> r \<and> r < 5 \<and> bit (18 :: u64) (r - 1) \<longrightarrow> handler_of sig_demo 8 r = 1"
    proof (intro allI impI)
      fix r :: nat
      assume r: "1 \<le> r \<and> r < 5 \<and> bit (18 :: u64) (r - 1)"
      then have "r - 1 = 1 \<or> r - 1 = 4" using b by blast
      then have "r = 2" using r by linarith
      then show "handler_of sig_demo 8 r = 1" using d(5) by simp
    qed
  qed (use d b in auto)
  then obtain w where w: "\<forall>j. bit w j \<longleftrightarrow> bit (18 :: u64) j \<and> \<not> (j < 5 \<and> bit (18 :: u64) j)"
    "check_and_deliver_signals sig_demo =
      act_on 5 0xFFFFFFFF80000010 (upd_task 8 (\<lambda>t. t\<lparr>sig_pending := w\<rparr>) sig_demo)"
    unfolding d by blast
  have "\<not> bit w j" for j
  proof
    assume "bit w j"
    then have "bit (18 :: u64) j" "\<not> j < 5" using w(1) by blast+
    then show False unfolding b by auto
  qed
  then have "w = 0" by (metis word_neq_0_bit)
  with w(2) show ?thesis by (simp add: act_on_def)
qed

text \<open>
  C13. Kill cannot be blocked, caught or ignored through \<^verbatim>\<open>signal.c\<close>: whatever sequence of its \<^verbatim>\<open>sigprocmask\<close>, \<^verbatim>\<open>sigaction\<close>, \<^verbatim>\<open>signal\<close>
  and \<^verbatim>\<open>send_signal\<close> calls is made, a pending \<^verbatim>\<open>SIGKILL\<close> makes the next delivery terminate the process with status \<open>137\<close>, provided that no signal of a
  lower number is deliverable: that one would be acted on first. \<^verbatim>\<open>sys_rt_sigprocmask\<close> of \<^verbatim>\<open>syscall.c\<close>, which can block \<^verbatim>\<open>SIGKILL\<close>, is not among these calls.
\<close>

theorem sigkill_fatal:
  assumes inv: "task_inv k ps" and ok: "sig_ok (tasks k (current_proc k))" and steps: "sig_step\<^sup>*\<^sup>* k k'"
    and pend: "bit (sig_pending (tasks k' (current_proc k))) 8"
    and low: "\<forall>j < 8. \<not> bit (sig_pending (tasks k' (current_proc k)) AND NOT (sig_blocked (tasks k' (current_proc k)))) j"
  shows "\<exists>k''. check_and_deliver_signals k' = Some (Defaulted 9 Term, k'')
    \<and> state (tasks k'' (current_proc k)) = TASK_ZOMBIE \<and> exit_status (tasks k'' (current_proc k)) = 137"
proof -
  let ?c = "current_proc k"
  let ?P = "sig_pending (tasks k' ?c) AND NOT (sig_blocked (tasks k' ?c))"
  have inv': "task_inv k' ps" "current_proc k' = ?c" using sig_steps_inv [OF steps inv] by auto
  have c0: "?c \<noteq> 0" using task_invD(5,6) [OF inv] by blast
  have ok': "sig_ok (tasks k' ?c)" using sig_steps_ok [OF steps ok] .
  have P8: "bit ?P 8" using pend ok' by (simp add: sig_ok_def bit_and_iff bit_not_iff)
  have h: "handler_of k' ?c 9 = 0" using ok' by (simp add: sig_ok_def)
  have "\<exists>w. (\<forall>j. bit w j \<longleftrightarrow> bit (sig_pending (tasks k' ?c)) j \<and> \<not> (1 - 1 \<le> j \<and> j < 9 \<and> bit ?P j))
    \<and> deliver_loop ?P ?c [1..<32] k' = act_on 9 (handler_of k' ?c 9) (upd_task ?c (\<lambda>t. t\<lparr>sig_pending := w\<rparr>) k')"
    by (rule deliver_loop_lowest) (use low P8 h in auto)
  then obtain w where w: "deliver_loop ?P ?c [1..<32] k' = act_on 9 0 (upd_task ?c (\<lambda>t. t\<lparr>sig_pending := w\<rparr>) k')"
    using h by auto
  let ?k = "upd_task ?c (\<lambda>t. t\<lparr>sig_pending := w\<rparr>) k'"
  have "task_inv ?k ps" using inv'(1) by (subst task_inv_cong) simp_all
  moreover have "current_proc ?k = ?c" using inv'(2) by simp
  ultimately obtain k'' where k'': "do_exit 137 ?k = Some k''"
    "state (tasks k'' ?c) = TASK_ZOMBIE" "exit_status (tasks k'' ?c) = 137"
    using do_exit_spec [of ?k ps 137] by metis
  have "?P \<noteq> 0" using P8 by auto
  then have "check_and_deliver_signals k' = act_on 9 0 ?k"
    using w inv'(2) c0 by (simp add: check_and_deliver_signals_def Let_def)
  also have "\<dots> = Some (Defaulted 9 Term, k'')"
    using k''(1) by (simp add: act_on_def deliver_default_def get_default_action_def task_exit_def)
  finally show ?thesis using k'' by blast
qed


definition kill_demo :: kernel where
  "kill_demo = upd_task 8 (\<lambda>t. t\<lparr>sig_pending := 2 ^ 8\<rparr>) init_kernel"

theorem sigkill_fatal_witness:
  "\<exists>k''. check_and_deliver_signals (snd (snd (sys_sigprocmask 2 (Some (- 1)) kill_demo))) = Some (Defaulted 9 Term, k'')
     \<and> state (tasks k'' 8) = TASK_ZOMBIE"
proof -
  let ?k' = "snd (snd (sys_sigprocmask 2 (Some (- 1)) kill_demo))"
  have c: "current_proc kill_demo = 8" by (simp add: kill_demo_def init_kernel_fields)
  have inv: "task_inv kill_demo [8]" using init_kernel(3) unfolding kill_demo_def by (subst task_inv_cong) simp_all
  have ok: "sig_ok (tasks kill_demo 8)"
    by (simp add: kill_demo_def sig_ok_def init_kernel_simps zero_sigaction_def)
  have p: "sig_pending (tasks ?k' 8) = 2 ^ 8"
    using c by (simp add: sys_sigprocmask_def Let_def) (simp add: kill_demo_def)
  have low: "\<forall>j < 8. \<not> bit ((2 :: u64) ^ 8 AND NOT (sig_blocked (tasks ?k' 8))) j"
    by (simp only: bit_and_iff bit_exp_iff) auto
  have "sig_step\<^sup>*\<^sup>* kill_demo ?k'" by (intro r_into_rtranclp sig_step.intros)
  moreover have "bit ((2 :: u64) ^ 8) 8" by (simp only: bit_exp_iff) simp
  ultimately show ?thesis
    using sigkill_fatal [of kill_demo "[8]" ?k'] inv ok c p low by (simp only:) metis
qed

end
