(* ===== verification/Wait.thy ===== *)
theory Wait
  imports Task Kstring
begin

text \<open>
  Reaping children, \<^verbatim>\<open>kernel/wait.c\<close>. One turn of the \<^verbatim>\<open>while (1)\<close> loop of \<^verbatim>\<open>sys_wait4\<close>
  is \<open>wait_turn\<close>; it answers, or says that the caller yields and tries again. The exit
  status that \<^verbatim>\<open>copy_to_user\<close> stores at the user pointer is part of the answer.
  \<^verbatim>\<open>pid\<close> and \<^verbatim>\<open>options\<close> are ignored by the code.
\<close>

section \<open>Operations\<close>

text \<open>The walk over the ring: the first zombie child, or \<^verbatim>\<open>NULL\<close> and whether a child was seen.\<close>

partial_function (option) wait_scan :: "kernel \<Rightarrow> u32 \<Rightarrow> bool \<Rightarrow> nat \<Rightarrow> (nat \<times> bool) option" where
  "wait_scan k i any p =
     (let t = tasks k p; any' = any \<or> ppid t = i
      in if ppid t = i \<and> state t = TASK_ZOMBIE then Some (p, True)
         else if pnext t = proc_list k then Some (0, any') else wait_scan k i any' (pnext t))"

text \<open>\<^verbatim>\<open>while (prev->next != p) prev = prev->next;\<close>\<close>

partial_function (option) find_prev :: "kernel \<Rightarrow> nat \<Rightarrow> nat \<Rightarrow> nat option" where
  "find_prev k p q = (if pnext (tasks k q) = p then Some q else find_prev k p (pnext (tasks k q)))"

definition unlink_child :: "nat \<Rightarrow> kernel \<Rightarrow> kernel option" where
  "unlink_child p k = do {
     q \<leftarrow> find_prev k p (proc_list k);
     let k1 = upd_task q (\<lambda>t. t\<lparr>pnext := pnext (tasks k p)\<rparr>) k;
     let k2 = (if proc_list k1 = p then k1\<lparr>proc_list := pnext (tasks k1 p)\<rparr> else k1);
     Some (k2\<lparr>freed_procs := insert p (freed_procs k2)\<rparr>)
   }"

datatype wait_result = Reaped u32 "(u64 \<times> int) option" | Wait_error int | Yield_and_retry

definition wait_turn :: "u64 \<Rightarrow> kernel \<Rightarrow> (wait_result \<times> kernel) option" where
  "wait_turn wstatus k =
     (if current_proc k = 0 then Some (Wait_error (- ECHILD), k)
      else if proc_list k = 0 then Some (Wait_error (- ECHILD), k)
      else do {
        (p, any) \<leftarrow> wait_scan k (pid (tasks k (current_proc k))) False (proc_list k);
        if p \<noteq> 0 then
          (if wstatus \<noteq> 0 \<and> validate_user_ptr \<lparr>ptr = wstatus, len = 4\<rparr> 2 \<noteq> 0
           then Some (Wait_error (- EFAULT), k)
           else do {
             k' \<leftarrow> unlink_child p k;
             Some (Reaped (pid (tasks k p))
                     (if wstatus \<noteq> 0 then Some (wstatus, exit_status (tasks k p)) else None), k')
           })
        else if \<not> any then Some (Wait_error (- ECHILD), k)
        else Some (Yield_and_retry, k)
      })"

section \<open>The walks on a ring\<close>

definition zombie_child :: "kernel \<Rightarrow> u32 \<Rightarrow> nat \<Rightarrow> bool" where
  "zombie_child k i p \<longleftrightarrow> ppid (tasks k p) = i \<and> state (tasks k p) = TASK_ZOMBIE"

lemma wait_scan_chain:
  "chain (\<lambda>p. pnext (tasks k p)) (p # ps) (proc_list k) \<Longrightarrow> proc_list k \<notin> set ps \<Longrightarrow>
   wait_scan k i any p =
     Some (case find (zombie_child k i) (p # ps) of
             Some q \<Rightarrow> (q, True)
           | None \<Rightarrow> (0, any \<or> (\<exists>q \<in> set (p # ps). ppid (tasks k q) = i)))"
proof (induction ps arbitrary: p any)
  case Nil
  then show ?case by (subst wait_scan.simps) (auto simp: zombie_child_def)
next
  case (Cons q ps)
  then have q: "q \<noteq> proc_list k" "pnext (tasks k p) = q" by auto
  have IH: "wait_scan k i any' q = Some (case find (zombie_child k i) (q # ps) of
      Some q \<Rightarrow> (q, True) | None \<Rightarrow> (0, any' \<or> (\<exists>r \<in> set (q # ps). ppid (tasks k r) = i)))" for any'
    using Cons by simp
  show ?case
  proof (cases "zombie_child k i p")
    case True
    then show ?thesis by (subst wait_scan.simps) (simp add: zombie_child_def Let_def)
  next
    case False
    then have "wait_scan k i any p = wait_scan k i (any \<or> ppid (tasks k p) = i) q"
      using q by (subst wait_scan.simps) (auto simp: zombie_child_def Let_def)
    then show ?thesis using False IH by (auto split: option.split)
  qed
qed

lemma wait_scan_ring:
  assumes "is_ring k ps"
  shows "wait_scan k i False (proc_list k) =
     Some (case find (zombie_child k i) ps of Some q \<Rightarrow> (q, True) | None \<Rightarrow> (0, \<exists>q \<in> set ps. ppid (tasks k q) = i))"
proof -
  obtain qs where "ps = proc_list k # qs" "proc_list k \<notin> set qs"
    "chain (\<lambda>p. pnext (tasks k p)) (proc_list k # qs) (proc_list k)" using is_ring_head [OF assms] .
  then show ?thesis using wait_scan_chain [of k "proc_list k" qs i False] by (auto split: option.split)
qed

lemma find_prev_chain:
  "chain (\<lambda>p. pnext (tasks k p)) (xs @ q # p # ys) e \<Longrightarrow> distinct (xs @ q # p # ys) \<Longrightarrow>
   find_prev k p (hd (xs @ [q])) = Some q"
proof (induction xs)
  case Nil
  then show ?case by (subst find_prev.simps) simp
next
  case (Cons x xs)
  then have "pnext (tasks k x) = hd (xs @ [q])" "hd (xs @ [q]) \<noteq> p"
    "chain (\<lambda>p. pnext (tasks k p)) (xs @ q # p # ys) e" by (cases xs; auto)+
  then show ?case using Cons by (subst find_prev.simps) simp
qed

lemma find_prev_last:
  "chain (\<lambda>p. pnext (tasks k p)) (xs @ [q]) e \<Longrightarrow> e \<notin> set (tl (xs @ [q])) \<Longrightarrow>
   find_prev k e (hd (xs @ [q])) = Some q"
proof (induction xs)
  case Nil
  then show ?case by (subst find_prev.simps) simp
next
  case (Cons x xs)
  then have "pnext (tasks k x) = hd (xs @ [q])" "hd (xs @ [q]) \<noteq> e" "e \<notin> set (tl (xs @ [q]))"
    "chain (\<lambda>p. pnext (tasks k p)) (xs @ [q]) e" by (cases xs; auto)+
  then show ?case using Cons by (subst find_prev.simps) simp
qed


section \<open>Unlinking\<close>

lemma chain_upd_last:
  "chain nx (xs @ [q]) e \<Longrightarrow> q \<notin> set xs \<Longrightarrow> chain (nx(q := e')) (xs @ [q]) e'"
proof (induction xs)
  case (Cons x xs)
  then show ?case by (cases xs) auto
qed simp

lemma chain_tl: "chain nx (p # ps) e \<Longrightarrow> chain nx ps e"
  by (cases ps) auto

lemma chain_remove:
  "chain nx (xs @ q # p # ys) e \<Longrightarrow> distinct (xs @ q # p # ys) \<Longrightarrow> chain (nx(q := nx p)) (xs @ q # ys) e"
proof (induction xs)
  case Nil
  then have "chain nx ys e" by (auto dest: chain_tl)
  moreover have "chain (nx(q := nx p)) ys e = chain nx ys e" using Nil by (intro chain_cong) auto
  ultimately show ?case using Nil by (cases ys) (simp_all del: fun_upd_apply add: fun_upd_same)
next
  case (Cons x xs)
  then show ?case by (cases xs) auto
qed

lemma remove1_mid: "p \<notin> set (xs @ [q]) \<Longrightarrow> remove1 p (xs @ q # p # ys) = xs @ q # ys"
  by (simp add: remove1_append)

lemma unlink_child_ring:
  assumes ring: "is_ring k ps" and p: "p \<in> set ps" and other: "ps \<noteq> [p]"
  obtains q where "unlink_child p k = Some (k\<lparr>
      tasks := (tasks k)(q := (tasks k q)\<lparr>pnext := pnext (tasks k p)\<rparr>),
      proc_list := (if proc_list k = p then pnext (tasks k p) else proc_list k), freed_procs := insert p (freed_procs k)\<rparr>)"
    "is_ring (k\<lparr>tasks := (tasks k)(q := (tasks k q)\<lparr>pnext := pnext (tasks k p)\<rparr>),
      proc_list := (if proc_list k = p then pnext (tasks k p) else proc_list k), freed_procs := insert p (freed_procs k)\<rparr>)
      (remove1 p ps)"
    "q \<in> set ps" "q \<noteq> p"
proof -
  let ?nx = "\<lambda>p. pnext (tasks k p)"
  obtain qs where ps: "ps = proc_list k # qs" "proc_list k \<notin> set qs" "chain ?nx (proc_list k # qs) (proc_list k)"
    using is_ring_head [OF ring] .
  have d: "distinct ps" "0 \<notin> set ps" using ring by (auto simp: is_ring_def)
  have upd: "(\<lambda>r. pnext (if r = q then (tasks k q)\<lparr>pnext := v\<rparr> else tasks k r)) = ?nx(q := v)" for q v by auto
  show ?thesis
  proof (cases "p = proc_list k")
    case True
    then have "qs \<noteq> []" using ps other by auto
    then obtain xs q where qs: "qs = xs @ [q]" by (metis append_butlast_last_id)
    have "find_prev k (proc_list k) (proc_list k) = Some q"
      using find_prev_last [of k "proc_list k # xs" q "proc_list k"] ps qs by simp
    moreover have q: "q \<noteq> p" "q \<in> set ps" using ps qs True by auto
    ultimately have u: "unlink_child p k = Some (k\<lparr>
      tasks := (tasks k)(q := (tasks k q)\<lparr>pnext := pnext (tasks k p)\<rparr>),
      proc_list := (if proc_list k = p then pnext (tasks k p) else proc_list k), freed_procs := insert p (freed_procs k)\<rparr>)"
      using True by (simp add: unlink_child_def upd_task_def)
    have hd: "pnext (tasks k p) = hd qs" using ps(3) True \<open>qs \<noteq> []\<close> by (metis chain.simps(3) list.exhaust_sel)
    have "chain (?nx(q := hd qs)) qs (hd qs)"
      using chain_upd_last [of ?nx xs q "proc_list k" "hd qs"] chain_tl [OF ps(3)] qs d(1) ps(1) by simp
    then have r: "is_ring (k\<lparr>tasks := (tasks k)(q := (tasks k q)\<lparr>pnext := pnext (tasks k p)\<rparr>),
      proc_list := (if proc_list k = p then pnext (tasks k p) else proc_list k), freed_procs := insert p (freed_procs k)\<rparr>)
      (remove1 p ps)"
      using True hd d ps(1) \<open>qs \<noteq> []\<close> by (simp add: is_ring_def upd)
    show ?thesis using that [OF u r] q by simp
  next
    case False
    then have "p \<in> set qs" using p ps(1) by simp
    then obtain as ys where as: "qs = as @ p # ys" by (meson split_list)
    obtain xs q where xs: "proc_list k # as = xs @ [q]" by (metis rev_exhaust list.distinct(1))
    have "ps = (proc_list k # as) @ p # ys" using ps(1) as by simp
    then have sp: "ps = xs @ q # p # ys" "hd (xs @ [q]) = proc_list k" using xs by (simp, metis list.sel(1))
    have q: "q \<noteq> p" "q \<in> set ps" "p \<notin> set (xs @ [q])" using sp d(1) by auto
    have ch: "chain ?nx (xs @ q # p # ys) (proc_list k)" "distinct (xs @ q # p # ys)"
      using ps(1,3) sp(1) d(1) by metis+
    have "find_prev k p (proc_list k) = Some q"
      using find_prev_chain [OF ch] sp(2) by simp
    then have u: "unlink_child p k = Some (k\<lparr>
      tasks := (tasks k)(q := (tasks k q)\<lparr>pnext := pnext (tasks k p)\<rparr>),
      proc_list := (if proc_list k = p then pnext (tasks k p) else proc_list k), freed_procs := insert p (freed_procs k)\<rparr>)"
      using False by (simp add: unlink_child_def upd_task_def)
    have "chain (?nx(q := pnext (tasks k p))) (xs @ q # ys) (proc_list k)"
      using chain_remove [OF ch] .
    moreover have "hd (xs @ q # ys) = proc_list k" using sp(2) by (cases xs) auto
    moreover have "remove1 p ps = xs @ q # ys" using remove1_mid [OF q(3)] sp(1) by simp
    ultimately have r: "is_ring (k\<lparr>tasks := (tasks k)(q := (tasks k q)\<lparr>pnext := pnext (tasks k p)\<rparr>),
      proc_list := (if proc_list k = p then pnext (tasks k p) else proc_list k), freed_procs := insert p (freed_procs k)\<rparr>)
      (remove1 p ps)"
      using False d sp(1) by (auto simp: is_ring_def upd)
    show ?thesis using that [OF u r] q by simp
  qed
qed

section \<open>Properties\<close>

lemma refs_remove1:
  "distinct ps \<Longrightarrow> p \<in> set ps \<Longrightarrow> refs ps F f = refs (remove1 p ps) F f + count_list (F p) f"
  by (induction ps) (auto simp: refs_def)

lemma fd_inv_reap:
  assumes "fd_inv k ps" "p \<in> set ps" "\<forall>i < MAX_FDS. fds (tasks k p) ! i = 0"
    and "\<And>q. fds (tasks k' q) = fds (tasks k q)" "files k' = files k" "freed_files k' = freed_files k"
  shows "fd_inv k' (remove1 p ps)"
proof -
  have ok: "fd_ok ps (\<lambda>q. fds (tasks k q)) (\<lambda>f. refcount (files k f)) (freed_files k)"
    using assms(1) by (simp add: fd_inv_def)
  then have d: "distinct ps" "length (fds (tasks k p)) = MAX_FDS" using assms(2) by (auto simp: fd_ok_def)
  have "count_list (fds (tasks k p)) f = 0" if "f \<noteq> 0" for f
    using assms(3) d(2) that by (auto simp: count_list_0_iff in_set_conv_nth)
  then have r: "refs (remove1 p ps) (\<lambda>q. fds (tasks k q)) f = refs ps (\<lambda>q. fds (tasks k q)) f" if "f \<noteq> 0" for f
    using refs_remove1 [OF d(1) assms(2), of "\<lambda>q. fds (tasks k q)" f] that by simp
  have "length (remove1 p ps) < 2 ^ 24" using ok by (auto simp: fd_ok_def length_remove1)
  moreover have "\<forall>f \<in> freed_files k. refs (remove1 p ps) (\<lambda>q. fds (tasks k q)) f = 0"
    using ok r unfolding fd_ok_def by metis
  ultimately show ?thesis using ok r assms(4-6) d
    by (auto simp: fd_inv_def fd_ok_def dest: notin_set_remove1 in_set_remove1 [THEN iffD1])
qed


text \<open>
  Waiting reaps exactly one zombie child: with a zombie child in the process ring and
  a valid (or null) status pointer, \<^verbatim>\<open>sys_wait4\<close> returns its id and exit status, removes
  exactly that process from the ring and keeps the process table invariant; without a
  zombie it answers \<^verbatim>\<open>-ECHILD\<close> when the caller has no child and yields when it has one.
\<close>

theorem wait4_reaps:
  assumes inv: "task_inv k ps" and c: "c = current_proc k" and alive: "state (tasks k c) \<noteq> TASK_ZOMBIE"
    and exited: "\<forall>q \<in> set ps. state (tasks k q) = TASK_ZOMBIE \<longrightarrow>
        q \<notin> set (runqueue (ksched k)) \<and> (\<forall>i < MAX_FDS. fds (tasks k q) ! i = 0)"
    and w: "w = 0 \<or> validate_user_ptr \<lparr>ptr = w, len = 4\<rparr> 2 = 0"
  shows "if \<exists>q \<in> set ps. ppid (tasks k q) = pid (tasks k c) \<and> state (tasks k q) = TASK_ZOMBIE
    then \<exists>q k'. q \<in> set ps \<and> ppid (tasks k q) = pid (tasks k c) \<and> state (tasks k q) = TASK_ZOMBIE
      \<and> wait_turn w k = Some (Reaped (pid (tasks k q)) (if w \<noteq> 0 then Some (w, exit_status (tasks k q)) else None), k')
      \<and> task_inv k' (remove1 q ps) \<and> q \<in> freed_procs k'
    else wait_turn w k = Some (if \<exists>q \<in> set ps. ppid (tasks k q) = pid (tasks k c)
      then Yield_and_retry else Wait_error (- ECHILD), k)"
proof -
  note I = task_invD [OF inv]
  let ?i = "pid (tasks k c)"
  have c0: "c \<noteq> 0" "c \<in> set ps" using I(5,6) c by auto
  have pl: "proc_list k \<noteq> 0" using is_ring_head [OF I(1)] by metis
  note scan = wait_scan_ring [OF I(1), of ?i]
  show ?thesis
  proof (cases "find (zombie_child k ?i) ps")
    case None
    then have none: "\<not> (\<exists>q \<in> set ps. ppid (tasks k q) = ?i \<and> state (tasks k q) = TASK_ZOMBIE)"
      by (auto simp: find_None_iff zombie_child_def)
    have "wait_turn w k = Some (if \<exists>q \<in> set ps. ppid (tasks k q) = ?i
      then Yield_and_retry else Wait_error (- ECHILD), k)"
      using c0 pl scan None c by (auto simp: wait_turn_def)
    then show ?thesis using none by (simp only: if_False)
  next
    case (Some q)
    then have q: "q \<in> set ps" "ppid (tasks k q) = ?i" "state (tasks k q) = TASK_ZOMBIE"
      by (auto simp: find_Some_iff zombie_child_def)
    have "q \<noteq> c" using q(3) alive by auto
    then have "ps \<noteq> [q]" using c0 by auto
    from unlink_child_ring [OF I(1) q(1) this] obtain r where
      u: "unlink_child q k = Some (k\<lparr>tasks := (tasks k)(r := (tasks k r)\<lparr>pnext := pnext (tasks k q)\<rparr>),
          proc_list := (if proc_list k = q then pnext (tasks k q) else proc_list k), freed_procs := insert q (freed_procs k)\<rparr>)"
      and ring: "is_ring (k\<lparr>tasks := (tasks k)(r := (tasks k r)\<lparr>pnext := pnext (tasks k q)\<rparr>),
          proc_list := (if proc_list k = q then pnext (tasks k q) else proc_list k), freed_procs := insert q (freed_procs k)\<rparr>)
          (remove1 q ps)" .
    define k' where "k' = k\<lparr>tasks := (tasks k)(r := (tasks k r)\<lparr>pnext := pnext (tasks k q)\<rparr>),
          proc_list := (if proc_list k = q then pnext (tasks k q) else proc_list k), freed_procs := insert q (freed_procs k)\<rparr>"
    have d: "distinct ps" using I(1) by (simp add: is_ring_def)
    have sub: "set (remove1 q ps) = set ps - {q}" using d by simp
    have same: "fds (tasks k' s) = fds (tasks k s)" "pid (tasks k' s) = pid (tasks k s)" for s
      by (auto simp: k'_def)
    have "fd_inv k' (remove1 q ps)"
      by (rule fd_inv_reap [OF I(2) q(1)]) (use exited q same in \<open>auto simp: k'_def\<close>)
    moreover have "pid_part k' (remove1 q ps)"
      using I(4) sub same by (auto simp: pid_part_def k'_def inj_on_def)
    moreover have "sched_part k' (remove1 q ps)"
      using I(3) sub exited q by (auto simp: sched_part_def k'_def)
    moreover have "current_proc k' \<in> set (remove1 q ps)" using c0 c sub \<open>q \<noteq> c\<close> by (simp add: k'_def)
    ultimately have "task_inv k' (remove1 q ps)" using ring by (simp add: task_inv_def k'_def)
    moreover have q0: "q \<noteq> 0" using I(6) q(1) by blast
    then have "wait_turn w k = Some (Reaped (pid (tasks k q)) (if w \<noteq> 0 then Some (w, exit_status (tasks k q)) else None), k')"
      using c0 pl scan Some c w u by (auto simp: wait_turn_def k'_def)
    moreover have "q \<in> freed_procs k'" by (simp add: k'_def)
    ultimately show ?thesis using q by (simp only: if_P bexI) blast
  qed
qed


definition wait_demo :: kernel where
  "wait_demo = init_kernel\<lparr>next_pid := 3, tasks := (tasks init_kernel)(
     8 := (tasks init_kernel 8)\<lparr>pnext := 16\<rparr>,
     16 := zero_task\<lparr>pid := 2, ppid := 1, state := TASK_ZOMBIE, exit_status := 7, pnext := 8\<rparr>)\<rparr>"

lemma wait_demo_inv: "task_inv wait_demo [8, 16]"
proof -
  have f: "fds (tasks wait_demo 8) = replicate MAX_FDS 0" "fds (tasks wait_demo 16) = replicate MAX_FDS 0"
    by (simp_all add: wait_demo_def init_kernel_fields) (simp add: zero_task_def)
  have "g \<noteq> 0 \<Longrightarrow> count_list (replicate n 0) g = 0" for g n by (induction n) auto
  then have "refs [8, 16] (\<lambda>q. fds (tasks wait_demo q)) g = 0" if "g \<noteq> 0" for g
    using that by (simp add: refs_def f)
  then have "fd_inv wait_demo [8, 16]"
    using f by (auto simp: fd_inv_def fd_ok_def wait_demo_def init_kernel_fields)
  moreover have "sched_part wait_demo [8, 16]" using task_invD(3) [OF init_kernel(3)] by (auto simp: sched_part_def wait_demo_def)
  moreover have "pid_part wait_demo [8, 16]" by (simp add: pid_part_def wait_demo_def init_kernel_fields)
  moreover have "is_ring wait_demo [8, 16]" by (simp add: is_ring_def wait_demo_def init_kernel_fields)
  ultimately show ?thesis by (simp add: task_inv_def wait_demo_def init_kernel_fields)
qed

theorem wait4_reaps_witness:
  "\<exists>k'. wait_turn 0x5000 wait_demo = Some (Reaped 2 (Some (0x5000, 7)), k') \<and> task_inv k' [8]"
proof -
  have t: "current_proc wait_demo = 8" "pid (tasks wait_demo 8) = 1" "ppid (tasks wait_demo 8) = 0"
    "state (tasks wait_demo 8) = 0" "pid (tasks wait_demo 16) = 2" "ppid (tasks wait_demo 16) = 1"
    "state (tasks wait_demo 16) = 3" "exit_status (tasks wait_demo 16) = 7"
    "fds (tasks wait_demo 16) = replicate MAX_FDS 0" "runqueue (ksched wait_demo) = []"
    by (simp_all add: wait_demo_def init_kernel_fields) (simp_all add: zero_task_def init_kernel_simps)
  have z: "\<forall>q \<in> set [8, 16]. state (tasks wait_demo q) = TASK_ZOMBIE \<longrightarrow>
        q \<notin> set (runqueue (ksched wait_demo)) \<and> (\<forall>i < MAX_FDS. fds (tasks wait_demo q) ! i = 0)"
    by (simp add: t)
  have v: "validate_user_ptr \<lparr>ptr = 0x5000, len = 4\<rparr> 2 = 0" by (simp add: validate_user_ptr_def)
  have "\<exists>q k'. q \<in> set [8, 16] \<and> ppid (tasks wait_demo q) = 1 \<and> state (tasks wait_demo q) = TASK_ZOMBIE
      \<and> wait_turn 0x5000 wait_demo = Some (Reaped (pid (tasks wait_demo q))
          (if (0x5000 :: u64) \<noteq> 0 then Some (0x5000, exit_status (tasks wait_demo q)) else None), k')
      \<and> task_inv k' (remove1 q [8, 16]) \<and> q \<in> freed_procs k'"
    using wait4_reaps [OF wait_demo_inv t(1) [symmetric] _ z, of "0x5000"] t v by simp
  then show ?thesis using t by auto
qed

end
