(* ===== verification/Micro_Ipc.thy ===== *)
theory Micro_Ipc
  imports Task
begin

text \<open>
  Synchronous message passing, \<^verbatim>\<open>kernel/micro_ipc.c\<close>.

  The code dereferences user pointers of the sender and of the receiver under the page
  table that is loaded, the current process's. User memory is therefore a function of the
  address space (the value of \<^verbatim>\<open>cr3\<close>) and of the address of a message; it ranges over the
  user half, whose pages are not shared between address spaces. The first part of each
  call, up to its \<^verbatim>\<open>yield()\<close>, is a definition of its own (\<open>ipc_call_prepare\<close>,
  \<open>ipc_wait_prepare\<close>).
\<close>

section \<open>State\<close>

record sb_msg =
  mtype :: u64
  data1 :: u64
  data2 :: u64
  data3 :: u64
  data4 :: u64

record ipc_state =
  kern :: kernel
  umem :: "u64 \<Rightarrow> u64 \<Rightarrow> sb_msg"

section \<open>Operations\<close>

partial_function (option) find_process_from :: "kernel \<Rightarrow> u32 \<Rightarrow> nat \<Rightarrow> nat option" where
  "find_process_from k i p =
     (if p = 0 then Some 0
      else if pid (tasks k p) = i \<and> state (tasks k p) \<noteq> TASK_ZOMBIE then Some p
      else find_process_from k i (pnext (tasks k p)))"

definition find_process :: "u32 \<Rightarrow> kernel \<Rightarrow> nat option" where
  "find_process i k = find_process_from k i (proc_list k)"

partial_function (option) last_waiter :: "kernel \<Rightarrow> nat \<Rightarrow> nat option" where
  "last_waiter k w =
     (if ipc_next_waiter (tasks k w) = 0 then Some w else last_waiter k (ipc_next_waiter (tasks k w)))"

text \<open>\<^verbatim>\<open>*dst = *src\<close> with the sender's id in \<^verbatim>\<open>data4\<close>, under the loaded page table.\<close>

definition copy_msg :: "u64 \<Rightarrow> u64 \<Rightarrow> (sb_msg \<Rightarrow> sb_msg) \<Rightarrow> ipc_state \<Rightarrow> ipc_state" where
  "copy_msg dst src f s =
     (let a = cpu_cr3 (kcpu (kern s)); m = umem s
      in s\<lparr>umem := m(a := (m a)(dst := f (m a src)))\<rparr>)"

definition wake :: "nat \<Rightarrow> ipc_state \<Rightarrow> ipc_state" where
  "wake t s = s\<lparr>kern := upd_task t (\<lambda>x. x\<lparr>ipc_status := 0, state := TASK_READY\<rparr>) (kern s)\<rparr>"

definition add_waiter :: "nat \<Rightarrow> nat \<Rightarrow> ipc_state \<Rightarrow> ipc_state option" where
  "add_waiter t c s =
     (let k1 = upd_task c (\<lambda>x. x\<lparr>ipc_next_waiter := 0\<rparr>) (kern s)
      in if ipc_waiters (tasks k1 t) = 0
         then Some (s\<lparr>kern := upd_task t (\<lambda>x. x\<lparr>ipc_waiters := c\<rparr>) k1\<rparr>)
         else map_option (\<lambda>w. s\<lparr>kern := upd_task w (\<lambda>x. x\<lparr>ipc_next_waiter := c\<rparr>) k1\<rparr>)
                (last_waiter k1 (ipc_waiters (tasks k1 t))))"

definition receiving_from :: "task \<Rightarrow> u32 \<Rightarrow> bool" where
  "receiving_from t i \<longleftrightarrow> ipc_status t = 1 \<and> (ipc_peer t = 0 \<or> ipc_peer t = i)"

definition ipc_call_prepare :: "nat \<Rightarrow> u64 \<Rightarrow> ipc_state \<Rightarrow> ipc_state option" where
  "ipc_call_prepare t msg_ptr s = do {
     let c = current_proc (kern s);
     let s1 = s\<lparr>kern := upd_task c (\<lambda>x. x\<lparr>ipc_status := 2, ipc_peer := pid (tasks (kern s) t),
                   ipc_msg_ptr := msg_ptr\<rparr>) (kern s)\<rparr>;
     let i = pid (tasks (kern s) c);
     s2 \<leftarrow> (if receiving_from (tasks (kern s1) t) i
           then Some (wake t (copy_msg (ipc_msg_ptr (tasks (kern s1) t)) msg_ptr (\<lambda>m. m\<lparr>data4 := ucast i\<rparr>) s1))
           else add_waiter t c s1);
     Some (s2\<lparr>kern := upd_task c (\<lambda>x. x\<lparr>state := TASK_BLOCKED\<rparr>) (kern s2)\<rparr>)
   }"

definition sys_sb_ipc_call :: "u64 \<Rightarrow> u64 \<Rightarrow> u64 \<Rightarrow> ipc_state \<Rightarrow> (int \<times> ipc_state) option" where
  "sys_sb_ipc_call user_stack target_pid msg_ptr s =
     (if current_proc (kern s) = 0 then Some (- EINVAL, s)
      else do {
        t \<leftarrow> find_process (ucast target_pid) (kern s);
        if t = 0 then Some (- ESRCH, s)
        else do {
          s1 \<leftarrow> ipc_call_prepare t msg_ptr s;
          k \<leftarrow> yield user_stack (kern s1);
          Some (0, s1\<lparr>kern := k\<rparr>)
        }
      })"

definition ipc_reply :: "u64 \<Rightarrow> u64 \<Rightarrow> ipc_state \<Rightarrow> ipc_state option" where
  "ipc_reply reply_pid reply_msg_ptr s =
     (let c = current_proc (kern s)
      in if reply_pid \<noteq> 0 \<and> reply_msg_ptr \<noteq> 0
         then do {
           t \<leftarrow> find_process (ucast reply_pid) (kern s);
           if t \<noteq> 0 \<and> ipc_status (tasks (kern s) t) = 2 \<and> ipc_peer (tasks (kern s) t) = pid (tasks (kern s) c)
           then Some (wake t (copy_msg (ipc_msg_ptr (tasks (kern s) t)) reply_msg_ptr id s))
           else Some s
         }
         else Some s)"

definition ipc_take_waiter :: "u64 \<Rightarrow> ipc_state \<Rightarrow> ipc_state" where
  "ipc_take_waiter req_msg_ptr s =
     (let c = current_proc (kern s); w = ipc_waiters (tasks (kern s) c);
          s1 = s\<lparr>kern := upd_task c (\<lambda>x. x\<lparr>ipc_waiters := ipc_next_waiter (tasks (kern s) w)\<rparr>) (kern s)\<rparr>
      in copy_msg req_msg_ptr (ipc_msg_ptr (tasks (kern s1) w)) (\<lambda>m. m\<lparr>data4 := ucast (pid (tasks (kern s1) w))\<rparr>) s1)"

definition ipc_wait_prepare :: "u64 \<Rightarrow> ipc_state \<Rightarrow> ipc_state" where
  "ipc_wait_prepare req_msg_ptr s =
     s\<lparr>kern := upd_task (current_proc (kern s)) (\<lambda>x. x\<lparr>ipc_status := 1, ipc_peer := 0,
         ipc_msg_ptr := req_msg_ptr, state := TASK_BLOCKED\<rparr>) (kern s)\<rparr>"

definition sys_sb_ipc_reply_wait :: "u64 \<Rightarrow> u64 \<Rightarrow> u64 \<Rightarrow> u64 \<Rightarrow> ipc_state \<Rightarrow> (int \<times> ipc_state) option" where
  "sys_sb_ipc_reply_wait user_stack reply_pid reply_msg_ptr req_msg_ptr s =
     (if current_proc (kern s) = 0 then Some (- EINVAL, s)
      else do {
        s1 \<leftarrow> ipc_reply reply_pid reply_msg_ptr s;
        if ipc_waiters (tasks (kern s1) (current_proc (kern s1))) \<noteq> 0
        then Some (0, ipc_take_waiter req_msg_ptr s1)
        else do {
          let s2 = ipc_wait_prepare req_msg_ptr s1;
          k \<leftarrow> yield user_stack (kern s2);
          Some (0, s2\<lparr>kern := k\<rparr>)
        }
      })"

section \<open>The search for the partner\<close>

lemma chain_next_mem:
  "chain nx ps e \<Longrightarrow> e \<in> set qs \<Longrightarrow> set ps \<subseteq> set qs \<Longrightarrow> p \<in> set ps \<Longrightarrow> nx p \<in> set qs"
  by (induction nx ps e rule: chain.induct) auto

lemma is_ring_next: "is_ring k ps \<Longrightarrow> p \<in> set ps \<Longrightarrow> pnext (tasks k p) \<in> set ps"
proof -
  assume ring: "is_ring k ps" and p: "p \<in> set ps"
  then have "proc_list k \<in> set ps" by (metis is_ring_def list.set_sel(1))
  then show ?thesis using ring p chain_next_mem [of "\<lambda>p. pnext (tasks k p)" ps "proc_list k" ps p] by (simp add: is_ring_def)
qed

lemma find_process_from_Some:
  assumes "find_process_from k i p = Some r" "is_ring k ps" "p \<in> set ps"
  shows "r \<in> set ps \<and> pid (tasks k r) = i \<and> state (tasks k r) \<noteq> TASK_ZOMBIE"
proof -
  have "p \<in> set ps \<longrightarrow> is_ring k ps \<longrightarrow> r \<in> set ps \<and> pid (tasks k r) = i \<and> state (tasks k r) \<noteq> TASK_ZOMBIE"
  proof (rule find_process_from.raw_induct [OF _ assms(1), where P = "\<lambda>k i p r. p \<in> set ps \<longrightarrow> is_ring k ps \<longrightarrow>
        r \<in> set ps \<and> pid (tasks k r) = i \<and> state (tasks k r) \<noteq> TASK_ZOMBIE"], intro impI)
    fix f k i p r
    assume IH: "\<And>k i p r. f k i p = Some r \<Longrightarrow> p \<in> set ps \<longrightarrow> is_ring k ps \<longrightarrow>
        r \<in> set ps \<and> pid (tasks k r) = i \<and> state (tasks k r) \<noteq> TASK_ZOMBIE"
      and body: "(if p = 0 then Some 0 else if pid (tasks k p) = i \<and> state (tasks k p) \<noteq> TASK_ZOMBIE
        then Some p else f k i (pnext (tasks k p))) = Some r" and p: "p \<in> set ps" and ring: "is_ring k ps"
    have "p \<noteq> 0" using p ring by (metis is_ring_def)
    then show "r \<in> set ps \<and> pid (tasks k r) = i \<and> state (tasks k r) \<noteq> TASK_ZOMBIE"
      using body p ring IH [of k i "pnext (tasks k p)" r] is_ring_next [OF ring p] by (auto split: if_splits)
  qed
  then show ?thesis using assms by blast
qed


lemma find_process_hangs:
  assumes ring: "is_ring k ps" and none: "\<forall>p \<in> set ps. pid (tasks k p) = i \<longrightarrow> state (tasks k p) = TASK_ZOMBIE"
  shows "find_process i k = None"
proof (cases "find_process i k")
  case (Some r)
  have "proc_list k \<in> set ps" using ring by (metis is_ring_def list.set_sel(1))
  then show ?thesis using find_process_from_Some [of k i "proc_list k" r ps] Some ring none
    by (auto simp: find_process_def)
qed

section \<open>The queue of waiting senders\<close>

fun waiters :: "(nat \<Rightarrow> nat) \<Rightarrow> nat \<Rightarrow> nat list \<Rightarrow> bool" where
  "waiters nx w [] \<longleftrightarrow> w = 0"
| "waiters nx w (x # xs) \<longleftrightarrow> w = x \<and> x \<noteq> 0 \<and> waiters nx (nx x) xs"

definition wait_queue :: "kernel \<Rightarrow> nat \<Rightarrow> nat list \<Rightarrow> bool" where
  "wait_queue k t ws \<longleftrightarrow> waiters (\<lambda>p. ipc_next_waiter (tasks k p)) (ipc_waiters (tasks k t)) ws \<and> distinct ws"

lemma waiters_cong: "(\<And>p. p \<in> set ws \<Longrightarrow> nx p = nx' p) \<Longrightarrow> waiters nx w ws = waiters nx' w ws"
  by (induction ws arbitrary: w) auto

lemma last_waiter_last:
  "waiters (\<lambda>p. ipc_next_waiter (tasks k p)) w ws \<Longrightarrow> ws \<noteq> [] \<Longrightarrow> last_waiter k w = Some (last ws)"
proof (induction ws arbitrary: w)
  case (Cons x ws)
  then show ?case by (cases ws; subst last_waiter.simps) auto
qed simp

lemma waiters_append:
  "waiters nx w ws \<Longrightarrow> ws \<noteq> [] \<Longrightarrow> distinct ws \<Longrightarrow> c \<notin> set ws \<Longrightarrow> c \<noteq> 0 \<Longrightarrow> nx c = 0 \<Longrightarrow>
   waiters (nx(last ws := c)) w (ws @ [c])"
proof (induction ws arbitrary: w)
  case (Cons x ws)
  show ?case
  proof (cases ws)
    case Nil
    then show ?thesis using Cons.prems by auto
  next
    case (Cons y ys)
    then have "last (x # ws) = last ws" "x \<noteq> last ws" using Cons.prems by auto
    then show ?thesis using Cons.IH [of "nx x"] Cons.prems Cons by simp
  qed
qed simp

lemma add_waiter_queue:
  assumes q: "wait_queue (kern s) t ws" and c: "c \<notin> set ws" "c \<noteq> 0" and wt: "0 \<notin> set ws"
  obtains s' where "add_waiter t c s = Some s'" "wait_queue (kern s') t (ws @ [c])" "umem s' = umem s"
    "ksched (kern s') = ksched (kern s)" "current_proc (kern s') = current_proc (kern s)"
proof -
  define k1 where "k1 = upd_task c (\<lambda>x. x\<lparr>ipc_next_waiter := 0\<rparr>) (kern s)"
  let ?nx = "\<lambda>k p. ipc_next_waiter (tasks k p)"
  have w1: "ipc_waiters (tasks k1 t) = ipc_waiters (tasks (kern s) t)" by (simp add: k1_def)
  have nx1: "?nx k1 = (?nx (kern s))(c := 0)" by (auto simp: k1_def)
  have "waiters (?nx k1) w ws = waiters (?nx (kern s)) w ws" for w
    by (rule waiters_cong) (use c(1) nx1 in \<open>metis fun_upd_other\<close>)
  then have ws: "waiters (?nx k1) (ipc_waiters (tasks k1 t)) ws" using q by (simp add: wait_queue_def w1)
  show ?thesis
  proof (cases "ws = []")
    case True
    then have z: "ipc_waiters (tasks k1 t) = 0" using ws by simp
    let ?k = "upd_task t (\<lambda>x. x\<lparr>ipc_waiters := c\<rparr>) k1"
    have "wait_queue ?k t [c]" using c by (simp add: wait_queue_def) (simp add: k1_def)
    then show ?thesis using that [of "s\<lparr>kern := ?k\<rparr>"] z True
      by (simp add: add_waiter_def Let_def flip: k1_def) (simp add: k1_def)
  next
    case False
    let ?l = "last ws"
    let ?k = "upd_task ?l (\<lambda>x. x\<lparr>ipc_next_waiter := c\<rparr>) k1"
    have l: "last_waiter k1 (ipc_waiters (tasks k1 t)) = Some ?l" using last_waiter_last [OF ws False] .
    have nz: "ipc_waiters (tasks k1 t) \<noteq> 0" using ws False wt by (cases ws) auto
    have nx2: "?nx ?k = (?nx k1)(?l := c)" "ipc_waiters (tasks ?k t) = ipc_waiters (tasks k1 t)" by auto
    have d: "distinct ws" using q by (simp add: wait_queue_def)
    have "ipc_next_waiter (tasks k1 c) = 0" by (simp add: k1_def)
    from waiters_append [OF ws False d c this] have "wait_queue ?k t (ws @ [c])"
      unfolding wait_queue_def nx2 using d c by simp
    then show ?thesis using that [of "s\<lparr>kern := ?k\<rparr>"] nz l
      by (simp add: add_waiter_def Let_def flip: k1_def) (simp add: k1_def)
  qed
qed

lemma take_waiter_queue:
  assumes "wait_queue (kern s) (current_proc (kern s)) (w # ws)"
  shows "wait_queue (kern (ipc_take_waiter r s)) (current_proc (kern s)) ws"
proof -
  let ?k = "kern (ipc_take_waiter r s)" and ?c = "current_proc (kern s)"
  have w: "ipc_waiters (tasks (kern s) ?c) = w" using assms by (simp add: wait_queue_def)
  have "(\<lambda>p. ipc_next_waiter (tasks ?k p)) = (\<lambda>p. ipc_next_waiter (tasks (kern s) p))"
    "ipc_waiters (tasks ?k ?c) = ipc_next_waiter (tasks (kern s) w)"
    by (auto simp: ipc_take_waiter_def copy_msg_def Let_def w)
  then show ?thesis using assms by (simp add: wait_queue_def)
qed


section \<open>Properties\<close>

text \<open>
  Senders to a busy receiver wait in order of arrival: a call to a process that is not
  receiving appends the caller to that process's queue, blocks the caller and copies no
  message; taking a request removes the head of the queue, so requests are served first
  come, first served.
\<close>

theorem ipc_senders_fifo:
  assumes q: "wait_queue (kern s) t ws" and c: "current_proc (kern s) \<notin> set ws" "current_proc (kern s) \<noteq> 0"
    and busy: "\<not> receiving_from (tasks (kern s) t) (pid (tasks (kern s) (current_proc (kern s))))"
    and other: "t \<noteq> current_proc (kern s)" "0 \<notin> set ws"
  shows "(\<exists>s'. ipc_call_prepare t p s = Some s' \<and> wait_queue (kern s') t (ws @ [current_proc (kern s)])
      \<and> umem s' = umem s \<and> state (tasks (kern s') (current_proc (kern s))) = TASK_BLOCKED)
    \<and> (\<forall>w ws' r. wait_queue (kern s) (current_proc (kern s)) (w # ws') \<longrightarrow>
        wait_queue (kern (ipc_take_waiter r s)) (current_proc (kern s)) ws')"
proof -
  let ?c = "current_proc (kern s)"
  define s1 where "s1 = s\<lparr>kern := upd_task ?c (\<lambda>x. x\<lparr>ipc_status := 2, ipc_peer := pid (tasks (kern s) t),
                   ipc_msg_ptr := p\<rparr>) (kern s)\<rparr>"
  have "(\<lambda>p. ipc_next_waiter (tasks (kern s1) p)) = (\<lambda>p. ipc_next_waiter (tasks (kern s) p))"
    "ipc_waiters (tasks (kern s1) t) = ipc_waiters (tasks (kern s) t)" by (auto simp: s1_def)
  then have q1: "wait_queue (kern s1) t ws" using q by (simp add: wait_queue_def)
  obtain s2 where s2: "add_waiter t ?c s1 = Some s2" "wait_queue (kern s2) t (ws @ [?c])" "umem s2 = umem s1"
    using add_waiter_queue [OF q1 c other(2)] .
  define s3 where "s3 = s2\<lparr>kern := upd_task ?c (\<lambda>x. x\<lparr>state := TASK_BLOCKED\<rparr>) (kern s2)\<rparr>"
  have "\<not> receiving_from (tasks (kern s1) t) (pid (tasks (kern s) ?c))" using busy other by (simp add: s1_def)
  then have "ipc_call_prepare t p s = Some s3"
    using s2(1) unfolding ipc_call_prepare_def Let_def s1_def [symmetric] by (simp add: s3_def)
  moreover have "(\<lambda>p. ipc_next_waiter (tasks (kern s3) p)) = (\<lambda>p. ipc_next_waiter (tasks (kern s2) p))"
    "ipc_waiters (tasks (kern s3) t) = ipc_waiters (tasks (kern s2) t)" by (auto simp: s3_def)
  then have "wait_queue (kern s3) t (ws @ [?c])" using s2(2) by (simp add: wait_queue_def)
  moreover have "umem s3 = umem s" using s2(3) by (simp add: s3_def s1_def)
  ultimately show ?thesis using take_waiter_queue by (auto simp: s3_def)
qed

text \<open>
  A message to another address space is not delivered, and its receiver is not woken:
  when a process calls a receiver that waits for it and runs in a different address space,
  the call returns with the receiver's memory unchanged, the receiver marked ready but in no
  run queue, and the receiver is not the process that runs next.
\<close>

theorem ipc_call_lost_message:
  assumes inv: "task_inv (kern s) ps" and t: "find_process (ucast i) (kern s) = Some t" "t \<in> set ps" "t \<noteq> current_proc (kern s)"
    and waits: "receiving_from (tasks (kern s) t) (pid (tasks (kern s) (current_proc (kern s))))"
    and asleep: "t \<notin> set (runqueue (ksched (kern s)))"
    and space: "cr3 (tasks (kern s) t) \<noteq> cpu_cr3 (kcpu (kern s))"
  shows "\<exists>s1 s'. ipc_call_prepare t p s = Some s1 \<and> sys_sb_ipc_call u i p s = Some (0, s')
    \<and> state (tasks (kern s1) t) = TASK_READY \<and> t \<notin> set (runqueue (ksched (kern s1)))
    \<and> umem s' (cr3 (tasks (kern s) t)) = umem s (cr3 (tasks (kern s) t)) \<and> current_proc (kern s') \<noteq> t"
proof -
  let ?c = "current_proc (kern s)"
  define s1 where "s1 = s\<lparr>kern := upd_task ?c (\<lambda>x. x\<lparr>ipc_status := 2, ipc_peer := pid (tasks (kern s) t),
                   ipc_msg_ptr := p\<rparr>) (kern s)\<rparr>"
  define s2 where "s2 = wake t (copy_msg (ipc_msg_ptr (tasks (kern s1) t)) p (\<lambda>m. m\<lparr>data4 := ucast (pid (tasks (kern s) ?c))\<rparr>) s1)"
  define s3 where "s3 = s2\<lparr>kern := upd_task ?c (\<lambda>x. x\<lparr>state := TASK_BLOCKED\<rparr>) (kern s2)\<rparr>"
  have "receiving_from (tasks (kern s1) t) (pid (tasks (kern s) ?c))" using waits t(3) by (simp add: s1_def)
  then have prep: "ipc_call_prepare t p s = Some s3"
    unfolding ipc_call_prepare_def Let_def s1_def [symmetric] by (simp add: s3_def s2_def)
  have k2: "kern s2 = upd_task t (\<lambda>x. x\<lparr>ipc_status := 0, state := TASK_READY\<rparr>) (kern s1)"
    by (simp add: s2_def wake_def copy_msg_def Let_def)
  have "task_inv (kern s1) ps" using inv unfolding s1_def by (simp, subst task_inv_cong) simp_all
  then have "task_inv (kern s2) ps" unfolding k2 by (subst task_inv_cong) simp_all
  then have inv3: "task_inv (kern s3) ps" unfolding s3_def by (simp, subst task_inv_cong) simp_all
  have k3: "ksched (kern s3) = ksched (kern s)" "current_proc (kern s3) = ?c" "state (tasks (kern s3) t) = TASK_READY"
    using t(3) by (simp_all add: s3_def k2 s1_def)
  obtain k' where k': "schedule u (kern s3) = Some k'"
    "current_proc k' = ?c \<or> current_proc k' \<in> set (runqueue (ksched (kern s)))"
    using schedule_spec [OF inv3, of u] k3 by metis
  have c0: "?c \<noteq> 0" "t \<noteq> 0" using task_invD(5,6) [OF inv] t(2) by blast+
  have "sys_sb_ipc_call u i p s = Some (0, s3\<lparr>kern := k'\<rparr>)"
    using t(1) c0 prep k'(1) by (simp add: sys_sb_ipc_call_def yield_def)
  moreover have "umem s3 (cr3 (tasks (kern s) t)) = umem s (cr3 (tasks (kern s) t))"
    using space by (simp add: s3_def s2_def wake_def copy_msg_def Let_def s1_def upd_task_def)
  moreover have "current_proc k' \<noteq> t" using k'(2) t(3) asleep by auto
  ultimately show ?thesis using prep k3 asleep by auto
qed

text \<open>
  A call to an id that no live process has never returns: \<^verbatim>\<open>find_process\<close> walks the
  process list until \<^verbatim>\<open>NULL\<close>, but the list is a ring, so the \<^verbatim>\<open>-ESRCH\<close> of the code is
  never reached.
\<close>

theorem ipc_call_unknown_pid_hangs:
  assumes inv: "task_inv (kern s) ps"
    and none: "\<forall>p \<in> set ps. pid (tasks (kern s) p) = ucast i \<longrightarrow> state (tasks (kern s) p) = TASK_ZOMBIE"
  shows "sys_sb_ipc_call u i m s = None"
proof -
  have "current_proc (kern s) \<noteq> 0" using task_invD(5,6) [OF inv] by blast
  then show ?thesis
    using find_process_hangs [OF task_invD(1) [OF inv] none] by (simp add: sys_sb_ipc_call_def)
qed


definition ipc_demo :: ipc_state where
  "ipc_demo = \<lparr>kern = init_kernel\<lparr>next_pid := 3, kcpu := (kcpu init_kernel)\<lparr>cpu_cr3 := 0x1000\<rparr>,
     tasks := (tasks init_kernel)(8 := (tasks init_kernel 8)\<lparr>pnext := 16\<rparr>,
       16 := zero_task\<lparr>pid := 2, ppid := 1, state := TASK_BLOCKED, cr3 := 0x2000, pnext := 8, ipc_status := 1\<rparr>)\<rparr>,
     umem = (\<lambda>_ _. \<lparr>mtype = 0, data1 = 0, data2 = 0, data3 = 0, data4 = 0\<rparr>)\<rparr>"

lemma ipc_demo_fields:
  "current_proc (kern ipc_demo) = 8" "pid (tasks (kern ipc_demo) 8) = 1" "pid (tasks (kern ipc_demo) 16) = 2"
  "state (tasks (kern ipc_demo) 16) = TASK_BLOCKED" "cr3 (tasks (kern ipc_demo) 16) = 0x2000"
  "cpu_cr3 (kcpu (kern ipc_demo)) = 0x1000" "runqueue (ksched (kern ipc_demo)) = []"
  "ipc_status (tasks (kern ipc_demo) 16) = 1" "ipc_peer (tasks (kern ipc_demo) 16) = 0"
  "ipc_waiters (tasks (kern ipc_demo) 16) = 0" "ipc_status (tasks (kern ipc_demo) 8) = 0"
  "ipc_waiters (tasks (kern ipc_demo) 8) = 0" "state (tasks (kern ipc_demo) 8) = TASK_RUNNING"
  "fds (tasks (kern ipc_demo) 8) = replicate MAX_FDS 0" "fds (tasks (kern ipc_demo) 16) = replicate MAX_FDS 0"
  by (simp_all add: ipc_demo_def init_kernel_fields) (simp_all add: zero_task_def init_kernel_simps)

lemma ipc_demo_inv: "task_inv (kern ipc_demo) [8, 16]"
proof -
  let ?k = "kern ipc_demo"
  note f = ipc_demo_fields(14,15)
  have "g \<noteq> 0 \<Longrightarrow> count_list (replicate n 0) g = 0" for g n by (induction n) auto
  then have "refs [8, 16] (\<lambda>q. fds (tasks ?k q)) g = 0" if "g \<noteq> 0" for g
    using that by (simp add: refs_def f)
  moreover have "freed_files ?k = - {0}" by (simp add: ipc_demo_def init_kernel_fields)
  ultimately have "fd_inv ?k [8, 16]" using f by (auto simp: fd_inv_def fd_ok_def)
  moreover have "sched_part ?k [8, 16]" using task_invD(3) [OF init_kernel(3)] by (auto simp: sched_part_def ipc_demo_def)
  moreover have "pid_part ?k [8, 16]" by (simp add: pid_part_def ipc_demo_fields) (simp add: ipc_demo_def)
  moreover have "is_ring ?k [8, 16]" by (simp add: is_ring_def ipc_demo_def init_kernel_fields)
  ultimately show ?thesis by (simp add: task_inv_def ipc_demo_fields)
qed

theorem ipc_senders_fifo_witness:
  "\<exists>s'. ipc_call_prepare 8 0x40 (ipc_demo\<lparr>kern := (kern ipc_demo)\<lparr>current_proc := 16\<rparr>\<rparr>) = Some s'
     \<and> wait_queue (kern s') 8 [16]"
  using ipc_senders_fifo [of "ipc_demo\<lparr>kern := (kern ipc_demo)\<lparr>current_proc := 16\<rparr>\<rparr>" 8 "[]" "0x40"]
  by (auto simp: wait_queue_def receiving_from_def ipc_demo_fields)

theorem ipc_call_lost_message_witness:
  "\<exists>s'. sys_sb_ipc_call 0 2 0x40 ipc_demo = Some (0, s') \<and> umem s' 0x2000 = umem ipc_demo 0x2000
     \<and> current_proc (kern s') \<noteq> 16"
proof -
  let ?k = "kern ipc_demo"
  have "proc_list ?k = 8" "pnext (tasks ?k 8) = 16" by (simp_all add: ipc_demo_def init_kernel_fields)
  then have f: "find_process (ucast (2 :: u64)) ?k = Some 16"
    by (simp add: find_process_def, subst find_process_from.simps, subst find_process_from.simps)
      (simp add: ipc_demo_fields)
  show ?thesis
    using ipc_call_lost_message [OF ipc_demo_inv f, of "0x40" 0] by (auto simp: ipc_demo_fields receiving_from_def)
qed

theorem ipc_call_unknown_pid_hangs_witness: "sys_sb_ipc_call 0 77 0x40 ipc_demo = None"
  by (rule ipc_call_unknown_pid_hangs [OF ipc_demo_inv]) (simp add: ipc_demo_fields)

end
