(* ===== verification/Vmm.thy ===== *)
theory Vmm
  imports Pmm "HOL-Library.Monad_Syntax"
begin

text \<open>
  Four-level page tables, \<^verbatim>\<open>arch/x86_64/mm/vmm.c\<close>, on top of the physical allocator of \<open>Pmm\<close>.

  Physical memory is a function from page addresses and word indices to 64-bit words, the
  view the code has of it through the direct map at \<^verbatim>\<open>0xFFFFFFFF80000000\<close>; page tables and
  page contents live in the same memory. \<open>vcr3\<close> is the register. A panic for lack of
  memory is \<open>None\<close>. TLB invalidation, the PCID probe and the reload of \<^verbatim>\<open>cr3\<close> have no
  counterpart.
\<close>

section \<open>State and entries\<close>

record vmm =
  phys :: "u64 \<Rightarrow> nat \<Rightarrow> u64"
  vpmm :: pmm
  vcr3 :: u64
  vmalloc_addr :: u64
  boot_pml4 :: u64
  boot_pd :: u64

definition page_of :: "u64 \<Rightarrow> u64" where
  "page_of e = e AND NOT 0xFFF"

definition present :: "u64 \<Rightarrow> bool" where "present e \<longleftrightarrow> bit e 0"
definition writable :: "u64 \<Rightarrow> bool" where "writable e \<longleftrightarrow> bit e 1"
definition large :: "u64 \<Rightarrow> bool" where "large e \<longleftrightarrow> bit e 7"
definition cow :: "u64 \<Rightarrow> bool" where "cow e \<longleftrightarrow> bit e 8"
definition demand :: "u64 \<Rightarrow> bool" where "demand e \<longleftrightarrow> bit e 9"

definition idx4 :: "u64 \<Rightarrow> nat" where "idx4 v = unat (drop_bit 39 v AND 0x1FF)"
definition idx3 :: "u64 \<Rightarrow> nat" where "idx3 v = unat (drop_bit 30 v AND 0x1FF)"
definition idx2 :: "u64 \<Rightarrow> nat" where "idx2 v = unat (drop_bit 21 v AND 0x1FF)"
definition idx1 :: "u64 \<Rightarrow> nat" where "idx1 v = unat (drop_bit 12 v AND 0x1FF)"

definition set_entry :: "u64 \<Rightarrow> nat \<Rightarrow> u64 \<Rightarrow> vmm \<Rightarrow> vmm" where
  "set_entry p i e s = s\<lparr>phys := (phys s)(p := (phys s p)(i := e))\<rparr>"

definition fill_page :: "u64 \<Rightarrow> (nat \<Rightarrow> u64) \<Rightarrow> vmm \<Rightarrow> vmm" where
  "fill_page p f s = s\<lparr>phys := (phys s)(p := f)\<rparr>"

text \<open>\<^verbatim>\<open>pmm_alloc_page\<close> followed by the panic on \<^verbatim>\<open>NULL\<close>.\<close>

definition alloc_frame :: "vmm \<Rightarrow> (u64 \<times> vmm) option" where
  "alloc_frame s = (let (p, pm) = pmm_alloc_page (vpmm s)
                    in if p = 0 then None else Some (p, s\<lparr>vpmm := pm\<rparr>))"

definition free_frame :: "u64 \<Rightarrow> vmm \<Rightarrow> vmm" where
  "free_frame p s = s\<lparr>vpmm := pmm_free_page p (vpmm s)\<rparr>"

section \<open>Mapping\<close>

definition ensure_table :: "u64 \<Rightarrow> u64 \<Rightarrow> nat \<Rightarrow> vmm \<Rightarrow> vmm option" where
  "ensure_table fl p i s =
     (if present (phys s p i) then Some s
      else do {
        (q, s1) \<leftarrow> alloc_frame s;
        Some (set_entry p i (q OR fl) (fill_page q (\<lambda>_. 0) s1))
      })"

definition split_entry :: "u64 \<Rightarrow> nat \<Rightarrow> u64" where
  "split_entry e i = ((e AND NOT 0x1FFFFF) + of_nat i * 0x1000) OR ((e AND 0xFFF) AND NOT 0x80)"

definition ensure_pt :: "u64 \<Rightarrow> u64 \<Rightarrow> nat \<Rightarrow> vmm \<Rightarrow> vmm option" where
  "ensure_pt fl p i s =
     (if present (phys s p i) \<and> large (phys s p i) then do {
        (q, s1) \<leftarrow> alloc_frame s;
        Some (set_entry p i (q OR fl) (fill_page q (split_entry (phys s p i)) s1))
      }
      else ensure_table fl p i s)"

text \<open>
  The body shared by \<^verbatim>\<open>vmm_map_page\<close> (intermediate flags 7) and \<^verbatim>\<open>vmm_map_phys_range\<close>
  (intermediate flags 3).
\<close>

definition map_entry :: "u64 \<Rightarrow> u64 \<Rightarrow> u64 \<Rightarrow> vmm \<Rightarrow> vmm option" where
  "map_entry fl v e s = do {
     let pml4 = page_of (vcr3 s);
     s1 \<leftarrow> ensure_table fl pml4 (idx4 v) s;
     let pdp = page_of (phys s1 pml4 (idx4 v));
     s2 \<leftarrow> ensure_table fl pdp (idx3 v) s1;
     let pd = page_of (phys s2 pdp (idx3 v));
     s3 \<leftarrow> ensure_pt fl pd (idx2 v) s2;
     let pt = page_of (phys s3 pd (idx2 v));
     Some (set_entry pt (idx1 v) e s3)
   }"

definition vmm_map_page :: "u64 \<Rightarrow> u64 \<Rightarrow> u32 \<Rightarrow> vmm \<Rightarrow> vmm option" where
  "vmm_map_page phys_addr virt_addr flags s = map_entry 7 virt_addr (phys_addr OR ucast flags) s"

partial_function (option) map_phys_loop :: "u64 \<Rightarrow> u64 \<Rightarrow> vmm \<Rightarrow> vmm option" where
  "map_phys_loop p page_end s =
     (if p < page_end
      then Option.bind (map_entry 3 (p + 0xFFFF800000000000) (p OR 3) s) (map_phys_loop (p + 4096) page_end)
      else Some s)"

definition vmm_map_phys_range :: "u64 \<Rightarrow> u64 \<Rightarrow> vmm \<Rightarrow> vmm option" where
  "vmm_map_phys_range phys_start n s =
     map_phys_loop (phys_start AND NOT 0xFFF) ((phys_start + n + 4096 - 1) AND NOT 0xFFF) s"

section \<open>The guarded walk\<close>

text \<open>The page table of an address, if every level above it is present and not large.\<close>

definition next_table :: "(u64 \<Rightarrow> nat \<Rightarrow> u64) \<Rightarrow> u64 \<Rightarrow> nat \<Rightarrow> u64 option" where
  "next_table m p i = (if present (m p i) \<and> \<not> large (m p i) then Some (page_of (m p i)) else None)"

definition walk_pt :: "vmm \<Rightarrow> u64 \<Rightarrow> u64 option" where
  "walk_pt s v = do {
     pdp \<leftarrow> next_table (phys s) (page_of (vcr3 s)) (idx4 v);
     pd \<leftarrow> next_table (phys s) pdp (idx3 v);
     next_table (phys s) pd (idx2 v)
   }"

definition vmm_unmap_page :: "u64 \<Rightarrow> vmm \<Rightarrow> vmm" where
  "vmm_unmap_page v s =
     (case walk_pt s v of
        None \<Rightarrow> s
      | Some pt \<Rightarrow>
          (let e = phys s pt (idx1 v)
           in if present e
              then set_entry pt (idx1 v) 0 (if \<not> cow e then free_frame (page_of e) s else s)
              else s))"

definition vmm_handle_cow_fault :: "u64 \<Rightarrow> vmm \<Rightarrow> (int \<times> vmm) option" where
  "vmm_handle_cow_fault v s =
     (case walk_pt s v of
        None \<Rightarrow> Some (0, s)
      | Some pt \<Rightarrow>
          (let e = phys s pt (idx1 v)
           in if \<not> present e then Some (0, s)
              else if \<not> cow e then Some (0, s)
              else let old = page_of e
                   in if unat (drop_bit 12 old) \<ge> pmm_total_pages (vpmm s)
                      then Some (1, set_entry pt (idx1 v) ((e AND NOT 0x100) OR 2) s)
                      else do {
                        (q, s1) \<leftarrow> alloc_frame s;
                        Some (1, set_entry pt (idx1 v) ((q OR (e AND 0xEFF)) OR 2)
                                   (fill_page q (phys s1 old) s1))
                      }))"

definition vmm_handle_demand_page :: "u64 \<Rightarrow> vmm \<Rightarrow> (int \<times> vmm) option" where
  "vmm_handle_demand_page v s =
     (case walk_pt s v of
        None \<Rightarrow> Some (0, s)
      | Some pt \<Rightarrow>
          (let e = phys s pt (idx1 v)
           in if present e then Some (0, s)
              else if \<not> demand e then Some (0, s)
              else do {
                (q, s1) \<leftarrow> alloc_frame s;
                Some (1, set_entry pt (idx1 v) ((q OR (e AND NOT 0x200)) OR 1) (fill_page q (\<lambda>_. 0) s1))
              }))"

text \<open>
  \<^verbatim>\<open>entry & ~clear_flags\<close> with a 32-bit \<^verbatim>\<open>clear_flags\<close>: the complement is taken at 32 bits and
  then widened with zeros.
\<close>

definition vmm_set_page_flags :: "u64 \<Rightarrow> u32 \<Rightarrow> u32 \<Rightarrow> vmm \<Rightarrow> int \<times> vmm" where
  "vmm_set_page_flags v set_flags clear_flags s =
     (case walk_pt s v of
        None \<Rightarrow> (- 1, s)
      | Some pt \<Rightarrow>
          (let e = phys s pt (idx1 v)
           in if \<not> present e then (- 1, s)
              else (0, set_entry pt (idx1 v) ((e AND ucast (NOT clear_flags)) OR ucast set_flags) s)))"

section \<open>Address spaces\<close>

fun ofold :: "('a \<Rightarrow> 's \<Rightarrow> 's option) \<Rightarrow> 'a list \<Rightarrow> 's \<Rightarrow> 's option" where
  "ofold f [] s = Some s"
| "ofold f (x # xs) s = Option.bind (f x s) (ofold f xs)"

definition vmm_init :: "vmm \<Rightarrow> vmm option" where
  "vmm_init s = do {
     let s1 = set_entry (boot_pml4 s) 0 0 s;
     s2 \<leftarrow> (if present (phys s1 (boot_pml4 s) 256) then Some s1
           else do {
             (q, s') \<leftarrow> alloc_frame s1;
             Some (set_entry (boot_pml4 s) 256 ((q OR 1) OR 2) (fill_page q (\<lambda>_. 0) s'))
           });
     Some (fold (\<lambda>i s'. set_entry (boot_pd s) i ((of_nat i * 0x200000) OR 0x83) s')
             (takeWhile (\<lambda>i. (of_nat i * 0x200000 :: u64) < of_nat (pmm_total_pages (vpmm s2)) * 4096) [1..<512]) s2)
   }"

definition user_pd_entry :: "nat \<Rightarrow> u64" where
  "user_pd_entry i = ((of_nat i * 0x200000) OR 0x83) OR 4"

definition vmm_create_address_space :: "vmm \<Rightarrow> (u64 \<times> vmm) option" where
  "vmm_create_address_space s = do {
     (pml4, s1) \<leftarrow> alloc_frame s;
     (pdp, s2) \<leftarrow> alloc_frame s1;
     (pd, s3) \<leftarrow> alloc_frame s2;
     let s4 = fill_page pml4 (\<lambda>i. if i < 256 then 0 else phys s3 pml4 i) s3;
     let s5 = fill_page pdp (\<lambda>_. 0) s4;
     let s6 = fill_page pd user_pd_entry s5;
     let s7 = set_entry pdp 0 (pd OR 7) s6;
     let s8 = set_entry pml4 0 (pdp OR 7) s7;
     Some (pml4, fold (\<lambda>i s'. set_entry pml4 i (phys s' (boot_pml4 s) i) s') [256..<512] s8)
   }"

text \<open>One entry of \<^verbatim>\<open>vmm_fork_address_space\<close>'s inner loop over a page table.\<close>

definition fork_pt_entry :: "u64 \<Rightarrow> u64 \<Rightarrow> nat \<Rightarrow> vmm \<Rightarrow> vmm" where
  "fork_pt_entry ppt cpt i s =
     (let e = phys s ppt i
      in if \<not> present e then set_entry cpt i 0 s
         else if writable e then
           (if unat (drop_bit 12 (page_of e)) \<ge> pmm_total_pages (vpmm s) then set_entry cpt i e s
            else let e' = (e AND NOT 2) OR 0x100
                 in set_entry cpt i e' (set_entry ppt i e' s))
         else set_entry cpt i e s)"

definition fork_pd_entry :: "u64 \<Rightarrow> u64 \<Rightarrow> nat \<Rightarrow> vmm \<Rightarrow> vmm option" where
  "fork_pd_entry ppd cpd i s =
     (let e = phys s ppd i
      in if \<not> present e \<or> large e then Some s
         else let (cpt, pm) = pmm_alloc_page (vpmm s);
                  s1 = fold (fork_pt_entry (page_of e) cpt) [0..<512] (s\<lparr>vpmm := pm\<rparr>)
              in Some (set_entry cpd i (cpt OR (phys s1 ppd i AND 0xFFF)) s1))"

definition fork_pdp_entry :: "u64 \<Rightarrow> u64 \<Rightarrow> nat \<Rightarrow> vmm \<Rightarrow> vmm option" where
  "fork_pdp_entry ppdp cpdp i s =
     (let e = phys s ppdp i
      in if \<not> present e \<or> large e then Some s
         else do {
           (cpd, s1) \<leftarrow> alloc_frame s;
           let s2 = fill_page cpd (\<lambda>_. 0) s1;
           let s3 = set_entry cpdp i (cpd OR (phys s2 ppdp i AND 0xFFF)) s2;
           ofold (fork_pd_entry (page_of e) cpd) [0..<512] s3
         })"

definition fork_pml4_entry :: "u64 \<Rightarrow> u64 \<Rightarrow> nat \<Rightarrow> vmm \<Rightarrow> vmm option" where
  "fork_pml4_entry ppml4 cpml4 i s =
     (let e = phys s ppml4 i
      in if \<not> present e then Some s
         else do {
           (cpdp, s1) \<leftarrow> alloc_frame s;
           let s2 = fill_page cpdp (\<lambda>_. 0) s1;
           let s3 = set_entry cpml4 i (cpdp OR (phys s2 ppml4 i AND 0xFFF)) s2;
           ofold (fork_pdp_entry (page_of e) cpdp) [0..<512] s3
         })"

definition vmm_fork_address_space :: "u64 \<Rightarrow> vmm \<Rightarrow> (u64 \<times> vmm) option" where
  "vmm_fork_address_space parent_cr3 s = do {
     (child, s1) \<leftarrow> vmm_create_address_space s;
     s2 \<leftarrow> ofold (fork_pml4_entry (page_of parent_cr3) (page_of child)) [0..<256] s1;
     Some (child, s2)
   }"

definition destroy_pt :: "u64 \<Rightarrow> vmm \<Rightarrow> vmm" where
  "destroy_pt pt s =
     free_frame pt (fold (\<lambda>i s'. let e = phys s' pt i
                                 in if present e \<and> \<not> cow e then free_frame (page_of e) s' else s') [0..<512] s)"

definition destroy_table :: "(u64 \<Rightarrow> vmm \<Rightarrow> vmm) \<Rightarrow> nat \<Rightarrow> u64 \<Rightarrow> vmm \<Rightarrow> vmm" where
  "destroy_table sub n p s =
     free_frame p (fold (\<lambda>i s'. let e = phys s' p i
                                in if present e \<and> \<not> large e then sub (page_of e) s' else s') [0..<n] s)"

definition vmm_destroy_address_space :: "u64 \<Rightarrow> vmm \<Rightarrow> vmm" where
  "vmm_destroy_address_space cr3 s =
     (if cr3 = 0 then s
      else destroy_table (destroy_table (destroy_table destroy_pt 512) 512) 256 (page_of cr3) s)"

section \<open>Kernel virtual memory\<close>

text \<open>
  What the processor takes from a 2 MB entry for the \<open>i\<close>th of its 4 KB pages, written as the entry of such a page: the frame lies \<open>i\<close> pages
  after the 2 MB frame of bits 21 and up, the flags are bits 0 to 6 and 8 to 11; bit 7 is the page size, and bit 12 (the memory type) is
  always clear in this kernel.
\<close>

definition large_page :: "u64 \<Rightarrow> nat \<Rightarrow> u64" where
  "large_page e i = push_bit 21 (drop_bit 21 e) + of_nat i * 4096 + (push_bit 8 (take_bit 4 (drop_bit 8 e)) + take_bit 7 e)"

text \<open>The walk of the page tables that the processor makes.\<close>

definition lookup :: "(u64 \<Rightarrow> nat \<Rightarrow> u64) \<Rightarrow> u64 \<Rightarrow> nat \<Rightarrow> nat \<Rightarrow> nat \<Rightarrow> nat \<Rightarrow> u64 option" where
  "lookup m root i4 i3 i2 i1 =
     (let e4 = m root i4 in if \<not> present e4 then None
      else let e3 = m (page_of e4) i3 in if \<not> present e3 then None
      else let e2 = m (page_of e3) i2 in if \<not> present e2 then None
      else let e1 = (if large e2 then large_page e2 i1 else m (page_of e2) i1)
           in if present e1 then Some e1 else None)"

text \<open>The entry that translates an address in the current address space.\<close>

definition translate :: "vmm \<Rightarrow> u64 \<Rightarrow> u64 option" where
  "translate s v = lookup (phys s) (page_of (vcr3 s)) (idx4 v) (idx3 v) (idx2 v) (idx1 v)"

text \<open>The loops of \<^verbatim>\<open>vmalloc\<close> and \<^verbatim>\<open>vmap_phys\<close>, one page per step.\<close>

definition vmalloc_page :: "vmm \<Rightarrow> vmm option" where
  "vmalloc_page s = do {
     (p, s1) \<leftarrow> alloc_frame s;
     s2 \<leftarrow> vmm_map_page p (vmalloc_addr s1) 3 s1;
     Some (s2\<lparr>vmalloc_addr := vmalloc_addr s2 + 4096\<rparr>)
   }"

definition vmalloc :: "u64 \<Rightarrow> vmm \<Rightarrow> (u64 \<times> vmm) option" where
  "vmalloc n s =
     (if n = 0 then Some (0, s)
      else do {
        let pages = (n + 4096 + 4096 - 1) div 4096;
        let start = vmalloc_addr s;
        s1 \<leftarrow> ofold (\<lambda>_. vmalloc_page) [0..<unat pages] s;
        e \<leftarrow> translate s1 start;
        Some (start + 4096, set_entry (page_of e) 0 pages s1)
      })"

definition vmap_phys :: "u64 \<Rightarrow> u64 \<Rightarrow> vmm \<Rightarrow> (u64 \<times> vmm) option" where
  "vmap_phys phys_start n s =
     (if n = 0 then Some (0, s)
      else do {
        let page_start = phys_start AND NOT 0xFFF;
        let page_end = (phys_start + n + 4096 - 1) AND NOT 0xFFF;
        let pages = (page_end - page_start) div 4096;
        s1 \<leftarrow> ofold (\<lambda>i s'. map_option (\<lambda>t. t\<lparr>vmalloc_addr := vmalloc_addr t + 4096\<rparr>)
                (vmm_map_page (page_start + of_nat i * 4096) (vmalloc_addr s') 0x13 s')) [0..<unat pages] s;
        Some (vmalloc_addr s + (phys_start AND 0xFFF), s1)
      })"

definition vfree_page :: "u64 \<Rightarrow> vmm \<Rightarrow> vmm" where
  "vfree_page v s =
     (case walk_pt s v of
        None \<Rightarrow> s
      | Some pt \<Rightarrow>
          (let p = page_of (phys s pt (idx1 v))
           in set_entry pt (idx1 v) 0 (if p \<noteq> 0 then free_frame p s else s)))"

definition vfree :: "u64 \<Rightarrow> vmm \<Rightarrow> vmm option" where
  "vfree ptr s =
     (if ptr = 0 then Some s
      else do {
        e \<leftarrow> translate s (ptr - 4096);
        let pages = phys s (page_of e) 0;
        Some (fold (\<lambda>i. vfree_page (ptr - 4096 + of_nat i * 4096)) [0..<unat pages] s)
      })"


section \<open>Bits of entries\<close>

lemma bit_FFF: "bit (0xFFF :: u64) n \<longleftrightarrow> n < 12"
proof -
  have "(0xFFF :: u64) = mask 12" by (simp add: mask_eq_exp_minus_1)
  then show ?thesis by (simp only: bit_mask_iff) auto
qed

lemma bit_page_of: "bit (page_of e) n \<longleftrightarrow> 12 \<le> n \<and> bit e n"
  by (simp only: page_of_def bit_and_iff bit_not_iff bit_FFF) (auto dest: bit_imp_le_length)

lemma bit_frame: "n < 12 \<Longrightarrow> \<not> bit (of_nat i * 4096 :: u64) n"
proof -
  assume n: "n < 12"
  have "(of_nat i * 4096 :: u64) = push_bit 12 (of_nat i)" by (simp add: push_bit_eq_mult)
  then show ?thesis using n by (simp only: bit_push_bit_iff) simp
qed

lemma page_of_frame: "page_of (of_nat i * 4096 OR fl) = of_nat i * 4096" if "\<And>n. bit fl n \<Longrightarrow> n < 12"
  by (rule bit_word_eqI) (use that bit_frame in \<open>auto simp: bit_page_of bit_or_iff not_less [symmetric]\<close>)

lemma page_of_idem [simp]: "page_of (page_of e) = page_of e"
  by (rule bit_word_eqI) (simp add: bit_page_of)

text \<open>Flag words for intermediate entries: present, not large, and only flag bits.\<close>

definition table_flags :: "u64 \<Rightarrow> bool" where
  "table_flags fl \<longleftrightarrow> bit fl 0 \<and> \<not> bit fl 7 \<and> (\<forall>n. bit fl n \<longrightarrow> n < 12)"

lemma table_flags_7: "table_flags 7"
proof -
  have "(7 :: u64) = mask 3" by (simp add: mask_eq_exp_minus_1)
  then show ?thesis by (simp only: table_flags_def bit_mask_iff) auto
qed

lemma table_flags_3: "table_flags 3"
proof -
  have "(3 :: u64) = mask 2" by (simp add: mask_eq_exp_minus_1)
  then show ?thesis by (simp only: table_flags_def bit_mask_iff) auto
qed

lemma table_entry:
  assumes "table_flags fl"
  shows "page_of (of_nat i * 4096 OR fl) = of_nat i * 4096" "present (of_nat i * 4096 OR fl)" "\<not> large (of_nat i * 4096 OR fl)"
  using assms bit_frame [of _ i] page_of_frame [of fl i]
  by (auto simp: table_flags_def present_def large_def bit_or_iff)

lemma idx_less [simp]: "idx4 v < 512" "idx3 v < 512" "idx2 v < 512" "idx1 v < 512"
proof -
  have "unat (w AND 0x1FF) < 512" for w :: u64
  proof -
    have "w AND 0x1FF \<le> 0x1FF" by (rule word_and_le1)
    then show ?thesis by (simp add: word_le_nat_alt)
  qed
  then show "idx4 v < 512" "idx3 v < 512" "idx2 v < 512" "idx1 v < 512"
    by (simp_all add: idx4_def idx3_def idx2_def idx1_def)
qed

section \<open>The tree of tables\<close>

text \<open>
  The table at a path of indices, last index first: \<open>[]\<close> is the top level, \<open>[i4]\<close> a page
  directory pointer table, \<open>[i3, i4]\<close> a page directory, \<open>[i2, i3, i4]\<close> a page table.
\<close>

fun tbl :: "(u64 \<Rightarrow> nat \<Rightarrow> u64) \<Rightarrow> u64 \<Rightarrow> nat list \<Rightarrow> u64 option" where
  "tbl m r [] = Some r"
| "tbl m r (i # path) = Option.bind (tbl m r path) (\<lambda>p. if i < 512 then next_table m p i else None)"

definition tree :: "(u64 \<Rightarrow> nat \<Rightarrow> u64) \<Rightarrow> u64 \<Rightarrow> bool" where
  "tree m r \<longleftrightarrow>
     (\<forall>a b f. length a \<le> 3 \<and> length b \<le> 3 \<and> tbl m r a = Some f \<and> tbl m r b = Some f \<longrightarrow> a = b)
     \<and> (\<forall>a f i. length a \<le> 1 \<and> tbl m r a = Some f \<and> i < 512 \<and> present (m f i) \<longrightarrow> \<not> large (m f i))"

definition vm_inv :: "vmm \<Rightarrow> bool" where
  "vm_inv s \<longleftrightarrow> pmm_inv (vpmm s) \<and> tree (phys s) (page_of (vcr3 s))
     \<and> (\<forall>a f. length a \<le> 3 \<and> tbl (phys s) (page_of (vcr3 s)) a = Some f \<longrightarrow> blk f \<in> used_set (vpmm s))"

lemma tree_inj:
  "tree m r \<Longrightarrow> tbl m r a = Some f \<Longrightarrow> tbl m r b = Some f \<Longrightarrow> length a \<le> 3 \<Longrightarrow> length b \<le> 3 \<Longrightarrow> a = b"
  unfolding tree_def by blast

text \<open>Adding a table \<open>q\<close> with contents \<open>c\<close> below the entry \<open>i\<close> of the table \<open>p\<close>.\<close>

definition graft :: "(u64 \<Rightarrow> nat \<Rightarrow> u64) \<Rightarrow> u64 \<Rightarrow> nat \<Rightarrow> u64 \<Rightarrow> u64 \<Rightarrow> (nat \<Rightarrow> u64) \<Rightarrow> u64 \<Rightarrow> nat \<Rightarrow> u64" where
  "graft m p i q e c = (m(q := c))(p := ((m(q := c)) p)(i := e))"

definition fresh_for :: "(u64 \<Rightarrow> nat \<Rightarrow> u64) \<Rightarrow> u64 \<Rightarrow> u64 \<Rightarrow> bool" where
  "fresh_for m r q \<longleftrightarrow> (\<forall>a f. length a \<le> 3 \<and> tbl m r a = Some f \<longrightarrow> f \<noteq> q)"

lemma freshD: "fresh_for m r q \<Longrightarrow> tbl m r a = Some f \<Longrightarrow> length a \<le> 3 \<Longrightarrow> f \<noteq> q"
  by (auto simp: fresh_for_def)

lemma tbl_graft:
  assumes tree: "tree m r" and p: "tbl m r path = Some p" "length path \<le> 2" and i: "i < 512"
    and old: "next_table m p i = None"
    and q: "fresh_for m r q"
    and e: "page_of e = q" "present e" "\<not> large e"
    and c: "length path \<le> 1 \<longrightarrow> (\<forall>j < 512. \<not> present (c j))"
  shows "length a \<le> 3 \<Longrightarrow> tbl (graft m p i q e c) r a = (if a = i # path then Some q else tbl m r a)"
proof (induction a)
  case (Cons j rest)
  have qp: "q \<noteq> p" using freshD [OF q p(1)] p(2) by auto
  have IH: "tbl (graft m p i q e c) r rest = (if rest = i # path then Some q else tbl m r rest)" using Cons by simp
  show ?case
  proof (cases "rest = i # path")
    case True
    then have "length path \<le> 1" using Cons.prems by simp
    then have "j < 512 \<Longrightarrow> next_table (graft m p i q e c) q j = None"
      using c qp by (simp add: next_table_def graft_def)
    moreover have "tbl m r (j # rest) = None" using True p(1) old i by simp
    ultimately show ?thesis using IH True by simp
  next
    case False
    then have IH': "tbl (graft m p i q e c) r rest = tbl m r rest" using IH by simp
    show ?thesis
    proof (cases "rest = path")
      case True
      have "next_table (graft m p i q e c) p i = Some q" using e qp by (simp add: next_table_def graft_def)
      moreover have "j \<noteq> i \<Longrightarrow> next_table (graft m p i q e c) p j = next_table m p j"
        using qp by (simp add: next_table_def graft_def)
      ultimately show ?thesis using True IH' p(1) i by simp
    next
      case nr: False
      have "f \<noteq> p \<and> f \<noteq> q" if "tbl m r rest = Some f" for f
        using tree_inj [OF tree that] p nr freshD [OF q that] Cons.prems by auto
      then have "Option.bind (tbl m r rest) (\<lambda>p'. if j < 512 then next_table (graft m p i q e c) p' j else None)
          = Option.bind (tbl m r rest) (\<lambda>p'. if j < 512 then next_table m p' j else None)"
        by (cases "tbl m r rest") (simp_all add: next_table_def graft_def)
      then show ?thesis using IH' nr by simp
    qed
  qed
qed simp


lemma split_entry_large_page:
  assumes "i < 512"
  shows "split_entry e i = large_page e i"
proof -
  define A I F where "A = push_bit 21 (drop_bit 21 e)" and "I = (push_bit 12 (of_nat i) :: u64)"
    and "F = push_bit 8 (take_bit 4 (drop_bit 8 e)) OR take_bit 7 e"
  have m: "(0x1FFFFF :: u64) = mask 21" "(0xFFF :: u64) = mask 12" by (simp_all add: mask_eq_exp_minus_1)
  have "take_bit 9 i = i" using assms by (simp add: take_bit_nat_eq_self)
  then have i: "bit i n \<Longrightarrow> n < 9" for n by (metis bit_take_bit_iff)
  have a: "e AND NOT 0x1FFFFF = A" unfolding m A_def by (rule bit_eqI) (auto simp: bit_simps)
  have b: "bit (0x80 :: int) n \<longleftrightarrow> n = 7" for n using bit_exp_iff [of 7 n, where 'a = int] by simp
  have f: "(e AND 0xFFF) AND NOT 0x80 = F" unfolding m(2) F_def by (rule bit_eqI) (auto simp: bit_simps b)
  have I: "of_nat i * 4096 = I" by (simp add: I_def push_bit_eq_mult)
  have F: "push_bit 8 (take_bit 4 (drop_bit 8 e)) + take_bit 7 e = F" unfolding F_def by (rule disjunctive_add) (auto simp: bit_simps)
  have AI: "A + I = A OR I" by (rule disjunctive_add) (auto simp: bit_simps A_def I_def dest: i)
  have "(A OR I) OR F = (A + I) + F" unfolding AI by (rule disjunctive_add [symmetric]) (auto simp: bit_simps A_def I_def F_def dest: i)
  then show ?thesis unfolding split_entry_def large_page_def a f I F AI A_def [symmetric] by simp
qed

definition leaf :: "(u64 \<Rightarrow> nat \<Rightarrow> u64) \<Rightarrow> u64 \<Rightarrow> nat \<Rightarrow> nat \<Rightarrow> u64 option" where
  "leaf m pd i2 i1 =
     (let e2 = m pd i2 in if \<not> present e2 then None
      else let e1 = (if large e2 then large_page e2 i1 else m (page_of e2) i1)
           in if present e1 then Some e1 else None)"

lemma lookup_tbl:
  assumes "tree m r" "i4 < 512" "i3 < 512"
  shows "lookup m r i4 i3 i2 i1 = Option.bind (tbl m r [i3, i4]) (\<lambda>pd. leaf m pd i2 i1)"
proof -
  have L: "\<not> large (m f i)" if "length a \<le> 1" "tbl m r a = Some f" "i < 512" "present (m f i)" for a f i
    using assms(1) that unfolding tree_def by blast
  show ?thesis
  proof (cases "present (m r i4)")
    case True
    then have "tbl m r [i4] = Some (page_of (m r i4))" using L [of "[]" r i4] assms(2) by (simp add: next_table_def)
    then show ?thesis using True L [of "[i4]" "page_of (m r i4)" i3] assms(2,3)
      by (auto simp: lookup_def leaf_def next_table_def Let_def)
  qed (simp add: lookup_def next_table_def)
qed

text \<open>The contents a grafted table may have, so that no translation changes.\<close>

definition neutral :: "(u64 \<Rightarrow> nat \<Rightarrow> u64) \<Rightarrow> u64 \<Rightarrow> nat \<Rightarrow> nat list \<Rightarrow> (nat \<Rightarrow> u64) \<Rightarrow> bool" where
  "neutral m p i path c \<longleftrightarrow>
     \<not> present (m p i) \<and> (\<forall>j < 512. \<not> present (c j))
     \<or> length path = 2 \<and> present (m p i) \<and> large (m p i) \<and> c = split_entry (m p i)"

lemma neutral_next: "neutral m p i path c \<Longrightarrow> next_table m p i = None"
  by (auto simp: neutral_def next_table_def)

lemma neutral_empty: "neutral m p i path c \<Longrightarrow> length path \<le> 1 \<longrightarrow> (\<forall>j < 512. \<not> present (c j))"
  by (auto simp: neutral_def)

lemma tree_graft:
  assumes tree: "tree m r" and p: "tbl m r path = Some p" "length path \<le> 2" and i: "i < 512"
    and neut: "neutral m p i path c" and q: "fresh_for m r q"
    and e: "page_of e = q" "present e" "\<not> large e"
  shows "tree (graft m p i q e c) r"
proof -
  note T = tbl_graft [OF tree p i neutral_next [OF neut] q e neutral_empty [OF neut]]
  have inj: "a = b" if "length a \<le> 3" "length b \<le> 3" "tbl (graft m p i q e c) r a = Some f" "tbl (graft m p i q e c) r b = Some f" for a b f
    using that T [of a] T [of b] freshD [OF q, of a f] freshD [OF q, of b f] tree_inj [OF tree, of a f b] by (auto split: if_splits)
  have "\<not> large (graft m p i q e c f j)"
    if a: "length a \<le> 1" "tbl (graft m p i q e c) r a = Some f" "j < 512" "present (graft m p i q e c f j)" for a f j
  proof (cases "a = i # path")
    case True
    then have "f = q" "path = []" using T [of a] a(1,2) by auto
    moreover have "p \<noteq> q" using freshD [OF q p(1)] p(2) by auto
    ultimately show ?thesis using neutral_empty [OF neut] a(3,4) by (simp add: graft_def)
  next
    case False
    then have f: "tbl m r a = Some f" using T [of a] a(1,2) by simp
    then have "f \<noteq> q" using freshD [OF q, of a f] a(1) by simp
    then show ?thesis using a(3,4) e(3) f tree a(1) unfolding tree_def graft_def
      by (cases "f = p"; cases "j = i") auto
  qed
  then show ?thesis using inj unfolding tree_def by blast
qed

lemma lookup_graft:
  assumes tree: "tree m r" and p: "tbl m r path = Some p" "length path \<le> 2" and i: "i < 512"
    and neut: "neutral m p i path c" and q: "fresh_for m r q"
    and e: "page_of e = q" "present e" "\<not> large e"
    and j: "i4 < 512" "i3 < 512" "i2 < 512" "i1 < 512"
  shows "lookup (graft m p i q e c) r i4 i3 i2 i1 = lookup m r i4 i3 i2 i1"
proof -
  let ?m = "graft m p i q e c"
  note T = tbl_graft [OF tree p i neutral_next [OF neut] q e neutral_empty [OF neut]]
  note L = lookup_tbl [OF tree j(1,2), of i2 i1] lookup_tbl [OF tree_graft [OF tree p i neut q e] j(1,2), of i2 i1]
  have qp: "p \<noteq> q" using freshD [OF q p(1)] p(2) by auto
  show ?thesis
  proof (cases "[i3, i4] = i # path")
    case True
    then have "tbl m r [i3, i4] = None" using p i neutral_next [OF neut] by auto
    moreover have "tbl ?m r [i3, i4] = Some q" using T [of "[i3, i4]"] True p(2) by (simp del: tbl.simps)
    moreover have "leaf ?m q i2 i1 = None" using neutral_empty [OF neut] True qp j(3)
      by (auto simp: leaf_def graft_def)
    ultimately show ?thesis using L by (simp del: tbl.simps)
  next
    case False
    then have same: "tbl ?m r [i3, i4] = tbl m r [i3, i4]" using T [of "[i3, i4]"] by (auto simp del: tbl.simps)
    have "leaf ?m pd i2 i1 = leaf m pd i2 i1" if pd: "tbl m r [i3, i4] = Some pd" for pd
    proof (cases "path = [i3, i4] \<and> i2 = i")
      case True
      then have "pd = p" using pd p(1) by simp
      then show ?thesis using True neut e qp j(4) split_entry_large_page [OF j(4)]
        by (auto simp: leaf_def graft_def neutral_def Let_def)
    next
      case nt: False
      have pdq: "pd \<noteq> q" using freshD [OF q pd] by simp
      have "pd = p \<Longrightarrow> path = [i3, i4]" using tree_inj [OF tree pd, of path] p by simp
      then have e2: "?m pd i2 = m pd i2" using nt pdq by (auto simp: graft_def)
      have "?m (page_of (m pd i2)) i1 = m (page_of (m pd i2)) i1" if "present (m pd i2)" "\<not> large (m pd i2)"
      proof -
        have pt: "tbl m r [i2, i3, i4] = Some (page_of (m pd i2))" using pd that j(3) by (simp add: next_table_def)
        then have "page_of (m pd i2) \<noteq> q" using freshD [OF q pt] by simp
        moreover have "page_of (m pd i2) \<noteq> p" using tree_inj [OF tree pt, of path] p by auto
        ultimately show ?thesis by (simp add: graft_def)
      qed
      then show ?thesis by (auto simp: leaf_def Let_def e2)
    qed
    then show ?thesis using L same by (cases "tbl m r [i3, i4]") (simp_all del: tbl.simps)
  qed
qed


section \<open>Tables on demand\<close>

definition free_blocks :: "pmm \<Rightarrow> nat" where
  "free_blocks pm = max_blocks pm - card (used_set pm)"

lemma free_blocks_alloc:
  assumes "i < max_blocks pm" "i \<notin> used_set pm" "used_set pm' = insert i (used_set pm)" "max_blocks pm' = max_blocks pm"
  shows "free_blocks pm = Suc (free_blocks pm')"
proof -
  have "insert i (used_set pm) \<subseteq> {..<max_blocks pm}" using assms(1) by (auto simp: used_set_def)
  then have "card (insert i (used_set pm)) \<le> max_blocks pm"
    using card_mono [of "{..<max_blocks pm}"] by fastforce
  then show ?thesis using assms by (simp add: free_blocks_def)
qed

lemma alloc_frame_cases:
  assumes inv: "pmm_inv (vpmm s)"
  obtains (oom) "alloc_frame s = None" "free_blocks (vpmm s) = 0"
  | (frame) i pm where "alloc_frame s = Some (of_nat i * 4096, s\<lparr>vpmm := pm\<rparr>)" "pmm_inv pm"
      "used_set pm = insert i (used_set (vpmm s))" "i \<notin> used_set (vpmm s)" "blk (of_nat i * 4096) = i"
      "max_blocks pm = max_blocks (vpmm s)" "free_blocks (vpmm s) = Suc (free_blocks pm)"
proof (rule pmm_alloc_cases [OF inv])
  assume "used_set (vpmm s) = {..<max_blocks (vpmm s)}" "pmm_alloc_page (vpmm s) = (0, vpmm s)"
  then show thesis by (intro oom) (simp_all add: alloc_frame_def free_blocks_def)
next
  fix i pm
  assume a: "pmm_alloc_page (vpmm s) = (of_nat i * 4096, pm)" "i < max_blocks (vpmm s)" "0 < i"
      "i \<notin> used_set (vpmm s)" "used_set pm = insert i (used_set (vpmm s))" "max_blocks pm = max_blocks (vpmm s)"
  have "pmm_inv pm" using pmm_inv_alloc [OF inv] a(1) by simp
  then show thesis
    using frame [of i pm] pmm_page_nonzero [OF inv a(3,2)] a free_blocks_alloc [of i "vpmm s" pm]
    by (simp add: alloc_frame_def)
qed

text \<open>
  What one call of \<open>ensure_table\<close> or \<open>ensure_pt\<close> gives: the entry leads to a table, every
  table there was is still in its place, no translation, no page table and no page that was in
  use and is not a table has changed.
\<close>

definition extends :: "vmm \<Rightarrow> vmm \<Rightarrow> bool" where
  "extends s s' \<longleftrightarrow> vcr3 s' = vcr3 s \<and> vmalloc_addr s' = vmalloc_addr s \<and> vm_inv s'
     \<and> used_set (vpmm s) \<subseteq> used_set (vpmm s') \<and> max_blocks (vpmm s') = max_blocks (vpmm s)
     \<and> (\<forall>a f. length a \<le> 3 \<and> tbl (phys s) (page_of (vcr3 s)) a = Some f \<longrightarrow> tbl (phys s') (page_of (vcr3 s)) a = Some f)
     \<and> (\<forall>i4 i3 i2 i1. i4 < 512 \<and> i3 < 512 \<and> i2 < 512 \<and> i1 < 512 \<longrightarrow>
          lookup (phys s') (page_of (vcr3 s)) i4 i3 i2 i1 = lookup (phys s) (page_of (vcr3 s)) i4 i3 i2 i1)
     \<and> (\<forall>f. blk f \<in> used_set (vpmm s) \<and> fresh_for (phys s) (page_of (vcr3 s)) f \<longrightarrow>
          phys s' f = phys s f \<and> fresh_for (phys s') (page_of (vcr3 s)) f)
     \<and> (\<forall>a f. length a = 3 \<and> tbl (phys s) (page_of (vcr3 s)) a = Some f \<longrightarrow> phys s' f = phys s f)"

lemma extends_refl: "vm_inv s \<Longrightarrow> extends s s"
  by (simp add: extends_def)

lemma extends_trans: "extends s s' \<Longrightarrow> extends s' s'' \<Longrightarrow> extends s s''"
  unfolding extends_def by (auto 0 3 simp del: tbl.simps)

lemma extends_graft:
  assumes inv: "vm_inv s" and fl: "table_flags fl"
    and p: "tbl (phys s) (page_of (vcr3 s)) path = Some p" "length path \<le> 2" and i: "i < 512"
    and neut: "neutral (phys s) p i path c"
    and fr: "alloc_frame s = Some (of_nat n * 4096, s\<lparr>vpmm := pm\<rparr>)" "pmm_inv pm"
      "used_set pm = insert n (used_set (vpmm s))" "n \<notin> used_set (vpmm s)" "blk (of_nat n * 4096) = n"
      "max_blocks pm = max_blocks (vpmm s)"
  defines "q \<equiv> of_nat n * 4096"
  defines "s' \<equiv> set_entry p i (q OR fl) (fill_page q c (s\<lparr>vpmm := pm\<rparr>))"
  shows "extends s s' \<and> tbl (phys s') (page_of (vcr3 s)) (i # path) = Some (page_of (phys s' p i))
    \<and> phys s' p i = q OR fl"
proof -
  let ?m = "phys s" and ?r = "page_of (vcr3 s)"
  have m': "phys s' = graft ?m p i q (q OR fl) c" by (simp add: s'_def set_entry_def fill_page_def graft_def)
  have tree: "tree ?m ?r" using inv by (simp add: vm_inv_def)
  have q: "fresh_for ?m ?r q" using inv fr(4,5) unfolding fresh_for_def vm_inv_def q_def by metis
  note E = table_entry [OF fl, of n, folded q_def]
  note T = tbl_graft [OF tree p i neutral_next [OF neut] q E neutral_empty [OF neut], folded m']
  have tree': "tree (phys s') ?r" using tree_graft [OF tree p i neut q E] by (simp add: m')
  have s': "vcr3 s' = vcr3 s" "vpmm s' = pm" "vmalloc_addr s' = vmalloc_addr s"
    by (simp_all add: s'_def set_entry_def fill_page_def)
  have own: "blk f \<in> used_set pm" if "length a \<le> 3" "tbl (phys s') ?r a = Some f" for a f
    using that T [of a] inv fr(3,5) by (auto simp: vm_inv_def q_def split: if_splits)
  then have inv': "vm_inv s'" using tree' fr(2) s' unfolding vm_inv_def by metis
  have new: "tbl (phys s') ?r (i # path) = Some q" using T [of "i # path"] p(2) by (simp del: tbl.simps)
  have keep: "tbl (phys s') ?r a = Some f" if "length a \<le> 3" "tbl ?m ?r a = Some f" for a f
  proof -
    have "tbl ?m ?r (i # path) = None" using p(1) neutral_next [OF neut] by simp
    then show ?thesis using T [of a] that by auto
  qed
  have other: "phys s' f = ?m f \<and> fresh_for (phys s') ?r f" if "blk f \<in> used_set (vpmm s)" "fresh_for ?m ?r f" for f
  proof
    have "f \<noteq> q" using that(1) fr(4,5) by (auto simp: q_def)
    moreover have "f \<noteq> p" using freshD [OF that(2) p(1)] p(2) by auto
    ultimately show "phys s' f = ?m f" by (simp add: m' graft_def)
    show "fresh_for (phys s') ?r f"
      using T \<open>f \<noteq> q\<close> freshD [OF that(2)] unfolding fresh_for_def by (metis option.inject)
  qed
  have pts: "phys s' f = ?m f" if "length a = 3" "tbl ?m ?r a = Some f" for a f
  proof -
    have "f \<noteq> q" using freshD [OF q that(2)] that(1) by simp
    moreover have "f \<noteq> p" using tree_inj [OF tree that(2), of path] p that(1) by auto
    ultimately show ?thesis by (simp add: m' graft_def)
  qed
  have "lookup (phys s') ?r i4 i3 i2 i1 = lookup ?m ?r i4 i3 i2 i1"
    if "i4 < 512" "i3 < 512" "i2 < 512" "i1 < 512" for i4 i3 i2 i1
    using lookup_graft [OF tree p i neut q E that] by (simp add: m')
  moreover have entry: "phys s' p i = q OR fl" by (simp add: s'_def set_entry_def)
  ultimately show ?thesis
    using inv' s' fr(3,6) keep other new pts E(1) unfolding extends_def by (auto simp del: tbl.simps)
qed


text \<open>The shape both helpers share: success, or no free frame.\<close>

definition gives_table :: "vmm \<Rightarrow> nat list \<Rightarrow> u64 \<Rightarrow> nat \<Rightarrow> vmm option \<Rightarrow> bool" where
  "gives_table s path p i r \<longleftrightarrow>
     (case r of
        None \<Rightarrow> free_blocks (vpmm s) = 0
      | Some s' \<Rightarrow> extends s s' \<and> tbl (phys s') (page_of (vcr3 s)) (i # path) = Some (page_of (phys s' p i))
          \<and> free_blocks (vpmm s) \<le> Suc (free_blocks (vpmm s')))"

lemma graft_gives_table:
  assumes inv: "vm_inv s" and fl: "table_flags fl"
    and p: "tbl (phys s) (page_of (vcr3 s)) path = Some p" "length path \<le> 2" and i: "i < 512"
    and neut: "neutral (phys s) p i path c"
  shows "gives_table s path p i
    (Option.bind (alloc_frame s) (\<lambda>(q, s1). Some (set_entry p i (q OR fl) (fill_page q c s1))))"
proof -
  have "pmm_inv (vpmm s)" using inv by (simp add: vm_inv_def)
  then show ?thesis
  proof (cases rule: alloc_frame_cases)
    case oom
    then show ?thesis by (simp add: gives_table_def)
  next
    case (frame n pm)
    let ?s' = "set_entry p i (of_nat n * 4096 OR fl) (fill_page (of_nat n * 4096) c (s\<lparr>vpmm := pm\<rparr>))"
    have "vpmm ?s' = pm" by (simp add: set_entry_def fill_page_def)
    then show ?thesis
      using extends_graft [OF inv fl p i neut frame(1-6)] frame(1,7) by (simp add: gives_table_def del: tbl.simps)
  qed
qed

lemma ensure_table_spec:
  assumes inv: "vm_inv s" and fl: "table_flags fl"
    and p: "tbl (phys s) (page_of (vcr3 s)) path = Some p" "length path \<le> 2" and i: "i < 512"
    and nl: "present (phys s p i) \<longrightarrow> \<not> large (phys s p i)"
  shows "gives_table s path p i (ensure_table fl p i s)"
proof (cases "present (phys s p i)")
  case True
  then show ?thesis using inv p i nl
    by (simp add: ensure_table_def gives_table_def extends_refl next_table_def)
next
  case False
  then have "neutral (phys s) p i path (\<lambda>_. 0)" by (simp add: neutral_def present_def)
  then show ?thesis using graft_gives_table [OF inv fl p i] False by (simp add: ensure_table_def)
qed

lemma ensure_pt_spec:
  assumes inv: "vm_inv s" and fl: "table_flags fl"
    and p: "tbl (phys s) (page_of (vcr3 s)) path = Some p" "length path = 2" and i: "i < 512"
  shows "gives_table s path p i (ensure_pt fl p i s)"
proof (cases "present (phys s p i) \<and> large (phys s p i)")
  case True
  then have "neutral (phys s) p i path (split_entry (phys s p i))" using p(2) by (simp add: neutral_def)
  then show ?thesis using graft_gives_table [OF inv fl p(1) _ i] p(2) True by (simp add: ensure_pt_def)
next
  case False
  then show ?thesis using ensure_table_spec [OF inv fl p(1) _ i] p(2) by (auto simp: ensure_pt_def)
qed

text \<open>Writing one entry of a page table changes one translation.\<close>

lemma tbl_leaf_write:
  assumes tree: "tree m r" and pt: "tbl m r [i2, i3, i4] = Some pt" and m': "\<And>f. f \<noteq> pt \<Longrightarrow> m' f = m f"
  shows "length a \<le> 3 \<Longrightarrow> tbl m' r a = tbl m r a"
proof (induction a)
  case (Cons x a)
  then have IH: "tbl m' r a = tbl m r a" by simp
  have "next_table m' f x = next_table m f x" if "tbl m r a = Some f" for f
  proof -
    have "f \<noteq> pt" using tree_inj [OF tree that, of "[i2, i3, i4]"] pt Cons.prems by (auto simp del: tbl.simps)
    then show ?thesis using m' by (simp add: next_table_def)
  qed
  then show ?case using IH by (cases "tbl m r a") simp_all
qed simp

lemma leaf_write:
  assumes inv: "vm_inv s" and pt: "tbl (phys s) (page_of (vcr3 s)) [i2, i3, i4] = Some pt"
    and i: "i4 < 512" "i3 < 512" "i2 < 512"
    and s'_def: "s' = set_entry pt i1 e s"
  shows "vm_inv s'"
    and "j4 < 512 \<Longrightarrow> j3 < 512 \<Longrightarrow> j2 < 512 \<Longrightarrow> lookup (phys s') (page_of (vcr3 s)) j4 j3 j2 j1 =
      (if (j4, j3, j2, j1) = (i4, i3, i2, i1) then if present e then Some e else None
       else lookup (phys s) (page_of (vcr3 s)) j4 j3 j2 j1)"
proof -
  let ?m = "phys s" and ?r = "page_of (vcr3 s)"
  have m': "phys s' = ?m(pt := (?m pt)(i1 := e))" by (simp add: s'_def set_entry_def)
  have tree: "tree ?m ?r" using inv by (simp add: vm_inv_def)
  have mo: "f \<noteq> pt \<Longrightarrow> phys s' f = ?m f" for f by (simp add: m')
  have mp: "phys s' pt k = (if k = i1 then e else ?m pt k)" for k by (simp add: m')
  have T: "length a \<le> 3 \<Longrightarrow> tbl (phys s') ?r a = tbl ?m ?r a" for a
    using tbl_leaf_write [OF tree pt mo] .
  have ne: "f \<noteq> pt" if "length a \<le> 2" "tbl ?m ?r a = Some f" for a f
    using tree_inj [OF tree that(2), of "[i2, i3, i4]"] pt that(1) by (auto simp del: tbl.simps)
  have inj: "a = b" if "length a \<le> 3" "length b \<le> 3" "tbl (phys s') ?r a = Some f" "tbl (phys s') ?r b = Some f" for a b f
    using tree_inj [OF tree] T that by metis
  have nl: "\<not> large (phys s' f k)" if "length a \<le> 1" "tbl (phys s') ?r a = Some f" "k < 512" "present (phys s' f k)" for a f k
  proof -
    have a: "tbl ?m ?r a = Some f" using T [of a] that by simp
    then have "f \<noteq> pt" using ne [of a f] that(1) by simp
    then show ?thesis using that a tree mo unfolding tree_def by metis
  qed
  have tree': "tree (phys s') ?r" unfolding tree_def using inj nl by blast
  then show "vm_inv s'" using inv T unfolding vm_inv_def by (auto simp: s'_def set_entry_def)
  have "Option.bind (tbl ?m ?r [i3, i4]) (\<lambda>p. if i2 < 512 then next_table ?m p i2 else None) = Some pt"
    using pt by (simp only: tbl.simps(2) [of _ _ i2])
  then obtain pd where pd: "tbl ?m ?r [i3, i4] = Some pd" "next_table ?m pd i2 = Some pt"
    using i(3) by (cases "tbl ?m ?r [i3, i4]") (simp_all del: tbl.simps)
  assume j: "j4 < 512" "j3 < 512" "j2 < 512"
  note L = lookup_tbl [OF tree j(1,2), of j2 j1] lookup_tbl [OF tree' j(1,2), of j2 j1]
  have leaf: "leaf (phys s') qd j2 j1 = (if (j4, j3, j2, j1) = (i4, i3, i2, i1) then if present e then Some e else None
       else leaf ?m qd j2 j1)" if qd: "tbl ?m ?r [j3, j4] = Some qd" for qd
  proof -
    have qe: "phys s' qd j2 = ?m qd j2" using ne [OF _ qd] mo by simp
    show ?thesis
    proof (cases "present (?m qd j2) \<and> \<not> large (?m qd j2)")
      case True
      then have t: "tbl ?m ?r [j2, j3, j4] = Some (page_of (?m qd j2))" using qd j by (simp add: next_table_def)
      have iff: "page_of (?m qd j2) = pt \<longleftrightarrow> [j2, j3, j4] = [i2, i3, i4]"
      proof
        show "[j2, j3, j4] = [i2, i3, i4]" if "page_of (?m qd j2) = pt"
          using tree_inj [OF tree t, of "[i2, i3, i4]"] pt that by (simp del: tbl.simps)
        show "page_of (?m qd j2) = pt" if "[j2, j3, j4] = [i2, i3, i4]" using t pt unfolding that by (metis option.inject)
      qed
      have "phys s' (page_of (?m qd j2)) j1 = (if (j4, j3, j2, j1) = (i4, i3, i2, i1) then e else ?m (page_of (?m qd j2)) j1)"
      proof (cases "page_of (?m qd j2) = pt")
        case True
        then show ?thesis using iff by (simp add: mp)
      next
        case False
        then show ?thesis using iff mo by auto
      qed
      then show ?thesis using True by (auto simp: leaf_def qe Let_def)
    next
      case False
      have "(j4, j3, j2) \<noteq> (i4, i3, i2)"
      proof
        assume eq: "(j4, j3, j2) = (i4, i3, i2)"
        then have "qd = pd" using qd pd(1) by auto
        then show False using False pd(2) eq by (auto simp: next_table_def split: if_splits)
      qed
      then show ?thesis using False by (auto simp: leaf_def qe Let_def)
    qed
  qed
  have T2: "tbl (phys s') ?r [j3, j4] = tbl ?m ?r [j3, j4]" using T [of "[j3, j4]"] by (simp del: tbl.simps)
  show "lookup (phys s') ?r j4 j3 j2 j1 = (if (j4, j3, j2, j1) = (i4, i3, i2, i1) then if present e then Some e else None
       else lookup ?m ?r j4 j3 j2 j1)"
  proof (cases "tbl ?m ?r [j3, j4]")
    case None
    then have "(j4, j3) \<noteq> (i4, i3)" using pd(1) by (auto simp del: tbl.simps)
    then show ?thesis using L T2 None by (auto simp del: tbl.simps)
  next
    case (Some qd)
    then show ?thesis using L T2 leaf [OF Some] by (simp del: tbl.simps)
  qed
qed


section \<open>Mapping a page\<close>

abbreviation idxs :: "u64 \<Rightarrow> nat \<times> nat \<times> nat \<times> nat" where
  "idxs v \<equiv> (idx4 v, idx3 v, idx2 v, idx1 v)"

lemma gives_tableE:
  assumes "gives_table s path p i r"
  obtains (oom) "r = None" "free_blocks (vpmm s) = 0"
  | (ok) s' where "r = Some s'" "extends s s'" "free_blocks (vpmm s) \<le> Suc (free_blocks (vpmm s'))"
      "tbl (phys s') (page_of (vcr3 s)) (i # path) = Some (page_of (phys s' p i))"
  using assms by (cases r) (auto simp: gives_table_def simp del: tbl.simps)

lemma tree_not_large:
  assumes "vm_inv s" "tbl (phys s) (page_of (vcr3 s)) a = Some f" "length a \<le> 1" "i < 512"
  shows "present (phys s f i) \<longrightarrow> \<not> large (phys s f i)"
  using assms unfolding vm_inv_def tree_def by blast

lemma extendsD:
  assumes "extends s s'"
  shows "vm_inv s'" "vcr3 s' = vcr3 s" "vmalloc_addr s' = vmalloc_addr s"
    "length a \<le> 3 \<Longrightarrow> tbl (phys s) (page_of (vcr3 s)) a = Some f \<Longrightarrow> tbl (phys s') (page_of (vcr3 s)) a = Some f"
    "translate s' v = translate s v" "max_blocks (vpmm s') = max_blocks (vpmm s)"
    "blk f \<in> used_set (vpmm s) \<Longrightarrow> fresh_for (phys s) (page_of (vcr3 s)) f \<Longrightarrow> phys s' f = phys s f"
    "blk f \<in> used_set (vpmm s) \<Longrightarrow> fresh_for (phys s) (page_of (vcr3 s)) f \<Longrightarrow>
      blk f \<in> used_set (vpmm s') \<and> fresh_for (phys s') (page_of (vcr3 s)) f"
  using assms by (auto simp: extends_def translate_def simp del: tbl.simps)

text \<open>The three table levels of an address, made present.\<close>

lemma map_entry_tables:
  assumes inv: "vm_inv s" and fl: "table_flags fl"
  obtains (oom) "map_entry fl v e s = None" "free_blocks (vpmm s) < 3"
  | (ok) s3 pt where "map_entry fl v e s = Some (set_entry pt (idx1 v) e s3)" "extends s s3"
      "tbl (phys s3) (page_of (vcr3 s)) [idx2 v, idx3 v, idx4 v] = Some pt"
      "free_blocks (vpmm s) \<le> free_blocks (vpmm s3) + 3"
proof -
  let ?r = "page_of (vcr3 s)"
  have "gives_table s [] ?r (idx4 v) (ensure_table fl ?r (idx4 v) s)"
    by (rule ensure_table_spec [OF inv fl]) (use tree_not_large [OF inv, of "[]" ?r] in simp_all)
  then show thesis
  proof (cases rule: gives_tableE)
    case oom
    then show thesis using that(1) by (simp add: map_entry_def)
  next
    case (ok s1)
    note E1 = extendsD [OF ok(2)]
    let ?pdp = "page_of (phys s1 ?r (idx4 v))"
    have pdp: "tbl (phys s1) (page_of (vcr3 s1)) [idx4 v] = Some ?pdp" using ok(4) E1(2) by simp
    have "gives_table s1 [idx4 v] ?pdp (idx3 v) (ensure_table fl ?pdp (idx3 v) s1)"
      by (rule ensure_table_spec [OF E1(1) fl pdp]) (use tree_not_large [OF E1(1) pdp] in simp_all)
    then show thesis
    proof (cases rule: gives_tableE)
      case oom
      then show thesis using that(1) ok by (simp add: map_entry_def)
    next
      case ok2: (ok s2)
      note E2 = extendsD [OF extends_trans [OF ok(2) ok2(2)]]
      let ?pd = "page_of (phys s2 ?pdp (idx3 v))"
      have pd: "tbl (phys s2) (page_of (vcr3 s2)) [idx3 v, idx4 v] = Some ?pd"
        using ok2(4) E1(2) E2(2) by (simp del: tbl.simps)
      have "gives_table s2 [idx3 v, idx4 v] ?pd (idx2 v) (ensure_pt fl ?pd (idx2 v) s2)"
        by (rule ensure_pt_spec [OF E2(1) fl pd]) simp_all
      then show thesis
      proof (cases rule: gives_tableE)
        case oom
        then show thesis using that(1) ok ok2 by (simp add: map_entry_def)
      next
        case ok3: (ok s3)
        have ext: "extends s s3" using extends_trans [OF extends_trans [OF ok(2) ok2(2)] ok3(2)] .
        have "map_entry fl v e s = Some (set_entry (page_of (phys s3 ?pd (idx2 v))) (idx1 v) e s3)"
          using ok(1) ok2(1) ok3(1) by (simp add: map_entry_def)
        moreover have "free_blocks (vpmm s) \<le> free_blocks (vpmm s3) + 3" using ok(3) ok2(3) ok3(3) by linarith
        ultimately show thesis using that(2) ext ok3(4) E2(2) by (simp del: tbl.simps)
      qed
    qed
  qed
qed

lemma map_entry_spec:
  assumes inv: "vm_inv s" and fl: "table_flags fl"
  shows "case map_entry fl v e s of
      None \<Rightarrow> free_blocks (vpmm s) < 3
    | Some s' \<Rightarrow> vm_inv s' \<and> vcr3 s' = vcr3 s
        \<and> (\<forall>u. translate s' u = (if idxs u = idxs v then if present e then Some e else None else translate s u))
        \<and> (\<forall>f. blk f \<in> used_set (vpmm s) \<and> fresh_for (phys s) (page_of (vcr3 s)) f \<longrightarrow> phys s' f = phys s f)
        \<and> free_blocks (vpmm s) \<le> free_blocks (vpmm s') + 3"
proof (cases rule: map_entry_tables [OF inv fl, of v e])
  case 1
  then show ?thesis by simp
next
  case (2 s3 pt)
  note E = extendsD [OF 2(2)]
  let ?s' = "set_entry pt (idx1 v) e s3"
  have pt: "tbl (phys s3) (page_of (vcr3 s3)) [idx2 v, idx3 v, idx4 v] = Some pt" using 2(3) E(2) by simp
  have cr: "vcr3 ?s' = vcr3 s" using E(2) by (simp add: set_entry_def)
  have "translate ?s' u = (if idxs u = idxs v then if present e then Some e else None else translate s u)" for u
    using leaf_write(2) [OF E(1) pt _ _ _ refl, where ?j4.0 = "idx4 u" and ?j3.0 = "idx3 u" and ?j2.0 = "idx2 u"
        and ?i1.0 = "idx1 v" and e = e and ?j1.0 = "idx1 u"] E(2,5)
    by (simp add: translate_def cr)
  moreover have "phys ?s' f = phys s f" if "blk f \<in> used_set (vpmm s)" "fresh_for (phys s) (page_of (vcr3 s)) f" for f
  proof -
    have "f \<noteq> pt" using freshD [OF conjunct2 [OF E(8) [OF that]] 2(3)] by auto
    then show ?thesis using E(7) [OF that] by (simp add: set_entry_def)
  qed
  moreover have "vm_inv ?s'" using leaf_write(1) [OF E(1) pt _ _ _ refl] by simp
  moreover have "vpmm ?s' = vpmm s3" by (simp add: set_entry_def)
  ultimately show ?thesis using 2(1,4) cr by simp
qed


section \<open>Filling a fresh frame\<close>

lemma tbl_other:
  assumes q: "fresh_for m r q" and m': "\<And>f. f \<noteq> q \<Longrightarrow> m' f = m f"
  shows "length a \<le> 3 \<Longrightarrow> tbl m' r a = tbl m r a"
proof (induction a)
  case (Cons x a)
  then have IH: "tbl m' r a = tbl m r a" by simp
  have "next_table m' f x = next_table m f x" if "tbl m r a = Some f" for f
    using freshD [OF q that] m' Cons.prems by (simp add: next_table_def)
  then show ?case using IH by (cases "tbl m r a") simp_all
qed simp

text \<open>The contents of a frame that is not a table have no effect on the tables.\<close>

lemma fill_fresh:
  assumes inv: "vm_inv s" and q: "fresh_for (phys s) (page_of (vcr3 s)) q"
    and s'_def: "s' = fill_page q c s"
  shows "vm_inv s'" "translate s' v = translate s v"
    "length a \<le> 3 \<Longrightarrow> tbl (phys s') (page_of (vcr3 s)) a = tbl (phys s) (page_of (vcr3 s)) a"
    "fresh_for (phys s') (page_of (vcr3 s)) f \<longleftrightarrow> fresh_for (phys s) (page_of (vcr3 s)) f"
    "i4 < 512 \<Longrightarrow> i3 < 512 \<Longrightarrow> i2 < 512 \<Longrightarrow>
      lookup (phys s') (page_of (vcr3 s)) i4 i3 i2 i1 = lookup (phys s) (page_of (vcr3 s)) i4 i3 i2 i1"
proof -
  let ?m = "phys s" and ?r = "page_of (vcr3 s)"
  have tree: "tree ?m ?r" using inv by (simp add: vm_inv_def)
  have mo: "f \<noteq> q \<Longrightarrow> phys s' f = ?m f" for f by (simp add: s'_def fill_page_def)
  have s': "vcr3 s' = vcr3 s" "vpmm s' = vpmm s" by (simp_all add: s'_def fill_page_def)
  have T: "tbl (phys s') ?r a = tbl ?m ?r a" if "length a \<le> 3" for a using tbl_other [OF q mo that] .
  show "length a \<le> 3 \<Longrightarrow> tbl (phys s') ?r a = tbl ?m ?r a" by (rule T)
  show "fresh_for (phys s') ?r f \<longleftrightarrow> fresh_for ?m ?r f" using T unfolding fresh_for_def by metis
  have nl: "\<not> large (phys s' f k)" if "length a \<le> 1" "tbl (phys s') ?r a = Some f" "k < 512" "present (phys s' f k)" for a f k
  proof -
    have a: "tbl ?m ?r a = Some f" using T [of a] that by simp
    then have "phys s' f = ?m f" using freshD [OF q a] mo that(1) by simp
    then show ?thesis using that a tree unfolding tree_def by metis
  qed
  have inj: "a = b" if "length a \<le> 3" "length b \<le> 3" "tbl (phys s') ?r a = Some f" "tbl (phys s') ?r b = Some f" for a b f
    using tree_inj [OF tree] T that by metis
  have tree': "tree (phys s') ?r" unfolding tree_def using inj nl by blast
  show "vm_inv s'" using inv tree' T s' unfolding vm_inv_def by metis
  have L: "lookup (phys s') ?r i4 i3 i2 i1 = lookup ?m ?r i4 i3 i2 i1"
    if i: "i4 < 512" "i3 < 512" "i2 < 512" for i4 i3 i2 i1
  proof (cases "tbl ?m ?r [i3, i4]")
    case None
    then show ?thesis using lookup_tbl [OF tree i(1,2)] lookup_tbl [OF tree' i(1,2)] T [of "[i3, i4]"]
      by (simp del: tbl.simps)
  next
    case (Some pd)
    have "phys s' pd i2 = ?m pd i2" using freshD [OF q Some] mo by simp
    moreover have "phys s' (page_of (?m pd i2)) i1 = ?m (page_of (?m pd i2)) i1" if "present (?m pd i2)" "\<not> large (?m pd i2)"
    proof -
      have "tbl ?m ?r [i2, i3, i4] = Some (page_of (?m pd i2))" using Some that i(3) by (simp add: next_table_def)
      from freshD [OF q this] show ?thesis using mo by simp
    qed
    ultimately have "leaf (phys s') pd i2 i1 = leaf ?m pd i2 i1" by (auto simp: leaf_def Let_def)
    then show ?thesis using lookup_tbl [OF tree i(1,2)] lookup_tbl [OF tree' i(1,2)] T [of "[i3, i4]"] Some
      by (simp del: tbl.simps)
  qed
  then show "i4 < 512 \<Longrightarrow> i3 < 512 \<Longrightarrow> i2 < 512 \<Longrightarrow> lookup (phys s') ?r i4 i3 i2 i1 = lookup ?m ?r i4 i3 i2 i1" .
  show "translate s' v = translate s v" using L by (simp add: translate_def s'(1))
qed

lemma vm_inv_more: "vm_inv s \<Longrightarrow> pmm_inv pm \<Longrightarrow> used_set (vpmm s) \<subseteq> used_set pm \<Longrightarrow> vm_inv (s\<lparr>vpmm := pm\<rparr>)"
  by (auto simp: vm_inv_def)

lemma frame_fresh: "vm_inv s \<Longrightarrow> blk q \<notin> used_set (vpmm s) \<Longrightarrow> fresh_for (phys s) (page_of (vcr3 s)) q"
  unfolding fresh_for_def vm_inv_def by metis

lemma extends_fill:
  assumes inv: "vm_inv s"
    and fr: "pmm_inv pm" "used_set pm = insert n (used_set (vpmm s))" "n \<notin> used_set (vpmm s)"
      "blk (of_nat n * 4096) = n" "max_blocks pm = max_blocks (vpmm s)"
  shows "extends s (fill_page (of_nat n * 4096) c (s\<lparr>vpmm := pm\<rparr>))"
proof -
  let ?s1 = "s\<lparr>vpmm := pm\<rparr>" and ?q = "of_nat n * 4096 :: u64"
  have inv1: "vm_inv ?s1" using vm_inv_more [OF inv fr(1)] fr(2) by blast
  have q: "fresh_for (phys s) (page_of (vcr3 s)) ?q" using frame_fresh [OF inv, of ?q] fr(3,4) by simp
  then have q1: "fresh_for (phys ?s1) (page_of (vcr3 ?s1)) ?q" by simp
  note F = fill_fresh [OF inv1 q1 refl, where c = c]
  have "phys (fill_page ?q c ?s1) f = phys s f" if "blk f \<in> used_set (vpmm s)" for f
    using that fr(3,4) by (auto simp: fill_page_def)
  moreover have "vcr3 (fill_page ?q c ?s1) = vcr3 s" "vpmm (fill_page ?q c ?s1) = pm"
    "vmalloc_addr (fill_page ?q c ?s1) = vmalloc_addr s" by (simp_all add: fill_page_def)
  moreover have "phys (fill_page ?q c ?s1) f = phys s f" if "length a = 3" "tbl (phys s) (page_of (vcr3 s)) a = Some f" for a f
    using freshD [OF q that(2)] that(1) by (simp add: fill_page_def)
  ultimately show ?thesis using F fr(2,5) unfolding extends_def by (auto simp del: tbl.simps)
qed

lemma walk_pt_tbl: "walk_pt s v = tbl (phys s) (page_of (vcr3 s)) [idx2 v, idx3 v, idx4 v]"
  by (simp add: walk_pt_def)

lemma walk_pt_translate:
  assumes "vm_inv s" "walk_pt s v = Some pt"
  shows "translate s v = (if present (phys s pt (idx1 v)) then Some (phys s pt (idx1 v)) else None)"
proof -
  let ?m = "phys s" and ?r = "page_of (vcr3 s)"
  have "Option.bind (tbl ?m ?r [idx3 v, idx4 v]) (\<lambda>p. if idx2 v < 512 then next_table ?m p (idx2 v) else None) = Some pt"
    using assms(2) unfolding walk_pt_tbl by (simp only: tbl.simps(2) [of _ _ "idx2 v"])
  then obtain pd where pd: "tbl ?m ?r [idx3 v, idx4 v] = Some pd" "next_table ?m pd (idx2 v) = Some pt"
    by (cases "tbl ?m ?r [idx3 v, idx4 v]") (simp_all del: tbl.simps)
  then show ?thesis
    using lookup_tbl [of ?m ?r "idx4 v" "idx3 v" "idx2 v" "idx1 v"] assms(1)
    by (auto simp: translate_def vm_inv_def leaf_def next_table_def Let_def simp del: tbl.simps split: if_splits)
qed

lemma bit_EFF: "bit (0xEFF :: u64) n \<longleftrightarrow> n < 12 \<and> n \<noteq> 8"
proof -
  have "(0xEFF :: u64) = 0xFFF AND NOT (2 ^ 8)" by simp
  then show ?thesis by (simp only: bit_and_not_shift bit_FFF)
qed

lemma bit_2: "bit (2 :: u64) k \<longleftrightarrow> k = 1"
proof -
  have "bit ((2 :: u64) ^ 1) k \<longleftrightarrow> k = 1" by (simp only: bit_exp_iff) auto
  then show ?thesis by (simp only: power_one_right)
qed

lemma cow_entry_bits:
  fixes e :: u64
  assumes "present e" and e'_def: "e' = (of_nat n * 4096 OR (e AND 0xEFF)) OR 2"
  shows "page_of e' = of_nat n * 4096" "present e'" "writable e'" "\<not> cow e'" "k < 12 \<Longrightarrow> bit e' k \<longleftrightarrow> k = 1 \<or> k \<noteq> 8 \<and> bit e k"
proof -
  have b: "bit e' k \<longleftrightarrow> bit (of_nat n * 4096 :: u64) k \<or> (bit e k \<and> k < 12 \<and> k \<noteq> 8) \<or> k = 1" for k
    unfolding e'_def by (simp only: bit_or_iff bit_and_iff bit_EFF bit_2) auto
  have lo: "k < 12 \<Longrightarrow> \<not> bit (of_nat n * 4096 :: u64) k" for k by (rule bit_frame)
  show "page_of e' = of_nat n * 4096"
  proof (rule bit_word_eqI)
    fix k
    show "bit (page_of e') k \<longleftrightarrow> bit (of_nat n * 4096 :: u64) k"
      using lo [of k] by (cases "k < 12") (auto simp only: bit_page_of b)
  qed
  show "k < 12 \<Longrightarrow> bit e' k \<longleftrightarrow> k = 1 \<or> k \<noteq> 8 \<and> bit e k" using b [of k] lo [of k] by blast
  show "present e'" "writable e'" "\<not> cow e'" using assms(1) b [of 0] b [of 1] b [of 8] lo [of 8]
    by (simp_all add: present_def writable_def cow_def)
qed


section \<open>Copying a page table for a fork\<close>

definition fork_entry :: "nat \<Rightarrow> u64 \<Rightarrow> u64" where
  "fork_entry tot e =
     (if present e \<and> writable e \<and> unat (drop_bit 12 (page_of e)) < tot then (e AND NOT 2) OR 0x100 else e)"

lemma fork_entry_bits:
  "bit (fork_entry tot e) n \<longleftrightarrow>
     (if present e \<and> writable e \<and> unat (drop_bit 12 (page_of e)) < tot then bit e n \<and> n \<noteq> 1 \<or> n = 8 else bit e n)"
proof -
  have "(2 :: u64) ^ 8 = 0x100" by simp
  moreover have "bit ((2 :: u64) ^ 8) n \<longleftrightarrow> n = 8" by (simp only: bit_exp_iff) auto
  ultimately have "bit (0x100 :: u64) n \<longleftrightarrow> n = 8" by (simp only:)
  then have "bit ((e AND NOT 2) OR 0x100) n \<longleftrightarrow> bit e n \<and> n \<noteq> 1 \<or> n = 8"
    by (simp only: bit_or_iff bit_and_iff bit_not_iff bit_2) (auto dest: bit_imp_le_length)
  then show ?thesis by (simp only: fork_entry_def split: if_split) blast
qed

lemma fork_entry_page: "page_of (fork_entry tot e) = page_of e" "present (fork_entry tot e) = present e"
proof -
  show "page_of (fork_entry tot e) = page_of e"
    by (rule bit_word_eqI) (auto simp: bit_page_of fork_entry_bits)
  show "present (fork_entry tot e) = present e"
    using fork_entry_bits [of tot e 0] by (auto simp: present_def)
qed

lemma fork_pt_entry_simps:
  assumes "ppt \<noteq> cpt"
  shows "phys (fork_pt_entry ppt cpt i s) ppt = (phys s ppt)(i := fork_entry (pmm_total_pages (vpmm s)) (phys s ppt i))"
    and "phys (fork_pt_entry ppt cpt i s) cpt = (phys s cpt)(i := if present (phys s ppt i)
           then fork_entry (pmm_total_pages (vpmm s)) (phys s ppt i) else 0)"
    and "vpmm (fork_pt_entry ppt cpt i s) = vpmm s"
  using assms by (auto simp: fork_pt_entry_def fork_entry_def set_entry_def Let_def fun_eq_iff)

lemma fork_pt_loop:
  assumes "ppt \<noteq> cpt"
  shows "vpmm (fold (fork_pt_entry ppt cpt) [0..<n] s) = vpmm s
    \<and> (\<forall>i. phys (fold (fork_pt_entry ppt cpt) [0..<n] s) ppt i =
         (if i < n then fork_entry (pmm_total_pages (vpmm s)) (phys s ppt i) else phys s ppt i))
    \<and> (\<forall>i. phys (fold (fork_pt_entry ppt cpt) [0..<n] s) cpt i =
         (if i < n then if present (phys s ppt i) then fork_entry (pmm_total_pages (vpmm s)) (phys s ppt i) else 0
          else phys s cpt i))"
proof (induction n)
  case (Suc n)
  let ?s = "fold (fork_pt_entry ppt cpt) [0..<n] s"
  have "fold (fork_pt_entry ppt cpt) [0..<Suc n] s = fork_pt_entry ppt cpt n ?s" by simp
  then show ?case using Suc fork_pt_entry_simps [OF assms, of n ?s] by (auto simp: less_Suc_eq)
qed simp

section \<open>Properties\<close>



definition vm_demo_phys :: "u64 \<Rightarrow> nat \<Rightarrow> u64" where
  "vm_demo_phys p i =
     (if i \<noteq> 0 then 0
      else if p = 0x1000 then 0x2007 else if p = 0x2000 then 0x3007 else if p = 0x3000 then 0x4007
      else if p = 0x4000 then 0x5105 else 0)"

definition vm_demo :: vmm where
  "vm_demo = \<lparr>phys = vm_demo_phys,
     vpmm = \<lparr>bitmap = (\<lambda>b. if b = 0 then 0x3F else 0), max_blocks = 16, used_blocks = 6\<rparr>,
     vcr3 = 0x1000, vmalloc_addr = 0xFFFFFFFF90000000, boot_pml4 = 0x1000, boot_pd = 0x3000\<rparr>"

lemma vm_demo_next:
  "next_table vm_demo_phys 0x1000 i = (if i = 0 then Some 0x2000 else None)"
  "next_table vm_demo_phys 0x2000 i = (if i = 0 then Some 0x3000 else None)"
  "next_table vm_demo_phys 0x3000 i = (if i = 0 then Some 0x4000 else None)"
  by (simp_all add: next_table_def vm_demo_phys_def present_def large_def page_of_def)

lemma vm_demo_tbl:
  assumes "length a \<le> 3" "tbl vm_demo_phys 0x1000 a = Some f"
  shows "(a, f) \<in> {([], 0x1000), ([0], 0x2000), ([0, 0], 0x3000), ([0, 0, 0], 0x4000)}"
proof -
  consider "a = []" | x where "a = [x]" | x y where "a = [x, y]" | x y z where "a = [x, y, z]"
    using assms(1) by (auto simp: numeral_3_eq_3 length_Suc_conv le_Suc_eq)
  then show ?thesis
    using assms(2) by cases (auto simp: vm_demo_next split: if_splits)
qed

lemma vm_demo_used: "used_set (vpmm vm_demo) = {0, 1, 2, 3, 4, 5}"
proof -
  have "bitmap_test (\<lambda>b. if b = 0 then 0x3F else 0 :: u8) i \<longleftrightarrow> i < 6" if "i < 16" for i
  proof (cases "i < 8")
    case True
    have "(mask 6 :: u8) = 0x3F" by (simp add: mask_eq_exp_minus_1)
    moreover have "bit (mask 6 :: u8) i \<longleftrightarrow> i < 6" by (simp only: bit_mask_iff) auto
    ultimately have "bit (0x3F :: u8) i \<longleftrightarrow> i < 6" by (simp only:)
    moreover have "i div 8 = 0" "i mod 8 = i" using True by simp_all
    ultimately show ?thesis by (simp only: bitmap_test_bit if_True simp_thms)
  next
    case False
    then have "i div 8 \<noteq> 0" by simp
    then show ?thesis using False by (simp add: bitmap_test_bit)
  qed
  then have "used_set (vpmm vm_demo) = {i. i < 6}" unfolding used_set_def by (auto simp: vm_demo_def)
  also have "\<dots> = {..<6}" by blast
  also have "\<dots> = {0, 1, 2, 3, 4, 5}" by (simp add: lessThan_nat_numeral lessThan_Suc insert_commute)
  finally show ?thesis .
qed

lemma vm_demo_inv: "vm_inv vm_demo"
proof -
  have r: "page_of (vcr3 vm_demo) = 0x1000" "phys vm_demo = vm_demo_phys" by (simp_all add: vm_demo_def page_of_def)
  have inj: "a = b" if "length a \<le> 3" "length b \<le> 3" "tbl vm_demo_phys 0x1000 a = Some f" "tbl vm_demo_phys 0x1000 b = Some f" for a b f
    using vm_demo_tbl [of a f] vm_demo_tbl [of b f] that by auto
  have nl: "\<not> large (vm_demo_phys f i)" if "length a \<le> 1" "tbl vm_demo_phys 0x1000 a = Some f" "i < 512" for a f i
    using vm_demo_tbl [of a f] that by (auto simp: vm_demo_phys_def large_def)
  have "tree vm_demo_phys 0x1000" unfolding tree_def using inj nl by blast
  moreover have "pmm_inv (vpmm vm_demo)" by (simp add: pmm_inv_def vm_demo_used) (simp add: vm_demo_def)
  moreover have "blk f \<in> {0, 1, 2, 3, 4, 5}" if "length a \<le> 3" "tbl vm_demo_phys 0x1000 a = Some f" for a f
    using vm_demo_tbl [OF that] by (auto simp: blk_def)
  ultimately show ?thesis unfolding vm_inv_def r vm_demo_used by blast
qed

lemma vm_demo_free: "free_blocks (vpmm vm_demo) = 10"
  unfolding free_blocks_def vm_demo_used by (simp add: vm_demo_def)



text \<open>
  C9. After a fork no managed frame of a page table is writable in parent or child: the
  loop of \<^verbatim>\<open>vmm_fork_address_space\<close> over a page table gives the child exactly the parent's
  resulting entries, keeps every frame and present bit, and leaves each entry of a managed
  frame read-only, marked copy-on-write if it was writable.
\<close>

theorem fork_page_table_cow:
  assumes "ppt \<noteq> cpt" "i < 512" and s': "s' = fold (fork_pt_entry ppt cpt) [0..<512] s"
  shows "phys s' cpt i = (if present (phys s ppt i) then phys s' ppt i else 0)
    \<and> page_of (phys s' ppt i) = page_of (phys s ppt i) \<and> present (phys s' ppt i) = present (phys s ppt i)
    \<and> (present (phys s ppt i) \<and> unat (drop_bit 12 (page_of (phys s ppt i))) < pmm_total_pages (vpmm s) \<longrightarrow>
        \<not> writable (phys s' ppt i) \<and> (writable (phys s ppt i) \<longrightarrow> cow (phys s' ppt i)))"
proof -
  let ?t = "pmm_total_pages (vpmm s)" and ?e = "phys s ppt i"
  have L: "phys s' ppt i = fork_entry ?t ?e" "phys s' cpt i = (if present ?e then fork_entry ?t ?e else 0)"
    using fork_pt_loop [OF assms(1), of 512 s] assms(2) unfolding s' by auto
  have "\<not> writable (fork_entry ?t ?e) \<and> (writable ?e \<longrightarrow> cow (fork_entry ?t ?e))"
    if "present ?e" "unat (drop_bit 12 (page_of ?e)) < ?t"
    using that fork_entry_bits [of ?t ?e 1] fork_entry_bits [of ?t ?e 8]
    by (auto simp: writable_def cow_def)
  then show ?thesis unfolding L by (simp add: fork_entry_page)
qed

theorem fork_page_table_cow_witness:
  "\<not> writable (phys (fold (fork_pt_entry 0x3000 0x6000) [0..<512] vm_demo) 0x3000 0)"
proof -
  have e: "phys vm_demo 0x3000 0 = 0x4007" by (simp add: vm_demo_def vm_demo_phys_def)
  have "present (0x4007 :: u64)" "page_of 0x4007 = 0x4000" by (simp_all add: present_def page_of_def)
  moreover have "unat (drop_bit 12 (0x4000 :: u64)) < pmm_total_pages (vpmm vm_demo)"
    by (simp add: pmm_total_pages_def vm_demo_def drop_bit_eq_div unat_div)
  ultimately show ?thesis
    using fork_page_table_cow [of "0x3000" "0x6000" 0 _ vm_demo, OF _ _ refl] unfolding e by simp
qed

text \<open>
  Changing page flags loses the upper half of the entry: \<^verbatim>\<open>vmm_set_page_flags\<close> on a
  mapped page leaves an entry whose bits 32 to 63 are all clear, so a frame above 4 GB is
  remapped to a different frame, whatever flags are asked for.
\<close>

theorem vmm_set_page_flags_truncates:
  assumes inv: "vm_inv s" and walk: "walk_pt s v = Some pt" and e: "e = phys s pt (idx1 v)" "present e"
    and keep: "\<not> bit cf 0"
  shows "\<exists>s' e'. vmm_set_page_flags v sf cf s = (0, s') \<and> translate s' v = Some e'
    \<and> (\<forall>n. bit e' n \<longleftrightarrow> n < 32 \<and> ((bit e n \<and> \<not> bit cf n) \<or> bit sf n))"
proof -
  define e' where "e' = (e AND ucast (NOT cf)) OR ucast sf"
  define s' where "s' = set_entry pt (idx1 v) e' s"
  have b: "bit e' n \<longleftrightarrow> n < 32 \<and> ((bit e n \<and> \<not> bit cf n) \<or> bit sf n)" for n
    by (auto simp: e'_def bit_or_iff bit_and_iff bit_ucast_iff bit_not_iff dest: bit_imp_le_length)
  have res: "vmm_set_page_flags v sf cf s = (0, s')"
    using walk e by (simp add: vmm_set_page_flags_def Let_def s'_def e'_def)
  have pt: "tbl (phys s) (page_of (vcr3 s)) [idx2 v, idx3 v, idx4 v] = Some pt" using walk by (simp only: walk_pt_tbl)
  have "present e'" using b [of 0] e(2) keep by (simp add: present_def)
  then have "translate s' v = Some e'"
    using leaf_write(2) [OF inv pt _ _ _ s'_def, where ?j4.0 = "idx4 v" and ?j3.0 = "idx3 v" and ?j2.0 = "idx2 v"
        and ?j1.0 = "idx1 v"] by (simp add: translate_def s'_def set_entry_def)
  then show ?thesis using res b by blast
qed


theorem vmm_set_page_flags_truncates_witness:
  "\<exists>s' e'. vmm_set_page_flags 0 2 0x100 vm_demo = (0, s') \<and> translate s' 0 = Some e' \<and> \<not> bit e' 40"
proof -
  have i: "idx4 0 = 0" "idx3 0 = 0" "idx2 0 = 0" "idx1 0 = 0" by (simp_all add: idx4_def idx3_def idx2_def idx1_def)
  have r: "page_of (vcr3 vm_demo) = 0x1000" "phys vm_demo = vm_demo_phys" by (simp_all add: vm_demo_def page_of_def)
  have w: "walk_pt vm_demo 0 = Some 0x4000" by (simp add: walk_pt_def r i vm_demo_next)
  have e: "(0x5105 :: u64) = phys vm_demo 0x4000 (idx1 0)" "present 0x5105"
    by (simp_all add: r i vm_demo_phys_def present_def)
  have "\<not> bit (0x100 :: u32) 0" by simp
  from vmm_set_page_flags_truncates [OF vm_demo_inv w e this, of 2] show ?thesis by fastforce
qed

end
