(* ===== verification/Kheap.thy ===== *)
theory Kheap
  imports Vmm
begin

text \<open>
  The kernel heap, \<^verbatim>\<open>arch/x86_64/mm/malloc.c\<close>: a singly linked list of block headers that
  tile the virtual range from \<^verbatim>\<open>HEAP_START\<close> to \<^verbatim>\<open>heap_end\<close>, grown page by page with frames of
  \<open>Pmm\<close> mapped by \<open>Vmm\<close>.

  \<open>hdr\<close> is the store of block headers by address; \<^verbatim>\<open>NULL\<close> is \<open>0\<close>. A walk that does not
  end and a panic for lack of memory have no result (\<open>None\<close>). The lock is held around each
  call.
\<close>

section \<open>State\<close>

abbreviation (input) HEAP_START :: u64 where "HEAP_START \<equiv> 0xFFFFFFFFC1000000"
abbreviation (input) MAGIC :: u32 where "MAGIC \<equiv> 0xDEADBEEF"

record block_header =
  bsize :: u64
  bnext :: u64
  bfree :: bool
  bmagic :: u32

record kheap =
  hdr :: "u64 \<Rightarrow> block_header"
  free_list :: u64
  heap_end :: u64
  kvm :: vmm

definition align8 :: "u64 \<Rightarrow> u64" where
  "align8 x = (x + 7) AND NOT 7"

section \<open>Operations\<close>

text \<open>One page of heap: a frame from the allocator, mapped at the end of the heap.\<close>

definition grow_page :: "kheap \<Rightarrow> kheap option" where
  "grow_page h = do {
     (p, v1) \<leftarrow> alloc_frame (kvm h);
     v2 \<leftarrow> vmm_map_page p (heap_end h) 3 v1;
     Some (h\<lparr>kvm := v2, heap_end := heap_end h + 4096\<rparr>)
   }"

definition malloc_init :: "kheap \<Rightarrow> kheap option" where
  "malloc_init h = map_option (\<lambda>h1. h1\<lparr>free_list := heap_end h,
      hdr := (hdr h1)(heap_end h := \<lparr>bsize = 4096 - 24, bnext = 0, bfree = True, bmagic = MAGIC\<rparr>)\<rparr>) (grow_page h)"

definition split_block :: "u64 \<Rightarrow> u64 \<Rightarrow> (u64 \<Rightarrow> block_header) \<Rightarrow> (u64 \<Rightarrow> block_header)" where
  "split_block b n H =
     (if bsize (H b) > n + 24 + 8
      then let nb = b + 24 + n;
               H1 = H(nb := \<lparr>bsize = bsize (H b) - n - 24, bnext = bnext (H b), bfree = True, bmagic = MAGIC\<rparr>)
           in H1(b := (H1 b)\<lparr>bsize := n, bnext := nb\<rparr>)
      else H)"

text \<open>\<^verbatim>\<open>while (last && last->next) last = last->next;\<close>\<close>

partial_function (option) last_block :: "(u64 \<Rightarrow> block_header) \<Rightarrow> u64 \<Rightarrow> u64 option" where
  "last_block H p =
     (if p = 0 then Some 0 else if bnext (H p) = 0 then Some p else last_block H (bnext (H p)))"

definition heap_pages :: "u64 \<Rightarrow> u64" where
  "heap_pages n = (n + 24 + 4096 - 1) div 4096"

definition expand_heap :: "u64 \<Rightarrow> kheap \<Rightarrow> kheap option" where
  "expand_heap n h = do {
     let pages = heap_pages n;
     l \<leftarrow> last_block (hdr h) (free_list h);
     let nb = heap_end h;
     h1 \<leftarrow> ofold (\<lambda>_. grow_page) [0..<unat pages] h;
     let h2 = h1\<lparr>hdr := (hdr h1)(nb := \<lparr>bsize = pages * 4096 - 24, bnext = 0, bfree = True, bmagic = MAGIC\<rparr>)\<rparr>;
     Some (if l \<noteq> 0 then h2\<lparr>hdr := (hdr h2)(l := (hdr h2 l)\<lparr>bnext := nb\<rparr>)\<rparr> else h2\<lparr>free_list := nb\<rparr>)
   }"

partial_function (option) find_fit :: "(u64 \<Rightarrow> block_header) \<Rightarrow> u64 \<Rightarrow> u64 \<Rightarrow> u64 option" where
  "find_fit H n p =
     (if p = 0 then Some 0
      else if bfree (H p) \<and> bsize (H p) \<ge> n then Some p
      else find_fit H n (bnext (H p)))"

definition take_block :: "u64 \<Rightarrow> u64 \<Rightarrow> kheap \<Rightarrow> kheap" where
  "take_block b n h = (let H = split_block b n (hdr h) in h\<lparr>hdr := H(b := (H b)\<lparr>bfree := False\<rparr>)\<rparr>)"

partial_function (option) kmalloc_loop :: "u64 \<Rightarrow> kheap \<Rightarrow> (u64 \<times> kheap) option" where
  "kmalloc_loop n h =
     Option.bind (find_fit (hdr h) n (free_list h))
       (\<lambda>b. if b \<noteq> 0 then Some (b + 24, take_block b n h)
            else Option.bind (expand_heap n h) (kmalloc_loop n))"

definition kmalloc :: "u64 \<Rightarrow> kheap \<Rightarrow> (u64 \<times> kheap) option" where
  "kmalloc n h = (if n = 0 then Some (0, h) else kmalloc_loop (align8 n) h)"

text \<open>The merging walk of \<^verbatim>\<open>kfree\<close>.\<close>

definition merge_at :: "u64 \<Rightarrow> (u64 \<Rightarrow> block_header) \<Rightarrow> (u64 \<Rightarrow> block_header)" where
  "merge_at p H =
     (let c = H p; n = H (bnext c)
      in if bfree c \<and> bnext c \<noteq> 0 \<and> bfree n \<and> p + 24 + bsize c = bnext c
         then H(p := c\<lparr>bsize := bsize c + (24 + bsize n), bnext := bnext n\<rparr>)
         else H)"

partial_function (option) merge_loop :: "u64 \<Rightarrow> (u64 \<Rightarrow> block_header) \<Rightarrow> (u64 \<Rightarrow> block_header) option" where
  "merge_loop p H =
     (if p = 0 then Some H else let H' = merge_at p H in merge_loop (bnext (H' p)) H')"

definition kfree :: "u64 \<Rightarrow> kheap \<Rightarrow> kheap option" where
  "kfree ptr h =
     (if ptr = 0 then Some h
      else let b = ptr - 24
           in if bmagic (hdr h b) = MAGIC
              then map_option (\<lambda>H. h\<lparr>hdr := H\<rparr>)
                     (merge_loop (free_list h) ((hdr h)(b := (hdr h b)\<lparr>bfree := True\<rparr>)))
              else Some h)"

section \<open>Blocks tile the heap\<close>

definition first :: "u64 list \<Rightarrow> u64 \<Rightarrow> u64" where
  "first bs nx = (case bs of [] \<Rightarrow> nx | b # _ \<Rightarrow> b)"

lemma first_simps [simp]: "first [] nx = nx" "first (b # bs) nx = b"
  by (simp_all add: first_def)

text \<open>
  \<open>tiles H a bs e nx\<close>: the blocks \<open>bs\<close>, in list order, cover the addresses from \<open>a\<close> to \<open>e\<close>
  without gap or overlap, and the last one links to \<open>nx\<close>.
\<close>

fun tiles :: "(u64 \<Rightarrow> block_header) \<Rightarrow> nat \<Rightarrow> u64 list \<Rightarrow> nat \<Rightarrow> u64 \<Rightarrow> bool" where
  "tiles H a [] e nx \<longleftrightarrow> a = e"
| "tiles H a (b # bs) e nx \<longleftrightarrow> unat b = a \<and> 0 < a \<and> 8 dvd a \<and> 8 dvd unat (bsize (H b)) \<and> bmagic (H b) = MAGIC
     \<and> bnext (H b) = first bs nx \<and> tiles H (a + 24 + unat (bsize (H b))) bs e nx"

lemma tiles_append:
  "tiles H a (xs @ ys) e nx \<longleftrightarrow> (\<exists>m. tiles H a xs m (first ys nx) \<and> tiles H m ys e nx)"
proof (induction xs arbitrary: a)
  case (Cons x xs)
  have "first (xs @ ys) nx = first xs (first ys nx)" by (cases xs) auto
  then show ?case using Cons by auto
qed simp

lemma tiles_cong: "(\<And>b. b \<in> set bs \<Longrightarrow> H b = H' b) \<Longrightarrow> tiles H a bs e nx = tiles H' a bs e nx"
  by (induction bs arbitrary: a) auto

lemma tiles_le: "tiles H a bs e nx \<Longrightarrow> a \<le> e"
proof (induction bs arbitrary: a)
  case (Cons b bs)
  then show ?case by (auto dest!: Cons.IH)
qed simp

lemma tiles_bounds: "tiles H a bs e nx \<Longrightarrow> b \<in> set bs \<Longrightarrow> a \<le> unat b \<and> unat b + 24 + unat (bsize (H b)) \<le> e \<and> 0 < unat b"
proof (induction bs arbitrary: a)
  case (Cons c bs)
  then show ?case using tiles_le [of H "a + 24 + unat (bsize (H c))" bs e nx] by fastforce
qed simp

lemma tiles_distinct: "tiles H a bs e nx \<Longrightarrow> distinct bs"
proof (induction bs arbitrary: a)
  case (Cons c bs)
  then show ?case using tiles_bounds [of H "a + 24 + unat (bsize (H c))" bs e nx c] by auto
qed simp

lemma tiles_disjoint:
  "tiles H a bs e nx \<Longrightarrow> b \<in> set bs \<Longrightarrow> c \<in> set bs \<Longrightarrow> b \<noteq> c \<Longrightarrow>
     unat b + 24 + unat (bsize (H b)) \<le> unat c \<or> unat c + 24 + unat (bsize (H c)) \<le> unat b"
proof (induction bs arbitrary: a)
  case (Cons d bs)
  then show ?case using tiles_bounds [of H "a + 24 + unat (bsize (H d))" bs e nx] by fastforce
qed simp

lemma tiles_aligned: "tiles H a bs e nx \<Longrightarrow> 8 dvd a \<Longrightarrow> 8 dvd e"
proof (induction bs arbitrary: a)
  case (Cons b bs)
  then have "8 dvd a + 24 + unat (bsize (H b))" by (auto intro!: dvd_add)
  then show ?case using Cons by auto
qed simp

definition allocs :: "(u64 \<Rightarrow> block_header) \<Rightarrow> u64 list \<Rightarrow> (u64 \<times> u64) set" where
  "allocs H bs = {(b, bsize (H b)) | b. b \<in> set bs \<and> \<not> bfree (H b)}"

lemma allocs_cong: "(\<And>b. b \<in> set bs \<Longrightarrow> H b = H' b) \<Longrightarrow> allocs H bs = allocs H' bs"
  by (auto simp: allocs_def)

lemma allocs_Nil [simp]: "allocs H [] = {}"
  by (simp add: allocs_def)

lemma allocs_Cons: "allocs H (b # bs) = (if bfree (H b) then {} else {(b, bsize (H b))}) \<union> allocs H bs"
  by (auto simp: allocs_def)

lemma allocs_append: "allocs H (xs @ ys) = allocs H xs \<union> allocs H ys"
  by (auto simp: allocs_def)


section \<open>The walks\<close>

lemma tiles_first_nz: "tiles H a (b # bs) e nx \<Longrightarrow> b \<noteq> 0"
  by auto

lemma find_fit_tiles:
  "tiles H a bs e 0 \<Longrightarrow> find_fit H n (first bs 0) =
     Some (case find (\<lambda>b. bfree (H b) \<and> n \<le> bsize (H b)) bs of None \<Rightarrow> 0 | Some b \<Rightarrow> b)"
proof (induction bs arbitrary: a)
  case Nil
  then show ?case by (subst find_fit.simps) simp
next
  case (Cons b bs)
  then have "b \<noteq> 0" "bnext (H b) = first bs 0" by auto
  then show ?case using Cons by (subst find_fit.simps) auto
qed

lemma last_block_tiles:
  "tiles H a bs e 0 \<Longrightarrow> bs \<noteq> [] \<Longrightarrow> last_block H (first bs 0) = Some (last bs)"
proof (induction bs arbitrary: a)
  case (Cons b bs)
  then have b: "b \<noteq> 0" "bnext (H b) = first bs 0" by auto
  show ?case
  proof (cases bs)
    case Nil
    then show ?thesis using b by (subst last_block.simps) simp
  next
    case (Cons c cs)
    then have "c \<noteq> 0" using Cons.prems(1) by auto
    then show ?thesis using b Cons Cons.IH Cons.prems by (subst last_block.simps) auto
  qed
qed simp

section \<open>Taking a block\<close>

lemma unat64_lt: "unat (x :: u64) < 2 ^ 64"
  using unsigned_less [of x] by simp

lemma unat_add_small: "unat a + unat b < 2 ^ 64 \<Longrightarrow> unat (a + b) = unat a + unat b" for a b :: u64
  by (simp add: unat_word_ariths)

lemma tiles_update_last:
  assumes "tiles H a (xs @ [b]) m nx"
  shows "tiles (H(b := (H b)\<lparr>bnext := nx'\<rparr>)) a (xs @ [b]) m nx'"
proof -
  have "b \<notin> set xs" using tiles_distinct [OF assms] by simp
  then have "tiles (H(b := (H b)\<lparr>bnext := nx'\<rparr>)) a xs m' b = tiles H a xs m' b" for m'
    by (intro tiles_cong) auto
  then show ?thesis using assms by (auto simp: tiles_append)
qed

lemma take_block_spec:
  assumes t: "tiles (hdr h) a (xs @ b # ys) e 0" and e: "e < 2 ^ 64" and a: "64 \<le> a"
    and fit: "bfree (hdr h b)" "n \<le> bsize (hdr h b)" and n8: "8 dvd unat n"
  shows "\<exists>bs' sz. tiles (hdr (take_block b n h)) a bs' e 0 \<and> first bs' 0 = first (xs @ b # ys) 0
    \<and> n \<le> sz \<and> allocs (hdr (take_block b n h)) bs' = insert (b, sz) (allocs (hdr h) (xs @ b # ys)) \<and> bs' \<noteq> []"
proof -
  let ?H = "hdr h" and ?s = "bsize (hdr h b)" and ?nx = "bnext (hdr h b)"
  have d: "distinct (xs @ b # ys)" using tiles_distinct [OF t] .
  from t obtain m where x: "tiles ?H a xs m b" and by': "unat b = m" "0 < m" "8 dvd m" "8 dvd unat ?s"
    "bmagic (?H b) = MAGIC" "?nx = first ys 0" "tiles ?H (m + 24 + unat ?s) ys e 0"
    by (auto simp: tiles_append)
  have le: "m + 24 + unat ?s \<le> e" using tiles_le [OF by'(7)] .
  have am: "a \<le> m" using tiles_le [OF x] .
  have un: "unat n \<le> unat ?s" using fit(2) by (simp add: word_le_nat_alt)
  define H' where "H' = hdr (take_block b n h)"
  show ?thesis
  proof (cases "?s > n + 24 + 8")
    case False
    then have H': "H' = ?H(b := (?H b)\<lparr>bfree := False\<rparr>)"
      by (simp add: H'_def take_block_def split_block_def Let_def)
    have "tiles H' a xs m b = tiles ?H a xs m b" "tiles H' (m + 24 + unat ?s) ys e 0 = tiles ?H (m + 24 + unat ?s) ys e 0"
      using d by (auto simp: H' intro!: tiles_cong)
    then have "tiles H' a (xs @ b # ys) e 0" using x by' by (auto simp: tiles_append H')
    moreover have "allocs H' xs = allocs ?H xs" "allocs H' ys = allocs ?H ys"
      using d by (auto simp: H' intro!: allocs_cong)
    then have "allocs H' (xs @ b # ys) = insert (b, ?s) (allocs ?H (xs @ b # ys))"
      using fit(1) by (simp add: allocs_append allocs_Cons H')
    ultimately show ?thesis using fit(2) by (intro exI [of _ "xs @ b # ys"] exI [of _ ?s]) (simp add: H'_def)
  next
    case True
    define nb where "nb = b + 24 + n"
    have small: "unat n + 32 < 2 ^ 64" using un le e am a by linarith
    then have n32: "unat (n + 24 + 8) = unat n + 32" by (simp add: unat_word_ariths)
    then have lt: "unat n + 32 < unat ?s" using True by (simp add: word_less_nat_alt)
    have ub: "unat nb = m + 24 + unat n"
      unfolding nb_def using by'(1) lt le e by (simp add: unat_word_ariths)
    have us: "unat (?s - n - 24) = unat ?s - unat n - 24"
    proof -
      have "unat (?s - n) = unat ?s - unat n" using unat_sub [OF fit(2)] .
      moreover have "(24 :: u64) \<le> ?s - n" using calculation lt by (simp add: word_le_nat_alt)
      ultimately show ?thesis using unat_sub [of 24 "?s - n"] by simp
    qed
    have nbb: "nb \<noteq> b" using ub by' by auto
    have H': "H' = (?H(nb := \<lparr>bsize = ?s - n - 24, bnext = ?nx, bfree = True, bmagic = MAGIC\<rparr>))
        (b := (?H b)\<lparr>bsize := n, bnext := nb, bfree := False\<rparr>)"
      using True nbb by (simp add: H'_def take_block_def split_block_def Let_def nb_def)
    have out: "nb \<notin> set xs" "nb \<notin> set ys"
      using tiles_bounds [OF x, of nb] tiles_bounds [OF by'(7), of nb] ub lt by auto
    have eqs: "tiles H' a xs m b = tiles ?H a xs m b"
      "tiles H' (m + 24 + unat ?s) ys e 0 = tiles ?H (m + 24 + unat ?s) ys e 0"
      using d out by (auto simp: H' intro!: tiles_cong)
    have "m + 24 + unat n + 24 + (unat ?s - unat n - 24) = m + 24 + unat ?s" using lt by simp
    moreover have "8 dvd unat ?s - unat n - 24" using by'(4) n8 by (auto intro!: dvd_diff_nat)
    moreover have "8 dvd m + 24 + unat n" using by'(3) n8 by (auto intro!: dvd_add)
    ultimately have "tiles H' a (xs @ b # nb # ys) e 0"
      using x by' eqs nbb n8 us ub by (auto simp: tiles_append H' add_ac)
    moreover have "allocs H' xs = allocs ?H xs" "allocs H' ys = allocs ?H ys"
      using d out by (auto simp: H' intro!: allocs_cong)
    then have "allocs H' (xs @ b # nb # ys) = insert (b, n) (allocs ?H (xs @ b # ys))"
      using fit(1) nbb by (simp add: allocs_append allocs_Cons H')
    moreover have "first (xs @ b # nb # ys) 0 = first (xs @ b # ys) 0" by (cases xs) auto
    ultimately show ?thesis by (intro exI [of _ "xs @ b # nb # ys"] exI [of _ n]) (simp add: H'_def)
  qed
qed


section \<open>Growing the heap\<close>

lemma vm_inv_used:
  assumes "vm_inv v" "pmm_inv pm" "used_set (vpmm v) \<subseteq> used_set pm"
  shows "vm_inv (v\<lparr>vpmm := pm\<rparr>)"
  using assms by (auto simp: vm_inv_def)

lemma grow_page_spec:
  assumes inv: "vm_inv (kvm h)" and room: "4 \<le> free_blocks (vpmm (kvm h))"
  obtains v where "grow_page h = Some (h\<lparr>kvm := v, heap_end := heap_end h + 4096\<rparr>)" "vm_inv v"
    "free_blocks (vpmm (kvm h)) \<le> free_blocks (vpmm v) + 4"
proof -
  have "pmm_inv (vpmm (kvm h))" using inv by (simp add: vm_inv_def)
  then obtain i pm where fr: "alloc_frame (kvm h) = Some (of_nat i * 4096, (kvm h)\<lparr>vpmm := pm\<rparr>)" "pmm_inv pm"
      "used_set pm = insert i (used_set (vpmm (kvm h)))" "free_blocks (vpmm (kvm h)) = Suc (free_blocks pm)"
    using room by (cases rule: alloc_frame_cases) auto
  let ?v = "(kvm h)\<lparr>vpmm := pm\<rparr>"
  have iv: "vm_inv ?v" using vm_inv_used [OF inv fr(2)] fr(3) by blast
  have "\<not> free_blocks (vpmm ?v) < 3" using fr(4) room by simp
  then obtain v where v: "vmm_map_page (of_nat i * 4096) (heap_end h) 3 ?v = Some v" "vm_inv v"
    "free_blocks (vpmm ?v) \<le> free_blocks (vpmm v) + 3"
    using map_entry_spec [OF iv table_flags_7, of "heap_end h" "of_nat i * 4096 OR ucast (3 :: u32)"]
    by (cases "map_entry 7 (heap_end h) (of_nat i * 4096 OR ucast (3 :: u32)) ?v") (auto simp: vmm_map_page_def)
  then show thesis using that [of v] fr(1,4) by (simp add: grow_page_def)
qed

lemma grow_pages_spec:
  assumes "vm_inv (kvm h)" "4 * length xs \<le> free_blocks (vpmm (kvm h))"
  shows "\<exists>v. ofold (\<lambda>_. grow_page) xs h = Some (h\<lparr>kvm := v, heap_end := heap_end h + of_nat (length xs) * 4096\<rparr>)
    \<and> vm_inv v"
  using assms
proof (induction xs arbitrary: h)
  case (Cons x xs)
  obtain v where v: "grow_page h = Some (h\<lparr>kvm := v, heap_end := heap_end h + 4096\<rparr>)" "vm_inv v"
    "free_blocks (vpmm (kvm h)) \<le> free_blocks (vpmm v) + 4"
    using grow_page_spec [OF Cons.prems(1)] Cons.prems(2) by auto
  let ?h = "h\<lparr>kvm := v, heap_end := heap_end h + 4096\<rparr>"
  obtain v' where "ofold (\<lambda>_. grow_page) xs ?h = Some (?h\<lparr>kvm := v', heap_end := heap_end ?h + of_nat (length xs) * 4096\<rparr>)" "vm_inv v'"
    using Cons.IH [of ?h] v Cons.prems(2) by auto
  then show ?case using v(1) by (auto simp: algebra_simps)
next
  case Nil
  then show ?case by (intro exI [of _ "kvm h"]) simp
qed

definition heap_inv :: "kheap \<Rightarrow> u64 list \<Rightarrow> bool" where
  "heap_inv h bs \<longleftrightarrow> bs \<noteq> [] \<and> free_list h = first bs 0 \<and> vm_inv (kvm h)
     \<and> tiles (hdr h) (unat HEAP_START) bs (unat (heap_end h)) 0"

lemma expand_heap_spec:
  assumes inv: "heap_inv h bs" and room: "4 * unat (heap_pages n) \<le> free_blocks (vpmm (kvm h))"
    and fits: "unat (heap_end h) + 4096 * unat (heap_pages n) < 2 ^ 64" and n: "unat n + 2 ^ 16 < 2 ^ 64"
  obtains h' nb where "expand_heap n h = Some h'" "heap_inv h' (bs @ [nb])"
    "allocs (hdr h') (bs @ [nb]) = allocs (hdr h) bs" "bfree (hdr h' nb)" "n \<le> bsize (hdr h' nb)"
proof -
  let ?p = "heap_pages n" and ?nb = "heap_end h" and ?l = "last bs"
  have t: "tiles (hdr h) (unat HEAP_START) bs (unat ?nb) 0" and bs: "bs \<noteq> []" "free_list h = first bs 0"
    using inv by (auto simp: heap_inv_def)
  obtain v where v: "ofold (\<lambda>_. grow_page) [0..<unat ?p] h = Some (h\<lparr>kvm := v, heap_end := ?nb + of_nat (unat ?p) * 4096\<rparr>)" "vm_inv v"
    using grow_pages_spec [of h "[0..<unat ?p]"] inv room by (auto simp: heap_inv_def)
  have up: "unat ?p = (unat n + 24 + 4095) div 4096" using n by (simp add: heap_pages_def unat_word_ariths unat_div)
  have pn: "unat n + 24 \<le> unat ?p * 4096" unfolding up by simp
  have ps: "unat (?p * 4096) = unat ?p * 4096" using fits by (simp add: unat_word_ariths)
  have sz: "unat (?p * 4096 - 24) = unat ?p * 4096 - 24"
    using unat_sub [of 24 "?p * 4096"] pn ps by (simp add: word_le_nat_alt)
  have nb: "?nb \<notin> set bs" "0 < unat ?nb" "8 dvd unat ?nb"
    using tiles_bounds [OF t] tiles_le [OF t] tiles_aligned [OF t] by fastforce+
  define H' where "H' = ((hdr h)(?nb := \<lparr>bsize = ?p * 4096 - 24, bnext = 0, bfree = True, bmagic = MAGIC\<rparr>))
      (?l := (hdr h ?l)\<lparr>bnext := ?nb\<rparr>)"
  have l: "?l \<in> set bs" "?l \<noteq> ?nb" using bs(1) nb(1) by (auto dest: last_in_set)
  then have "?l \<noteq> 0" using tiles_bounds [OF t] by fastforce
  then have res: "expand_heap n h = Some (h\<lparr>kvm := v, heap_end := ?nb + of_nat (unat ?p) * 4096, hdr := H'\<rparr>)"
    using last_block_tiles [OF t bs(1)] bs(2) v(1) l by (simp add: expand_heap_def Let_def H'_def)
  have he: "unat (?nb + of_nat (unat ?p) * 4096) = unat ?nb + unat ?p * 4096"
    using fits ps by (simp add: unat_add_small)
  have bl: "bs = butlast bs @ [?l]" using bs(1) by simp
  have "tiles ((hdr h)(?l := (hdr h ?l)\<lparr>bnext := ?nb\<rparr>)) (unat HEAP_START) (butlast bs @ [?l]) (unat ?nb) ?nb"
    by (rule tiles_update_last [where nx = 0]) (use t bl in metis)
  then have t1: "tiles ((hdr h)(?l := (hdr h ?l)\<lparr>bnext := ?nb\<rparr>)) (unat HEAP_START) bs (unat ?nb) ?nb" using bl by simp
  have "tiles H' (unat HEAP_START) bs (unat ?nb) ?nb"
    using t1 by (subst tiles_cong [of bs H' "(hdr h)(?l := (hdr h ?l)\<lparr>bnext := ?nb\<rparr>)"]) (use nb(1) in \<open>auto simp: H'_def\<close>)
  moreover have "8 dvd unat (?p * 4096 - 24)" unfolding sz by (auto intro!: dvd_diff_nat)
  then have "tiles H' (unat ?nb) [?nb] (unat ?nb + unat ?p * 4096) 0"
    using nb l sz pn by (simp add: H'_def)
  ultimately have "tiles H' (unat HEAP_START) (bs @ [?nb]) (unat ?nb + unat ?p * 4096) 0"
    unfolding tiles_append by auto
  then have "heap_inv (h\<lparr>kvm := v, heap_end := ?nb + of_nat (unat ?p) * 4096, hdr := H'\<rparr>) (bs @ [?nb])"
    using v(2) bs he by (cases bs) (auto simp: heap_inv_def)
  moreover have "allocs H' bs = allocs (hdr h) bs"
    using nb(1) by (auto simp: allocs_def H'_def)
  then have "allocs H' (bs @ [?nb]) = allocs (hdr h) bs" using l by (simp add: allocs_append allocs_Cons H'_def)
  moreover have "bfree (H' ?nb)" "n \<le> bsize (H' ?nb)" using l sz pn by (simp_all add: H'_def word_le_nat_alt)
  ultimately show thesis using that [OF res] by simp
qed


section \<open>Allocation\<close>

lemma align8_unat:
  assumes "unat x + 8 < 2 ^ 64"
  shows "8 dvd unat (align8 x)" "unat x \<le> unat (align8 x)" "unat (align8 x) < unat x + 8"
proof -
  have "(7 :: u64) = mask 3" by (simp add: mask_eq_exp_minus_1)
  then have b: "bit (7 :: u64) i \<longleftrightarrow> i < 3" for i by (simp only: bit_mask_iff) auto
  have "align8 x = push_bit 3 (drop_bit 3 (x + 7))"
    by (rule bit_eqI) (simp only: align8_def bit_and_iff bit_not_iff b bit_push_bit_iff bit_drop_bit_eq o_def, auto)
  moreover have "unat (x + 7) = unat x + 7" using assms by (simp add: unat_word_ariths)
  ultimately have "unat (align8 x) = (unat x + 7) div 8 * 8"
    using assms by (simp add: push_bit_eq_mult drop_bit_eq_div unat_word_ariths unat_div)
  then show "8 dvd unat (align8 x)" "unat x \<le> unat (align8 x)" "unat (align8 x) < unat x + 8" by simp_all
qed

lemma take_block_inv:
  assumes inv: "heap_inv h bs" and b: "b \<in> set bs" and fit: "bfree (hdr h b)" "n \<le> bsize (hdr h b)"
    and n8: "8 dvd unat n"
  shows "\<exists>bs' sz. heap_inv (take_block b n h) bs' \<and> n \<le> sz \<and> (b, sz) \<notin> allocs (hdr h) bs
    \<and> allocs (hdr (take_block b n h)) bs' = insert (b, sz) (allocs (hdr h) bs)"
proof -
  obtain xs ys where bs: "bs = xs @ b # ys" using b by (auto simp: in_set_conv_decomp)
  have t: "tiles (hdr h) (unat HEAP_START) (xs @ b # ys) (unat (heap_end h)) 0"
    using inv by (simp add: heap_inv_def bs)
  have "unat (heap_end h) < 2 ^ 64" using unat64_lt [of "heap_end h"] by simp
  from take_block_spec [OF t this _ fit n8] obtain bs' sz where
    r: "tiles (hdr (take_block b n h)) (unat HEAP_START) bs' (unat (heap_end h)) 0" "first bs' 0 = first bs 0" "n \<le> sz"
      "allocs (hdr (take_block b n h)) bs' = insert (b, sz) (allocs (hdr h) bs)" "bs' \<noteq> []"
    unfolding bs by auto
  have "kvm (take_block b n h) = kvm h" "free_list (take_block b n h) = free_list h" "heap_end (take_block b n h) = heap_end h"
    by (simp_all add: take_block_def Let_def)
  then have "heap_inv (take_block b n h) bs'" using r inv by (simp add: heap_inv_def)
  moreover have "(b, sz) \<notin> allocs (hdr h) bs" using fit(1) by (simp add: allocs_def)
  ultimately show ?thesis using r by blast
qed

definition room_for :: "u64 \<Rightarrow> kheap \<Rightarrow> bool" where
  "room_for n h \<longleftrightarrow> unat n + 2 ^ 16 < 2 ^ 64 \<and> 4 * unat (heap_pages n) \<le> free_blocks (vpmm (kvm h))
     \<and> unat (heap_end h) + 4096 * unat (heap_pages n) < 2 ^ 64"

lemma kmalloc_loop_fit:
  assumes inv: "heap_inv h bs" and b: "b \<in> set bs" "bfree (hdr h b)" "n \<le> bsize (hdr h b)" and n8: "8 dvd unat n"
  shows "\<exists>b h' bs' sz. kmalloc_loop n h = Some (b + 24, h') \<and> b \<in> set bs \<and> heap_inv h' bs' \<and> n \<le> sz
    \<and> b \<notin> fst ` allocs (hdr h) bs \<and> allocs (hdr h') bs' = insert (b, sz) (allocs (hdr h) bs)"
proof -
  let ?P = "\<lambda>b. bfree (hdr h b) \<and> n \<le> bsize (hdr h b)"
  have t: "tiles (hdr h) (unat HEAP_START) bs (unat (heap_end h)) 0" "free_list h = first bs 0"
    using inv by (auto simp: heap_inv_def)
  obtain c where c: "find ?P bs = Some c" using b by (cases "find ?P bs") (auto simp: find_None_iff)
  then have cP: "c \<in> set bs" "?P c" by (auto simp: find_Some_iff)
  then have "c \<noteq> 0" using tiles_bounds [OF t(1)] by fastforce
  then have "kmalloc_loop n h = Some (c + 24, take_block c n h)"
    using find_fit_tiles [OF t(1), of n] c t(2) by (subst kmalloc_loop.simps) simp
  moreover have "c \<notin> fst ` allocs (hdr h) bs" using cP(2) by (auto simp: allocs_def)
  ultimately show ?thesis using take_block_inv [OF inv cP(1) _ _ n8] cP by blast
qed

lemma kmalloc_loop_spec:
  assumes inv: "heap_inv h bs" and room: "room_for n h" and n8: "8 dvd unat n"
  shows "\<exists>b h' bs' sz. kmalloc_loop n h = Some (b + 24, h') \<and> heap_inv h' bs' \<and> n \<le> sz
    \<and> b \<notin> fst ` allocs (hdr h) bs \<and> allocs (hdr h') bs' = insert (b, sz) (allocs (hdr h) bs)"
proof (cases "\<exists>b \<in> set bs. bfree (hdr h b) \<and> n \<le> bsize (hdr h b)")
  case True
  then show ?thesis using kmalloc_loop_fit [OF inv _ _ _ n8] by blast
next
  case False
  have t: "tiles (hdr h) (unat HEAP_START) bs (unat (heap_end h)) 0" "free_list h = first bs 0"
    using inv by (auto simp: heap_inv_def)
  have "find (\<lambda>b. bfree (hdr h b) \<and> n \<le> bsize (hdr h b)) bs = None" using False by (auto simp: find_None_iff)
  then have "find_fit (hdr h) n (free_list h) = Some 0" using find_fit_tiles [OF t(1), of n] t(2) by simp
  moreover obtain h1 nb where h1: "expand_heap n h = Some h1" "heap_inv h1 (bs @ [nb])"
    "allocs (hdr h1) (bs @ [nb]) = allocs (hdr h) bs" "bfree (hdr h1 nb)" "n \<le> bsize (hdr h1 nb)"
    using expand_heap_spec [OF inv, of n] room unfolding room_for_def by (auto simp: mult.commute)
  ultimately have "kmalloc_loop n h = kmalloc_loop n h1" by (subst kmalloc_loop.simps) simp
  then show ?thesis using kmalloc_loop_fit [OF h1(2) _ h1(4,5) n8] h1(3) by auto
qed

section \<open>Freeing\<close>

lemma tiles_merge:
  assumes "tiles H a (b # c # ds) e 0" "e < 2 ^ 64" "bfree (H b)" "bfree (H c)"
  defines "H' \<equiv> H(b := (H b)\<lparr>bsize := bsize (H b) + (24 + bsize (H c)), bnext := bnext (H c)\<rparr>)"
  shows "tiles H' a (b # ds) e 0" "allocs H' (b # ds) = allocs H (b # c # ds)"
proof -
  let ?s = "unat (bsize (H b))" and ?t = "unat (bsize (H c))"
  have t: "tiles H (a + 24 + ?s + 24 + ?t) ds e 0" and d: "distinct (b # c # ds)"
    using assms(1) tiles_distinct [OF assms(1)] by auto
  have "a + 24 + ?s + 24 + ?t \<le> e" using tiles_le [OF t] .
  then have "unat (bsize (H b) + (24 + bsize (H c))) = ?s + (24 + ?t)"
    using assms(2) by (simp add: unat_word_ariths)
  moreover have "tiles H' m ds e 0 = tiles H m ds e 0" for m
    using d by (intro tiles_cong) (auto simp: H'_def)
  ultimately show "tiles H' a (b # ds) e 0" using assms(1) t by (auto simp: H'_def add_ac)
  show "allocs H' (b # ds) = allocs H (b # c # ds)"
    using d assms(3,4) by (auto simp: allocs_def H'_def)
qed

lemma merge_at_cases:
  assumes "tiles H a (b # bs) e 0" "e < 2 ^ 64"
  obtains ds where "length ds \<le> length bs" "set ds \<subseteq> set bs" "tiles (merge_at b H) a (b # ds) e 0"
    "allocs (merge_at b H) (b # ds) = allocs H (b # bs)" "\<And>x. x \<noteq> b \<Longrightarrow> merge_at b H x = H x"
proof (cases "bfree (H b) \<and> bnext (H b) \<noteq> 0 \<and> bfree (H (bnext (H b))) \<and> b + 24 + bsize (H b) = bnext (H b)")
  case True
  then obtain c ds where bs: "bs = c # ds" "bnext (H b) = c" using assms(1) by (cases bs) auto
  then have m: "merge_at b H = H(b := (H b)\<lparr>bsize := bsize (H b) + (24 + bsize (H c)), bnext := bnext (H c)\<rparr>)"
    using True by (simp add: merge_at_def Let_def)
  show thesis
    using that [of ds] tiles_merge [of H a b c ds e] True assms unfolding m bs by auto
next
  case False
  then have "merge_at b H = H" by (auto simp: merge_at_def Let_def)
  then show thesis using that [of bs] assms by simp
qed

lemma merge_loop_spec:
  assumes "tiles H a bs e 0" "e < 2 ^ 64"
  shows "\<exists>H' bs'. merge_loop (first bs 0) H = Some H' \<and> tiles H' a bs' e 0 \<and> first bs' 0 = first bs 0
    \<and> allocs H' bs' = allocs H bs \<and> (\<forall>x. x \<notin> set bs \<longrightarrow> H' x = H x) \<and> set bs' \<subseteq> set bs"
  using assms
proof (induction "length bs" arbitrary: H a bs rule: less_induct)
  case less
  show ?case
  proof (cases bs)
    case Nil
    then show ?thesis using less.prems by (auto simp: merge_loop.simps)
  next
    case (Cons b cs)
    obtain ds where ds: "length ds \<le> length cs" "set ds \<subseteq> set cs" "tiles (merge_at b H) a (b # ds) e 0"
      "allocs (merge_at b H) (b # ds) = allocs H (b # cs)" "\<And>x. x \<noteq> b \<Longrightarrow> merge_at b H x = H x"
      using merge_at_cases [of H a b cs e] less.prems Cons by blast
    let ?H = "merge_at b H"
    have nb: "b \<notin> set ds" "b \<noteq> 0" "bnext (?H b) = first ds 0" using ds(3) tiles_distinct [OF ds(3)] by auto
    let ?m = "a + 24 + unat (bsize (?H b))"
    have "tiles ?H ?m ds e 0" using ds(3) by simp
    from less.hyps [OF _ this less.prems(2)] ds(1) Cons
    obtain H' ds' where ih: "merge_loop (first ds 0) ?H = Some H'" "tiles H' ?m ds' e 0" "first ds' 0 = first ds 0"
      "allocs H' ds' = allocs ?H ds" "\<And>x. x \<notin> set ds \<Longrightarrow> H' x = ?H x" "set ds' \<subseteq> set ds" by auto
    have "merge_loop (first bs 0) H = Some H'"
      using nb ih(1) Cons by (subst merge_loop.simps) (simp add: Let_def)
    moreover have "tiles H' a (b # ds') e 0" using ds(3) ih nb by auto
    moreover have "allocs H' (b # ds') = allocs H bs"
      using ih(4) ih(5) [OF nb(1)] ds(4) Cons by (metis allocs_Cons)
    ultimately show ?thesis using ds(2,5) ih(5,6) Cons by (intro exI [of _ H'] exI [of _ "b # ds'"]) fastforce
  qed
qed

section \<open>The heap as an allocator\<close>

text \<open>
  C1. \<^verbatim>\<open>kmalloc\<close> returns and hands out fresh memory: on a well-formed heap, if the page
  allocator can still supply the pages of one expansion, the outer loop ends (after at most one
  expansion), the heap stays well formed, and the set of allocated blocks gains exactly one block,
  which was not allocated before, holds at least \<open>n\<close> bytes and is eight-byte aligned.
\<close>

theorem kmalloc_correct:
  assumes "heap_inv h bs" "n \<noteq> 0" "room_for (align8 n) h" "unat n + 8 < 2 ^ 64"
  shows "\<exists>b sz h' bs'. kmalloc n h = Some (b + 24, h') \<and> heap_inv h' bs' \<and> n \<le> sz \<and> 8 dvd unat b
    \<and> b \<notin> fst ` allocs (hdr h) bs \<and> allocs (hdr h') bs' = insert (b, sz) (allocs (hdr h) bs)"
proof -
  obtain b h' bs' sz where r: "kmalloc_loop (align8 n) h = Some (b + 24, h')" "heap_inv h' bs'" "align8 n \<le> sz"
      "b \<notin> fst ` allocs (hdr h) bs" "allocs (hdr h') bs' = insert (b, sz) (allocs (hdr h) bs)"
    using kmalloc_loop_spec [OF assms(1,3) align8_unat(1) [OF assms(4)]] by blast
  have "n \<le> align8 n" using align8_unat(2) [OF assms(4)] by (simp add: word_le_nat_alt)
  moreover have "b \<in> set bs'" using r(5) unfolding allocs_def by blast
  then have "8 dvd unat b" using r(2) unfolding heap_inv_def by (metis in_set_conv_decomp tiles.simps(2) tiles_append)
  ultimately show ?thesis using r assms(2) by (auto simp: kmalloc_def intro: order_trans)
qed

text \<open>
  C23. \<^verbatim>\<open>kfree\<close> of an allocated block returns, keeps the heap well formed and removes exactly
  that block from the allocated ones: the merging walk ends and never absorbs, moves or resizes a
  block in use.
\<close>

theorem kfree_correct:
  assumes "heap_inv h bs" "(b, sz) \<in> allocs (hdr h) bs"
  shows "\<exists>h' bs'. kfree (b + 24) h = Some h' \<and> heap_inv h' bs' \<and> allocs (hdr h') bs' = allocs (hdr h) bs - {(b, sz)}"
proof -
  have b: "b \<in> set bs" "\<not> bfree (hdr h b)" "sz = bsize (hdr h b)" using assms(2) by (auto simp: allocs_def)
  have t: "tiles (hdr h) (unat HEAP_START) bs (unat (heap_end h)) 0" "free_list h = first bs 0" "bs \<noteq> []"
    using assms(1) by (auto simp: heap_inv_def)
  let ?H = "(hdr h)(b := (hdr h b)\<lparr>bfree := True\<rparr>)"
  obtain xs ys where bs: "bs = xs @ b # ys" using b(1) by (auto simp: in_set_conv_decomp)
  have d: "distinct bs" using tiles_distinct [OF t(1)] .
  have "tiles ?H m xs m' b = tiles (hdr h) m xs m' b" "tiles ?H m ys m' 0 = tiles (hdr h) m ys m' 0" for m m'
    using d bs by (auto intro!: tiles_cong)
  then have t': "tiles ?H (unat HEAP_START) bs (unat (heap_end h)) 0"
    using t(1) unfolding bs tiles_append by auto
  have mg: "bmagic (hdr h b) = MAGIC" using t(1) unfolding bs tiles_append by auto
  have "unat b + 24 \<le> unat (heap_end h)" "0 < unat b" using tiles_bounds [OF t(1) b(1)] by auto
  moreover have "unat (heap_end h) < 2 ^ 64" using unat64_lt [of "heap_end h"] by simp
  ultimately have "unat (b + 24) \<noteq> 0" by (simp add: unat_word_ariths)
  then have nz: "b + 24 \<noteq> 0" by (metis unat_0)
  obtain H' bs' where m: "merge_loop (first bs 0) ?H = Some H'" "tiles H' (unat HEAP_START) bs' (unat (heap_end h)) 0"
      "first bs' 0 = first bs 0" "allocs H' bs' = allocs ?H bs"
    using merge_loop_spec [OF t'] unat64_lt [of "heap_end h"] by auto
  have "first bs 0 \<noteq> 0" using t(1,3) by (cases bs) auto
  then have "bs' \<noteq> []" using m(3) by auto
  then have "heap_inv (h\<lparr>hdr := H'\<rparr>) bs'" using m assms(1) by (simp add: heap_inv_def)
  moreover have "allocs ?H bs = allocs (hdr h) bs - {(b, sz)}" using d b by (auto simp: allocs_def)
  ultimately show ?thesis using m nz mg t(2) by (auto simp: kfree_def Let_def)
qed

text \<open>
  No two allocations overlap: the blocks of a well-formed heap that are in use, headers
  included, lie inside the mapped heap and are pairwise disjoint, so a write inside the memory one
  caller was given reaches neither another caller's memory nor a block header.
\<close>

theorem kheap_disjoint:
  assumes "heap_inv h bs" "(b, s) \<in> allocs (hdr h) bs" "(c, t) \<in> allocs (hdr h) bs" "b \<noteq> c"
  shows "unat b + 24 + unat s \<le> unat c \<or> unat c + 24 + unat t \<le> unat b"
proof -
  have m: "b \<in> set bs" "c \<in> set bs" "s = bsize (hdr h b)" "t = bsize (hdr h c)" using assms by (auto simp: allocs_def)
  then show ?thesis using tiles_disjoint [of "hdr h" _ bs _ 0 b c] assms(1,4) by (auto simp: heap_inv_def)
qed

lemma malloc_init_inv:
  assumes "vm_inv (kvm h)" "4 \<le> free_blocks (vpmm (kvm h))" "heap_end h = HEAP_START"
  shows "\<exists>h'. malloc_init h = Some h' \<and> heap_inv h' [HEAP_START] \<and> allocs (hdr h') [HEAP_START] = {}"
proof -
  obtain v where "grow_page h = Some (h\<lparr>kvm := v, heap_end := heap_end h + 4096\<rparr>)" "vm_inv v"
    using grow_page_spec [OF assms(1,2)] by blast
  then show ?thesis using assms(3) by (simp add: malloc_init_def heap_inv_def allocs_Cons)
qed

text \<open>
  A request within seven bytes of \<^verbatim>\<open>SIZE_MAX\<close> is not refused: the rounding
  \<^verbatim>\<open>ALIGN(size)\<close> wraps to zero, so \<^verbatim>\<open>kmalloc\<close> behaves as for a block of no bytes at all and hands
  out the first free block of any size. In the initial heap it reports success for \<open>2\<^sup>6\<^sup>4 - 1\<close> bytes
  with a block that holds none.
\<close>

theorem kmalloc_align_wraps:
  assumes "- 7 \<le> n" "heap_inv h bs" "find (\<lambda>b. bfree (hdr h b)) bs = Some b"
  shows "kmalloc n h = Some (b + 24, take_block b 0 h)"
proof -
  have "unat n + 7 \<ge> 2 ^ 64" using assms(1) by (simp add: word_le_nat_alt)
  then have "unat (n + 7) < 7" using unat64_lt [of n] by (simp add: unat_word_ariths le_mod_geq)
  then have "unat (n + 7) \<in> {0, 1, 2, 3, 4, 5, 6}" by auto
  moreover have "n + 7 = of_nat (unat (n + 7))" by simp
  ultimately have "n + 7 \<in> of_nat ` {0, 1, 2, 3, 4, 5, 6}" by (rule rev_image_eqI)
  moreover have "y AND NOT 7 = 0" if "y \<in> of_nat ` {0, 1, 2, 3, 4, 5, 6}" for y :: u64 using that by auto
  ultimately have "align8 n = 0" by (simp add: align8_def)
  moreover have "n \<noteq> 0" using assms(1) by auto
  moreover have "b \<in> set bs" using assms(3) by (auto simp: find_Some_iff)
  then have "b \<noteq> 0" using assms(2) tiles_bounds [of "hdr h" _ bs _ 0 b] by (force simp: heap_inv_def)
  ultimately show ?thesis
    using assms find_fit_tiles [of "hdr h" "unat HEAP_START" bs "unat (heap_end h)" 0]
    by (simp add: kmalloc_def kmalloc_loop.simps heap_inv_def)
qed

definition kheap_demo :: kheap where
  "kheap_demo = \<lparr>hdr = (\<lambda>_. \<lparr>bsize = 4072, bnext = 0, bfree = True, bmagic = MAGIC\<rparr>), free_list = HEAP_START,
     heap_end = HEAP_START + 4096, kvm = vm_demo\<rparr>"

lemma kheap_demo_inv: "heap_inv kheap_demo [HEAP_START]" "allocs (hdr kheap_demo) [HEAP_START] = {}"
  using vm_demo_inv by (simp_all add: heap_inv_def kheap_demo_def allocs_Cons)

definition kheap_demo2 :: kheap where
  "kheap_demo2 = kheap_demo\<lparr>hdr := (\<lambda>b. \<lparr>bsize = 2024, bnext = (if b = HEAP_START then HEAP_START + 2048 else 0),
     bfree = False, bmagic = MAGIC\<rparr>)\<rparr>"

lemma kheap_demo2_inv: "heap_inv kheap_demo2 [HEAP_START, HEAP_START + 2048]"
  using vm_demo_inv by (simp add: heap_inv_def kheap_demo2_def kheap_demo_def)

lemma kheap_demo2_allocs:
  "allocs (hdr kheap_demo2) [HEAP_START, HEAP_START + 2048] = {(HEAP_START, 2024), (HEAP_START + 2048, 2024)}"
  by (auto simp: allocs_Cons kheap_demo2_def kheap_demo_def)

theorem kmalloc_correct_witness:
  "\<exists>b sz h' bs'. kmalloc 100 kheap_demo = Some (b + 24, h') \<and> heap_inv h' bs' \<and> 100 \<le> sz
    \<and> allocs (hdr h') bs' = {(b, sz)}"
proof -
  have "align8 100 = 104" by (simp add: align8_def)
  moreover have "room_for 104 kheap_demo"
    using vm_demo_free by (simp add: room_for_def heap_pages_def kheap_demo_def)
  ultimately show ?thesis using kmalloc_correct [OF kheap_demo_inv(1), of 100] kheap_demo_inv(2) by auto
qed

theorem kfree_correct_witness:
  "\<exists>h' bs'. kfree (HEAP_START + 24) kheap_demo2 = Some h' \<and> heap_inv h' bs'
    \<and> allocs (hdr h') bs' = {(HEAP_START + 2048, 2024)}"
proof -
  have "(HEAP_START, 2024) \<in> allocs (hdr kheap_demo2) [HEAP_START, HEAP_START + 2048]"
    unfolding kheap_demo2_allocs by simp
  from kfree_correct [OF kheap_demo2_inv this] show ?thesis unfolding kheap_demo2_allocs by auto
qed

theorem kheap_disjoint_witness:
  "(HEAP_START, 2024) \<in> allocs (hdr kheap_demo2) [HEAP_START, HEAP_START + 2048]
    \<and> (unat HEAP_START + 24 + 2024 \<le> unat (HEAP_START + 2048) \<or> unat (HEAP_START + 2048) + 24 + 2024 \<le> unat HEAP_START)"
  using kheap_disjoint [OF kheap_demo2_inv, of HEAP_START 2024 "HEAP_START + 2048" 2024] unfolding kheap_demo2_allocs by simp

theorem kmalloc_align_wraps_witness:
  "kmalloc (- 1) kheap_demo = Some (HEAP_START + 24, take_block HEAP_START 0 kheap_demo)
    \<and> bsize (hdr (take_block HEAP_START 0 kheap_demo) HEAP_START) = 0"
proof -
  have "find (\<lambda>b. bfree (hdr kheap_demo b)) [HEAP_START] = Some HEAP_START" by (simp add: kheap_demo_def)
  from kmalloc_align_wraps [OF _ kheap_demo_inv(1) this, of "- 1"]
  show ?thesis by (simp add: take_block_def split_block_def kheap_demo_def Let_def)
qed

end
