(* ===== verification/Vfs.thy ===== *)
theory Vfs
  imports Kstring "HOL-Library.Monad_Syntax"
begin

text \<open>
  The virtual file system, \<^verbatim>\<open>kernel/vfs.c\<close> and \<^verbatim>\<open>include/vfs.h\<close>: nodes with their operation
  pointers, the mount table, path resolution and the operations that dispatch through a node.

  A C string is the list of characters before its NUL. A node is reached through its address
  (\<open>0\<close> is \<^verbatim>\<open>NULL\<close>). A function pointer is the name of the C function, \<open>None\<close> for \<^verbatim>\<open>NULL\<close>; what
  the named functions do is given by a record \<open>fs_calls\<close>, which the file system theories
  instantiate. The state is an extensible record, so that each file system adds its own part. The
  value \<open>None\<close> of an operation is a memory error: a write past the end of an array, or the use of
  an uninitialised or \<^verbatim>\<open>NULL\<close> object. \<^verbatim>\<open>vfs_lock\<close> is held around each operation that uses it.
\<close>

section \<open>Nodes\<close>

type_synonym ptr = nat
type_synonym fptr = "string option"

abbreviation (input) FS_FILE :: u32 where "FS_FILE \<equiv> 1"
abbreviation (input) FS_DIRECTORY :: u32 where "FS_DIRECTORY \<equiv> 2"

record vfs_node =
  vname :: string
  vmask :: u32
  vuid :: u32
  vgid :: u32
  vflags :: u32
  vinode :: u32
  vlength :: u32
  vimpl :: ptr
  read_fn :: fptr
  write_fn :: fptr
  open_fn :: fptr
  close_fn :: fptr
  seek_fn :: fptr
  ioctl_fn :: fptr
  readdir_fn :: fptr
  finddir_fn :: fptr
  mkdir_fn :: fptr
  create_fn :: fptr
  rmdir_fn :: fptr
  unlink_fn :: fptr
  vptr :: ptr
  lock_count :: u32
  lock_type :: u32
  lock_owner :: u32
  lock_start :: u64
  lock_end :: u64
  atime :: u64
  mtime :: u64
  ctime :: u64
  vnlink :: u32
  block_size :: u32
  blocks :: u64
  refcount :: u32

text \<open>What \<^verbatim>\<open>memset(n, 0, sizeof(vfs_node_t))\<close> leaves.\<close>

definition zero_node :: vfs_node where
  "zero_node = \<lparr>vname = [], vmask = 0, vuid = 0, vgid = 0, vflags = 0, vinode = 0, vlength = 0, vimpl = 0,
     read_fn = None, write_fn = None, open_fn = None, close_fn = None, seek_fn = None, ioctl_fn = None,
     readdir_fn = None, finddir_fn = None, mkdir_fn = None, create_fn = None, rmdir_fn = None, unlink_fn = None,
     vptr = 0, lock_count = 0, lock_type = 0, lock_owner = 0, lock_start = 0, lock_end = 0,
     atime = 0, mtime = 0, ctime = 0, vnlink = 0, block_size = 0, blocks = 0, refcount = 0\<rparr>"

record dirent =
  dname :: string
  dino :: u32

record mount_entry =
  mpath :: string
  mnode :: ptr
  mflags :: u64

text \<open>
  \<open>plan\<close> holds the outcomes of the next \<^verbatim>\<open>kmalloc\<close> calls (all succeed once it is empty), so that
  the model has every branch on a failed allocation. \<open>next_node\<close> is the address of the next
  node allocated.
\<close>

record vfs =
  fs_root :: ptr
  mount_table :: "mount_entry list"
  nodes :: "ptr \<Rightarrow> vfs_node"
  next_node :: ptr
  plan :: "bool list"

record 's fs_calls =
  fn_read :: "string \<Rightarrow> ptr \<Rightarrow> u32 \<Rightarrow> u32 \<Rightarrow> 's \<Rightarrow> (u8 list \<times> 's) option"
  fn_write :: "string \<Rightarrow> ptr \<Rightarrow> u32 \<Rightarrow> u8 list \<Rightarrow> 's \<Rightarrow> (u32 \<times> 's) option"
  fn_open :: "string \<Rightarrow> ptr \<Rightarrow> 's \<Rightarrow> 's option"
  fn_close :: "string \<Rightarrow> ptr \<Rightarrow> 's \<Rightarrow> 's option"
  fn_ioctl :: "string \<Rightarrow> ptr \<Rightarrow> u32 \<Rightarrow> u64 \<Rightarrow> 's \<Rightarrow> (int \<times> 's) option"
  fn_readdir :: "string \<Rightarrow> ptr \<Rightarrow> u32 \<Rightarrow> 's \<Rightarrow> (dirent option \<times> 's) option"
  fn_finddir :: "string \<Rightarrow> ptr \<Rightarrow> string \<Rightarrow> 's \<Rightarrow> (ptr \<times> 's) option"
  fn_mkdir :: "string \<Rightarrow> ptr \<Rightarrow> string \<Rightarrow> 's \<Rightarrow> (ptr \<times> 's) option"
  fn_create :: "string \<Rightarrow> ptr \<Rightarrow> string \<Rightarrow> u32 \<Rightarrow> 's \<Rightarrow> (ptr \<times> 's) option"
  fn_rmdir :: "string \<Rightarrow> ptr \<Rightarrow> string \<Rightarrow> 's \<Rightarrow> (int \<times> 's) option"
  fn_unlink :: "string \<Rightarrow> ptr \<Rightarrow> string \<Rightarrow> 's \<Rightarrow> (int \<times> 's) option"

definition kmalloc_ok :: "'a vfs_scheme \<Rightarrow> bool \<times> 'a vfs_scheme" where
  "kmalloc_ok s = (case plan s of [] \<Rightarrow> (True, s) | b # bs \<Rightarrow> (b, s\<lparr>plan := bs\<rparr>))"

definition new_node :: "vfs_node \<Rightarrow> 'a vfs_scheme \<Rightarrow> ptr \<times> 'a vfs_scheme" where
  "new_node n s = (let (ok, s1) = kmalloc_ok s
     in if ok then (next_node s1, s1\<lparr>nodes := (nodes s1)(next_node s1 := n), next_node := next_node s1 + 1\<rparr>) else (0, s1))"

definition is_dir :: "u32 \<Rightarrow> bool" where
  "is_dir f \<longleftrightarrow> f AND FS_DIRECTORY \<noteq> 0"

section \<open>The mount table\<close>

definition vfs_init :: "'a vfs_scheme \<Rightarrow> 'a vfs_scheme" where
  "vfs_init s = s\<lparr>mount_table := []\<rparr>"

definition vfs_mount :: "string \<Rightarrow> ptr \<Rightarrow> u64 \<Rightarrow> 'a vfs_scheme \<Rightarrow> int \<times> 'a vfs_scheme" where
  "vfs_mount path node flags s =
     (if length (mount_table s) \<ge> 16 then (- ENOMEM, s)
      else (0, s\<lparr>mount_table := mount_table s @ [\<lparr>mpath = take 127 path, mnode = node, mflags = flags\<rparr>]\<rparr>))"

fun unmount_at :: "string \<Rightarrow> mount_entry list \<Rightarrow> mount_entry list option" where
  "unmount_at path [] = None"
| "unmount_at path (m # ms) = (if mpath m = path then Some ms else map_option (Cons m) (unmount_at path ms))"

definition vfs_unmount :: "string \<Rightarrow> 'a vfs_scheme \<Rightarrow> int \<times> 'a vfs_scheme" where
  "vfs_unmount path s = (case unmount_at path (mount_table s) of
     None \<Rightarrow> (- 1, s) | Some ms \<Rightarrow> (0, s\<lparr>mount_table := ms\<rparr>))"

fun mount_find :: "string \<Rightarrow> mount_entry list \<Rightarrow> ptr" where
  "mount_find path [] = 0"
| "mount_find path (m # ms) = (if mpath m = path then mnode m else mount_find path ms)"

definition vfs_get_mount :: "string \<Rightarrow> 'a vfs_scheme \<Rightarrow> ptr" where
  "vfs_get_mount path s = mount_find path (mount_table s)"

section \<open>Path resolution\<close>

definition vfs_finddir :: "('a vfs_scheme) fs_calls \<Rightarrow> ptr \<Rightarrow> string \<Rightarrow> 'a vfs_scheme \<Rightarrow> (ptr \<times> 'a vfs_scheme) option" where
  "vfs_finddir E node name s =
     (if node \<noteq> 0 \<and> is_dir (vflags (nodes s node))
      then case finddir_fn (nodes s node) of None \<Rightarrow> Some (0, s) | Some fd \<Rightarrow> fn_finddir E fd node name s
      else Some (0, s))"

text \<open>The next component: at most 127 characters up to a slash.\<close>

definition take_component :: "string \<Rightarrow> string" where
  "take_component p = take 127 (takeWhile (\<lambda>c. c \<noteq> CHR ''/'') p)"

definition skip_slashes :: "string \<Rightarrow> string" where
  "skip_slashes p = dropWhile (\<lambda>c. c = CHR ''/'') p"

text \<open>
  Appending a component to \<^verbatim>\<open>full_path[128]\<close>: the slash is stored without a check, the
  component as far as index 126, then the NUL at \<open>flen\<close>, which must be an index of the array.
\<close>

definition add_component :: "string \<Rightarrow> string \<Rightarrow> string option" where
  "add_component full cm =
     (let f1 = full @ ''/''; f2 = f1 @ take (127 - length f1) cm
      in if length f2 < 128 then Some f2 else None)"

lemma take_component_length: "p \<noteq> [] \<Longrightarrow> hd p \<noteq> CHR ''/'' \<Longrightarrow> 0 < length (take_component p)"
  by (cases p) (auto simp: take_component_def)

lemma skip_slashes_hd: "skip_slashes p \<noteq> [] \<Longrightarrow> hd (skip_slashes p) \<noteq> CHR ''/''"
  unfolding skip_slashes_def using hd_dropWhile by blast

lemma skip_slashes_length: "length (skip_slashes p) \<le> length p"
  by (simp add: skip_slashes_def length_dropWhile_le)

lemma after_component_length:
  assumes "skip_slashes p \<noteq> []"
  shows "length (drop (length (take_component (skip_slashes p))) (skip_slashes p)) < length p"
proof -
  let ?q = "skip_slashes p"
  have "0 < length (take_component ?q)" "0 < length ?q"
    using take_component_length [OF assms skip_slashes_hd [OF assms]] assms by auto
  then have "length (drop (length (take_component ?q)) ?q) < length ?q" by (simp only: length_drop)
  then show ?thesis using skip_slashes_length [of p] by linarith
qed

text \<open>
  The outer loop of \<^verbatim>\<open>vfs_resolve_path\<close>. The result is the node returned and what was stored
  in \<^verbatim>\<open>out_name\<close> (\<open>None\<close> if nothing was).
\<close>

function resolve_loop :: "('a vfs_scheme) fs_calls \<Rightarrow> string \<Rightarrow> string \<Rightarrow> ptr \<Rightarrow> 'a vfs_scheme \<Rightarrow>
    ((ptr \<times> string option) \<times> 'a vfs_scheme) option" where
  "resolve_loop E full path cur s =
     (let p1 = skip_slashes path
      in if p1 = [] then Some ((cur, Some []), s)
      else let cm = take_component p1; p2 = drop (length cm) p1
      in case add_component full cm of None \<Rightarrow> None
      | Some full' \<Rightarrow>
          if vfs_get_mount full' s \<noteq> 0 then resolve_loop E full' p2 (vfs_get_mount full' s) s
          else if cm = ''.'' then resolve_loop E full' p2 cur s
          else if cm = ''..'' then
            (if cur = 0 then None
             else if finddir_fn (nodes s cur) = None then resolve_loop E full' p2 cur s
             else case vfs_finddir E cur ''..'' s of None \<Rightarrow> None
                  | Some (par, s') \<Rightarrow> resolve_loop E full' p2 (if par \<noteq> 0 then par else cur) s')
          else if skip_slashes p2 \<noteq> [] then
            (case vfs_finddir E cur cm s of None \<Rightarrow> None
             | Some (nxt, s') \<Rightarrow> if nxt = 0 then Some ((0, None), s') else resolve_loop E full' (skip_slashes p2) nxt s')
          else Some ((cur, Some cm), s))"
  by pat_completeness auto
termination
  by (relation "measure (\<lambda>(E, full, path, cur, s). length path)")
     (auto intro: after_component_length [unfolded length_drop]
        le_less_trans [OF skip_slashes_length after_component_length])

declare resolve_loop.simps [simp del]

definition vfs_resolve_path :: "('a vfs_scheme) fs_calls \<Rightarrow> string \<Rightarrow> ptr \<Rightarrow> 'a vfs_scheme \<Rightarrow>
    ((ptr \<times> string option) \<times> 'a vfs_scheme) option" where
  "vfs_resolve_path E path start s =
     (case path of [] \<Rightarrow> Some ((start, None), s)
      | c # cs \<Rightarrow> if c = CHR ''/'' then resolve_loop E [] cs (fs_root s) s
                  else resolve_loop E [] path (if start \<noteq> 0 then start else fs_root s) s)"

section \<open>Operations through a node\<close>

definition vfs_read :: "('a vfs_scheme) fs_calls \<Rightarrow> ptr \<Rightarrow> u32 \<Rightarrow> u32 \<Rightarrow> 'a vfs_scheme \<Rightarrow> (u8 list \<times> 'a vfs_scheme) option" where
  "vfs_read E node offset sz s =
     (if node = 0 then Some ([], s)
      else case read_fn (nodes s node) of None \<Rightarrow> Some ([], s) | Some f \<Rightarrow> fn_read E f node offset sz s)"

text \<open>The buffer is given as the list of the \<^verbatim>\<open>size\<close> bytes to write.\<close>

definition vfs_write :: "('a vfs_scheme) fs_calls \<Rightarrow> ptr \<Rightarrow> u32 \<Rightarrow> u8 list \<Rightarrow> 'a vfs_scheme \<Rightarrow> (u32 \<times> 'a vfs_scheme) option" where
  "vfs_write E node offset buf s =
     (if node = 0 then Some (0, s)
      else if \<exists>m \<in> set (mount_table s). mnode m = node \<and> mflags m AND 1 \<noteq> 0 then Some (0, s)
      else case write_fn (nodes s node) of None \<Rightarrow> Some (0, s) | Some f \<Rightarrow> fn_write E f node offset buf s)"

definition vfs_open :: "('a vfs_scheme) fs_calls \<Rightarrow> ptr \<Rightarrow> 'a vfs_scheme \<Rightarrow> 'a vfs_scheme option" where
  "vfs_open E node s =
     (if node = 0 then Some s else case open_fn (nodes s node) of None \<Rightarrow> Some s | Some f \<Rightarrow> fn_open E f node s)"

definition vfs_close :: "('a vfs_scheme) fs_calls \<Rightarrow> ptr \<Rightarrow> 'a vfs_scheme \<Rightarrow> 'a vfs_scheme option" where
  "vfs_close E node s =
     (if node = 0 then Some s else case close_fn (nodes s node) of None \<Rightarrow> Some s | Some f \<Rightarrow> fn_close E f node s)"

definition vfs_create :: "('a vfs_scheme) fs_calls \<Rightarrow> ptr \<Rightarrow> string \<Rightarrow> u32 \<Rightarrow> 'a vfs_scheme \<Rightarrow> (ptr \<times> 'a vfs_scheme) option" where
  "vfs_create E parent name mode s =
     (if parent \<noteq> 0 \<and> is_dir (vflags (nodes s parent))
      then case create_fn (nodes s parent) of None \<Rightarrow> Some (0, s) | Some f \<Rightarrow> fn_create E f parent name mode s
      else Some (0, s))"

text \<open>
  \<^verbatim>\<open>vfs_mkdir\<close>, \<^verbatim>\<open>vfs_rmdir\<close> and \<^verbatim>\<open>vfs_unlink\<close> resolve the parent, then call its operation with
  the local array \<^verbatim>\<open>name\<close>, which is uninitialised if \<^verbatim>\<open>vfs_resolve_path\<close> stored nothing.
\<close>

definition vfs_mkdir :: "('a vfs_scheme) fs_calls \<Rightarrow> string \<Rightarrow> ptr \<Rightarrow> 'a vfs_scheme \<Rightarrow> (int \<times> 'a vfs_scheme) option" where
  "vfs_mkdir E path start s = do {
     ((parent, nm), s1) \<leftarrow> vfs_resolve_path E path start s;
     if parent = 0 then Some (- ENOENT, s1)
     else if is_dir (vflags (nodes s1 parent)) then
       (case mkdir_fn (nodes s1 parent) of None \<Rightarrow> Some (- EROFS, s1)
        | Some f \<Rightarrow> do {
            name \<leftarrow> nm;
            (n, s2) \<leftarrow> fn_mkdir E f parent name s1;
            Some (if n \<noteq> 0 then 0 else - EIO, s2) })
     else Some (- EROFS, s1) }"

definition vfs_rmdir :: "('a vfs_scheme) fs_calls \<Rightarrow> string \<Rightarrow> ptr \<Rightarrow> 'a vfs_scheme \<Rightarrow> (int \<times> 'a vfs_scheme) option" where
  "vfs_rmdir E path start s = do {
     ((parent, nm), s1) \<leftarrow> vfs_resolve_path E path start s;
     if parent = 0 then Some (- ENOENT, s1)
     else if is_dir (vflags (nodes s1 parent)) then
       (case rmdir_fn (nodes s1 parent) of None \<Rightarrow> Some (- EROFS, s1)
        | Some f \<Rightarrow> do { name \<leftarrow> nm; fn_rmdir E f parent name s1 })
     else Some (- EROFS, s1) }"

definition vfs_unlink :: "('a vfs_scheme) fs_calls \<Rightarrow> string \<Rightarrow> ptr \<Rightarrow> 'a vfs_scheme \<Rightarrow> (int \<times> 'a vfs_scheme) option" where
  "vfs_unlink E path start s = do {
     ((parent, nm), s1) \<leftarrow> vfs_resolve_path E path start s;
     if parent = 0 then Some (- ENOENT, s1)
     else if is_dir (vflags (nodes s1 parent)) then
       (case unlink_fn (nodes s1 parent) of None \<Rightarrow> Some (- EROFS, s1)
        | Some f \<Rightarrow> do { name \<leftarrow> nm; fn_unlink E f parent name s1 })
     else Some (- EROFS, s1) }"

definition vfs_readdir :: "('a vfs_scheme) fs_calls \<Rightarrow> ptr \<Rightarrow> u32 \<Rightarrow> 'a vfs_scheme \<Rightarrow> (dirent option \<times> 'a vfs_scheme) option" where
  "vfs_readdir E node index s =
     (if node \<noteq> 0 \<and> is_dir (vflags (nodes s node))
      then case readdir_fn (nodes s node) of None \<Rightarrow> Some (None, s) | Some f \<Rightarrow> fn_readdir E f node index s
      else Some (None, s))"

definition vfs_seek :: "ptr \<Rightarrow> u32 \<Rightarrow> u32 \<Rightarrow> 'a vfs_scheme \<Rightarrow> u32" where
  "vfs_seek node offset whence s =
     (if node = 0 then 0
      else if whence = 0 then offset
      else if whence = 1 then offset
      else if whence = 2 then vlength (nodes s node) + offset
      else 0)"

definition vfs_ioctl :: "('a vfs_scheme) fs_calls \<Rightarrow> ptr \<Rightarrow> u32 \<Rightarrow> u64 \<Rightarrow> 'a vfs_scheme \<Rightarrow> (int \<times> 'a vfs_scheme) option" where
  "vfs_ioctl E node request arg s =
     (if node = 0 then Some (- 1, s)
      else case ioctl_fn (nodes s node) of None \<Rightarrow> Some (- 1, s) | Some f \<Rightarrow> fn_ioctl E f node request arg s)"

definition set_node :: "ptr \<Rightarrow> (vfs_node \<Rightarrow> vfs_node) \<Rightarrow> 'a vfs_scheme \<Rightarrow> 'a vfs_scheme" where
  "set_node p f s = s\<lparr>nodes := (nodes s)(p := f (nodes s p))\<rparr>"

definition vfs_get_inode :: "u32 \<Rightarrow> ptr" where
  "vfs_get_inode inode = 0"

definition vfs_put_inode :: "ptr \<Rightarrow> 'a vfs_scheme \<Rightarrow> 'a vfs_scheme" where
  "vfs_put_inode node s = s"

text \<open>An \<^verbatim>\<open>int\<close> stored in a \<^verbatim>\<open>uint64_t\<close> is sign-extended.\<close>

definition vfs_update_times :: "ptr \<Rightarrow> int \<Rightarrow> int \<Rightarrow> int \<Rightarrow> 'a vfs_scheme \<Rightarrow> 'a vfs_scheme" where
  "vfs_update_times node at mt ct s =
     (if node = 0 then s
      else set_node node (\<lambda>n. n\<lparr>atime := word_of_int at, mtime := word_of_int mt, ctime := word_of_int ct\<rparr>) s)"

definition vfs_flock :: "ptr \<Rightarrow> int \<Rightarrow> 'a vfs_scheme \<Rightarrow> int \<times> 'a vfs_scheme" where
  "vfs_flock node operation s =
     (if node = 0 then (- 1, s)
      else if operation = 2 then (0, set_node node (\<lambda>n. n\<lparr>lock_count := 0\<rparr>) s)
      else if lock_count (nodes s node) > 0 then (- 1, s)
      else (0, set_node node (\<lambda>n. n\<lparr>lock_count := 1, lock_type := word_of_int operation\<rparr>) s))"

definition vfs_lock_file :: "ptr \<Rightarrow> u64 \<Rightarrow> u64 \<Rightarrow> int \<Rightarrow> u32 \<Rightarrow> 'a vfs_scheme \<Rightarrow> int \<times> 'a vfs_scheme" where
  "vfs_lock_file node start end type owner s =
     (if node = 0 then (- 1, s)
      else (0, set_node node (\<lambda>n. n\<lparr>lock_type := word_of_int type, lock_owner := owner, lock_start := start,
                 lock_end := end, lock_count := (if type \<noteq> 2 then 1 else 0)\<rparr>) s))"

definition vfs_unlock_file :: "ptr \<Rightarrow> u64 \<Rightarrow> u64 \<Rightarrow> u32 \<Rightarrow> 'a vfs_scheme \<Rightarrow> int \<times> 'a vfs_scheme" where
  "vfs_unlock_file node start end owner s =
     (if node = 0 then (- 1, s)
      else if lock_owner (nodes s node) = owner
      then (0, set_node node (\<lambda>n. n\<lparr>lock_count := 0, lock_type := 2\<rparr>) s)
      else (0, s))"


section \<open>Mounts\<close>

lemma mount_find_append: "mount_find p (ms @ ns) = (if p \<in> mpath ` set ms then mount_find p ms else mount_find p ns)"
  by (induction ms) auto

lemma unmount_at_None: "unmount_at p ms = None \<longleftrightarrow> p \<notin> mpath ` set ms"
  by (induction ms) auto

lemma unmount_at_snoc: "p \<notin> mpath ` set ms \<Longrightarrow> mpath m = p \<Longrightarrow> unmount_at p (ms @ [m]) = Some ms"
  by (induction ms) auto

lemma mount_find_new: "p \<notin> mpath ` set ms \<Longrightarrow> mount_find p ms = 0"
  by (induction ms) auto

text \<open>
  Mounting and unmounting round trip: with a free slot and a path of at most 127 characters
  that has no mount, \<^verbatim>\<open>vfs_mount\<close> succeeds, a lookup of the path then finds the node and every other
  path resolves as before, and \<^verbatim>\<open>vfs_unmount\<close> gives back the state before the mount.
\<close>

theorem vfs_mount_roundtrip:
  assumes "length (mount_table s) < 16" "length path \<le> 127" "path \<notin> mpath ` set (mount_table s)"
  shows "\<exists>s'. vfs_mount path node flags s = (0, s') \<and> vfs_get_mount path s' = node
    \<and> (\<forall>p. p \<noteq> path \<longrightarrow> vfs_get_mount p s' = vfs_get_mount p s) \<and> vfs_unmount path s' = (0, s)"
proof -
  let ?m = "\<lparr>mpath = path, mnode = node, mflags = flags\<rparr>"
  have "unmount_at path (mount_table s @ [?m]) = Some (mount_table s)"
    using assms(3) by (rule unmount_at_snoc) simp
  moreover have "mount_find p (mount_table s @ [?m]) = mount_find p (mount_table s)" if "p \<noteq> path" for p
    using that mount_find_new [of p "mount_table s"] by (simp add: mount_find_append)
  ultimately show ?thesis
    using assms by (simp add: vfs_mount_def vfs_get_mount_def vfs_unmount_def mount_find_append)
qed

theorem vfs_mount_roundtrip_witness:
  "\<exists>s'. vfs_mount ''/tmp'' 7 0 \<lparr>fs_root = 1, mount_table = [], nodes = (\<lambda>_. zero_node), next_node = 8, plan = []\<rparr> = (0, s')
    \<and> vfs_get_mount ''/tmp'' s' = 7"
  using vfs_mount_roundtrip [of "\<lparr>fs_root = 1, mount_table = [], nodes = (\<lambda>_. zero_node), next_node = 8, plan = []\<rparr>" "''/tmp''" 7 0]
  by auto

section \<open>Resolution, component by component\<close>

text \<open>The components of a path: the maximal runs of characters other than slashes.\<close>

function path_comps :: "string \<Rightarrow> string list" where
  "path_comps p =
     (let q = skip_slashes p
      in if q = [] then [] else takeWhile (\<lambda>c. c \<noteq> CHR ''/'') q # path_comps (dropWhile (\<lambda>c. c \<noteq> CHR ''/'') q))"
  by pat_completeness auto
termination
proof (relation "measure length")
  fix p q :: string
  assume "q = skip_slashes p" "q \<noteq> []"
  then have "hd q \<noteq> CHR ''/''" "length q \<le> length p" using skip_slashes_hd skip_slashes_length by auto
  then show "(dropWhile (\<lambda>c. c \<noteq> CHR ''/'') q, p) \<in> measure length"
    using \<open>q \<noteq> []\<close> length_dropWhile_le [of "\<lambda>c. c \<noteq> CHR ''/''" "tl q"] by (cases q) auto
qed simp

declare path_comps.simps [simp del]

lemma skip_slashes_idem [simp]: "skip_slashes (skip_slashes p) = skip_slashes p"
  by (simp add: skip_slashes_def)

lemma path_comps_skip [simp]: "path_comps (skip_slashes p) = path_comps p"
  by (simp add: path_comps.simps [of p] path_comps.simps [of "skip_slashes p"])

lemma resolve_loop_skip [simp]: "resolve_loop E full (skip_slashes p) cur s = resolve_loop E full p cur s"
  by (simp add: resolve_loop.simps [of E full p] resolve_loop.simps [of E full "skip_slashes p"])

lemma path_comps_empty: "path_comps p = [] \<longleftrightarrow> skip_slashes p = []"
  by (simp add: path_comps.simps [of p] Let_def)

text \<open>The slash-separated form of a list of components, as \<^verbatim>\<open>full_path\<close> builds it.\<close>

definition join_comps :: "string list \<Rightarrow> string" where
  "join_comps cs = concat (map (\<lambda>c. CHR ''/'' # c) cs)"

lemma join_comps_simps [simp]: "join_comps [] = []" "join_comps (c # cs) = CHR ''/'' # c @ join_comps cs"
  by (simp_all add: join_comps_def)

text \<open>
  What resolving a list of components means. The mount points are a function from paths to nodes (\<open>0\<close> where
  nothing is mounted); \<open>pre\<close> are the components already passed. A mount point replaces the current node; \<^verbatim>\<open>.\<close> stays; \<^verbatim>\<open>..\<close> goes to
  what the directory names its parent, and stays if it names none; the last other component is not looked up but returned as the name;
  any other component is looked up in the current node.
\<close>

definition mount_points :: "mount_entry list \<Rightarrow> string \<Rightarrow> ptr" where
  "mount_points ms p = (case find (\<lambda>m. mpath m = p) ms of None \<Rightarrow> 0 | Some m \<Rightarrow> mnode m)"

definition parent_of :: "('a vfs_scheme) fs_calls \<Rightarrow> ptr \<Rightarrow> 'a vfs_scheme \<Rightarrow> (ptr \<times> 'a vfs_scheme) option" where
  "parent_of E cur s =
     (if cur = 0 then None
      else if finddir_fn (nodes s cur) = None then Some (cur, s)
      else map_option (\<lambda>(q, s'). (if q \<noteq> 0 then q else cur, s')) (vfs_finddir E cur ''..'' s))"

fun walk_path :: "('a vfs_scheme) fs_calls \<Rightarrow> (string \<Rightarrow> ptr) \<Rightarrow> string list \<Rightarrow> ptr \<Rightarrow> string list \<Rightarrow> 'a vfs_scheme \<Rightarrow>
    ((ptr \<times> string option) \<times> 'a vfs_scheme) option" where
  "walk_path E M pre cur [] s = Some ((cur, Some []), s)"
| "walk_path E M pre cur (c # cs) s =
     (let pre' = pre @ [c]; m = M (join_comps pre')
      in if m \<noteq> 0 then walk_path E M pre' m cs s
         else if c = ''.'' then walk_path E M pre' cur cs s
         else if c = ''..'' then
           (case parent_of E cur s of None \<Rightarrow> None | Some (par, s') \<Rightarrow> walk_path E M pre' par cs s')
         else if cs = [] then Some ((cur, Some c), s)
         else (case vfs_finddir E cur c s of None \<Rightarrow> None
               | Some (nxt, s') \<Rightarrow> if nxt = 0 then Some ((0, None), s') else walk_path E M pre' nxt cs s'))"

lemma parent_of_case:
  "(case parent_of E cur s of None \<Rightarrow> None | Some (q, s') \<Rightarrow> k q s') =
     (if cur = 0 then None
      else if finddir_fn (nodes s cur) = None then k cur s
      else case vfs_finddir E cur ''..'' s of None \<Rightarrow> None | Some (q, s') \<Rightarrow> k (if q \<noteq> 0 then q else cur) s')"
  by (cases "vfs_finddir E cur ''..'' s") (auto simp: parent_of_def)

lemma mount_find_points: "mount_find p ms = mount_points ms p"
  by (induction ms) (auto simp: mount_points_def)

lemma join_comps_snoc: "join_comps (pre @ [c]) = join_comps pre @ CHR ''/'' # c"
  by (simp add: join_comps_def)

text \<open>Room for the rest of the path in \<^verbatim>\<open>full_path\<close>.\<close>

definition path_fits :: "string \<Rightarrow> string \<Rightarrow> bool" where
  "path_fits full path \<longleftrightarrow> length full + (if skip_slashes path = [] then 0 else 1 + length (skip_slashes path)) \<le> 127"

lemma skip_slashes_room:
  assumes "r \<noteq> [] \<Longrightarrow> hd r = CHR ''/''"
  shows "(if skip_slashes r = [] then 0 else 1 + length (skip_slashes r)) \<le> length r"
proof (cases r)
  case (Cons a t)
  then have "skip_slashes r = skip_slashes t" using assms by (simp add: skip_slashes_def)
  then show ?thesis using skip_slashes_length [of t] Cons by simp
qed (simp add: skip_slashes_def)

lemma path_fits_step:
  assumes fits: "path_fits full path" and q: "skip_slashes path \<noteq> []"
  defines "cm \<equiv> take_component (skip_slashes path)"
  shows "\<exists>full'. add_component full cm = Some full' \<and> path_fits full' (drop (length cm) (skip_slashes path))"
proof -
  define q where "q = skip_slashes path"
  define r where "r = dropWhile (\<lambda>c. c \<noteq> CHR ''/'') q"
  define w where "w = takeWhile (\<lambda>c. c \<noteq> CHR ''/'') q"
  have len: "length full + 1 + length q \<le> 127" using assms(1,2) by (simp add: path_fits_def q_def)
  have wq: "q = w @ r" by (simp only: w_def r_def takeWhile_dropWhile_id)
  have "length w \<le> 127" using len wq by simp
  then have cm: "cm = w" by (simp add: cm_def take_component_def w_def q_def [symmetric])
  have "r \<noteq> [] \<Longrightarrow> hd r = CHR ''/''" unfolding r_def using hd_dropWhile by blast
  from skip_slashes_room [OF this] len
  have "path_fits (full @ CHR ''/'' # cm) r" by (simp add: path_fits_def cm wq)
  moreover have "add_component full cm = Some (full @ CHR ''/'' # cm)"
    using len by (simp add: add_component_def Let_def cm wq)
  moreover have "drop (length cm) (skip_slashes path) = r" unfolding q_def [symmetric] wq cm by simp
  ultimately show ?thesis by metis
qed

lemma path_fits_skip [simp]: "path_fits full (skip_slashes p) = path_fits full p"
  by (simp add: path_fits_def)

locale fs_frame =
  fixes E :: "('a vfs_scheme) fs_calls"
  assumes finddir_mounts: "fn_finddir E f p n s = Some (q, s') \<Longrightarrow> mount_table s' = mount_table s"
begin

lemma vfs_finddir_mounts: "vfs_finddir E p n s = Some (q, s') \<Longrightarrow> mount_table s' = mount_table s"
  by (auto simp: vfs_finddir_def finddir_mounts split: if_splits option.splits)

lemma resolve_loop_walk:
  assumes "length (join_comps (pre @ path_comps path)) \<le> 127" "mount_points (mount_table s) = M"
  shows "resolve_loop E (join_comps pre) path cur s = walk_path E M pre cur (path_comps path) s"
  using assms
proof (induction path arbitrary: pre cur s rule: path_comps.induct)
  case (1 p)
  let ?q = "skip_slashes p"
  show ?case
  proof (cases "?q = []")
    case True
    then show ?thesis by (simp add: resolve_loop.simps path_comps.simps Let_def)
  next
    case False
    define c where "c = takeWhile (\<lambda>c. c \<noteq> CHR ''/'') ?q"
    define r where "r = dropWhile (\<lambda>c. c \<noteq> CHR ''/'') ?q"
    have pc: "path_comps p = c # path_comps r" using False by (simp add: path_comps.simps [of p] c_def r_def Let_def)
    let ?f = "join_comps (pre @ [c])"
    have len: "length (join_comps ((pre @ [c]) @ path_comps r)) \<le> 127" using 1(2) pc by simp
    then have fl: "length ?f \<le> 127" by (simp add: join_comps_def)
    then have "length c \<le> 127" by (simp add: join_comps_snoc)
    then have tc: "take_component ?q = c" by (simp add: take_component_def c_def)
    have dc: "drop (length c) ?q = r" by (simp add: c_def r_def dropWhile_eq_drop)
    have ac: "add_component (join_comps pre) c = Some ?f" using fl by (simp add: add_component_def Let_def join_comps_snoc)
    have ih: "resolve_loop E ?f r nxt s' = walk_path E M (pre @ [c]) nxt (path_comps r) s'" if "mount_table s' = mount_table s" for nxt s'
      using 1(1) [of ?q "pre @ [c]" s' nxt, folded c_def r_def] False len 1(3) that by simp
    have mp: "vfs_get_mount ?f s = M ?f" using 1(3) by (simp add: vfs_get_mount_def mount_find_points)
    have body: "resolve_loop E (join_comps pre) p cur s =
      (if M ?f \<noteq> 0 then resolve_loop E ?f r (M ?f) s
       else if c = ''.'' then resolve_loop E ?f r cur s
       else if c = ''..'' then
         (if cur = 0 then None
          else if finddir_fn (nodes s cur) = None then resolve_loop E ?f r cur s
          else case vfs_finddir E cur ''..'' s of None \<Rightarrow> None
               | Some (par, s') \<Rightarrow> resolve_loop E ?f r (if par \<noteq> 0 then par else cur) s')
       else if skip_slashes r \<noteq> [] then
         (case vfs_finddir E cur c s of None \<Rightarrow> None
          | Some (nxt, s') \<Rightarrow> if nxt = 0 then Some ((0, None), s') else resolve_loop E ?f r nxt s')
       else Some ((cur, Some c), s))"
      using False by (subst resolve_loop.simps) (simp only: Let_def tc dc ac mp if_False option.case resolve_loop_skip)
    have up: "(case vfs_finddir E cur n s of None \<Rightarrow> None | Some (q, s') \<Rightarrow> resolve_loop E ?f r (g q) s')
        = (case vfs_finddir E cur n s of None \<Rightarrow> None | Some (q, s') \<Rightarrow> walk_path E M (pre @ [c]) (g q) (path_comps r) s')" for n g
      using ih vfs_finddir_mounts by (cases "vfs_finddir E cur n s") auto
    have down: "(case vfs_finddir E cur n s of None \<Rightarrow> None | Some (q, s') \<Rightarrow> if q = 0 then Some ((0, None), s') else resolve_loop E ?f r q s')
        = (case vfs_finddir E cur n s of None \<Rightarrow> None
           | Some (q, s') \<Rightarrow> if q = 0 then Some ((0, None), s') else walk_path E M (pre @ [c]) q (path_comps r) s')" for n
      using ih vfs_finddir_mounts by (cases "vfs_finddir E cur n s") auto
    show ?thesis unfolding body up down ih [OF refl] pc walk_path.simps Let_def parent_of_case path_comps_empty [symmetric] by argo
  qed
qed

end

text \<open>
  A file system layer that is safe under an invariant: in a state that satisfies it, the lookup
  function of every directory node returns, and keeps it.
\<close>

locale fs_safe = fs_frame E
  for E :: "('a vfs_scheme) fs_calls" +
  fixes I :: "'a vfs_scheme \<Rightarrow> bool"
  assumes finddir_safe: "I s \<Longrightarrow> p \<noteq> 0 \<Longrightarrow> is_dir (vflags (nodes s p)) \<Longrightarrow> finddir_fn (nodes s p) = Some f \<Longrightarrow>
    \<exists>q s'. fn_finddir E f p n s = Some (q, s') \<and> I s'"
begin

lemma vfs_finddir_safe: "I s \<Longrightarrow> \<exists>q s'. vfs_finddir E p n s = Some (q, s') \<and> I s'"
  using finddir_safe by (auto simp: vfs_finddir_def split: option.split)

lemma resolve_loop_safe:
  assumes "I s" "cur \<noteq> 0" "path_fits full path"
  shows "\<exists>r s'. resolve_loop E full path cur s = Some (r, s') \<and> I s'"
  using assms
proof (induction "length path" arbitrary: full path cur s rule: less_induct)
  case less
  show ?case
  proof (cases "skip_slashes path = []")
    case True
    then show ?thesis using less.prems(1) by (simp add: resolve_loop.simps)
  next
    case False
    define cm where "cm = take_component (skip_slashes path)"
    define p2 where "p2 = drop (length cm) (skip_slashes path)"
    obtain full' where f: "add_component full cm = Some full'" "path_fits full' p2"
      using path_fits_step [OF less.prems(3) False] unfolding cm_def p2_def by blast
    have ih: "I s' \<Longrightarrow> c \<noteq> 0 \<Longrightarrow> \<exists>r s''. resolve_loop E full' p2 c s' = Some (r, s'') \<and> I s''" for c s'
      using less.hyps [OF after_component_length [OF False]] f(2) unfolding cm_def p2_def by simp
    obtain q1 s1 where q1: "vfs_finddir E cur ''..'' s = Some (q1, s1)" "I s1" using vfs_finddir_safe [OF less.prems(1)] by blast
    obtain q2 s2 where q2: "vfs_finddir E cur cm s = Some (q2, s2)" "I s2" using vfs_finddir_safe [OF less.prems(1)] by blast
    have "resolve_loop E full path cur s =
      (if vfs_get_mount full' s \<noteq> 0 then resolve_loop E full' p2 (vfs_get_mount full' s) s
       else if cm = ''.'' then resolve_loop E full' p2 cur s
       else if cm = ''..'' then
         (if finddir_fn (nodes s cur) = None then resolve_loop E full' p2 cur s
          else resolve_loop E full' p2 (if q1 \<noteq> 0 then q1 else cur) s1)
       else if skip_slashes p2 \<noteq> [] then (if q2 = 0 then Some ((0, None), s2) else resolve_loop E full' p2 q2 s2)
       else Some ((cur, Some cm), s))"
      using less.prems(2) False
      by (subst resolve_loop.simps)
         (simp only: Let_def cm_def [symmetric] p2_def [symmetric] f(1) q1(1) q2(1) option.case prod.case if_False resolve_loop_skip)
    then show ?thesis using ih [of s] ih [OF q1(2)] ih [OF q2(2)] less.prems(1,2) q2(2) by auto
  qed
qed

end

text \<open>
  \<^verbatim>\<open>vfs_resolve_path\<close> overruns \<^verbatim>\<open>full_path[128]\<close>: the slash of each component is stored before
  any length check. Resolving 65 repetitions of \<^verbatim>\<open>./\<close> writes past the array on every file system, from
  any directory, when nothing is mounted.
\<close>

lemma resolve_dots:
  assumes "mount_table s = []" "length full \<le> 127" "128 < length full + 2 * k"
  shows "resolve_loop E full (concat (replicate k ''./'')) cur s = None"
  using assms(2,3)
proof (induction k arbitrary: full)
  case (Suc k)
  let ?p = "concat (replicate (Suc k) ''./'')" and ?r = "concat (replicate k ''./'')"
  have sk: "skip_slashes ?p = ?p" "take_component ?p = ''.''" by (simp_all add: skip_slashes_def take_component_def)
  have "skip_slashes (CHR ''/'' # ?r) = skip_slashes ?r" by (simp add: skip_slashes_def)
  then have slash: "resolve_loop E f (CHR ''/'' # ?r) cur s = resolve_loop E f ?r cur s" for f
    by (metis resolve_loop_skip)
  show ?case
  proof (cases "add_component full ''.''")
    case None
    then show ?thesis by (subst resolve_loop.simps) (simp add: Let_def sk [simplified])
  next
    case (Some f)
    then have "resolve_loop E full ?p cur s = resolve_loop E f ?r cur s"
      using assms(1) slash by (subst resolve_loop.simps) (simp add: Let_def sk [simplified] vfs_get_mount_def)
    moreover have "length f \<le> 127" "128 < length f + 2 * k"
      using Some Suc.prems by (auto simp: add_component_def Let_def min_def split: if_splits) presburger+
    ultimately show ?thesis using Suc.IH by simp
  qed
qed simp

theorem vfs_resolve_overflow:
  assumes "mount_table s = []"
  shows "vfs_resolve_path E (concat (replicate 65 ''./'')) start s = None"
  using resolve_dots [OF assms, of "[]" 65] by (simp add: vfs_resolve_path_def numeral_eq_Suc)

theorem vfs_resolve_overflow_witness:
  "vfs_resolve_path E (concat (replicate 65 ''./'')) 1
     \<lparr>fs_root = 1, mount_table = [], nodes = (\<lambda>_. zero_node), next_node = 2, plan = []\<rparr> = None"
  by (rule vfs_resolve_overflow) simp

end
