(* ===== verification/Tmpfs.thy ===== *)
theory Tmpfs
  imports Vfs
begin

text \<open>
  The RAM file system, \<^verbatim>\<open>fs/tmpfs.c\<close>: a tree of entries with parent and child pointers, file data
  in buffers that double up to 1 MB, and the functions that \<open>Vfs\<close> reaches through node pointers.

  Entries live in a store by address; \<open>None\<close> there is memory that was never allocated or has
  been freed, so a stale pointer gives the memory error \<open>None\<close>, as does an index outside a data
  buffer. Offsets and sizes are 32-bit words, as in the code.
\<close>

section \<open>State\<close>

record tmpfs_entry =
  ename :: string
  eflags :: u32
  edata :: "u8 list option"
  elength :: u32
  ecapacity :: u32
  eparent :: ptr
  echildren :: "ptr list"
  einode :: u32

record tmpfs = vfs +
  ents :: "ptr \<Rightarrow> tmpfs_entry option"
  next_ent :: ptr
  tmpfs_next_inode :: u32
  tmpfs_root_entry :: ptr
  tmpfs_root :: ptr

definition is_file :: "u32 \<Rightarrow> bool" where
  "is_file f \<longleftrightarrow> f AND FS_FILE \<noteq> 0"

definition set_ent :: "ptr \<Rightarrow> tmpfs_entry option \<Rightarrow> 'a tmpfs_scheme \<Rightarrow> 'a tmpfs_scheme" where
  "set_ent p e s = s\<lparr>ents := (ents s)(p := e)\<rparr>"

section \<open>Files\<close>

definition tmpfs_create_entry :: "string \<Rightarrow> u32 \<Rightarrow> ptr \<Rightarrow> 'a tmpfs_scheme \<Rightarrow> ptr \<times> 'a tmpfs_scheme" where
  "tmpfs_create_entry name flags parent s =
     (let (ok, s1) = kmalloc_ok s
      in if \<not> ok then (0, s1)
      else let e = \<lparr>ename = take 127 name, eflags = flags, edata = None, elength = 0, ecapacity = 0,
                    eparent = parent, echildren = [], einode = tmpfs_next_inode s1\<rparr>;
               s2 = s1\<lparr>tmpfs_next_inode := tmpfs_next_inode s1 + 1\<rparr>;
               (e', s3) = (if is_file flags
                           then let (ok2, s3) = kmalloc_ok s2
                                in (e\<lparr>ecapacity := 4096, edata := (if ok2 then Some (replicate 4096 0) else None)\<rparr>, s3)
                           else (e, s2))
           in (next_ent s3, s3\<lparr>ents := (ents s3)(next_ent s3 \<mapsto> e'), next_ent := next_ent s3 + 1\<rparr>))"

definition tmpfs_read :: "ptr \<Rightarrow> u32 \<Rightarrow> u32 \<Rightarrow> 'a tmpfs_scheme \<Rightarrow> (u8 list \<times> 'a tmpfs_scheme) option" where
  "tmpfs_read node offset sz s =
     (let p = vimpl (nodes s node)
      in if p = 0 then Some ([], s)
      else do {
        e \<leftarrow> ents s p;
        case edata e of None \<Rightarrow> Some ([], s)
        | Some d \<Rightarrow>
            if offset \<ge> elength e then Some ([], s)
            else let n = unat (if offset + sz > elength e then elength e - offset else sz)
                 in if \<forall>i < n. unat (offset + of_nat i) < length d
                    then Some (map (\<lambda>i. d ! unat (offset + of_nat i)) [0..<n], s) else None })"

definition grow_cap :: "u32 \<Rightarrow> u32" where
  "grow_cap cap = (if cap * 2 > 1048576 then 1048576 else cap * 2)"

definition cap_left :: "u32 \<Rightarrow> nat" where
  "cap_left cap = (if cap > 1048576 then 2 ^ 21 else 1048576 - unat cap)"

lemma grow_cap_le: "unat (grow_cap cap) \<le> 1048576"
  by (simp add: grow_cap_def word_less_nat_alt)

lemma grow_cap_unat: "unat cap \<le> 1048576 \<Longrightarrow> unat (grow_cap cap) = min (2 * unat cap) 1048576"
  by (simp add: grow_cap_def word_less_nat_alt unat_word_ariths)

lemma grow_cap_measure:
  assumes "grow_cap cap \<noteq> cap"
  shows "cap_left (grow_cap cap) < cap_left cap"
proof (cases "unat cap \<le> 1048576")
  case True
  have "unat (grow_cap cap) \<noteq> unat cap" using assms unsigned_word_eqI by blast
  then show ?thesis using True grow_cap_unat [OF True] by (simp add: cap_left_def word_less_nat_alt)
next
  case False
  then show ?thesis using grow_cap_le [of cap] by (simp add: cap_left_def word_less_nat_alt)
qed

function tmpfs_grow :: "u32 \<Rightarrow> tmpfs_entry \<Rightarrow> 'a tmpfs_scheme \<Rightarrow> (tmpfs_entry \<times> 'a tmpfs_scheme) option" where
  "tmpfs_grow need e s =
     (if need > ecapacity e then
        (let new_cap = grow_cap (ecapacity e)
         in if new_cap = ecapacity e then Some (e, s)
         else let (ok, s1) = kmalloc_ok s
         in if \<not> ok then Some (e, s1)
         else case edata e of None \<Rightarrow> None
         | Some d \<Rightarrow>
             if unat (elength e) \<le> length d \<and> elength e \<le> new_cap
             then tmpfs_grow need (e\<lparr>edata := Some (take (unat (elength e)) d @ replicate (unat new_cap - unat (elength e)) 0),
                                     ecapacity := new_cap\<rparr>) s1
             else None)
      else Some (e, s))"
  by pat_completeness auto
termination
  by (relation "measure (\<lambda>(need, e, s). cap_left (ecapacity e))") (auto intro: grow_cap_measure)

declare tmpfs_grow.simps [simp del]

definition write_bytes :: "u32 \<Rightarrow> u8 list \<Rightarrow> u8 list \<Rightarrow> u8 list option" where
  "write_bytes offset buf d =
     (if \<forall>i < length buf. unat (offset + of_nat i) < length d
      then Some (fold (\<lambda>i d. d[unat (offset + of_nat i) := buf ! i]) [0..<length buf] d) else None)"

text \<open>The buffer is the list of the \<^verbatim>\<open>size\<close> bytes to write.\<close>

definition tmpfs_write :: "ptr \<Rightarrow> u32 \<Rightarrow> u8 list \<Rightarrow> 'a tmpfs_scheme \<Rightarrow> (u32 \<times> 'a tmpfs_scheme) option" where
  "tmpfs_write node offset buf s =
     (let p = vimpl (nodes s node); sz = of_nat (length buf)
      in if p = 0 then Some (0, s)
      else do {
        e0 \<leftarrow> ents s p;
        let (e1, s1) = (case edata e0 of Some d \<Rightarrow> (e0, s)
          | None \<Rightarrow> let (ok, s1) = kmalloc_ok s
                    in (e0\<lparr>ecapacity := 4096, edata := (if ok then Some (replicate 4096 0) else None)\<rparr>, s1));
        case edata e1 of None \<Rightarrow> Some (0, set_ent p (Some e1) s1)
        | Some d1 \<Rightarrow> do {
            (e2, s2) \<leftarrow> tmpfs_grow (offset + sz) e1 s1;
            d2 \<leftarrow> edata e2;
            d3 \<leftarrow> write_bytes offset buf d2;
            let len = (if offset + sz > elength e2 then offset + sz else elength e2);
            Some (sz, set_node node (\<lambda>n. n\<lparr>vlength := len\<rparr>) (set_ent p (Some (e2\<lparr>edata := Some d3, elength := len\<rparr>)) s2)) } })"

section \<open>Directories\<close>

fun find_name :: "string \<Rightarrow> ptr list \<Rightarrow> 'a tmpfs_scheme \<Rightarrow> ptr option" where
  "find_name name [] s = Some 0"
| "find_name name (c # cs) s =
     (if c = 0 then find_name name cs s
      else case ents s c of None \<Rightarrow> None | Some e \<Rightarrow> if ename e = name then Some c else find_name name cs s)"

definition tmpfs_find_child :: "ptr \<Rightarrow> string \<Rightarrow> 'a tmpfs_scheme \<Rightarrow> ptr option" where
  "tmpfs_find_child dir name s =
     (if dir = 0 then Some 0
      else do { d \<leftarrow> ents s dir; if is_dir (eflags d) then find_name name (echildren d) s else Some 0 })"

definition node_of_entry :: "ptr \<Rightarrow> tmpfs_entry \<Rightarrow> vfs_node" where
  "node_of_entry p e =
     (let n = zero_node\<lparr>vname := take 127 (ename e), vflags := eflags e, vinode := einode e, vlength := elength e,
                        vimpl := p, refcount := 1\<rparr>;
          n1 = (if is_file (eflags e) then n\<lparr>read_fn := Some ''tmpfs_read'', write_fn := Some ''tmpfs_write''\<rparr> else n)
      in if is_dir (eflags e)
         then n1\<lparr>finddir_fn := Some ''tmpfs_finddir_func'', readdir_fn := Some ''tmpfs_readdir_func'',
                 mkdir_fn := Some ''tmpfs_mkdir_func'', rmdir_fn := Some ''tmpfs_rmdir_func'',
                 unlink_fn := Some ''tmpfs_unlink_func'', create_fn := Some ''tmpfs_create_func''\<rparr>
         else n1)"

text \<open>The node is allocated, then the entry is read.\<close>

definition tmpfs_make_vfs_node :: "ptr \<Rightarrow> 'a tmpfs_scheme \<Rightarrow> (ptr \<times> 'a tmpfs_scheme) option" where
  "tmpfs_make_vfs_node p s =
     (if p = 0 then Some (0, s)
      else if \<not> fst (kmalloc_ok s) then Some (0, snd (kmalloc_ok s))
      else map_option (\<lambda>e. new_node (node_of_entry p e) s) (ents s p))"

definition add_child :: "ptr \<Rightarrow> ptr \<Rightarrow> 'a tmpfs_scheme \<Rightarrow> 'a tmpfs_scheme" where
  "add_child dir c s = set_ent dir (map_option (\<lambda>d. d\<lparr>echildren := echildren d @ [c]\<rparr>) (ents s dir)) s"

definition tmpfs_mkdir_entry :: "ptr \<Rightarrow> string \<Rightarrow> 'a tmpfs_scheme \<Rightarrow> (ptr \<times> 'a tmpfs_scheme) option" where
  "tmpfs_mkdir_entry dir name s =
     (if dir = 0 then Some (0, s)
      else do {
        d \<leftarrow> ents s dir;
        if length (echildren d) \<ge> 256 then Some (0, s)
        else do {
          c \<leftarrow> tmpfs_find_child dir name s;
          if c \<noteq> 0 then Some (0, s)
          else let (e, s1) = tmpfs_create_entry name FS_DIRECTORY dir s
               in Some (if e = 0 then (0, s1) else (e, add_child dir e s1)) } })"

definition tmpfs_create_file_entry :: "ptr \<Rightarrow> string \<Rightarrow> 'a tmpfs_scheme \<Rightarrow> (ptr \<times> 'a tmpfs_scheme) option" where
  "tmpfs_create_file_entry dir name s =
     (if dir = 0 then Some (0, s)
      else do {
        d \<leftarrow> ents s dir;
        if length (echildren d) \<ge> 256 then Some (0, s)
        else do {
          c \<leftarrow> tmpfs_find_child dir name s;
          if c \<noteq> 0 then Some (c, s)
          else let (e, s1) = tmpfs_create_entry name FS_FILE dir s
               in Some (if e = 0 then (0, s1) else (e, add_child dir e s1)) } })"

text \<open>
  The removal loop frees the entry found, and its direct children if it is a directory, then
  shifts the array down. \<open>i\<close> counts the entries before the suffix searched.
\<close>

definition free_entry :: "ptr \<Rightarrow> tmpfs_entry \<Rightarrow> 'a tmpfs_scheme \<Rightarrow> 'a tmpfs_scheme" where
  "free_entry p e s =
     set_ent p None (if is_dir (eflags e) then fold (\<lambda>c. set_ent c None) (filter (\<lambda>c. c \<noteq> 0) (echildren e)) s else s)"

fun remove_loop :: "ptr \<Rightarrow> string \<Rightarrow> ptr list \<Rightarrow> ptr list \<Rightarrow> 'a tmpfs_scheme \<Rightarrow> (int \<times> 'a tmpfs_scheme) option" where
  "remove_loop dir name done [] s = Some (- ENOENT, s)"
| "remove_loop dir name done (c # cs) s =
     (if c = 0 then remove_loop dir name (done @ [c]) cs s
      else case ents s c of None \<Rightarrow> None
      | Some e \<Rightarrow>
          if ename e = name
          then let s1 = free_entry c e s
               in map_option (\<lambda>d. (0, set_ent dir (Some (d\<lparr>echildren := done @ cs\<rparr>)) s1)) (ents s1 dir)
          else remove_loop dir name (done @ [c]) cs s)"

definition tmpfs_remove_entry :: "ptr \<Rightarrow> string \<Rightarrow> 'a tmpfs_scheme \<Rightarrow> (int \<times> 'a tmpfs_scheme) option" where
  "tmpfs_remove_entry dir name s =
     (if dir = 0 then Some (- EIO, s) else do { d \<leftarrow> ents s dir; remove_loop dir name [] (echildren d) s })"

definition tmpfs_rename_entry :: "ptr \<Rightarrow> string \<Rightarrow> string \<Rightarrow> 'a tmpfs_scheme \<Rightarrow> (int \<times> 'a tmpfs_scheme) option" where
  "tmpfs_rename_entry dir oldname newname s = do {
     c \<leftarrow> tmpfs_find_child dir oldname s;
     if c = 0 then Some (- ENOENT, s)
     else do {
       c' \<leftarrow> tmpfs_find_child dir newname s;
       if c' \<noteq> 0 then Some (- EEXIST, s)
       else do { e \<leftarrow> ents s c; Some (0, set_ent c (Some (e\<lparr>ename := take 127 newname\<rparr>)) s) } } }"

section \<open>The functions behind the node pointers\<close>

definition tmpfs_create_func :: "ptr \<Rightarrow> string \<Rightarrow> u32 \<Rightarrow> 'a tmpfs_scheme \<Rightarrow> (ptr \<times> 'a tmpfs_scheme) option" where
  "tmpfs_create_func dir name mode s =
     (if dir = 0 then Some (0, s)
      else do { (e, s1) \<leftarrow> tmpfs_create_file_entry (vimpl (nodes s dir)) name s; tmpfs_make_vfs_node e s1 })"

definition tmpfs_mkdir_func :: "ptr \<Rightarrow> string \<Rightarrow> 'a tmpfs_scheme \<Rightarrow> (ptr \<times> 'a tmpfs_scheme) option" where
  "tmpfs_mkdir_func dir name s =
     (if dir = 0 then Some (0, s)
      else do { (e, s1) \<leftarrow> tmpfs_mkdir_entry (vimpl (nodes s dir)) name s; tmpfs_make_vfs_node e s1 })"

text \<open>The common body of \<^verbatim>\<open>tmpfs_rmdir_func\<close> and \<^verbatim>\<open>tmpfs_rmdir\<close>, and that of the \<^verbatim>\<open>unlink\<close> pair.\<close>

definition rmdir_in :: "ptr \<Rightarrow> string \<Rightarrow> 'a tmpfs_scheme \<Rightarrow> (int \<times> 'a tmpfs_scheme) option" where
  "rmdir_in d name s = do {
     c \<leftarrow> tmpfs_find_child d name s;
     if c = 0 then Some (- ENOENT, s)
     else do {
       e \<leftarrow> ents s c;
       if \<not> is_dir (eflags e) then Some (- ENOENT, s)
       else if echildren e \<noteq> [] then Some (- ENOTEMPTY, s)
       else tmpfs_remove_entry d name s } }"

definition unlink_in :: "ptr \<Rightarrow> string \<Rightarrow> 'a tmpfs_scheme \<Rightarrow> (int \<times> 'a tmpfs_scheme) option" where
  "unlink_in d name s = do {
     c \<leftarrow> tmpfs_find_child d name s;
     if c = 0 then Some (- ENOENT, s)
     else do {
       e \<leftarrow> ents s c;
       if is_dir (eflags e) then Some (- ENOENT, s) else tmpfs_remove_entry d name s } }"

definition tmpfs_rmdir_func :: "ptr \<Rightarrow> string \<Rightarrow> 'a tmpfs_scheme \<Rightarrow> (int \<times> 'a tmpfs_scheme) option" where
  "tmpfs_rmdir_func dir name s = (if dir = 0 then Some (- EIO, s) else rmdir_in (vimpl (nodes s dir)) name s)"

definition tmpfs_unlink_func :: "ptr \<Rightarrow> string \<Rightarrow> 'a tmpfs_scheme \<Rightarrow> (int \<times> 'a tmpfs_scheme) option" where
  "tmpfs_unlink_func dir name s = (if dir = 0 then Some (- EIO, s) else unlink_in (vimpl (nodes s dir)) name s)"

definition tmpfs_finddir_func :: "ptr \<Rightarrow> string \<Rightarrow> 'a tmpfs_scheme \<Rightarrow> (ptr \<times> 'a tmpfs_scheme) option" where
  "tmpfs_finddir_func node name s =
     (let dir = vimpl (nodes s node)
      in if dir = 0 then Some (0, s)
      else if name = ''..'' then do {
        d \<leftarrow> ents s dir;
        tmpfs_make_vfs_node (if eparent d \<noteq> 0 then eparent d else dir) s }
      else do { c \<leftarrow> tmpfs_find_child dir name s; tmpfs_make_vfs_node c s })"

definition tmpfs_readdir_func :: "ptr \<Rightarrow> u32 \<Rightarrow> 'a tmpfs_scheme \<Rightarrow> (dirent option \<times> 'a tmpfs_scheme) option" where
  "tmpfs_readdir_func node index s =
     (let dir = vimpl (nodes s node)
      in if dir = 0 then Some (None, s)
      else do {
        d \<leftarrow> ents s dir;
        if index \<ge> of_nat (length (echildren d)) then Some (None, s)
        else let c = echildren d ! unat index
             in if c = 0 then Some (None, s)
             else let (ok, s1) = kmalloc_ok s
             in if \<not> ok then Some (None, s1)
             else map_option (\<lambda>e. (Some \<lparr>dname = take 127 (ename e), dino = einode e\<rparr>, s1)) (ents s1 c) })"

section \<open>Root and entry points\<close>

definition tmpfs_init :: "'a tmpfs_scheme \<Rightarrow> 'a tmpfs_scheme" where
  "tmpfs_init s =
     (let (r, s1) = tmpfs_create_entry ''/'' FS_DIRECTORY 0 s; s2 = s1\<lparr>tmpfs_root_entry := r\<rparr>
      in if r = 0 then s2
      else let n = zero_node\<lparr>vname := ''tmpfs'', vflags := FS_DIRECTORY, vinode := tmpfs_next_inode s2 - 1, vimpl := r,
                   finddir_fn := Some ''tmpfs_finddir_func'', readdir_fn := Some ''tmpfs_readdir_func'',
                   mkdir_fn := Some ''tmpfs_mkdir_func'', rmdir_fn := Some ''tmpfs_rmdir_func'',
                   unlink_fn := Some ''tmpfs_unlink_func'', create_fn := Some ''tmpfs_create_func'', refcount := 1\<rparr>;
               (p, s3) = new_node n s2
           in s3\<lparr>tmpfs_root := p\<rparr>)"

definition tmpfs_mkdir :: "string \<Rightarrow> 'a tmpfs_scheme \<Rightarrow> (int \<times> 'a tmpfs_scheme) option" where
  "tmpfs_mkdir path s =
     (if tmpfs_root_entry s = 0 then Some (- ENODEV, s)
      else do { (e, s1) \<leftarrow> tmpfs_mkdir_entry (tmpfs_root_entry s) path s; Some (if e \<noteq> 0 then 0 else - EIO, s1) })"

definition tmpfs_rmdir :: "string \<Rightarrow> 'a tmpfs_scheme \<Rightarrow> (int \<times> 'a tmpfs_scheme) option" where
  "tmpfs_rmdir path s = (if tmpfs_root_entry s = 0 then Some (- ENODEV, s) else rmdir_in (tmpfs_root_entry s) path s)"

definition tmpfs_unlink :: "string \<Rightarrow> 'a tmpfs_scheme \<Rightarrow> (int \<times> 'a tmpfs_scheme) option" where
  "tmpfs_unlink path s = (if tmpfs_root_entry s = 0 then Some (- ENODEV, s) else unlink_in (tmpfs_root_entry s) path s)"

definition tmpfs_rename :: "string \<Rightarrow> string \<Rightarrow> 'a tmpfs_scheme \<Rightarrow> (int \<times> 'a tmpfs_scheme) option" where
  "tmpfs_rename oldpath newpath s =
     (if tmpfs_root_entry s = 0 then Some (- ENODEV, s) else tmpfs_rename_entry (tmpfs_root_entry s) oldpath newpath s)"

definition tmpfs_open_file :: "string \<Rightarrow> u32 \<Rightarrow> 'a tmpfs_scheme \<Rightarrow> (ptr \<times> 'a tmpfs_scheme) option" where
  "tmpfs_open_file name flags s =
     (if tmpfs_root_entry s = 0 then Some (0, s)
      else do {
        (e, s1) \<leftarrow> (if flags AND 0x100 \<noteq> 0 then tmpfs_create_file_entry (tmpfs_root_entry s) name s
                    else map_option (\<lambda>c. (c, s)) (tmpfs_find_child (tmpfs_root_entry s) name s));
        tmpfs_make_vfs_node e s1 })"

definition tmpfs_access :: "string \<Rightarrow> 'a tmpfs_scheme \<Rightarrow> int option" where
  "tmpfs_access path s =
     (if tmpfs_root_entry s = 0 then Some (- ENODEV)
      else map_option (\<lambda>c. if c \<noteq> 0 then 0 else - ENOENT) (tmpfs_find_child (tmpfs_root_entry s) path s))"


section \<open>File contents\<close>

definition file_ok :: "tmpfs_entry \<Rightarrow> bool" where
  "file_ok e \<longleftrightarrow> (case edata e of None \<Rightarrow> elength e = 0
     | Some d \<Rightarrow> length d = unat (ecapacity e) \<and> unat (elength e) \<le> length d \<and> 4096 \<le> length d \<and> length d \<le> 1048576
         \<and> set (drop (unat (elength e)) d) \<subseteq> {0})"

definition contents :: "tmpfs_entry \<Rightarrow> u8 list" where
  "contents e = (case edata e of None \<Rightarrow> [] | Some d \<Rightarrow> take (unat (elength e)) d)"

definition pwrite :: "nat \<Rightarrow> u8 list \<Rightarrow> u8 list \<Rightarrow> u8 list" where
  "pwrite off buf c = take off (c @ replicate (off - length c) 0) @ buf @ drop (off + length buf) c"

lemma file_ok_update [simp]:
  "file_ok (e\<lparr>echildren := cs\<rparr>) = file_ok e" "file_ok (e\<lparr>ename := n\<rparr>) = file_ok e"
  by (simp_all add: file_ok_def split: option.split)

lemma fold_update:
  "n \<le> length buf \<Longrightarrow> off + n \<le> length d \<Longrightarrow>
     fold (\<lambda>i d. d[off + i := buf ! i]) [0..<n] d = take off d @ take n buf @ drop (off + n) d"
proof (induction n)
  case (Suc n)
  then have "fold (\<lambda>i d. d[off + i := buf ! i]) [0..<Suc n] d = (take off d @ take n buf @ drop (off + n) d)[off + n := buf ! n]"
    by simp
  also have "\<dots> = take off d @ take n buf @ (buf ! n # drop (off + Suc n) d)"
    using Suc.prems by (simp add: list_update_append Cons_nth_drop_Suc [symmetric])
  finally show ?case using Suc.prems by (simp add: take_Suc_conv_app_nth)
qed simp

lemma offset_plus: "unat off + n < 2 ^ 32 \<Longrightarrow> unat (off + of_nat n) = unat off + n" for off :: u32
  by (simp add: unat_word_ariths unat_of_nat)

lemma write_bytes_ok:
  assumes "unat off + length buf \<le> length d" "length d < 2 ^ 32"
  shows "write_bytes off buf d = Some (take (unat off) d @ buf @ drop (unat off + length buf) d)"
proof -
  have i: "unat (off + of_nat i) = unat off + i" if "i < length buf" for i
    using that assms by (intro offset_plus) simp
  have "fold (\<lambda>i d. d[unat (off + of_nat i) := buf ! i]) [0..<length buf] d = fold (\<lambda>i d. d[unat off + i := buf ! i]) [0..<length buf] d"
    by (rule fold_cong) (auto simp: i)
  then show ?thesis using assms by (auto simp: write_bytes_def i fold_update)
qed

lemma write_bytes_fault:
  assumes "buf \<noteq> []" "unat off + length buf > length d" "unat off + length buf < 2 ^ 32"
  shows "write_bytes off buf d = None"
proof -
  let ?i = "length buf - 1"
  have "unat (off + of_nat ?i) = unat off + ?i" using assms by (intro offset_plus) simp
  then have "\<not> unat (off + of_nat ?i) < length d" using assms by (cases buf) auto
  then show ?thesis using assms(1) unfolding write_bytes_def by (metis diff_less length_greater_0_conv zero_less_one)
qed

text \<open>Growing keeps the contents and ends with enough room for any request within 1 MB.\<close>

lemma grow_step:
  assumes "file_ok e" "edata e = Some d" "need > ecapacity e" "grow_cap (ecapacity e) \<noteq> ecapacity e"
  defines "e' \<equiv> e\<lparr>edata := Some (take (unat (elength e)) d @ replicate (unat (grow_cap (ecapacity e)) - unat (elength e)) 0),
                   ecapacity := grow_cap (ecapacity e)\<rparr>"
  shows "file_ok e'" "contents e' = contents e" "elength e \<le> grow_cap (ecapacity e)"
proof -
  let ?n = "grow_cap (ecapacity e)"
  have ok: "length d = unat (ecapacity e)" "unat (elength e) \<le> length d" "4096 \<le> length d" "length d \<le> 1048576"
    using assms(1,2) by (auto simp: file_ok_def)
  have n: "unat ?n = min (2 * unat (ecapacity e)) 1048576" using grow_cap_unat ok by simp
  then have le: "unat (elength e) \<le> unat ?n" using ok by simp
  then show "elength e \<le> ?n" by (simp add: word_le_nat_alt)
  show "file_ok e'" using le ok n by (auto simp: file_ok_def e'_def)
  show "contents e' = contents e" using ok assms(2) by (simp add: contents_def e'_def)
qed

lemma grow_stuck:
  assumes "file_ok e" "edata e = Some d" "grow_cap (ecapacity e) = ecapacity e"
  shows "unat (ecapacity e) = 1048576"
  using assms grow_cap_unat [of "ecapacity e"] by (auto simp: file_ok_def)

lemma tmpfs_grow_spec:
  assumes "file_ok e" "edata e \<noteq> None"
  shows "\<exists>e' s' d'. tmpfs_grow need e s = Some (e', s') \<and> file_ok e' \<and> edata e' = Some d' \<and> contents e' = contents e
    \<and> e' = e\<lparr>edata := edata e', ecapacity := ecapacity e'\<rparr> \<and> s' = s\<lparr>plan := plan s'\<rparr>
    \<and> (plan s = [] \<longrightarrow> s' = s \<and> (unat need \<le> 1048576 \<longrightarrow> need \<le> ecapacity e'))"
  using assms
proof (induction "cap_left (ecapacity e)" arbitrary: e s rule: less_induct)
  case less
  obtain d where d: "edata e = Some d" using less.prems(2) by auto
  show ?case
  proof (cases "need > ecapacity e \<and> grow_cap (ecapacity e) \<noteq> ecapacity e \<and> fst (kmalloc_ok s)")
    case False
    have "unat need \<le> 1048576 \<longrightarrow> need \<le> ecapacity e" if "plan s = []"
      using False grow_stuck [OF less.prems(1) d] that by (auto simp: kmalloc_ok_def word_le_nat_alt word_less_nat_alt)
    moreover define s' where "s' = (if need > ecapacity e \<and> grow_cap (ecapacity e) \<noteq> ecapacity e then snd (kmalloc_ok s) else s)"
    moreover have "tmpfs_grow need e s = Some (e, s')"
      using False by (subst tmpfs_grow.simps) (auto simp: s'_def Let_def split: prod.split)
    moreover have "s' = s\<lparr>plan := plan s'\<rparr>" "plan s = [] \<longrightarrow> s' = s" by (auto simp: s'_def kmalloc_ok_def split: list.split)
    ultimately show ?thesis using less.prems(1) d by (intro exI [of _ e] exI [of _ s'] exI [of _ d]) auto
  next
    case True
    let ?e = "e\<lparr>edata := Some (take (unat (elength e)) d @ replicate (unat (grow_cap (ecapacity e)) - unat (elength e)) 0),
                ecapacity := grow_cap (ecapacity e)\<rparr>"
    obtain s1 where s1: "kmalloc_ok s = (True, s1)" using True by (cases "kmalloc_ok s") auto
    have s1': "s1 = s\<lparr>plan := plan s1\<rparr>" "plan s = [] \<longrightarrow> s1 = s" using s1 by (auto simp: kmalloc_ok_def split: list.splits)
    have st: "file_ok ?e" "contents ?e = contents e" "elength e \<le> grow_cap (ecapacity e)"
      using grow_step [OF less.prems(1) d] True by auto
    have le: "unat (elength e) \<le> length d" using less.prems(1) d by (simp add: file_ok_def)
    have "tmpfs_grow need e s = tmpfs_grow need ?e s1"
      using True s1 d le st(3) by (subst tmpfs_grow.simps) (simp add: Let_def)
    moreover obtain e' s' d' where "tmpfs_grow need ?e s1 = Some (e', s')" "file_ok e'" "edata e' = Some d'" "contents e' = contents ?e"
      "e' = ?e\<lparr>edata := edata e', ecapacity := ecapacity e'\<rparr>" "s' = s1\<lparr>plan := plan s'\<rparr>"
      "plan s1 = [] \<longrightarrow> s' = s1 \<and> (unat need \<le> 1048576 \<longrightarrow> need \<le> ecapacity e')"
      using less.hyps [of ?e s1] grow_cap_measure [of "ecapacity e"] True st(1) by auto
    moreover have "s1\<lparr>plan := x\<rparr> = s\<lparr>plan := x\<rparr>" for x by (subst s1'(1)) simp
    ultimately show ?thesis using st(2) s1'(2) by (intro exI [of _ e'] exI [of _ s'] exI [of _ d']) auto
  qed
qed


lemma pwrite_take:
  assumes "off + length buf \<le> length c + k"
  shows "take (max (off + length buf) (length c)) (take off (c @ replicate k 0) @ buf @ drop (off + length buf) (c @ replicate k 0))
    = pwrite off buf c"
proof -
  have "take off (c @ replicate k 0) = take off (c @ replicate (off - length c) (0 :: u8))" using assms by simp
  moreover have "length (take off (c @ replicate k (0 :: u8))) = off" using assms by simp
  ultimately show ?thesis using assms
    by (cases "off + length buf \<le> length c") (simp_all add: pwrite_def max_def)
qed

lemma zeros: "set xs \<subseteq> {0} \<Longrightarrow> xs = replicate (length xs) (0 :: u8)"
  by (rule sym, rule replicate_length_same) auto

text \<open>A file of the store and the node that stands for it.\<close>

definition file_at :: "'a tmpfs_scheme \<Rightarrow> ptr \<Rightarrow> tmpfs_entry \<Rightarrow> bool" where
  "file_at s node e \<longleftrightarrow> vimpl (nodes s node) \<noteq> 0 \<and> ents s (vimpl (nodes s node)) = Some e \<and> file_ok e"

lemma tmpfs_write_spec:
  assumes f: "file_at s node e" and plan: "plan s = []" and fits: "unat offset + length buf \<le> 1048576"
  shows "\<exists>s' e'. tmpfs_write node offset buf s = Some (of_nat (length buf), s') \<and> file_at s' node e'
    \<and> contents e' = pwrite (unat offset) buf (contents e)
    \<and> (\<exists>len. s' = set_node node (\<lambda>n. n\<lparr>vlength := len\<rparr>) (set_ent (vimpl (nodes s node)) (Some e') s))"
proof -
  let ?p = "vimpl (nodes s node)" and ?need = "offset + of_nat (length buf)"
  have un: "unat ?need = unat offset + length buf" using fits by (intro offset_plus) simp
  define e1 where "e1 = (case edata e of Some d \<Rightarrow> e | None \<Rightarrow> e\<lparr>ecapacity := 4096, edata := Some (replicate 4096 0)\<rparr>)"
  have e1: "file_ok e1" "edata e1 \<noteq> None" "contents e1 = contents e"
    using f by (auto simp: e1_def file_at_def file_ok_def contents_def split: option.splits)
  obtain e2 d2 where e2: "tmpfs_grow ?need e1 s = Some (e2, s)" "file_ok e2" "edata e2 = Some d2" "contents e2 = contents e"
      "?need \<le> ecapacity e2"
    using tmpfs_grow_spec [OF e1(1,2), of ?need s] plan fits un e1(3) by auto
  have d2: "length d2 = unat (ecapacity e2)" "unat (elength e2) \<le> length d2" "4096 \<le> length d2" "length d2 \<le> 1048576"
      "set (drop (unat (elength e2)) d2) \<subseteq> {0}"
    using e2(2,3) by (auto simp: file_ok_def)
  have le: "unat offset + length buf \<le> length d2" using e2(5) d2(1) un by (simp add: word_le_nat_alt)
  define len where "len = (if ?need > elength e2 then ?need else elength e2)"
  define d3 where "d3 = take (unat offset) d2 @ buf @ drop (unat offset + length buf) d2"
  define e3 where "e3 = e2\<lparr>edata := Some d3, elength := len\<rparr>"
  have w: "write_bytes offset buf d2 = Some d3" using write_bytes_ok [OF le] d2 by (simp add: d3_def)
  have ulen: "unat len = max (unat offset + length buf) (unat (elength e2))"
    by (simp add: len_def un word_less_nat_alt)
  have res: "tmpfs_write node offset buf s = Some (of_nat (length buf), set_node node (\<lambda>n. n\<lparr>vlength := len\<rparr>) (set_ent ?p (Some e3) s))"
    using f e2(1,3) w plan unfolding tmpfs_write_def file_at_def
    by (cases "edata e") (auto simp: Let_def e1_def kmalloc_ok_def e3_def len_def)
  have c: "contents e = take (unat (elength e2)) d2" using e2(3,4) by (simp add: contents_def)
  have z: "d2 = contents e @ replicate (length d2 - unat (elength e2)) 0"
    using zeros [OF d2(5)] c by (metis append_take_drop_id length_drop)
  have lc: "length (contents e) = unat (elength e2)" using c d2(2) by simp
  have l3: "length d3 = length d2" using le by (simp add: d3_def)
  have "drop (unat len) d3 = drop (unat len) d2" using le by (simp add: d3_def ulen)
  moreover have "set (drop (unat len) d2) \<subseteq> set (drop (unat (elength e2)) d2)"
    using ulen by (intro set_drop_subset_set_drop) simp
  ultimately have "file_ok e3" using d2 l3 le ulen by (auto simp: file_ok_def e3_def)
  moreover have "contents e3 = take (unat len) d3" by (simp add: contents_def e3_def)
  then have "contents e3 = pwrite (unat offset) buf (contents e)"
    using pwrite_take [of "unat offset" buf "contents e" "length d2 - unat (elength e2)"] z lc le d2(2) ulen
    by (simp add: d3_def)
  moreover have "file_at (set_node node (\<lambda>n. n\<lparr>vlength := len\<rparr>) (set_ent ?p (Some e3) s)) node e3"
    using f calculation(1) by (simp add: file_at_def set_node_def set_ent_def)
  ultimately show ?thesis unfolding res by blast
qed

text \<open>
  Writing a file: with memory available and the range inside the first megabyte,
  \<^verbatim>\<open>tmpfs_write\<close> ends, returns the full size, turns the contents \<open>c\<close> of the file into
  \<open>pwrite offset buf c\<close> (a gap before the offset reads as zeros), keeps the file well formed and
  touches no other entry.
\<close>

theorem tmpfs_write_refines:
  assumes "file_at s node e" "plan s = []" "unat offset + length buf \<le> 1048576"
  shows "\<exists>s' e'. tmpfs_write node offset buf s = Some (of_nat (length buf), s') \<and> file_at s' node e'
    \<and> contents e' = pwrite (unat offset) buf (contents e)
    \<and> (\<forall>p. p \<noteq> vimpl (nodes s node) \<longrightarrow> ents s' p = ents s p)"
  using tmpfs_write_spec [OF assms] by (auto simp: set_node_def set_ent_def)

lemma tmpfs_read_contents:
  assumes f: "file_at s node e" and w: "unat offset + unat sz < 2 ^ 32"
  shows "tmpfs_read node offset sz s = Some (take (unat sz) (drop (unat offset) (contents e)), s)"
proof (cases "edata e")
  case None
  then show ?thesis using f by (simp add: tmpfs_read_def file_at_def contents_def Let_def)
next
  case (Some d)
  then have d: "unat (elength e) \<le> length d" "length d \<le> 1048576" using f by (auto simp: file_at_def file_ok_def)
  show ?thesis
  proof (cases "offset \<ge> elength e")
    case True
    then show ?thesis using Some f by (simp add: tmpfs_read_def file_at_def contents_def Let_def word_le_nat_alt)
  next
    case False
    define n where "n = unat (if offset + sz > elength e then elength e - offset else sz)"
    have os: "unat (offset + sz) = unat offset + unat sz" using w by (simp add: unat_word_ariths)
    have n: "n = min (unat sz) (unat (elength e) - unat offset)"
      using False unat_sub [of offset "elength e"] by (auto simp: n_def os word_less_nat_alt word_le_nat_alt)
    have i: "unat (offset + of_nat i) = unat offset + i" if "i < n" for i
      using that n d by (intro offset_plus) (simp add: less_diff_conv)
    have m: "map (\<lambda>i. d ! unat (offset + of_nat i)) [0..<n] = take n (drop (unat offset) d)"
      using n d by (intro nth_equalityI) (auto simp: i)
    have "tmpfs_read node offset sz s = Some (map (\<lambda>i. d ! unat (offset + of_nat i)) [0..<n], s)"
      using Some f False n d i by (simp add: tmpfs_read_def file_at_def Let_def n_def [symmetric] less_diff_conv)
    moreover have "take n (drop (unat offset) d) = take (unat sz) (drop (unat offset) (contents e))"
      using Some n by (simp add: contents_def drop_take min.commute)
    ultimately show ?thesis using m by simp
  qed
qed

text \<open>
  Reading back what was written: after a write inside the first megabyte, reading the
  same range returns exactly the bytes written and changes nothing.
\<close>

theorem tmpfs_read_after_write:
  assumes "file_at s node e" "plan s = []" "unat offset + length buf \<le> 1048576"
  shows "\<exists>s'. tmpfs_write node offset buf s = Some (of_nat (length buf), s')
    \<and> tmpfs_read node offset (of_nat (length buf)) s' = Some (buf, s')"
proof -
  have b: "unat (of_nat (length buf) :: u32) = length buf" using assms(3) by (simp add: unat_of_nat)
  have "take (length buf) (drop (unat offset) (pwrite (unat offset) buf c)) = buf" for c
    by (simp add: pwrite_def)
  then show ?thesis
    using tmpfs_write_spec [OF assms] assms(3) b tmpfs_read_contents [of _ node _ offset "of_nat (length buf)"] by fastforce
qed

text \<open>
  A write that reaches past 1 MB is a buffer overflow: the growth loop stops at
  \<^verbatim>\<open>TMPFS_MAX_FILESIZE\<close>, but the copy that follows uses the requested size, so a nonempty write whose
  end lies past the first megabyte stores outside the file's buffer whatever memory is available.
\<close>

theorem tmpfs_write_overflow:
  assumes "file_at s node e" "edata e \<noteq> None" "buf \<noteq> []"
    and "unat offset + length buf > 1048576" "unat offset + length buf < 2 ^ 32"
  shows "tmpfs_write node offset buf s = None"
proof -
  obtain e2 s2 d2 where g: "tmpfs_grow (offset + of_nat (length buf)) e s = Some (e2, s2)" "edata e2 = Some d2" "file_ok e2"
    using tmpfs_grow_spec [of e] assms(1,2) unfolding file_at_def by blast
  then have "length d2 \<le> 1048576" by (simp add: file_ok_def)
  then have "write_bytes offset buf d2 = None" using assms by (intro write_bytes_fault) auto
  then show ?thesis using assms(1,2) g by (auto simp: tmpfs_write_def file_at_def Let_def)
qed


section \<open>The directory tree\<close>

definition nm :: "'a tmpfs_scheme \<Rightarrow> ptr \<Rightarrow> string option" where
  "nm s c = map_option ename (ents s c)"

definition ent_ok :: "tmpfs_entry \<Rightarrow> bool" where
  "ent_ok e \<longleftrightarrow> (eflags e = FS_FILE \<or> eflags e = FS_DIRECTORY) \<and> (eflags e = FS_FILE \<longrightarrow> echildren e = [])
     \<and> length (echildren e) \<le> 256 \<and> length (ename e) \<le> 127 \<and> file_ok e"

text \<open>
  One entry of the tree with root \<open>r\<close>: its children exist, point back to it and have distinct
  names; unless it is the root, its parent has it as a child and a smaller address, so the parent
  chain ends.
\<close>

definition ent_at :: "'a tmpfs_scheme \<Rightarrow> ptr \<Rightarrow> ptr \<Rightarrow> tmpfs_entry \<Rightarrow> bool" where
  "ent_at s r p e \<longleftrightarrow> ent_ok e \<and> distinct (map (nm s) (echildren e))
     \<and> (\<forall>c \<in> set (echildren e). c \<noteq> r \<and> (\<exists>ce. ents s c = Some ce \<and> eparent ce = p))
     \<and> (p \<noteq> r \<longrightarrow> eparent e < p \<and> (\<exists>pe. ents s (eparent e) = Some pe \<and> p \<in> set (echildren pe)))"

definition tree_ok :: "'a tmpfs_scheme \<Rightarrow> ptr \<Rightarrow> bool" where
  "tree_ok s r \<longleftrightarrow> ents s 0 = None \<and> 0 < next_ent s \<and> (\<forall>p. ents s p \<noteq> None \<longrightarrow> p < next_ent s)
     \<and> (\<exists>e. ents s r = Some e \<and> eflags e = FS_DIRECTORY \<and> eparent e = 0) \<and> (\<forall>p e. ents s p = Some e \<longrightarrow> ent_at s r p e)"

lemma flag_cases [simp]: "is_dir FS_DIRECTORY" "\<not> is_dir FS_FILE" "is_file FS_FILE" "\<not> is_file FS_DIRECTORY"
  by (simp_all add: is_dir_def is_file_def)

lemma find_name_ok:
  assumes "\<forall>c \<in> set cs. c \<noteq> 0 \<and> ents s c \<noteq> None"
  shows "\<exists>c. find_name name cs s = Some c \<and> (if c = 0 then Some name \<notin> nm s ` set cs else c \<in> set cs \<and> nm s c = Some name)"
  using assms
proof (induction cs)
  case (Cons a cs)
  then obtain e where "ents s a = Some e" "a \<noteq> 0" by auto
  then show ?case using Cons by (cases "ename e = name") (auto simp: nm_def)
qed simp

lemma tree_entry:
  assumes "tree_ok s r" "ents s p = Some e"
  shows "p \<noteq> 0" "p < next_ent s" "ent_at s r p e"
  using assms unfolding tree_ok_def by (metis option.distinct(1))+

lemma tree_root:
  assumes "tree_ok s r"
  obtains e where "ents s r = Some e" "eflags e = FS_DIRECTORY" "eparent e = 0"
  using assms unfolding tree_ok_def by blast

lemma tree_children:
  assumes "tree_ok s r" "ents s dir = Some d" "c \<in> set (echildren d)"
  obtains e where "ents s c = Some e" "eparent e = dir" "c \<noteq> r" "c \<noteq> 0" "dir < c" "c < next_ent s"
proof -
  obtain e where e: "ents s c = Some e" "eparent e = dir" "c \<noteq> r"
    using tree_entry(3) [OF assms(1,2)] assms(3) by (auto simp: ent_at_def)
  then show thesis using that tree_entry [OF assms(1) e(1)] by (auto simp: ent_at_def)
qed

lemma find_child_ok:
  assumes t: "tree_ok s r" and d: "ents s dir = Some d" "eflags d = FS_DIRECTORY"
  obtains c where "tmpfs_find_child dir name s = Some c" "c = 0 \<longleftrightarrow> Some name \<notin> nm s ` set (echildren d)"
    "c \<noteq> 0 \<longrightarrow> c \<in> set (echildren d) \<and> nm s c = Some name"
proof -
  have "dir \<noteq> 0" using tree_entry(1) [OF t d(1)] .
  moreover have "\<forall>c \<in> set (echildren d). c \<noteq> 0 \<and> ents s c \<noteq> None"
    using tree_children [OF t d(1)] by (metis option.distinct(1))
  from find_name_ok [OF this, of name] obtain c where
    "find_name name (echildren d) s = Some c" "if c = 0 then Some name \<notin> nm s ` set (echildren d) else c \<in> set (echildren d) \<and> nm s c = Some name"
    by blast
  moreover from this(2) have "c = 0 \<longleftrightarrow> Some name \<notin> nm s ` set (echildren d)" by (metis image_eqI)
  ultimately show thesis using that [of c] d by (auto simp: tmpfs_find_child_def)
qed

subsection \<open>Adding an entry\<close>

definition fresh_entry :: "string \<Rightarrow> u32 \<Rightarrow> ptr \<Rightarrow> tmpfs_entry \<Rightarrow> bool" where
  "fresh_entry name flags dir e \<longleftrightarrow> ename e = take 127 name \<and> eflags e = flags \<and> eparent e = dir \<and> echildren e = [] \<and> file_ok e \<and> contents e = []"

lemma create_entry_cases:
  assumes "tmpfs_create_entry name flags dir s = (c, s1)"
  shows "\<exists>pl ino. (c = 0 \<and> s1 = s\<lparr>plan := pl\<rparr>) \<or> (c = next_ent s \<and>
    (\<exists>e. fresh_entry name flags dir e \<and> s1 = s\<lparr>plan := pl, tmpfs_next_inode := ino, ents := (ents s)(c \<mapsto> e), next_ent := c + 1\<rparr>))"
proof (cases "fst (kmalloc_ok s)")
  case False
  then show ?thesis using assms by (auto simp: tmpfs_create_entry_def kmalloc_ok_def split: list.splits)
next
  case True
  let ?e = "\<lambda>ino ok2. \<lparr>ename = take 127 name, eflags = flags, edata = (if is_file flags \<and> ok2 then Some (replicate 4096 0) else None),
     elength = 0, ecapacity = (if is_file flags then 4096 else 0), eparent = dir, echildren = [], einode = ino\<rparr>"
  have "fresh_entry name flags dir (?e ino ok2)" for ino ok2
    by (simp add: fresh_entry_def file_ok_def contents_def)
  moreover have "\<exists>pl ok2. c = next_ent s \<and> s1 = s\<lparr>plan := pl, tmpfs_next_inode := tmpfs_next_inode s + 1,
      ents := (ents s)(c \<mapsto> ?e (tmpfs_next_inode s) ok2), next_ent := c + 1\<rparr>"
    using assms True
    by (intro exI [of _ "plan s1"] exI [of _ "fst (kmalloc_ok (snd (kmalloc_ok s)))"])
       (auto simp: tmpfs_create_entry_def kmalloc_ok_def Let_def split: list.splits if_splits)
  ultimately show ?thesis by blast
qed

lemma tree_insert:
  assumes t: "tree_ok s r" and d: "ents s dir = Some d" "eflags d = FS_DIRECTORY" "length (echildren d) < 256"
    and n: "Some name \<notin> nm s ` set (echildren d)" "length name \<le> 127"
    and e: "fresh_entry name flags dir e" "flags = FS_FILE \<or> flags = FS_DIRECTORY" and c: "c = next_ent s"
    and s1: "ents s1 = (ents s)(c \<mapsto> e, dir \<mapsto> d\<lparr>echildren := echildren d @ [c]\<rparr>)" "next_ent s1 = c + 1"
  shows "tree_ok s1 r"
proof -
  have dir: "dir \<noteq> 0" "dir < c" "ent_at s r dir d" using tree_entry [OF t d(1)] c by auto
  have old: "p < c" if "ents s p = Some e'" for p e' using tree_entry(2) [OF t that] c by simp
  have ch: "x < c \<and> x \<noteq> dir" if "x \<in> set (echildren d)" for x
    using tree_children [OF t d(1) that] c by auto
  have nm': "nm s1 x = nm s x" if "x \<noteq> c" for x using that d(1) dir(2) by (simp add: nm_def s1(1))
  have nmc: "nm s1 c = Some name" using dir(2) e(1) n(2) by (simp add: nm_def s1(1) fresh_entry_def)
  have rc: "r < c" using tree_root [OF t] old by blast
  have new: "ent_at s1 r c e"
    using e dir(2) rc n(2) by (auto simp: ent_at_def ent_ok_def fresh_entry_def s1(1))
  have par: "ent_at s1 r dir (d\<lparr>echildren := echildren d @ [c]\<rparr>)"
  proof -
    have m: "map (nm s1) (echildren d) = map (nm s) (echildren d)" using ch nm' by fastforce
    have "distinct (map (nm s1) (echildren d @ [c]))"
      using dir(3) n(1) nmc unfolding ent_at_def map_append m by auto
    moreover have "\<exists>ce. ents s1 x = Some ce \<and> eparent ce = dir" "x \<noteq> r" if "x \<in> set (echildren d @ [c])" for x
      using that tree_children [OF t d(1), of x] ch [of x] rc e(1) dir(2) by (auto simp: s1(1) fresh_entry_def)
    moreover have "dir \<noteq> r \<longrightarrow> eparent d < dir \<and> (\<exists>pe. ents s1 (eparent d) = Some pe \<and> dir \<in> set (echildren pe))"
      using dir by (auto simp: ent_at_def s1(1))
    moreover have "ent_ok (d\<lparr>echildren := echildren d @ [c]\<rparr>)"
      using dir(3) d by (auto simp: ent_at_def ent_ok_def)
    ultimately show ?thesis by (auto simp: ent_at_def)
  qed
  have oth: "ent_at s1 r p e'" if p: "ents s p = Some e'" "p \<noteq> dir" for p e'
  proof -
    have at: "ent_at s r p e'" "p < c" using tree_entry(3) [OF t p(1)] old p(1) by auto
    have "x < c" if "x \<in> set (echildren e')" for x using tree_children [OF t p(1) that] c by auto
    then have "map (nm s1) (echildren e') = map (nm s) (echildren e')" using nm' by fastforce
    then have "distinct (map (nm s1) (echildren e'))" using at(1) by (simp only: ent_at_def)
    moreover have "x \<noteq> r \<and> (\<exists>ce. ents s1 x = Some ce \<and> eparent ce = p)" if x: "x \<in> set (echildren e')" for x
    proof -
      obtain ce where "ents s x = Some ce" "eparent ce = p" "x \<noteq> r" "x < next_ent s" by (rule tree_children [OF t p(1) x])
      then show ?thesis using d(1) c by (cases "x = dir") (simp_all add: s1(1))
    qed
    moreover have "p \<noteq> r \<longrightarrow> eparent e' < p \<and> (\<exists>pe. ents s1 (eparent e') = Some pe \<and> p \<in> set (echildren pe))"
      using at d(1) by (auto simp: ent_at_def s1(1))
    ultimately show ?thesis using at by (simp add: ent_at_def)
  qed
  have "\<forall>p e'. ents s1 p = Some e' \<longrightarrow> ent_at s1 r p e'"
    using new par oth by (auto simp: s1(1))
  moreover have "\<exists>e. ents s1 r = Some e \<and> eflags e = FS_DIRECTORY \<and> eparent e = 0"
    by (rule tree_root [OF t]) (use d(1) rc in \<open>auto simp: s1(1)\<close>)
  moreover have "ents s1 0 = None" "\<forall>p. ents s1 p \<noteq> None \<longrightarrow> p < next_ent s1"
    using t dir old by (auto simp: s1 tree_ok_def less_Suc_eq)
  ultimately show ?thesis using s1(2) by (simp add: tree_ok_def)
qed

subsection \<open>Removing an entry\<close>

lemma remove_loop_found:
  assumes "find_name name cs s = Some c" "c \<noteq> 0" "ents s c = Some e" "echildren e = []" "ents s dir = Some d" "dir \<noteq> c"
  shows "\<exists>xs ys. cs = xs @ c # ys \<and>
    remove_loop dir name done cs s = Some (0, set_ent dir (Some (d\<lparr>echildren := done @ xs @ ys\<rparr>)) (set_ent c None s))"
  using assms(1)
proof (induction cs arbitrary: "done")
  case (Cons a cs)
  show ?case
  proof (cases "a = 0 \<or> nm s a \<noteq> Some name")
    case True
    then have "find_name name cs s = Some c"
      and r: "remove_loop dir name done (a # cs) s = remove_loop dir name (done @ [a]) cs s"
      using Cons.prems by (auto simp: nm_def split: option.splits if_splits)
    from Cons.IH [OF this(1), of "done @ [a]"] obtain xs ys where "cs = xs @ c # ys"
      "remove_loop dir name (done @ [a]) cs s = Some (0, set_ent dir (Some (d\<lparr>echildren := (done @ [a]) @ xs @ ys\<rparr>)) (set_ent c None s))"
      by blast
    then show ?thesis using r by (intro exI [of _ "a # xs"] exI [of _ ys]) simp
  next
    case False
    then have "a = c" "ename e = name" using Cons.prems assms(3) by (auto simp: nm_def split: option.splits if_splits)
    moreover have "free_entry c e s = set_ent c None s" using assms(4) by (simp add: free_entry_def)
    ultimately show ?thesis using assms
      by (intro exI [of _ "[]"] exI [of _ cs]) (simp add: Let_def set_ent_def)
  qed
qed (use assms(2) in simp)

lemma tree_remove:
  assumes t: "tree_ok s r" and d: "ents s dir = Some d" "echildren d = xs @ c # ys" and e: "ents s c = Some e" "echildren e = []"
  shows "tree_ok (set_ent dir (Some (d\<lparr>echildren := xs @ ys\<rparr>)) (set_ent c None s)) r"
    (is "tree_ok ?s r")
proof -
  obtain ce where c: "ents s c = Some ce" "eparent ce = dir" "c \<noteq> r" "c \<noteq> 0" "dir < c"
    by (rule tree_children [OF t d(1)]) (use d(2) in auto)
  have ents: "ents ?s = (ents s)(c := None, dir \<mapsto> d\<lparr>echildren := xs @ ys\<rparr>)" "next_ent ?s = next_ent s"
    by (simp_all add: set_ent_def)
  have at: "ent_at s r dir d" using tree_entry(3) [OF t d(1)] .
  have dc: "distinct (xs @ c # ys)" using at d(2) unfolding ent_at_def distinct_map by simp
  have nm': "nm ?s x = nm s x" if "x \<noteq> c" for x using that d(1) by (simp add: nm_def ents(1))
  have kid: "x \<noteq> r \<and> (\<exists>xe. ents ?s x = Some xe \<and> eparent xe = p)"
    if x: "ents s p = Some pe" "x \<in> set (echildren pe)" "x \<noteq> c" for p pe x
  proof -
    obtain xe where "ents s x = Some xe" "eparent xe = p" "x \<noteq> r" by (rule tree_children [OF t x(1,2)])
    then show ?thesis using x(3) d(1) by (cases "x = dir") (simp_all add: set_ent_def)
  qed
  have up: "p \<noteq> r \<longrightarrow> eparent pe < p \<and> (\<exists>qe. ents ?s (eparent pe) = Some qe \<and> p \<in> set (echildren qe))"
    if p: "ents s p = Some pe" "p \<noteq> c" for p pe
  proof
    assume "p \<noteq> r"
    then obtain qe where q: "eparent pe < p" "ents s (eparent pe) = Some qe" "p \<in> set (echildren qe)"
      using tree_entry(3) [OF t p(1)] by (auto simp: ent_at_def)
    have "eparent pe \<noteq> c" using q e by auto
    then show "eparent pe < p \<and> (\<exists>qe. ents ?s (eparent pe) = Some qe \<and> p \<in> set (echildren qe))"
      using q d p(2) by (cases "eparent pe = dir") (auto simp: set_ent_def)
  qed
  have "ent_at ?s r p pe" if p: "ents ?s p = Some pe" for p pe
  proof (cases "p = dir")
    case True
    have m: "map (nm ?s) (xs @ ys) = map (nm s) (xs @ ys)" by (intro map_cong refl nm') (use dc in auto)
    have "distinct (map (nm ?s) (xs @ ys))" using at unfolding m ent_at_def d(2) by auto
    moreover have pe: "pe = d\<lparr>echildren := xs @ ys\<rparr>" using p True by (simp add: ents(1))
    moreover have "ent_ok pe" using at d(2) unfolding pe by (auto simp: ent_at_def ent_ok_def)
    moreover have "\<forall>x \<in> set (xs @ ys). x \<noteq> r \<and> (\<exists>xe. ents ?s x = Some xe \<and> eparent xe = dir)"
      using kid [OF d(1)] dc d(2) by auto
    ultimately show ?thesis using up [OF d(1)] c(5) unfolding True by (simp add: ent_at_def)
  next
    case False
    then have p': "ents s p = Some pe" "p \<noteq> c" using p by (auto simp: ents(1) split: if_splits)
    have c': "c \<notin> set (echildren pe)"
    proof
      assume "c \<in> set (echildren pe)"
      then obtain ce' where "ents s c = Some ce'" "eparent ce' = p" by (rule tree_children [OF t p'(1)])
      then show False using c False by simp
    qed
    then have "map (nm ?s) (echildren pe) = map (nm s) (echildren pe)" using nm' by fastforce
    then have "distinct (map (nm ?s) (echildren pe))" using tree_entry(3) [OF t p'(1)] by (simp only: ent_at_def)
    then show ?thesis
      using tree_entry(3) [OF t p'(1)] kid [OF p'(1)] up [OF p'] c' by (auto simp: ent_at_def)
  qed
  moreover have "\<exists>e. ents ?s r = Some e \<and> eflags e = FS_DIRECTORY \<and> eparent e = 0"
    by (rule tree_root [OF t]) (use d(1) c(3) in \<open>auto simp: ents(1)\<close>)
  moreover have "ents ?s 0 = None" "0 < next_ent ?s" "\<forall>p. ents ?s p \<noteq> None \<longrightarrow> p < next_ent ?s"
    using t tree_entry [OF t d(1)] by (auto simp: ents tree_ok_def)
  ultimately show ?thesis by (simp add: tree_ok_def)
qed

subsection \<open>Changing an entry in place\<close>

lemma inj_on_upd: "inj_on f A \<Longrightarrow> y \<notin> f ` A \<Longrightarrow> inj_on (\<lambda>x. if x = c then y else f x) A"
  by (auto simp: inj_on_def)

lemma tree_update:
  assumes t: "tree_ok s r" and e: "ents s c = Some e" "ent_ok e'"
    and same: "eparent e' = eparent e" "echildren e' = echildren e" "eflags e' = eflags e"
    and nms: "\<And>pe. c \<noteq> r \<Longrightarrow> ents s (eparent e) = Some pe \<Longrightarrow> ename e' \<noteq> ename e \<Longrightarrow> Some (ename e') \<notin> nm s ` set (echildren pe)"
    and s1: "ents s1 = (ents s)(c \<mapsto> e')" "next_ent s1 = next_ent s"
  shows "tree_ok s1 r"
proof -
  have nm': "nm s1 x = (if x = c then Some (ename e') else nm s x)" for x by (simp add: nm_def s1(1))
  have nmc: "nm s c = Some (ename e)" using e(1) by (simp add: nm_def)
  have "ent_at s1 r p pe'" if p: "ents s1 p = Some pe'" for p pe'
  proof -
    obtain pe where pe: "ents s p = Some pe" "eparent pe' = eparent pe" "echildren pe' = echildren pe" "ent_ok pe'"
      using p e same tree_entry(3) [OF t] by (auto simp: s1(1) ent_at_def split: if_splits)
    have at: "ent_at s r p pe" using tree_entry(3) [OF t pe(1)] .
    have "distinct (map (nm s1) (echildren pe))"
    proof (cases "c \<in> set (echildren pe) \<and> ename e' \<noteq> ename e")
      case True
      then have "c \<in> set (echildren pe)" by simp
      then obtain ce where "ents s c = Some ce" "eparent ce = p" "c \<noteq> r" by (rule tree_children [OF t pe(1)])
      then have "Some (ename e') \<notin> nm s ` set (echildren pe)" using nms True pe(1) e(1) by auto
      moreover have "distinct (echildren pe)" "inj_on (nm s) (set (echildren pe))" using at by (auto simp: ent_at_def distinct_map)
      ultimately show ?thesis unfolding distinct_map nm' [abs_def] by (simp add: inj_on_upd)
    next
      case False
      then have "map (nm s1) (echildren pe) = map (nm s) (echildren pe)" using nmc by (auto simp: nm')
      then show ?thesis using at by (simp only: ent_at_def)
    qed
    moreover have "x \<noteq> r \<and> (\<exists>xe. ents s1 x = Some xe \<and> eparent xe = p)" if x: "x \<in> set (echildren pe)" for x
    proof -
      obtain xe where "ents s x = Some xe" "eparent xe = p" "x \<noteq> r" by (rule tree_children [OF t pe(1) x])
      then show ?thesis using e same by (cases "x = c") (simp_all add: s1(1))
    qed
    moreover have "p \<noteq> r \<longrightarrow> eparent pe < p \<and> (\<exists>qe. ents s1 (eparent pe) = Some qe \<and> p \<in> set (echildren qe))"
      using at e same by (auto simp: s1(1) ent_at_def)
    ultimately show ?thesis using pe by (simp add: ent_at_def)
  qed
  moreover have "\<exists>e. ents s1 r = Some e \<and> eflags e = FS_DIRECTORY \<and> eparent e = 0"
    by (rule tree_root [OF t]) (use e same in \<open>auto simp: s1(1)\<close>)
  moreover have "ents s1 0 = None" "0 < next_ent s1" "\<forall>p. ents s1 p \<noteq> None \<longrightarrow> p < next_ent s1"
    using t tree_entry [OF t e(1)] by (auto simp: s1 tree_ok_def)
  ultimately show ?thesis by (simp add: tree_ok_def)
qed

subsection \<open>Operations on a directory\<close>

datatype tmpfs_op = Mkdir string | Create string | Rmdir string | Unlink string | Rename string string

fun tmpfs_run :: "tmpfs_op \<Rightarrow> ptr \<Rightarrow> 'a tmpfs_scheme \<Rightarrow> 'a tmpfs_scheme option" where
  "tmpfs_run (Mkdir n) dir s = map_option snd (tmpfs_mkdir_entry dir n s)"
| "tmpfs_run (Create n) dir s = map_option snd (tmpfs_create_file_entry dir n s)"
| "tmpfs_run (Rmdir n) dir s = map_option snd (rmdir_in dir n s)"
| "tmpfs_run (Unlink n) dir s = map_option snd (unlink_in dir n s)"
| "tmpfs_run (Rename old new) dir s = map_option snd (tmpfs_rename_entry dir old new s)"

fun short_names :: "tmpfs_op \<Rightarrow> bool" where
  "short_names (Mkdir n) = (length n \<le> 127)"
| "short_names (Create n) = (length n \<le> 127)"
| "short_names (Rmdir n) = True"
| "short_names (Unlink n) = True"
| "short_names (Rename old new) = (length new \<le> 127)"

lemma tree_plan: "tree_ok (s\<lparr>plan := pl\<rparr>) r = tree_ok s r"
  by (simp add: tree_ok_def ent_at_def nm_def [abs_def])

lemma create_in_dir:
  assumes t: "tree_ok s r" and d: "ents s dir = Some d" "eflags d = FS_DIRECTORY" "length (echildren d) < 256"
    and n: "Some name \<notin> nm s ` set (echildren d)" "length name \<le> 127"
    and fl: "flags = FS_FILE \<or> flags = FS_DIRECTORY" and c: "tmpfs_create_entry name flags dir s = (c, s1)"
  shows "tree_ok (if c = 0 then s1 else add_child dir c s1) r"
    and "c \<noteq> 0 \<Longrightarrow> c = next_ent s \<and> (\<exists>e. fresh_entry name flags dir e
           \<and> ents (add_child dir c s1) = (ents s)(c \<mapsto> e, dir \<mapsto> d\<lparr>echildren := echildren d @ [c]\<rparr>))"
proof -
  have nz: "next_ent s \<noteq> 0" "dir < next_ent s" using t tree_entry(2) [OF t d(1)] by (auto simp: tree_ok_def)
  consider pl where "c = 0" "s1 = s\<lparr>plan := pl\<rparr>"
    | pl ino e where "c = next_ent s" "fresh_entry name flags dir e"
        "s1 = s\<lparr>plan := pl, tmpfs_next_inode := ino, ents := (ents s)(c \<mapsto> e), next_ent := c + 1\<rparr>"
    using create_entry_cases [OF c] by blast
  then have "tree_ok (if c = 0 then s1 else add_child dir c s1) r \<and> (c \<noteq> 0 \<longrightarrow> c = next_ent s \<and> (\<exists>e. fresh_entry name flags dir e
           \<and> ents (add_child dir c s1) = (ents s)(c \<mapsto> e, dir \<mapsto> d\<lparr>echildren := echildren d @ [c]\<rparr>)))"
  proof cases
    case 1
    then show ?thesis using t by (simp add: tree_plan)
  next
    case 2
    have e: "ents (add_child dir c s1) = (ents s)(c \<mapsto> e, dir \<mapsto> d\<lparr>echildren := echildren d @ [c]\<rparr>)"
      "next_ent (add_child dir c s1) = c + 1"
      using 2 nz d(1) by (auto simp: add_child_def set_ent_def)
    from tree_insert [OF t d n 2(2) fl 2(1) this] show ?thesis using 2 e nz by auto
  qed
  then show "tree_ok (if c = 0 then s1 else add_child dir c s1) r"
    "c \<noteq> 0 \<Longrightarrow> c = next_ent s \<and> (\<exists>e. fresh_entry name flags dir e
           \<and> ents (add_child dir c s1) = (ents s)(c \<mapsto> e, dir \<mapsto> d\<lparr>echildren := echildren d @ [c]\<rparr>))" by blast+
qed

lemma remove_in_dir:
  assumes t: "tree_ok s r" and d: "ents s dir = Some d" "eflags d = FS_DIRECTORY"
    and c: "tmpfs_find_child dir name s = Some c" "c \<noteq> 0" and e: "ents s c = Some e" "echildren e = []"
  obtains xs ys where "echildren d = xs @ c # ys" "dir \<noteq> c"
    "tmpfs_remove_entry dir name s = Some (0, set_ent dir (Some (d\<lparr>echildren := xs @ ys\<rparr>)) (set_ent c None s))"
    "tree_ok (set_ent dir (Some (d\<lparr>echildren := xs @ ys\<rparr>)) (set_ent c None s)) r"
proof -
  have dz: "dir \<noteq> 0" using tree_entry(1) [OF t d(1)] .
  have f: "find_name name (echildren d) s = Some c" using c dz d by (simp add: tmpfs_find_child_def)
  obtain c' where "tmpfs_find_child dir name s = Some c'" "c' \<noteq> 0 \<longrightarrow> c' \<in> set (echildren d) \<and> nm s c' = Some name"
    by (rule find_child_ok [OF t d, of name])
  then have "c \<in> set (echildren d)" using c by simp
  then have "dir \<noteq> c" by (rule tree_children [OF t d(1)]) auto
  from remove_loop_found [OF f c(2) e d(1) this, of "[]"] obtain xs ys where "echildren d = xs @ c # ys"
    "remove_loop dir name [] (echildren d) s = Some (0, set_ent dir (Some (d\<lparr>echildren := [] @ xs @ ys\<rparr>)) (set_ent c None s))"
    by blast
  then show thesis using that [of xs ys] dz d(1) tree_remove [OF t d(1) _ e] \<open>dir \<noteq> c\<close> by (simp add: tmpfs_remove_entry_def)
qed

lemma find_child_entry:
  assumes t: "tree_ok s r" and d: "ents s dir = Some d" "eflags d = FS_DIRECTORY"
  shows "\<exists>c. tmpfs_find_child dir nm' s = Some c \<and> (c = 0 \<longleftrightarrow> Some nm' \<notin> nm s ` set (echildren d))
    \<and> (c \<noteq> 0 \<longrightarrow> c \<in> set (echildren d) \<and> (\<exists>e. ents s c = Some e \<and> eparent e = dir \<and> ent_ok e))"
proof -
  obtain c where c: "tmpfs_find_child dir nm' s = Some c" "c = 0 \<longleftrightarrow> Some nm' \<notin> nm s ` set (echildren d)"
    "c \<noteq> 0 \<longrightarrow> c \<in> set (echildren d) \<and> nm s c = Some nm'" by (rule find_child_ok [OF t d, of nm'])
  have "c \<in> set (echildren d) \<Longrightarrow> \<exists>e. ents s c = Some e \<and> eparent e = dir \<and> ent_ok e"
    by (erule tree_children [OF t d(1)]) (use tree_entry(3) [OF t] in \<open>auto simp: ent_at_def\<close>)
  then show ?thesis using c by blast
qed

lemma rename_in_dir:
  assumes t: "tree_ok s r" and d: "ents s dir = Some d" "eflags d = FS_DIRECTORY" and n: "length new \<le> 127"
  shows "\<exists>s'. map_option snd (tmpfs_rename_entry dir old new s) = Some s' \<and> tree_ok s' r"
proof -
  obtain c where c: "tmpfs_find_child dir old s = Some c" "c \<noteq> 0 \<longrightarrow> (\<exists>e. ents s c = Some e \<and> eparent e = dir \<and> ent_ok e)"
    using find_child_entry [OF t d, of old] by blast
  obtain c' where c': "tmpfs_find_child dir new s = Some c'" "c' = 0 \<longleftrightarrow> Some new \<notin> nm s ` set (echildren d)"
    using find_child_entry [OF t d, of new] by blast
  show ?thesis
  proof (cases "c = 0 \<or> c' \<noteq> 0")
    case True
    then show ?thesis using c c' t by (auto simp: tmpfs_rename_entry_def)
  next
    case False
    then obtain e where e: "ents s c = Some e" "eparent e = dir" "ent_ok e" using c by auto
    let ?e = "e\<lparr>ename := take 127 new\<rparr>"
    have "tree_ok (set_ent c (Some ?e) s) r"
      using tree_update [OF t e(1), of ?e "set_ent c (Some ?e) s"] e d c' False n by (auto simp: ent_ok_def set_ent_def)
    then show ?thesis using e c c' False by (auto simp: tmpfs_rename_entry_def)
  qed
qed

text \<open>
  C5. The directory tree stays well formed and no operation goes wrong: on a well-formed tree,
  creating, removing or renaming in any directory, with new names that fit the 127 characters of an
  entry, returns without touching freed memory, whatever allocations fail, and leaves a
  well-formed tree: children and parents still match, names in a directory are distinct, no
  directory exceeds 256 entries, parent chains end at the root.
\<close>

theorem tmpfs_tree_safe:
  assumes t: "tree_ok s r" and d: "ents s dir = Some d" "eflags d = FS_DIRECTORY" and n: "short_names op"
  shows "\<exists>s'. tmpfs_run op dir s = Some s' \<and> tree_ok s' r"
proof -
  have dz: "dir \<noteq> 0" using tree_entry(1) [OF t d(1)] .
  note look = find_child_entry [OF t d]
  have made: "tree_ok (if c = 0 then s1 else add_child dir c s1) r"
    if "tmpfs_create_entry name flags dir s = (c, s1)" "flags = FS_FILE \<or> flags = FS_DIRECTORY" "length name \<le> 127"
       "Some name \<notin> nm s ` set (echildren d)" "length (echildren d) < 256" for c s1 name flags
    using create_in_dir(1) [OF t d that(5,4,3,2,1)] .
  have gone: "\<exists>s'. map_option snd (tmpfs_remove_entry dir name s) = Some s' \<and> tree_ok s' r"
    if "tmpfs_find_child dir name s = Some c" "c \<noteq> 0" "ents s c = Some e" "echildren e = []" for c e name
    using remove_in_dir [OF t d that] by (metis option.map(2) snd_conv)
  show ?thesis
  proof (cases op)
    case (Mkdir name)
    obtain c where c: "tmpfs_find_child dir name s = Some c" "c = 0 \<longleftrightarrow> Some name \<notin> nm s ` set (echildren d)" using look [of name] by blast
    obtain e s1 where "tmpfs_create_entry name FS_DIRECTORY dir s = (e, s1)" by fastforce
    then show ?thesis using made [of name FS_DIRECTORY e s1] c Mkdir n t dz d
      by (auto simp: tmpfs_mkdir_entry_def split: if_splits)
  next
    case (Create name)
    obtain c where c: "tmpfs_find_child dir name s = Some c" "c = 0 \<longleftrightarrow> Some name \<notin> nm s ` set (echildren d)" using look [of name] by blast
    obtain e s1 where "tmpfs_create_entry name FS_FILE dir s = (e, s1)" by fastforce
    then show ?thesis using made [of name FS_FILE e s1] c Create n t dz d
      by (auto simp: tmpfs_create_file_entry_def split: if_splits)
  next
    case (Rmdir name)
    obtain c where c: "tmpfs_find_child dir name s = Some c" "c \<noteq> 0 \<longrightarrow> (\<exists>e. ents s c = Some e)" using look [of name] by blast
    then show ?thesis using gone [OF c(1)] Rmdir t by (cases "c = 0") (auto simp: rmdir_in_def)
  next
    case (Unlink name)
    obtain c where c: "tmpfs_find_child dir name s = Some c" "c \<noteq> 0 \<longrightarrow> (\<exists>e. ents s c = Some e \<and> ent_ok e)" using look [of name] by blast
    then show ?thesis using gone [OF c(1)] Unlink t by (cases "c = 0") (auto simp: unlink_in_def ent_ok_def)
  next
    case (Rename old new)
    then show ?thesis using rename_in_dir [OF t d, of new old] n by simp
  qed
qed

subsection \<open>A directory as a map\<close>

definition dir_map :: "'a tmpfs_scheme \<Rightarrow> ptr \<Rightarrow> string \<Rightarrow> ptr option" where
  "dir_map s dir n = (case tmpfs_find_child dir n s of None \<Rightarrow> None | Some c \<Rightarrow> if c = 0 then None else Some c)"

lemma dir_map_iff:
  assumes t: "tree_ok s r" and d: "ents s dir = Some d" "eflags d = FS_DIRECTORY"
  shows "dir_map s dir n = Some c \<longleftrightarrow> c \<in> set (echildren d) \<and> nm s c = Some n"
proof -
  obtain c' where c': "tmpfs_find_child dir n s = Some c'" "c' = 0 \<longleftrightarrow> Some n \<notin> nm s ` set (echildren d)"
    "c' \<noteq> 0 \<longrightarrow> c' \<in> set (echildren d) \<and> nm s c' = Some n" by (rule find_child_ok [OF t d, of n])
  have "inj_on (nm s) (set (echildren d))" using tree_entry(3) [OF t d(1)] by (simp add: ent_at_def distinct_map)
  then have "c = c'" if "c \<in> set (echildren d)" "nm s c = Some n" "c' \<noteq> 0"
    using c'(3) that by (metis inj_onD)
  moreover have "c' \<noteq> 0" if "c \<in> set (echildren d)" "nm s c = Some n" using c'(2) that by (metis image_eqI)
  ultimately show ?thesis using c' by (auto simp: dir_map_def)
qed

lemma map_eqI: "(\<And>x y. m x = Some y \<longleftrightarrow> m' x = Some y) \<Longrightarrow> m = m'"
  by (rule ext) (metis not_None_eq)

lemma create_refines:
  assumes t: "tree_ok s r" and d: "ents s dir = Some d" "eflags d = FS_DIRECTORY" and pl: "plan s = []"
    and n: "length (echildren d) < 256" "length n \<le> 127" "dir_map s dir n = None"
  shows "\<exists>c s'. tmpfs_create_file_entry dir n s = Some (c, s') \<and> ents s c = None \<and> dir_map s' dir = (dir_map s dir)(n \<mapsto> c)"
proof -
  obtain x where x: "tmpfs_find_child dir n s = Some x" "x = 0 \<longleftrightarrow> Some n \<notin> nm s ` set (echildren d)"
    by (rule find_child_ok [OF t d, of n])
  have x0: "x = 0" using x n(3) by (simp add: dir_map_def split: if_splits)
  have nn: "Some n \<notin> nm s ` set (echildren d)" using x(2) x0 by simp
  have nn': "nm s y \<noteq> Some n" if "y \<in> set (echildren d)" for y using nn that by (metis image_eqI)
  obtain c s1 where c: "tmpfs_create_entry n FS_FILE dir s = (c, s1)" by fastforce
  have cz: "c \<noteq> 0" using c pl t by (auto simp: tmpfs_create_entry_def kmalloc_ok_def tree_ok_def Let_def)
  let ?s = "add_child dir c s1"
  note new = create_in_dir [OF t d n(1) nn n(2) _ c]
  have t': "tree_ok ?s r" using new(1) cz by simp
  obtain e where e: "c = next_ent s" "fresh_entry n FS_FILE dir e" "ents ?s = (ents s)(c \<mapsto> e, dir \<mapsto> d\<lparr>echildren := echildren d @ [c]\<rparr>)"
    using new(2) cz by auto
  have dc: "dir \<noteq> 0" "dir \<noteq> c" using tree_entry [OF t d(1)] e(1) by auto
  have nc: "ents s c = None" using t e(1) unfolding tree_ok_def by (metis less_irrefl)
  have nm1: "nm ?s y = nm s y" if "y \<noteq> c" for y using that d(1) by (simp add: nm_def e(3))
  have nm2: "nm ?s c = Some n" using dc e(2) n(2) by (simp add: nm_def e(3) fresh_entry_def)
  have cd: "c \<notin> set (echildren d)" using nc by (auto elim: tree_children [OF t d(1)])
  have d': "ents ?s dir = Some (d\<lparr>echildren := echildren d @ [c]\<rparr>)" by (simp add: e(3))
  have "dir_map ?s dir = (dir_map s dir)(n \<mapsto> c)"
  proof (rule map_eqI)
    fix m y
    have "dir_map ?s dir m = Some y \<longleftrightarrow> (y \<in> set (echildren d) \<or> y = c) \<and> nm ?s y = Some m"
      using dir_map_iff [OF t' d', of m y] d(2) by auto
    also have "\<dots> \<longleftrightarrow> (if m = n then y = c else y \<in> set (echildren d) \<and> nm s y = Some m)"
      using nm1 [of y] nm2 cd nn' [of y] by (cases "y = c") auto
    also have "\<dots> \<longleftrightarrow> ((dir_map s dir)(n \<mapsto> c)) m = Some y" using dir_map_iff [OF t d, of m y] by auto
    finally show "dir_map ?s dir m = Some y \<longleftrightarrow> ((dir_map s dir)(n \<mapsto> c)) m = Some y" .
  qed
  then show ?thesis using x x0 cz c dc d n(1) nc by (simp add: tmpfs_create_file_entry_def)
qed

lemma unlink_refines:
  assumes t: "tree_ok s r" and d: "ents s dir = Some d" "eflags d = FS_DIRECTORY"
    and c: "dir_map s dir n = Some c" and e: "ents s c = Some e" "eflags e = FS_FILE"
  shows "\<exists>s'. unlink_in dir n s = Some (0, s') \<and> ents s' c = None \<and> dir_map s' dir = (dir_map s dir)(n := None)"
proof -
  have f: "tmpfs_find_child dir n s = Some c" "c \<noteq> 0" using c by (auto simp: dir_map_def split: option.splits if_splits)
  have "echildren e = []" using tree_entry(3) [OF t e(1)] e(2) by (simp add: ent_at_def ent_ok_def)
  then obtain xs ys where r: "echildren d = xs @ c # ys" "dir \<noteq> c"
    "tmpfs_remove_entry dir n s = Some (0, set_ent dir (Some (d\<lparr>echildren := xs @ ys\<rparr>)) (set_ent c None s))"
    "tree_ok (set_ent dir (Some (d\<lparr>echildren := xs @ ys\<rparr>)) (set_ent c None s)) r"
    using remove_in_dir [OF t d f e(1)] by metis
  let ?s = "set_ent dir (Some (d\<lparr>echildren := xs @ ys\<rparr>)) (set_ent c None s)"
  have inj: "inj_on (nm s) (set (echildren d))" "distinct (echildren d)"
    using tree_entry(3) [OF t d(1)] unfolding ent_at_def distinct_map by blast+
  have nmc: "nm s c = Some n" using c dir_map_iff [OF t d] by blast
  have nm': "nm ?s y = nm s y" if "y \<noteq> c" for y using that d(1) by (simp add: nm_def set_ent_def)
  have d': "ents ?s dir = Some (d\<lparr>echildren := xs @ ys\<rparr>)" by (simp add: set_ent_def)
  have "dir_map ?s dir = (dir_map s dir)(n := None)"
  proof (rule map_eqI)
    fix m y
    have "dir_map ?s dir m = Some y \<longleftrightarrow> y \<in> set (xs @ ys) \<and> nm ?s y = Some m"
      using dir_map_iff [OF r(4) d', of m y] d(2) by auto
    also have "\<dots> \<longleftrightarrow> y \<in> set (echildren d) \<and> y \<noteq> c \<and> nm s y = Some m" 
      using nm' [of y] inj(2) r(1) by (cases "y = c") auto
    also have "\<dots> \<longleftrightarrow> m \<noteq> n \<and> y \<in> set (echildren d) \<and> nm s y = Some m"
      using inj_onD [OF inj(1), of y c] nmc r(1) by auto
    also have "\<dots> \<longleftrightarrow> ((dir_map s dir)(n := None)) m = Some y" using dir_map_iff [OF t d, of m y] by auto
    finally show "dir_map ?s dir m = Some y \<longleftrightarrow> ((dir_map s dir)(n := None)) m = Some y" .
  qed
  then show ?thesis using r f e by (simp add: unlink_in_def set_ent_def)
qed

lemma rename_refines:
  assumes t: "tree_ok s r" and d: "ents s dir = Some d" "eflags d = FS_DIRECTORY"
    and c: "dir_map s dir n = Some c" "dir_map s dir n' = None" "length n' \<le> 127"
  shows "\<exists>s'. tmpfs_rename_entry dir n n' s = Some (0, s') \<and> dir_map s' dir = (dir_map s dir)(n := None, n' \<mapsto> c)"
proof -
  have f: "tmpfs_find_child dir n s = Some c" "c \<noteq> 0" using c by (auto simp: dir_map_def split: option.splits if_splits)
  obtain x where x: "tmpfs_find_child dir n' s = Some x" "x = 0 \<longleftrightarrow> Some n' \<notin> nm s ` set (echildren d)"
    by (rule find_child_ok [OF t d, of n'])
  have x0: "x = 0" using x c(2) by (simp add: dir_map_def split: if_splits)
  have cin: "c \<in> set (echildren d)" "nm s c = Some n" using c(1) dir_map_iff [OF t d] by auto
  obtain e where e: "ents s c = Some e" "eparent e = dir" "dir < c" by (rule tree_children [OF t d(1) cin(1)])
  let ?e = "e\<lparr>ename := take 127 n'\<rparr>" and ?s = "set_ent c (Some (e\<lparr>ename := take 127 n'\<rparr>)) s"
  have ok: "ent_ok e" using tree_entry(3) [OF t e(1)] by (simp add: ent_at_def)
  have t': "tree_ok ?s r"
    using tree_update [OF t e(1), of ?e ?s] ok e d x x0 c(3) by (auto simp: ent_ok_def set_ent_def)
  have nm': "nm ?s y = (if y = c then Some n' else nm s y)" for y using c(3) by (simp add: nm_def set_ent_def)
  have inj: "inj_on (nm s) (set (echildren d))" using tree_entry(3) [OF t d(1)] by (auto simp: ent_at_def distinct_map)
  have nn: "nm s y \<noteq> Some n'" if "y \<in> set (echildren d)" for y using x x0 that by (metis image_eqI)
  have d': "ents ?s dir = Some d" using d e(3) by (simp add: set_ent_def)
  have "dir_map ?s dir = (dir_map s dir)(n := None, n' \<mapsto> c)"
  proof (rule map_eqI)
    fix m y
    have "dir_map ?s dir m = Some y \<longleftrightarrow> y \<in> set (echildren d) \<and> nm ?s y = Some m"
      using dir_map_iff [OF t' d' d(2), of m y] .
    also have "\<dots> \<longleftrightarrow> (if m = n' then y = c else m \<noteq> n \<and> y \<in> set (echildren d) \<and> nm s y = Some m)"
    proof (cases "y = c")
      case True
      then show ?thesis using cin by (auto simp: nm')
    next
      case False
      then have "nm s y \<noteq> Some n" if "y \<in> set (echildren d)" using inj_onD [OF inj, of y c] cin that by metis
      then show ?thesis using False nn [of y] by (auto simp: nm')
    qed
    also have "\<dots> \<longleftrightarrow> ((dir_map s dir)(n := None, n' \<mapsto> c)) m = Some y" using dir_map_iff [OF t d, of m y] by auto
    finally show "dir_map ?s dir m = Some y \<longleftrightarrow> ((dir_map s dir)(n := None, n' \<mapsto> c)) m = Some y" .
  qed
  then show ?thesis using f x x0 e by (simp add: tmpfs_rename_entry_def)
qed

text \<open>
  C24. A directory is a finite map from names to entries: creating a file adds one binding to
  a fresh entry, unlinking a file removes exactly its binding and frees it, and renaming moves one
  binding, all other names resolving as before.
\<close>

theorem tmpfs_dir_refines:
  assumes "tree_ok s r" "ents s dir = Some d" "eflags d = FS_DIRECTORY" "plan s = []"
  shows "(length (echildren d) < 256 \<and> length n \<le> 127 \<and> dir_map s dir n = None \<longrightarrow>
      (\<exists>c s'. tmpfs_create_file_entry dir n s = Some (c, s') \<and> ents s c = None \<and> dir_map s' dir = (dir_map s dir)(n \<mapsto> c)))
    \<and> (\<forall>c e. dir_map s dir n = Some c \<and> ents s c = Some e \<and> eflags e = FS_FILE \<longrightarrow>
      (\<exists>s'. unlink_in dir n s = Some (0, s') \<and> ents s' c = None \<and> dir_map s' dir = (dir_map s dir)(n := None)))
    \<and> (\<forall>c n'. dir_map s dir n = Some c \<and> dir_map s dir n' = None \<and> length n' \<le> 127 \<longrightarrow>
      (\<exists>s'. tmpfs_rename_entry dir n n' s = Some (0, s') \<and> dir_map s' dir = (dir_map s dir)(n := None, n' \<mapsto> c)))"
  using create_refines [OF assms] unlink_refines [OF assms(1-3)] rename_refines [OF assms(1-3)] by blast

section \<open>Initialisation and examples\<close>

lemma tmpfs_init_tree:
  assumes "ents s = (\<lambda>_. None)" "0 < next_ent s" "plan s = []"
  shows "tree_ok (tmpfs_init s) (tmpfs_root_entry (tmpfs_init s))"
proof -
  have "fst (kmalloc_ok s)" "snd (kmalloc_ok s) = s" using assms(3) by (simp_all add: kmalloc_ok_def)
  then show ?thesis
    using assms by (auto simp: tmpfs_init_def tmpfs_create_entry_def new_node_def kmalloc_ok_def Let_def tree_ok_def ent_at_def
      ent_ok_def file_ok_def nm_def split: if_splits prod.splits)
qed

definition tmpfs_boot :: tmpfs where
  "tmpfs_boot = \<lparr>fs_root = 0, mount_table = [], nodes = (\<lambda>_. zero_node), next_node = 1, plan = [],
     ents = (\<lambda>_. None), next_ent = 1, tmpfs_next_inode = 10000, tmpfs_root_entry = 0, tmpfs_root = 0\<rparr>"

lemma tmpfs_boot_root:
  "tree_ok (tmpfs_init tmpfs_boot) 1" "\<exists>d. ents (tmpfs_init tmpfs_boot) 1 = Some d \<and> eflags d = FS_DIRECTORY \<and> echildren d = []"
  "plan (tmpfs_init tmpfs_boot) = []"
  using tmpfs_init_tree [of tmpfs_boot]
  by (simp_all add: tmpfs_boot_def tmpfs_init_def tmpfs_create_entry_def new_node_def kmalloc_ok_def)

text \<open>A file of the root directory, opened: entry 2 behind node 2.\<close>

definition tmpfs_opened :: tmpfs where
  "tmpfs_opened = snd (the (tmpfs_open_file ''log'' 0x100 (tmpfs_init tmpfs_boot)))"

lemma tmpfs_opened_file:
  "\<exists>e. file_at tmpfs_opened 2 e \<and> edata e \<noteq> None \<and> contents e = []" "plan tmpfs_opened = []"
  by (simp_all add: tmpfs_opened_def tmpfs_open_file_def tmpfs_create_file_entry_def tmpfs_find_child_def tmpfs_boot_def tmpfs_init_def
    tmpfs_create_entry_def new_node_def kmalloc_ok_def tmpfs_make_vfs_node_def add_child_def set_ent_def node_of_entry_def file_at_def
    file_ok_def zero_node_def contents_def)

theorem tmpfs_write_refines_witness:
  "\<exists>s' e'. tmpfs_write 2 2 [7, 8] tmpfs_opened = Some (2, s') \<and> file_at s' 2 e' \<and> contents e' = [0, 0, 7, 8]"
proof -
  obtain e where e: "file_at tmpfs_opened 2 e" "contents e = []" using tmpfs_opened_file(1) by blast
  have "pwrite 2 [7, 8] [] = [0, 0, 7, 8]" by (simp add: pwrite_def numeral_2_eq_2)
  then show ?thesis using tmpfs_write_refines [OF e(1) tmpfs_opened_file(2), of 2 "[7, 8]"] e(2) by auto
qed

theorem tmpfs_read_after_write_witness:
  "\<exists>s'. tmpfs_write 2 100 [7, 8] tmpfs_opened = Some (2, s') \<and> tmpfs_read 2 100 2 s' = Some ([7, 8], s')"
proof -
  obtain e where e: "file_at tmpfs_opened 2 e" using tmpfs_opened_file(1) by blast
  show ?thesis using tmpfs_read_after_write [OF e tmpfs_opened_file(2), of 100 "[7, 8]"] by simp
qed

theorem tmpfs_write_overflow_witness: "tmpfs_write 2 1048576 [7] tmpfs_opened = None"
proof -
  obtain e where e: "file_at tmpfs_opened 2 e" "edata e \<noteq> None" using tmpfs_opened_file(1) by blast
  show ?thesis using tmpfs_write_overflow [OF e, of "[7]" 1048576] by simp
qed

theorem tmpfs_tree_safe_witness:
  "\<exists>s'. tmpfs_run (Mkdir ''etc'') 1 (tmpfs_init tmpfs_boot) = Some s' \<and> tree_ok s' 1"
proof -
  obtain d where "ents (tmpfs_init tmpfs_boot) 1 = Some d" "eflags d = FS_DIRECTORY" using tmpfs_boot_root(2) by blast
  from tmpfs_tree_safe [OF tmpfs_boot_root(1) this, of "Mkdir ''etc''"] show ?thesis by simp
qed

theorem tmpfs_dir_refines_witness:
  "\<exists>c s'. tmpfs_create_file_entry 1 ''log'' (tmpfs_init tmpfs_boot) = Some (c, s') \<and> dir_map s' 1 ''log'' = Some c"
proof -
  obtain d where d: "ents (tmpfs_init tmpfs_boot) 1 = Some d" "eflags d = FS_DIRECTORY" "echildren d = []" using tmpfs_boot_root(2) by blast
  have "dir_map (tmpfs_init tmpfs_boot) 1 ''log'' = None"
    using dir_map_iff [OF tmpfs_boot_root(1) d(1,2)] d(3) by (metis empty_iff empty_set not_None_eq)
  then show ?thesis using tmpfs_dir_refines [OF tmpfs_boot_root(1) d(1,2) tmpfs_boot_root(3), of "''log''"] d(3) by auto
qed

end
