(* ===== verification/Tarfs.thy ===== *)
theory Tarfs
  imports Tmpfs "HOL-Library.Sublist"
begin

text \<open>
  The read-only root file system, \<^verbatim>\<open>kernel/tarfs.c\<close>: a ustar archive in memory, walked header by
  header for every lookup. The last section puts the file systems together: the table of the
  functions that node pointers name, and path resolution over it.

  The archive is a memory of characters. A walk that never ends and a memory error (an array
  overrun, an unchecked failed allocation) have the result \<open>None\<close>. Addresses are \<open>nat\<close>, with the wrap-around
  of the 64-bit sums written out; sizes and the step to the next header are computed at 32 bits, as in the code.
\<close>

section \<open>State\<close>

record tarfs = tmpfs +
  tmem :: "nat \<Rightarrow> char"
  tar_address :: nat
  tar_size :: nat
  tarfs_root_node :: ptr
  prefixes :: "ptr \<Rightarrow> string"
  next_prefix :: ptr
  devfs_root :: ptr
  procfs_root :: ptr

abbreviation (input) NUL :: char where "NUL \<equiv> CHR 0x00"

text \<open>The C string at an address; a character used as a number is a signed 8-bit value.\<close>

partial_function (option) cstr :: "(nat \<Rightarrow> char) \<Rightarrow> nat \<Rightarrow> string option" where
  "cstr m a = (if m a = NUL then Some [] else Option.bind (cstr m (a + 1)) (\<lambda>s. Some (m a # s)))"

definition digit :: "char \<Rightarrow> u32" where
  "digit c = word_of_int (sint (of_char c :: u8) - 48)"

text \<open>\<^verbatim>\<open>for (j = 11; j > 0; j--, count *= 8) size += (in[j - 1] - '0') * count;\<close>\<close>

definition parse_size :: "(nat \<Rightarrow> char) \<Rightarrow> nat \<Rightarrow> u32" where
  "parse_size m a = fst (fold (\<lambda>j (size, count). (size + digit (m (a + j)) * count, count * 8)) (rev [0..<11]) (0, 1))"

definition tarfs_read :: "ptr \<Rightarrow> u32 \<Rightarrow> u32 \<Rightarrow> 'a tarfs_scheme \<Rightarrow> (u8 list \<times> 'a tarfs_scheme) option" where
  "tarfs_read node offset sz s =
     (let n = nodes s node
      in if offset \<ge> vlength n then Some ([], s)
      else let k = (if offset + sz > vlength n then vlength n - offset else sz)
           in Some (map (\<lambda>i. of_char (tmem s (vimpl n + unat offset + i))) [0..<unat k], s))"

text \<open>\<^verbatim>\<open>ptr += 512 + blocks * 512\<close> with \<^verbatim>\<open>blocks = (size + 511) / 512\<close>, all in \<^verbatim>\<open>uint32_t\<close>.\<close>

definition tar_step :: "u32 \<Rightarrow> nat" where
  "tar_step sz = unat (512 + (sz + 511) div 512 * 512)"

definition wrap64 :: "nat \<Rightarrow> nat" where
  "wrap64 n = n mod 2 ^ 64"

text \<open>\<^verbatim>\<open>uint64_t end = tar_address + tar_size\<close>\<close>

definition tar_end :: "'a tarfs_scheme \<Rightarrow> nat" where
  "tar_end s = wrap64 (tar_address s + tar_size s)"

definition node_prefix :: "ptr \<Rightarrow> 'a tarfs_scheme \<Rightarrow> string" where
  "node_prefix p s = (if p = 0 then [] else prefixes s p)"

definition next_token :: "string \<Rightarrow> string" where
  "next_token rm = takeWhile (\<lambda>c. c \<noteq> CHR ''/'') rm"

text \<open>
  The walk of \<^verbatim>\<open>tarfs_finddir\<close>: the header found, the token (which must fit \<^verbatim>\<open>token[100]\<close> with
  its NUL) and whether a slash follows it.
\<close>

partial_function (option) tar_find :: "(nat \<Rightarrow> char) \<Rightarrow> nat \<Rightarrow> string \<Rightarrow> string \<Rightarrow> nat \<Rightarrow> (nat \<times> bool) option option" where
  "tar_find m fin pre name pos =
     (if wrap64 (pos + 512) \<le> fin then
        Option.bind (cstr m pos) (\<lambda>f.
          if f = [] then Some None
          else if prefix pre f then
            (let rm = drop (length pre) f; token = next_token rm
             in if length token \<ge> 100 then None
                else if token = name then Some (Some (pos, token \<noteq> rm))
                else tar_find m fin pre name (wrap64 (pos + tar_step (parse_size m (pos + 124)))))
          else tar_find m fin pre name (wrap64 (pos + tar_step (parse_size m (pos + 124)))))
      else Some None)"

definition tarfs_finddir :: "ptr \<Rightarrow> string \<Rightarrow> 'a tarfs_scheme \<Rightarrow> (ptr \<times> 'a tarfs_scheme) option" where
  "tarfs_finddir node name s =
     (if name = ''dev'' then Some (devfs_root s, s)
      else if name = ''proc'' then Some (procfs_root s, s)
      else let pre = node_prefix (vimpl (nodes s node)) s in do {
        r \<leftarrow> tar_find (tmem s) (tar_end s) pre name (tar_address s);
        case r of None \<Rightarrow> Some (0, s)
        | Some (pos, isdir) \<Rightarrow>
            if \<not> fst (kmalloc_ok s) then Some (0, snd (kmalloc_ok s))
            else if isdir then
              (let (p, s1) = new_node (zero_node\<lparr>vname := name, vflags := FS_DIRECTORY, finddir_fn := Some ''tarfs_finddir'',
                               readdir_fn := Some ''tarfs_readdir'', vimpl := next_prefix s\<rparr>) s;
                   (ok, s2) = kmalloc_ok s1
               in if ok then Some (p, s2\<lparr>prefixes := (prefixes s2)(next_prefix s2 := pre @ name @ ''/''), next_prefix := next_prefix s2 + 1\<rparr>)
                  else None)
            else Some (new_node (zero_node\<lparr>vname := name, vflags := FS_FILE, vlength := parse_size (tmem s) (pos + 124),
                         read_fn := Some ''tarfs_read'', vimpl := wrap64 (pos + 512)\<rparr>) s) })"

text \<open>
  The walk of \<^verbatim>\<open>tarfs_readdir\<close>. The result is the entry name found, or the count of entries
  seen when the walk ended. A name must fit \<^verbatim>\<open>d->name[128]\<close> with its NUL.
\<close>

partial_function (option) tar_list :: "(nat \<Rightarrow> char) \<Rightarrow> nat \<Rightarrow> string \<Rightarrow> u32 \<Rightarrow> u32 \<Rightarrow> nat \<Rightarrow> (string + u32) option" where
  "tar_list m fin pre index idx pos =
     (if wrap64 (pos + 512) \<le> fin then
        Option.bind (cstr m pos) (\<lambda>f.
          if f = [] then Some (Inr idx)
          else
            (let rm = drop (length pre) f; token = next_token rm; nxt = wrap64 (pos + tar_step (parse_size m (pos + 124)))
             in if prefix pre f \<and> rm \<noteq> [] \<and> (rm = token \<or> length rm = length token + 1)
                then if idx = index then (if length token < 128 then Some (Inl token) else None)
                     else tar_list m fin pre index (idx + 1) nxt
                else tar_list m fin pre index idx nxt))
      else Some (Inr idx))"

definition tarfs_readdir :: "ptr \<Rightarrow> u32 \<Rightarrow> 'a tarfs_scheme \<Rightarrow> (dirent option \<times> 'a tarfs_scheme) option" where
  "tarfs_readdir node index s = do {
     r \<leftarrow> tar_list (tmem s) (tar_end s) (node_prefix (vimpl (nodes s node)) s) index 0 (tar_address s);
     let (ok, s1) = kmalloc_ok s;
     let mk = (\<lambda>n i. Some (if ok then Some \<lparr>dname = n, dino = i\<rparr> else None, s1));
     case r of Inl token \<Rightarrow> mk token index
     | Inr idx \<Rightarrow> if idx = index then mk ''dev'' idx
                   else if idx + 1 = index then mk ''proc'' (idx + 1)
                   else Some (None, s) }"

definition tarfs_init :: "nat \<Rightarrow> nat \<Rightarrow> 'a tarfs_scheme \<Rightarrow> 'a tarfs_scheme" where
  "tarfs_init address sz s =
     (let s0 = s\<lparr>tar_address := address, tar_size := sz\<rparr>;
          (p, s1) = new_node (zero_node\<lparr>vname := ''/'', vflags := FS_DIRECTORY, finddir_fn := Some ''tarfs_finddir'',
                       readdir_fn := Some ''tarfs_readdir'', vimpl := 0\<rparr>) s0;
          s2 = s1\<lparr>tarfs_root_node := p\<rparr>
      in if p = 0 then s2 else s2\<lparr>fs_root := p\<rparr>)"


section \<open>Octal sizes\<close>

definition octal_value :: "nat list \<Rightarrow> nat" where
  "octal_value ds = foldl (\<lambda>v d. v * 8 + d) 0 ds"

definition octal_char :: "nat \<Rightarrow> char" where
  "octal_char d = ''01234567'' ! d"

lemma digit_octal:
  assumes "d < 8"
  shows "digit (octal_char d) = of_nat d"
proof -
  have "digit CHR ''0'' = 0" "digit CHR ''1'' = 1" "digit CHR ''2'' = 2" "digit CHR ''3'' = 3"
    "digit CHR ''4'' = 4" "digit CHR ''5'' = 5" "digit CHR ''6'' = 6" "digit CHR ''7'' = 7"
    by (simp_all add: digit_def of_char_def)
  moreover have "d \<in> {0, 1, 2, 3, 4, 5, 6, 7}" using assms by auto
  ultimately show ?thesis by (auto simp: octal_char_def)
qed

text \<open>
  Size fields are read correctly: for a field of eleven octal digits \<open>parse_size\<close>, which sums
  digit by digit from the right, gives the number the digits denote, modulo \<open>2\<^sup>3\<^sup>2\<close>; eleven digits
  hold up to 33 bits.
\<close>

theorem parse_size_octal:
  assumes "length ds = 11" "\<forall>d \<in> set ds. d < 8" "\<And>j. j < 11 \<Longrightarrow> m (a + j) = octal_char (ds ! j)"
  shows "parse_size m a = of_nat (octal_value ds)"
proof -
  have d: "digit (m (a + j)) = of_nat (ds ! j)" if "j < 11" for j
    using assms that by (simp add: digit_octal)
  have r: "rev [0..<11] = [10, 9, 8, 7, 6, 5, 4, 3, 2, 1, 0 :: nat]" by (simp add: upt_rec)
  have "ds = map ((!) ds) [0..<11]" using assms(1) by (metis map_nth)
  also have "[0..<11] = rev [10, 9, 8, 7, 6, 5, 4, 3, 2, 1, 0]" using r by (metis rev_rev_ident)
  finally have "octal_value ds = foldl (\<lambda>v d. v * 8 + d) 0 (map ((!) ds) [0, 1, 2, 3, 4, 5, 6, 7, 8, 9, 10])"
    by (simp add: octal_value_def)
  then show ?thesis unfolding parse_size_def r by (simp add: d [of 0, simplified] d [of 1, simplified] d [of 2, simplified] d algebra_simps)
qed

theorem parse_size_octal_witness: "parse_size (\<lambda>_. CHR ''7'') 0 = of_nat (octal_value (replicate 11 7))"
proof -
  have "CHR ''7'' = octal_char 7" by (simp add: octal_char_def)
  then show ?thesis using parse_size_octal [of "replicate 11 7" "\<lambda>_. CHR ''7''" 0] by simp
qed

section \<open>Walking a well-formed archive\<close>

text \<open>
  An archive whose headers, from address \<open>a\<close>, are the entries \<open>es\<close> (position, name and size), ended
  by an empty name or by the end of the archive, all below the last 512 bytes of the address space.
\<close>

fun archive :: "(nat \<Rightarrow> char) \<Rightarrow> nat \<Rightarrow> nat \<Rightarrow> (nat \<times> string) list \<Rightarrow> bool" where
  "archive m fin a [] \<longleftrightarrow> a + 512 < 2 ^ 64 \<and> (a + 512 > fin \<or> m a = NUL)"
| "archive m fin a ((pos, f) # es) \<longleftrightarrow> pos = a \<and> a + 512 < 2 ^ 64 \<and> a + 512 \<le> fin \<and> f \<noteq> [] \<and> cstr m a = Some f \<and> length f < 100
     \<and> archive m fin (a + tar_step (parse_size m (a + 124))) es"

definition entry_matches :: "string \<Rightarrow> string \<Rightarrow> string \<Rightarrow> bool" where
  "entry_matches pre name f \<longleftrightarrow> prefix pre f \<and> next_token (drop (length pre) f) = name"

lemma cstr_empty: "m a = NUL \<Longrightarrow> cstr m a = Some []"
  by (simp add: cstr.simps)

lemma archive_start: "archive m fin a es \<Longrightarrow> wrap64 a = a \<and> wrap64 (a + 512) = a + 512"
  by (cases "(m, fin, a, es)" rule: archive.cases) (auto simp: wrap64_def)

lemma archive_pos: "archive m fin a es \<Longrightarrow> (pos, f) \<in> set es \<Longrightarrow> wrap64 (pos + 512) = pos + 512"
  by (induction m fin a es rule: archive.induct) (auto simp: wrap64_def)

lemma tar_find_archive:
  "archive m fin a es \<Longrightarrow> tar_find m fin pre name a =
     Some (map_option (\<lambda>(pos, f). (pos, name \<noteq> drop (length pre) f)) (find (\<lambda>(pos, f). entry_matches pre name f) es))"
proof (induction es arbitrary: a)
  case Nil
  then show ?case using archive_start [OF Nil] by (cases "a + 512 \<le> fin") (auto simp: tar_find.simps [of m fin] cstr_empty)
next
  case (Cons x es)
  obtain pos f where x: "x = (pos, f)" by (cases x)
  have "length (next_token (drop (length pre) f)) \<le> length f"
    unfolding next_token_def by (rule order_trans [OF length_takeWhile_le]) simp
  moreover have "wrap64 (a + tar_step (parse_size m (a + 124))) = a + tar_step (parse_size m (a + 124))"
    using Cons.prems x archive_start by auto
  ultimately show ?case using Cons x archive_start [OF Cons.prems] unfolding entry_matches_def
    by (subst tar_find.simps) (auto simp: Let_def)
qed

text \<open>
  The walk does not end on a header whose size makes the 32-bit step zero.
\<close>

lemma tar_step_zero: "tar_step 0xFFFFFE00 = 0"
  by (simp add: tar_step_def)

lemma tar_find_stuck:
  assumes "wrap64 (a + 512) \<le> fin" "a < 2 ^ 64" "cstr m a = Some f" "f \<noteq> []" "\<not> entry_matches pre name f" "parse_size m (a + 124) = 0xFFFFFE00"
  shows "tar_find m fin pre name a = None"
proof (rule ccontr)
  assume "tar_find m fin pre name a \<noteq> None"
  then obtain r where r: "tar_find m fin pre name a = Some r" by blast
  have "\<not> (m = m \<and> fin = fin \<and> pre = pre \<and> name = name \<and> a = a)"
  proof (rule tar_find.raw_induct [OF _ r, where P = "\<lambda>m' fin' pre' name' a' _.
      \<not> (m' = m \<and> fin' = fin \<and> pre' = pre \<and> name' = name \<and> a' = a)"])
    fix tf m' fin' pre' name' a' y
    assume ih: "\<And>m' fin' pre' name' a' y. tf m' fin' pre' name' a' = Some y \<Longrightarrow>
        \<not> (m' = m \<and> fin' = fin \<and> pre' = pre \<and> name' = name \<and> a' = a)"
      and body: "(if wrap64 (a' + 512) \<le> fin' then Option.bind (cstr m' a') (\<lambda>f. if f = [] then Some None
          else if prefix pre' f then (let rm = drop (length pre') f; token = next_token rm
             in if length token \<ge> 100 then None else if token = name' then Some (Some (a', token \<noteq> rm))
                else tf m' fin' pre' name' (wrap64 (a' + tar_step (parse_size m' (a' + 124)))))
          else tf m' fin' pre' name' (wrap64 (a' + tar_step (parse_size m' (a' + 124))))) else Some None) = Some y"
    show "\<not> (m' = m \<and> fin' = fin \<and> pre' = pre \<and> name' = name \<and> a' = a)"
    proof
      assume eq: "m' = m \<and> fin' = fin \<and> pre' = pre \<and> name' = name \<and> a' = a"
      then have "tf m fin pre name a = Some y"
        using body assms tar_step_zero by (auto simp: wrap64_def entry_matches_def Let_def split: if_splits)
      from ih [OF this] show False by simp
    qed
  qed
  then show False using r by blast
qed

end
