(* ===== verification/Fs_Layer.thy ===== *)
theory Fs_Layer
  imports Tarfs
begin

text \<open>
  The file systems together: the functions that node pointers name, for \<open>Tmpfs\<close> and \<open>Tarfs\<close>, and
  path resolution of \<open>Vfs\<close> over them. The record \<open>D\<close> stands for the functions of the other file
  systems (\<^verbatim>\<open>devfs\<close>, \<^verbatim>\<open>procfs\<close>, \<^verbatim>\<open>sysfs\<close>).
\<close>

declare tar_end_def [simp]

definition no_calls :: "'s fs_calls" where
  "no_calls = \<lparr>fn_read = (\<lambda>f n o' z s. None), fn_write = (\<lambda>f n o' b s. None), fn_open = (\<lambda>f n s. None),
     fn_close = (\<lambda>f n s. None), fn_ioctl = (\<lambda>f n q a s. None), fn_readdir = (\<lambda>f n i s. None),
     fn_finddir = (\<lambda>f n nm s. None), fn_mkdir = (\<lambda>f n nm s. None), fn_create = (\<lambda>f n nm m s. None),
     fn_rmdir = (\<lambda>f n nm s. None), fn_unlink = (\<lambda>f n nm s. None)\<rparr>"

definition kernel_calls :: "('a tarfs_scheme) fs_calls \<Rightarrow> ('a tarfs_scheme) fs_calls" where
  "kernel_calls D = D\<lparr>
     fn_read := (\<lambda>f. if f = ''tmpfs_read'' then tmpfs_read else if f = ''tarfs_read'' then tarfs_read else fn_read D f),
     fn_write := (\<lambda>f. if f = ''tmpfs_write'' then tmpfs_write else fn_write D f),
     fn_readdir := (\<lambda>f. if f = ''tmpfs_readdir_func'' then tmpfs_readdir_func
                        else if f = ''tarfs_readdir'' then tarfs_readdir else fn_readdir D f),
     fn_finddir := (\<lambda>f. if f = ''tmpfs_finddir_func'' then tmpfs_finddir_func
                        else if f = ''tarfs_finddir'' then tarfs_finddir else fn_finddir D f),
     fn_mkdir := (\<lambda>f. if f = ''tmpfs_mkdir_func'' then tmpfs_mkdir_func else fn_mkdir D f),
     fn_create := (\<lambda>f. if f = ''tmpfs_create_func'' then tmpfs_create_func else fn_create D f),
     fn_rmdir := (\<lambda>f. if f = ''tmpfs_rmdir_func'' then tmpfs_rmdir_func else fn_rmdir D f),
     fn_unlink := (\<lambda>f. if f = ''tmpfs_unlink_func'' then tmpfs_unlink_func else fn_unlink D f)\<rparr>"

section \<open>Lookups leave the mount table alone\<close>

lemma kmalloc_ok_frame [simp]: "mount_table (snd (kmalloc_ok s)) = mount_table s"
  by (simp add: kmalloc_ok_def split: list.split)

lemma new_node_frame [simp]: "mount_table (snd (new_node n s)) = mount_table s"
  by (auto simp: new_node_def kmalloc_ok_def split: list.split)

lemma new_node_frame': "new_node n s = (q, s') \<Longrightarrow> mount_table s' = mount_table s"
  using new_node_frame [of n s] by simp

lemma make_node_frame: "tmpfs_make_vfs_node p s = Some (q, s') \<Longrightarrow> mount_table s' = mount_table s"
  by (auto simp: tmpfs_make_vfs_node_def dest: new_node_frame' split: if_splits)

lemma tmpfs_finddir_frame: "tmpfs_finddir_func p n s = Some (q, s') \<Longrightarrow> mount_table s' = mount_table s"
  by (auto simp: tmpfs_finddir_func_def Let_def bind_eq_Some_conv make_node_frame split: if_splits)

lemma tarfs_finddir_frame:
  assumes "tarfs_finddir p n s = Some (q, s')"
  shows "mount_table s' = mount_table s"
proof (cases "n = ''dev'' \<or> n = ''proc''")
  case True
  then show ?thesis using assms by (auto simp: tarfs_finddir_def)
next
  case False
  then obtain r where r: "tar_find (tmem s) (tar_end s) (node_prefix (vimpl (nodes s p)) s) n (tar_address s) = Some r"
    using assms by (auto simp: tarfs_finddir_def Let_def bind_eq_Some_conv)
  show ?thesis
  proof (cases r)
    case None
    then show ?thesis using assms r False by (simp add: tarfs_finddir_def Let_def)
  next
    case (Some x)
    then show ?thesis
      using assms r False by (cases x) (auto simp: tarfs_finddir_def Let_def case_prod_beta prod_eq_iff split: if_splits)
  qed
qed

lemma kernel_finddir: "fn_finddir (kernel_calls D) f = (if f = ''tmpfs_finddir_func'' then tmpfs_finddir_func
    else if f = ''tarfs_finddir'' then tarfs_finddir else fn_finddir D f)"
  by (simp add: kernel_calls_def)

lemma kernel_frame: "fs_frame D \<Longrightarrow> fs_frame (kernel_calls D)"
  unfolding fs_frame_def kernel_finddir by (simp add: tmpfs_finddir_frame tarfs_finddir_frame)

interpretation kc: fs_frame "kernel_calls (no_calls :: ('a tarfs_scheme) fs_calls)"
  by (rule kernel_frame) (simp add: fs_frame_def no_calls_def)

section \<open>Lookups are safe on well-formed file systems\<close>

text \<open>
  Every directory node belongs to \<open>Tmpfs\<close>, and then points to a live entry, or to \<open>Tarfs\<close>; the
  tree and the archive are well formed; allocations succeed.
\<close>

definition dir_node_ok :: "'a tarfs_scheme \<Rightarrow> ptr \<Rightarrow> bool" where
  "dir_node_ok s p \<longleftrightarrow> (\<forall>f. is_dir (vflags (nodes s p)) \<and> finddir_fn (nodes s p) = Some f \<longrightarrow>
     (f = ''tmpfs_finddir_func'' \<and> ents s (vimpl (nodes s p)) \<noteq> None) \<or> f = ''tarfs_finddir'')"

definition kfs_inv :: "'a tarfs_scheme \<Rightarrow> bool" where
  "kfs_inv s \<longleftrightarrow> tree_ok s (tmpfs_root_entry s) \<and> plan s = [] \<and> (\<forall>p. p \<noteq> 0 \<longrightarrow> dir_node_ok s p)
     \<and> (\<exists>es. archive (tmem s) (tar_end s) (tar_address s) es)"

lemma kfs_new_node:
  assumes inv: "kfs_inv s"
    and n: "is_dir (vflags n) \<Longrightarrow> finddir_fn n = None \<or> (finddir_fn n = Some ''tmpfs_finddir_func'' \<and> ents s (vimpl n) \<noteq> None)
              \<or> finddir_fn n = Some ''tarfs_finddir''"
  shows "kfs_inv (snd (new_node n s))"
proof -
  have "dir_node_ok (s\<lparr>nodes := (nodes s)(next_node s := n), next_node := next_node s + 1\<rparr>) p" if "p \<noteq> 0" for p
    using inv n that by (auto simp: kfs_inv_def dir_node_ok_def split: option.splits)
  moreover have "snd (new_node n s) = s\<lparr>nodes := (nodes s)(next_node s := n), next_node := next_node s + 1\<rparr>"
    using inv by (simp add: new_node_def kmalloc_ok_def kfs_inv_def)
  ultimately show ?thesis using inv by (simp add: kfs_inv_def tree_ok_def ent_at_def nm_def [abs_def])
qed

lemma kfs_make_node:
  assumes inv: "kfs_inv s" and p: "p = 0 \<or> ents s p \<noteq> None"
  shows "\<exists>q s'. tmpfs_make_vfs_node p s = Some (q, s') \<and> kfs_inv s'"
proof (cases "p = 0")
  case True
  then show ?thesis using inv by (simp add: tmpfs_make_vfs_node_def)
next
  case False
  then obtain e where e: "ents s p = Some e" using p by blast
  have "kfs_inv (snd (new_node (node_of_entry p e) s))"
    by (rule kfs_new_node [OF inv]) (auto simp: node_of_entry_def Let_def zero_node_def e)
  moreover have "fst (kmalloc_ok s)" using inv by (simp add: kfs_inv_def kmalloc_ok_def)
  ultimately show ?thesis using False e by (simp add: tmpfs_make_vfs_node_def prod_eq_iff)
qed

lemma tmpfs_finddir_safe:
  assumes inv: "kfs_inv s" and e: "ents s (vimpl (nodes s p)) \<noteq> None"
  shows "\<exists>q s'. tmpfs_finddir_func p n s = Some (q, s') \<and> kfs_inv s'"
proof -
  let ?d = "vimpl (nodes s p)"
  have t: "tree_ok s (tmpfs_root_entry s)" using inv by (simp add: kfs_inv_def)
  obtain d where d: "ents s ?d = Some d" using e by blast
  have nz: "?d \<noteq> 0" using tree_entry(1) [OF t d] .
  have "\<exists>c. tmpfs_find_child ?d n s = Some c \<and> (c = 0 \<or> ents s c \<noteq> None)"
  proof (cases "eflags d = FS_DIRECTORY")
    case True
    obtain c where c: "tmpfs_find_child ?d n s = Some c" "c \<noteq> 0 \<longrightarrow> c \<in> set (echildren d) \<and> nm s c = Some n"
      by (rule find_child_ok [OF t d True, of n])
    then show ?thesis by (auto simp: nm_def)
  next
    case False
    then have "eflags d = FS_FILE" using tree_entry(3) [OF t d] by (auto simp: ent_at_def ent_ok_def)
    then show ?thesis using nz d by (simp add: tmpfs_find_child_def)
  qed
  then obtain c where c: "tmpfs_find_child ?d n s = Some c" "c = 0 \<or> ents s c \<noteq> None" by blast
  have par: "eparent d = 0 \<or> ents s (eparent d) \<noteq> None"
  proof (cases "?d = tmpfs_root_entry s")
    case True
    obtain r where "ents s (tmpfs_root_entry s) = Some r" "eparent r = 0" by (rule tree_root [OF t])
    then show ?thesis using True d by simp
  next
    case False
    then show ?thesis using tree_entry(3) [OF t d] by (auto simp: ent_at_def)
  qed
  show ?thesis
    using kfs_make_node [OF inv, of c] kfs_make_node [OF inv, of "if eparent d \<noteq> 0 then eparent d else ?d"] c d nz par
    by (auto simp: tmpfs_finddir_func_def Let_def)
qed

lemma tarfs_finddir_safe:
  assumes inv: "kfs_inv s"
  shows "\<exists>q s'. tarfs_finddir p n s = Some (q, s') \<and> kfs_inv s'"
proof (cases "n = ''dev'' \<or> n = ''proc''")
  case True
  then show ?thesis using inv by (auto simp: tarfs_finddir_def)
next
  case False
  let ?pre = "node_prefix (vimpl (nodes s p)) s"
  have pl: "plan s = []" using inv by (simp add: kfs_inv_def)
  obtain r where r: "tar_find (tmem s) (tar_end s) ?pre n (tar_address s) = Some r"
    using inv tar_find_archive unfolding kfs_inv_def by blast
  have reg: "kfs_inv (snd (new_node (zero_node\<lparr>vname := n, vflags := FS_FILE, vlength := l, read_fn := Some ''tarfs_read'', vimpl := a\<rparr>) s))" for l a
    by (rule kfs_new_node [OF inv]) simp
  define dn where "dn = zero_node\<lparr>vname := n, vflags := FS_DIRECTORY, finddir_fn := Some ''tarfs_finddir'', readdir_fn := Some ''tarfs_readdir'', vimpl := next_prefix s\<rparr>"
  have "kfs_inv (snd (new_node dn s))" by (rule kfs_new_node [OF inv]) (simp add: dn_def)
  then have dir: "kfs_inv ((snd (new_node dn s))\<lparr>prefixes := ps, next_prefix := np\<rparr>)" for ps np
    by (simp add: kfs_inv_def dir_node_ok_def tree_ok_def ent_at_def nm_def [abs_def])
  have k: "kmalloc_ok s = (True, s)" "kmalloc_ok (snd (new_node m s)) = (True, snd (new_node m s))" for m
    using pl by (simp_all add: kmalloc_ok_def new_node_def)
  show ?thesis
  proof (cases r)
    case None
    then show ?thesis using inv r False by (simp add: tarfs_finddir_def Let_def)
  next
    case (Some x)
    then show ?thesis
      using r False k reg dir by (cases x) (auto simp: tarfs_finddir_def Let_def case_prod_beta dn_def [symmetric] prod_eq_iff)
  qed
qed

interpretation ks: fs_safe "kernel_calls (no_calls :: ('a tarfs_scheme) fs_calls)" kfs_inv
proof
  fix s :: "'a tarfs_scheme" and p f n
  assume inv: "kfs_inv s" "p \<noteq> 0" "is_dir (vflags (nodes s p))" "finddir_fn (nodes s p) = Some f"
  then have "(f = ''tmpfs_finddir_func'' \<and> ents s (vimpl (nodes s p)) \<noteq> None) \<or> f = ''tarfs_finddir''"
    unfolding kfs_inv_def dir_node_ok_def by blast
  then show "\<exists>q s'. fn_finddir (kernel_calls no_calls) f p n s = Some (q, s') \<and> kfs_inv s'"
    using tmpfs_finddir_safe [OF inv(1), of p n] tarfs_finddir_safe [OF inv(1), of p n] by (auto simp: kernel_calls_def)
qed

section \<open>Path resolution\<close>

text \<open>
  C6. Path resolution is the walk of the components, mount points, \<^verbatim>\<open>.\<close> and \<^verbatim>\<open>..\<close> included: for every absolute or relative path whose
  normalised form has at most 127 characters, \<^verbatim>\<open>vfs_resolve_path\<close> with its running \<^verbatim>\<open>full_path\<close>, its \<^verbatim>\<open>component\<close> buffer and repeated
  slashes gives what \<open>walk_path\<close> gives for the list of components: the node reached and, when the last component is a plain name,
  that name, not looked up. The other file systems' lookups must leave the mount table alone.
\<close>

theorem vfs_resolve_refines:
  assumes D: "\<And>f p n s q s'. fn_finddir D f p n s = Some (q, s') \<Longrightarrow> mount_table s' = mount_table s"
    and len: "length (join_comps (path_comps path)) \<le> 127"
  shows "vfs_resolve_path (kernel_calls D) path start s =
    (if path = [] then Some ((start, None), s)
     else walk_path (kernel_calls D) (mount_points (mount_table s)) []
       (if hd path = CHR ''/'' \<or> start = 0 then fs_root s else start) (path_comps path) s)"
proof -
  have f: "fs_frame (kernel_calls D)" using kernel_frame [of D] D unfolding fs_frame_def by blast
  have walk: "resolve_loop (kernel_calls D) [] p cur s = walk_path (kernel_calls D) (mount_points (mount_table s)) [] cur (path_comps p) s"
    if "length (join_comps (path_comps p)) \<le> 127" for p cur
    using fs_frame.resolve_loop_walk [OF f, of "[]" p s "mount_points (mount_table s)" cur] that by simp
  show ?thesis
  proof (cases path)
    case (Cons c p)
    have "c = CHR ''/'' \<Longrightarrow> path_comps path = path_comps p"
      using path_comps_skip [of path] path_comps_skip [of p] by (simp add: Cons skip_slashes_def)
    then show ?thesis using walk [of p] walk [of path] len by (auto simp: Cons vfs_resolve_path_def)
  qed (simp add: vfs_resolve_path_def)
qed

text \<open>
  Resolving a path is memory-safe: on well-formed file systems every absolute path of at most
  127 characters resolves, without overrunning \<^verbatim>\<open>full_path\<close>, touching a freed entry or looping, and the
  file systems stay well formed.
\<close>

theorem vfs_resolve_safe:
  assumes "kfs_inv s" "fs_root s \<noteq> 0" "path = CHR ''/'' # p" "length path \<le> 127"
  shows "\<exists>r s'. vfs_resolve_path (kernel_calls no_calls) path start s = Some (r, s') \<and> kfs_inv s'"
proof -
  have "path_fits [] p" using assms(3,4) skip_slashes_length [of p] by (simp add: path_fits_def)
  from ks.resolve_loop_safe [OF assms(1,2) this] show ?thesis by (simp add: assms(3) vfs_resolve_path_def)
qed

section \<open>Files of the archive\<close>

text \<open>
  A file of the archive reads back as stored: on a well-formed archive, the lookup of a name in a
  directory finds the first entry with that name below the directory's prefix; if it is a file, the
  node's length is the header's size, and reading at any offset returns the bytes of the entry's data
  from there, cut off at the end of the file.
\<close>

theorem tarfs_file_contents:
  assumes ar: "archive (tmem s) (tar_end s) (tar_address s) es" and pl: "plan s = []"
    and nm: "name \<noteq> ''dev''" "name \<noteq> ''proc''"
    and hit: "find (\<lambda>(pos, f). entry_matches (node_prefix (vimpl (nodes s dir)) s) name f) es = Some (pos, f)"
    and reg: "drop (length (node_prefix (vimpl (nodes s dir)) s)) f = name"
    and rng: "unat off + unat sz < 2 ^ 32"
  defines "flen \<equiv> parse_size (tmem s) (pos + 124)"
  shows "\<exists>p s'. tarfs_finddir dir name s = Some (p, s') \<and> vlength (nodes s' p) = flen
    \<and> tarfs_read p off sz s' = Some (take (unat sz) (drop (unat off) (map (\<lambda>i. of_char (tmem s (pos + 512 + i))) [0..<unat flen])), s')"
proof -
  let ?n = "zero_node\<lparr>vname := name, vflags := FS_FILE, vlength := flen, read_fn := Some ''tarfs_read'', vimpl := pos + 512\<rparr>"
  let ?s = "s\<lparr>nodes := (nodes s)(next_node s := ?n), next_node := next_node s + 1\<rparr>"
  have "(pos, f) \<in> set es" using hit by (metis (no_types, lifting) find_Some_iff nth_mem)
  then have "tarfs_finddir dir name s = Some (next_node s, ?s)"
    using archive_pos [OF ar, of pos f] tar_find_archive [OF ar, of "node_prefix (vimpl (nodes s dir)) s" name] hit nm pl reg
    by (simp add: tarfs_finddir_def Let_def kmalloc_ok_def new_node_def flen_def)
  moreover have "tarfs_read (next_node s) off sz ?s =
    Some (take (unat sz) (drop (unat off) (map (\<lambda>i. of_char (tmem s (pos + 512 + i))) [0..<unat flen])), ?s)"
  proof (cases "off \<ge> flen")
    case True
    then show ?thesis by (simp add: tarfs_read_def Let_def zero_node_def word_le_nat_alt)
  next
    case False
    define k where "k = unat (if off + sz > flen then flen - off else sz)"
    have "unat (off + sz) = unat off + unat sz" using rng by (simp add: unat_word_ariths)
    then have k: "k = min (unat sz) (unat flen - unat off)"
      using False unat_sub [of off flen] by (auto simp: k_def word_less_nat_alt word_le_nat_alt)
    have "map (\<lambda>i. of_char (tmem s (pos + 512 + unat off + i))) [0..<k]
        = take (unat sz) (drop (unat off) (map (\<lambda>i. of_char (tmem s (pos + 512 + i)) :: u8) [0..<unat flen]))"
      by (rule nth_equalityI) (auto simp: k add.assoc)
    then show ?thesis using False by (cases "off + sz > flen") (simp_all add: tarfs_read_def Let_def zero_node_def k_def)
  qed
  ultimately show ?thesis by (simp add: zero_node_def)
qed

section \<open>A booted system\<close>

text \<open>An archive with one file, \<^verbatim>\<open>a\<close>, of three bytes.\<close>

definition tar_demo :: "nat \<Rightarrow> char" where
  "tar_demo i = (if i = 0 then CHR ''a'' else if 124 \<le> i \<and> i < 134 then CHR ''0'' else if i = 134 then CHR ''3''
     else if 512 \<le> i then CHR ''x'' else NUL)"

lemma tar_demo_size: "parse_size tar_demo 124 = 3"
proof -
  have "rev [0..<11] = [10, 9, 8, 7, 6, 5, 4, 3, 2, 1, 0 :: nat]" by (simp add: upt_rec)
  moreover have "digit CHR ''0'' = 0" "digit CHR ''3'' = 3" by (simp_all add: digit_def of_char_def)
  ultimately show ?thesis by (simp add: parse_size_def tar_demo_def)
qed

lemma tar_demo_archive: "archive tar_demo 1024 0 [(0, ''a'')]"
proof -
  have "cstr tar_demo 0 = Some ''a''" by (simp add: cstr.simps [of tar_demo] tar_demo_def)
  then show ?thesis by (simp add: tar_demo_size tar_step_def)
qed

definition kfs_blank :: tarfs where
  "kfs_blank = \<lparr>fs_root = 0, mount_table = [], nodes = (\<lambda>_. zero_node), next_node = 1, plan = [],
     ents = (\<lambda>_. None), next_ent = 1, tmpfs_next_inode = 10000, tmpfs_root_entry = 0, tmpfs_root = 0,
     tmem = tar_demo, tar_address = 0, tar_size = 0, tarfs_root_node = 0, prefixes = (\<lambda>_. []), next_prefix = 1,
     devfs_root = 0, procfs_root = 0\<rparr>"

definition kfs_boot :: tarfs where
  "kfs_boot = tarfs_init 0 1024 (tmpfs_init kfs_blank)"

lemma kfs_boot_state:
  "fs_root kfs_boot = 2" "mount_table kfs_boot = []" "plan kfs_boot = []" "vimpl (nodes kfs_boot 2) = 0"
  "tmem kfs_boot = tar_demo" "tar_address kfs_boot = 0" "tar_size kfs_boot = 1024"
  by (simp_all add: kfs_boot_def kfs_blank_def tarfs_init_def tmpfs_init_def tmpfs_create_entry_def new_node_def kmalloc_ok_def)

lemma tree_ok_cong: "ents s = ents s' \<Longrightarrow> next_ent s = next_ent s' \<Longrightarrow> tree_ok s r = tree_ok s' r"
  by (simp add: tree_ok_def ent_at_def nm_def [abs_def])

lemma kfs_boot_inv: "kfs_inv kfs_boot"
proof -
  have "tree_ok (tmpfs_init kfs_blank) 1"
    using tmpfs_init_tree [of kfs_blank]
    by (simp add: kfs_blank_def tmpfs_init_def tmpfs_create_entry_def new_node_def kmalloc_ok_def)
  moreover have "ents kfs_boot = ents (tmpfs_init kfs_blank)" "next_ent kfs_boot = next_ent (tmpfs_init kfs_blank)"
    "tmpfs_root_entry kfs_boot = 1"
    by (simp_all add: kfs_boot_def kfs_blank_def tarfs_init_def tmpfs_init_def tmpfs_create_entry_def new_node_def kmalloc_ok_def)
  ultimately have "tree_ok kfs_boot (tmpfs_root_entry kfs_boot)" using tree_ok_cong by metis
  moreover have "dir_node_ok kfs_boot p" for p
    by (simp add: dir_node_ok_def kfs_boot_def kfs_blank_def tarfs_init_def tmpfs_init_def tmpfs_create_entry_def new_node_def
        kmalloc_ok_def zero_node_def)
  moreover have "\<exists>es. archive tar_demo 1024 0 es" using tar_demo_archive by blast
  ultimately show ?thesis using kfs_boot_state by (simp add: kfs_inv_def wrap64_def)
qed

theorem vfs_resolve_refines_witness:
  "vfs_resolve_path (kernel_calls no_calls) ''//a/../b'' 0 kfs_boot =
     walk_path (kernel_calls no_calls) (\<lambda>_. 0) [] 2 [''a'', ''..'', ''b''] kfs_boot"
proof -
  have c: "path_comps ''//a/../b'' = [''a'', ''..'', ''b'']" by (simp add: path_comps.simps skip_slashes_def)
  have "mount_points (mount_table kfs_boot) = (\<lambda>_. 0)" using kfs_boot_state(1,2) by (simp add: mount_points_def fun_eq_iff)
  then show ?thesis
    using vfs_resolve_refines [of no_calls "''//a/../b''" 0 kfs_boot] kfs_boot_state(1,2) by (simp add: c no_calls_def)
qed

theorem vfs_resolve_safe_witness:
  "\<exists>r s'. vfs_resolve_path (kernel_calls no_calls) ''/a/../b'' 0 kfs_boot = Some (r, s') \<and> kfs_inv s'"
  using vfs_resolve_safe [OF kfs_boot_inv, of "''/a/../b''" "''a/../b''" 0] kfs_boot_state(1) by simp

theorem tarfs_file_contents_witness:
  "\<exists>p s'. tarfs_finddir 2 ''a'' kfs_boot = Some (p, s') \<and> vlength (nodes s' p) = 3 \<and> tarfs_read p 1 5 s' = Some ([120, 120], s')"
proof -
  have m: "entry_matches (node_prefix (vimpl (nodes kfs_boot 2)) kfs_boot) ''a'' ''a''"
    by (simp add: kfs_boot_state node_prefix_def entry_matches_def next_token_def)
  have "map (\<lambda>i. of_char (tar_demo (512 + i)) :: u8) [0..<3] = [120, 120, 120]"
    by (simp add: tar_demo_def upt_rec of_char_def)
  then show ?thesis
    using tarfs_file_contents [of kfs_boot "[(0, ''a'')]" "''a''" 2 0 "''a''" 1 5] tar_demo_archive m
    by (simp add: kfs_boot_state tar_demo_size node_prefix_def wrap64_def)
qed

end
