(* ===== verification/Security.thy ===== *)
theory Security
  imports Prelude "HOL-Library.Signed_Division"
begin

text \<open>
  Capabilities and security modules, \<^verbatim>\<open>kernel/security.c\<close>: capability sets as two 32-bit words,
  security contexts and labels, the registry of security modules and their hooks, the table of
  sandboxes, the audit ring and the permission checks built on them.

  A hook is a function of the calling process and its argument. Modules are reached through their
  addresses, since the registry compares addresses. The locks are held around the accesses to the
  tables they protect. An index outside a table is the result \<open>None\<close>.
\<close>

section \<open>Capability sets\<close>

record kernel_cap =
  cap0 :: u32
  cap1 :: u32

definition cap_valid :: "int \<Rightarrow> bool" where
  "cap_valid c \<longleftrightarrow> 0 \<le> c \<and> c \<le> 40"

definition cap_raise :: "int \<Rightarrow> kernel_cap \<Rightarrow> int \<times> kernel_cap" where
  "cap_raise c k =
     (if \<not> cap_valid c then (- EINVAL, k)
      else if c < 32 then (0, k\<lparr>cap0 := cap0 k OR push_bit (nat c) 1\<rparr>)
      else (0, k\<lparr>cap1 := cap1 k OR push_bit (nat (c - 32)) 1\<rparr>))"

definition cap_lower :: "int \<Rightarrow> kernel_cap \<Rightarrow> int \<times> kernel_cap" where
  "cap_lower c k =
     (if \<not> cap_valid c then (- EINVAL, k)
      else if c < 32 then (0, k\<lparr>cap0 := cap0 k AND NOT (push_bit (nat c) 1)\<rparr>)
      else (0, k\<lparr>cap1 := cap1 k AND NOT (push_bit (nat (c - 32)) 1)\<rparr>))"

definition cap_isclear :: "kernel_cap \<Rightarrow> int \<Rightarrow> bool" where
  "cap_isclear k c =
     (if \<not> cap_valid c then True
      else if c < 32 then cap0 k AND push_bit (nat c) 1 = 0
      else cap1 k AND push_bit (nat (c - 32)) 1 = 0)"

definition cap_isfull :: "kernel_cap \<Rightarrow> bool" where
  "cap_isfull k \<longleftrightarrow> cap0 k = NOT 0 \<and> cap1 k = NOT 0"

definition cap_clear :: "kernel_cap \<Rightarrow> kernel_cap" where
  "cap_clear k = k\<lparr>cap0 := 0, cap1 := 0\<rparr>"

definition cap_set_full :: "kernel_cap \<Rightarrow> kernel_cap" where
  "cap_set_full k = k\<lparr>cap0 := NOT 0, cap1 := NOT 0\<rparr>"

definition cap_and :: "kernel_cap \<Rightarrow> kernel_cap \<Rightarrow> kernel_cap" where
  "cap_and a b = \<lparr>cap0 = cap0 a AND cap0 b, cap1 = cap1 a AND cap1 b\<rparr>"

definition cap_or :: "kernel_cap \<Rightarrow> kernel_cap \<Rightarrow> kernel_cap" where
  "cap_or a b = \<lparr>cap0 = cap0 a OR cap0 b, cap1 = cap1 a OR cap1 b\<rparr>"

section \<open>Security contexts and labels\<close>

record security_context =
  sc_uid :: u32
  sc_gid :: u32
  sc_euid :: u32
  sc_egid :: u32
  sc_suid :: u32
  sc_sgid :: u32
  sc_fsuid :: u32
  sc_fsgid :: u32
  cap_inheritable :: kernel_cap
  cap_permitted :: kernel_cap
  cap_effective :: kernel_cap
  cap_bset :: kernel_cap
  cap_ambient :: kernel_cap

text \<open>A pointer argument that the code checks for \<^verbatim>\<open>NULL\<close> is an \<open>option\<close>, updated in place.\<close>

definition security_context_init :: "security_context option \<Rightarrow> int \<times> security_context option" where
  "security_context_init c = (case c of None \<Rightarrow> (- EINVAL, None)
     | Some x \<Rightarrow> (0, Some (x\<lparr>sc_uid := 0, sc_gid := 0, sc_euid := 0, sc_egid := 0, sc_suid := 0, sc_sgid := 0,
         sc_fsuid := 0, sc_fsgid := 0, cap_inheritable := cap_clear (cap_inheritable x), cap_permitted := cap_clear (cap_permitted x),
         cap_effective := cap_clear (cap_effective x), cap_bset := cap_clear (cap_bset x), cap_ambient := cap_clear (cap_ambient x)\<rparr>)))"

definition security_context_copy :: "security_context option \<Rightarrow> security_context option \<Rightarrow> int \<times> security_context option" where
  "security_context_copy dst src = (if dst = None \<or> src = None then (- EINVAL, dst) else (0, src))"

definition security_context_setuid :: "u32 \<Rightarrow> security_context option \<Rightarrow> int \<times> security_context option" where
  "security_context_setuid u c = (case c of None \<Rightarrow> (- EINVAL, None) | Some x \<Rightarrow> (0, Some (x\<lparr>sc_uid := u\<rparr>)))"

definition security_context_setgid :: "u32 \<Rightarrow> security_context option \<Rightarrow> int \<times> security_context option" where
  "security_context_setgid g c = (case c of None \<Rightarrow> (- EINVAL, None) | Some x \<Rightarrow> (0, Some (x\<lparr>sc_gid := g\<rparr>)))"

definition security_context_seteuid :: "u32 \<Rightarrow> security_context option \<Rightarrow> int \<times> security_context option" where
  "security_context_seteuid u c = (case c of None \<Rightarrow> (- EINVAL, None) | Some x \<Rightarrow> (0, Some (x\<lparr>sc_euid := u, sc_fsuid := u\<rparr>)))"

definition security_context_setegid :: "u32 \<Rightarrow> security_context option \<Rightarrow> int \<times> security_context option" where
  "security_context_setegid g c = (case c of None \<Rightarrow> (- EINVAL, None) | Some x \<Rightarrow> (0, Some (x\<lparr>sc_egid := g, sc_fsgid := g\<rparr>)))"

definition security_context_has_cap :: "security_context option \<Rightarrow> int \<Rightarrow> bool" where
  "security_context_has_cap c cap = (case c of None \<Rightarrow> False
     | Some x \<Rightarrow> if \<not> cap_valid cap then False
                 else if cap < 32 then cap0 (cap_effective x) AND push_bit (nat cap) 1 \<noteq> 0
                 else cap1 (cap_effective x) AND push_bit (nat (cap - 32)) 1 \<noteq> 0)"

text \<open>A field filled by \<^verbatim>\<open>strncpy(f, s, 16)\<close>: at most 16 characters, none of them a terminator if all 16 are used.\<close>

record security_label =
  luser :: string
  lrole :: string
  ltype :: string
  llevel :: string

definition sec_label_init :: "string option \<Rightarrow> string option \<Rightarrow> string option \<Rightarrow> string option \<Rightarrow> security_label option \<Rightarrow> security_label option" where
  "sec_label_init user role type level l = map_option (\<lambda>_.
     \<lparr>luser = take 16 (case user of None \<Rightarrow> ''system_u'' | Some s \<Rightarrow> s), lrole = take 16 (case role of None \<Rightarrow> ''object_r'' | Some s \<Rightarrow> s),
      ltype = take 16 (case type of None \<Rightarrow> ''unlabeled_t'' | Some s \<Rightarrow> s), llevel = take 16 (case level of None \<Rightarrow> ''s0'' | Some s \<Rightarrow> s)\<rparr>) l"

definition sec_label_transition :: "security_label option \<Rightarrow> security_label option \<Rightarrow> security_label option \<Rightarrow> int \<times> security_label option" where
  "sec_label_transition new old file = (case (new, old) of
     (Some n, Some o') \<Rightarrow> (0, Some (case file of
        Some f \<Rightarrow> \<lparr>luser = take 16 (luser f), lrole = take 16 (lrole f), ltype = take 16 (ltype f), llevel = take 16 (llevel o')\<rparr>
      | None \<Rightarrow> o'))
   | _ \<Rightarrow> (- EINVAL, new))"

section \<open>State\<close>

text \<open>The fields of \<^verbatim>\<open>struct process\<close> that the checks use.\<close>

record cred =
  cpid :: u32
  cuid :: u32
  cgid :: u32
  ceuid :: u32
  cegid :: u32

type_synonym hook = "cred option \<Rightarrow> u64 \<Rightarrow> int"

abbreviation (input) LSM_CONTINUE :: int where "LSM_CONTINUE \<equiv> 0"
abbreviation (input) LSM_ALLOW :: int where "LSM_ALLOW \<equiv> 1"
abbreviation (input) LSM_DENY :: int where "LSM_DENY \<equiv> 2"
abbreviation (input) LSM_ERROR :: int where "LSM_ERROR \<equiv> 3"

abbreviation (input) HOOK_FILE_PERMISSION :: nat where "HOOK_FILE_PERMISSION \<equiv> 0"
abbreviation (input) HOOK_TASK_KILL :: nat where "HOOK_TASK_KILL \<equiv> 2"
abbreviation (input) HOOK_CAPABLE :: nat where "HOOK_CAPABLE \<equiv> 8"
abbreviation (input) HOOK_SANDBOX_ENTER :: nat where "HOOK_SANDBOX_ENTER \<equiv> 9"

record lsm_module =
  lname :: string
  hooks :: "nat \<Rightarrow> hook option"
  enabled :: bool

record sandbox =
  sbid :: int
  sbname :: string
  sbflags :: u32
  cap_bound :: kernel_cap
  restricted :: "nat \<Rightarrow> u64"
  sbrefcount :: int

record audit_entry =
  atimestamp :: u64
  apid :: int
  aevent :: int
  aresult :: int
  adetail :: string

text \<open>The registered modules are the first \<^verbatim>\<open>lsm_module_count\<close> pointers of the table.\<close>

record security =
  lsm_modules :: "nat list"
  mods :: "nat \<Rightarrow> lsm_module"
  sandboxes :: "nat \<Rightarrow> sandbox option"
  sandbox_count :: int
  sandbox_next_id :: int
  audit_buffer :: "nat \<Rightarrow> audit_entry"
  audit_head :: nat
  audit_count :: nat

section \<open>Audit log\<close>

definition audit_log :: "int \<Rightarrow> int \<Rightarrow> int \<Rightarrow> string option \<Rightarrow> security \<Rightarrow> security" where
  "audit_log pid event result detail s =
     s\<lparr>audit_buffer := (audit_buffer s)(audit_head s := \<lparr>atimestamp = 0, apid = pid, aevent = event, aresult = result,
          adetail = take 80 (case detail of None \<Rightarrow> [] | Some d \<Rightarrow> d)\<rparr>),
       audit_head := (audit_head s + 1) mod 256,
       audit_count := (if audit_count s < 256 then audit_count s + 1 else audit_count s)\<rparr>"

text \<open>The entries stored in the caller's buffer; the result is their number, or \<^verbatim>\<open>-EINVAL\<close>.\<close>

definition audit_get_entries :: "bool \<Rightarrow> int \<Rightarrow> security \<Rightarrow> int \<times> audit_entry list" where
  "audit_get_entries buf mx s =
     (if \<not> buf \<or> mx \<le> 0 then (- EINVAL, [])
      else let n = (if int (audit_count s) < mx then audit_count s else nat mx);
               start = (audit_head s + 256 - audit_count s) mod 256
           in (int n, map (\<lambda>i. audit_buffer s ((start + i) mod 256)) [0..<n]))"

section \<open>Security modules\<close>

definition lsm_register :: "nat \<Rightarrow> security \<Rightarrow> int \<times> security" where
  "lsm_register m s =
     (if m = 0 \<or> length (lsm_modules s) \<ge> 16 then (- ENOMEM, s) else (0, s\<lparr>lsm_modules := lsm_modules s @ [m]\<rparr>))"

fun unregister_at :: "nat \<Rightarrow> nat list \<Rightarrow> nat list option" where
  "unregister_at m [] = None"
| "unregister_at m (x # xs) = (if x = m then Some (if xs = [] then [] else last xs # butlast xs) else map_option (Cons x) (unregister_at m xs))"

definition lsm_unregister :: "nat \<Rightarrow> security \<Rightarrow> int \<times> security" where
  "lsm_unregister m s =
     (if m = 0 then (- EINVAL, s)
      else case unregister_at m (lsm_modules s) of None \<Rightarrow> (- ENOENT, s) | Some ms \<Rightarrow> (0, s\<lparr>lsm_modules := ms\<rparr>))"

fun hook_loop :: "nat \<Rightarrow> cred option \<Rightarrow> u64 \<Rightarrow> lsm_module list \<Rightarrow> int option" where
  "hook_loop h p a [] = None"
| "hook_loop h p a (m # ms) =
     (if \<not> enabled m then hook_loop h p a ms
      else case hooks m h of None \<Rightarrow> hook_loop h p a ms
      | Some f \<Rightarrow> if f p a = LSM_DENY \<or> f p a = LSM_ERROR then Some (f p a) else hook_loop h p a ms)"

definition lsm_hook_invoke :: "nat \<Rightarrow> cred option \<Rightarrow> u64 \<Rightarrow> security \<Rightarrow> int \<times> security" where
  "lsm_hook_invoke h p a s =
     (case hook_loop h p a (map (mods s) (lsm_modules s)) of
        Some r \<Rightarrow> (r, audit_log (case p of None \<Rightarrow> - 1 | Some c \<Rightarrow> sint (cpid c)) (int h) r (Some ''LSM denied'') s)
      | None \<Rightarrow> (LSM_ALLOW, s))"

definition default_lsm_capable :: hook where
  "default_lsm_capable p a = LSM_CONTINUE"

definition default_cap_lsm :: lsm_module where
  "default_cap_lsm = \<lparr>lname = ''capability'', hooks = (\<lambda>h. if h = HOOK_CAPABLE then Some default_lsm_capable else None), enabled = True\<rparr>"

text \<open>The static module \<^verbatim>\<open>default_cap_lsm\<close> is at address 1.\<close>

definition security_init :: "security \<Rightarrow> security" where
  "security_init s =
     snd (lsm_register 1 (s\<lparr>lsm_modules := [], mods := (mods s)(1 := default_cap_lsm), sandboxes := (\<lambda>_. None), sandbox_count := 0,
       sandbox_next_id := 1, audit_head := 0, audit_count := 0\<rparr>))"

section \<open>Sandboxes\<close>

text \<open>\<^verbatim>\<open>sandbox_id % SECURITY_MAX_SANDBOXES\<close> of a C \<^verbatim>\<open>int\<close>; a negative remainder is no index.\<close>

definition slot :: "int \<Rightarrow> nat option" where
  "slot i = (if 0 \<le> i smod 64 then Some (nat (i smod 64)) else None)"

definition sandbox_create :: "string option \<Rightarrow> u32 \<Rightarrow> kernel_cap option \<Rightarrow> bool \<Rightarrow> security \<Rightarrow> (int \<times> security) option" where
  "sandbox_create name flags bound mem s =
     (if sandbox_count s \<ge> 64 then Some (- ENOMEM, s)
      else if \<not> mem then Some (- ENOMEM, s)
      else let i = sandbox_next_id s;
               sb = \<lparr>sbid = i, sbname = take 64 (case name of None \<Rightarrow> ''unnamed'' | Some n \<Rightarrow> n), sbflags = flags,
                     cap_bound = (case bound of None \<Rightarrow> \<lparr>cap0 = NOT 0, cap1 = NOT 0\<rparr> | Some b \<Rightarrow> b),
                     restricted = (\<lambda>_. 0), sbrefcount = 0\<rparr>
           in map_option (\<lambda>k. (i, s\<lparr>sandbox_next_id := i + 1, sandboxes := (sandboxes s)(k \<mapsto> sb),
                                   sandbox_count := sandbox_count s + 1\<rparr>)) (slot i))"

definition sandbox_lookup :: "int \<Rightarrow> security \<Rightarrow> sandbox option option" where
  "sandbox_lookup i s = map_option (\<lambda>k. case sandboxes s k of None \<Rightarrow> None | Some sb \<Rightarrow> if sbid sb \<noteq> i then None else Some sb) (slot i)"

definition sandbox_get :: "int \<Rightarrow> security \<Rightarrow> sandbox option option" where
  "sandbox_get i s = sandbox_lookup i s"

definition sandbox_attach :: "int \<Rightarrow> cred option \<Rightarrow> u64 \<Rightarrow> security \<Rightarrow> (int \<times> security) option" where
  "sandbox_attach i p arg s =
     (if p = None then Some (- EINVAL, s)
      else case sandbox_lookup i s of None \<Rightarrow> None
      | Some None \<Rightarrow> Some (- ENOENT, s)
      | Some (Some sb) \<Rightarrow>
          let s1 = s\<lparr>sandboxes := (sandboxes s)(the (slot i) \<mapsto> sb\<lparr>sbrefcount := sbrefcount sb + 1\<rparr>)\<rparr>
          in Some (0, snd (lsm_hook_invoke HOOK_SANDBOX_ENTER p arg s1)))"

definition sandbox_detach :: "cred option \<Rightarrow> int" where
  "sandbox_detach p = (if p = None then - EINVAL else 0)"

definition sandbox_destroy :: "int \<Rightarrow> security \<Rightarrow> (int \<times> security) option" where
  "sandbox_destroy i s =
     (case sandbox_lookup i s of None \<Rightarrow> None
      | Some None \<Rightarrow> Some (- ENOENT, s)
      | Some (Some sb) \<Rightarrow> Some (0, s\<lparr>sandboxes := (sandboxes s)(the (slot i) := None), sandbox_count := sandbox_count s - 1\<rparr>))"

definition sandbox_check :: "cred option \<Rightarrow> int \<Rightarrow> int" where
  "sandbox_check p n = 0"

section \<open>Permission checks\<close>

definition process_security_check_cap :: "cred option \<Rightarrow> int \<Rightarrow> u64 \<Rightarrow> security \<Rightarrow> int \<times> security" where
  "process_security_check_cap p cap arg s = (case p of None \<Rightarrow> (0, s)
     | Some c \<Rightarrow> if \<not> cap_valid cap then (0, s)
                 else if ceuid c = 0 then (1, s)
                 else (let (r, s1) = lsm_hook_invoke HOOK_CAPABLE p arg s in if r = LSM_DENY then (0, s1) else (0, s1)))"

definition process_security_check_kill :: "cred option \<Rightarrow> cred option \<Rightarrow> u64 \<Rightarrow> security \<Rightarrow> int \<times> security" where
  "process_security_check_kill p t arg s = (case (p, t) of
     (Some c, Some d) \<Rightarrow>
       if ceuid c = 0 then (0, s)
       else if ceuid c = ceuid d then (0, s)
       else let (ok, s1) = process_security_check_cap p 5 arg s
            in if ok \<noteq> 0 then (0, s1)
               else (- EPERM, audit_log (sint (cpid c)) (int HOOK_TASK_KILL) LSM_DENY (Some ''kill denied: no CAP_KILL'') s1)
   | _ \<Rightarrow> (- EINVAL, s))"

definition inode_permission :: "nat \<Rightarrow> int \<Rightarrow> int" where
  "inode_permission inode msk = 0"

definition file_permission :: "cred option \<Rightarrow> nat \<Rightarrow> int \<Rightarrow> security \<Rightarrow> int \<times> security" where
  "file_permission cur inode msk s =
     (if inode_permission inode msk < 0 then (inode_permission inode msk, s)
      else let (r, s1) = lsm_hook_invoke HOOK_FILE_PERMISSION cur (word_of_int msk) s
           in if r = LSM_DENY then (- EACCES, s1) else (0, s1))"

definition capable :: "cred option \<Rightarrow> int \<Rightarrow> u64 \<Rightarrow> security \<Rightarrow> int \<times> security" where
  "capable cur cap arg s = (if cur = None then (0, s) else process_security_check_cap cur cap arg s)"

definition ns_capable :: "cred option \<Rightarrow> int \<Rightarrow> int \<Rightarrow> u64 \<Rightarrow> security \<Rightarrow> int \<times> security" where
  "ns_capable cur cap ns arg s = capable cur cap arg s"

definition process_security_init :: "cred option \<Rightarrow> int \<times> cred option" where
  "process_security_init p = (case p of None \<Rightarrow> (- EINVAL, None)
     | Some c \<Rightarrow> (0, Some (c\<lparr>cuid := 0, cgid := 0, ceuid := 0, cegid := 0\<rparr>)))"

definition process_security_fork :: "cred option \<Rightarrow> cred option \<Rightarrow> cred option" where
  "process_security_fork parent child = (case (parent, child) of
     (Some p, Some c) \<Rightarrow> Some (c\<lparr>cuid := cuid p, cgid := cgid p, ceuid := ceuid p, cegid := cegid p\<rparr>) | _ \<Rightarrow> child)"


section \<open>Capability sets are sets\<close>

definition cap_set :: "kernel_cap \<Rightarrow> int set" where
  "cap_set k = {c. 0 \<le> c \<and> (if c < 32 then bit (cap0 k) (nat c) else bit (cap1 k) (nat (c - 32)))}"

lemma cap_raise_set: "cap_valid c \<Longrightarrow> cap_set (snd (cap_raise c k)) = insert c (cap_set k)"
  by (auto simp: cap_set_def cap_raise_def cap_valid_def bits_simps)

lemma cap_lower_set: "cap_valid c \<Longrightarrow> cap_set (snd (cap_lower c k)) = cap_set k - {c}"
  by (auto simp: cap_set_def cap_lower_def cap_valid_def bits_simps)

lemma cap_isclear_set: "cap_valid c \<Longrightarrow> cap_isclear k c \<longleftrightarrow> c \<notin> cap_set k"
  by (auto simp: cap_set_def cap_isclear_def cap_valid_def bits_simps)

lemma cap_and_set: "cap_set (cap_and a b) = cap_set a \<inter> cap_set b"
  by (auto simp: cap_set_def cap_and_def bit_and_iff)

lemma cap_or_set: "cap_set (cap_or a b) = cap_set a \<union> cap_set b"
  by (auto simp: cap_set_def cap_or_def bit_or_iff)

lemma cap_clear_set: "cap_set (cap_clear k) = {}"
  by (auto simp: cap_set_def cap_clear_def)

text \<open>
  Capability words are sets of capabilities: for a valid capability, raising inserts it,
  lowering removes it, the tests answer membership in the effective set, and the word-wise
  operations are intersection and union; an invalid number is refused, changes no set and is never
  held.
\<close>

theorem cap_ops_refine:
  "(if cap_valid c
    then cap_raise c k = (0, snd (cap_raise c k)) \<and> cap_set (snd (cap_raise c k)) = insert c (cap_set k)
       \<and> cap_lower c k = (0, snd (cap_lower c k)) \<and> cap_set (snd (cap_lower c k)) = cap_set k - {c}
       \<and> (cap_isclear k c \<longleftrightarrow> c \<notin> cap_set k) \<and> (security_context_has_cap (Some x) c \<longleftrightarrow> c \<in> cap_set (cap_effective x))
    else cap_raise c k = (- EINVAL, k) \<and> cap_lower c k = (- EINVAL, k) \<and> cap_isclear k c \<and> \<not> security_context_has_cap (Some x) c)
   \<and> cap_set (cap_and k k') = cap_set k \<inter> cap_set k' \<and> cap_set (cap_or k k') = cap_set k \<union> cap_set k'"
proof -
  have "security_context_has_cap (Some x) c \<longleftrightarrow> cap_valid c \<and> \<not> cap_isclear (cap_effective x) c"
    by (auto simp: security_context_has_cap_def cap_isclear_def)
  then show ?thesis
    using cap_raise_set [of c k] cap_lower_set [of c k] cap_isclear_set [of c] cap_and_set cap_or_set
    by (auto simp: cap_raise_def cap_lower_def cap_isclear_def)
qed

section \<open>The audit ring is the recent history\<close>

definition audit_rep :: "security \<Rightarrow> audit_entry list \<Rightarrow> bool" where
  "audit_rep s es \<longleftrightarrow> audit_head s = length es mod 256 \<and> audit_count s = min 256 (length es)
     \<and> (\<forall>k. length es - 256 \<le> k \<and> k < length es \<longrightarrow> audit_buffer s (k mod 256) = es ! k)"

definition entry :: "int \<Rightarrow> int \<Rightarrow> int \<Rightarrow> string option \<Rightarrow> audit_entry" where
  "entry pid event result detail = \<lparr>atimestamp = 0, apid = pid, aevent = event, aresult = result,
     adetail = take 80 (case detail of None \<Rightarrow> [] | Some d \<Rightarrow> d)\<rparr>"

lemma mod_window_inj: "k < n \<Longrightarrow> Suc n - 256 \<le> k \<Longrightarrow> k mod 256 \<noteq> n mod 256"
proof
  assume a: "Suc n - 256 \<le> k" "k < n" "k mod 256 = n mod 256"
  then have "256 dvd n - k" using mod_eq_dvd_iff_nat [of k n 256] by simp
  then have "256 \<le> n - k" using a(2) by (simp add: dvd_imp_le)
  then show False using a by linarith
qed

lemma audit_log_rep:
  assumes "audit_rep s es"
  shows "audit_rep (audit_log pid event result detail s) (es @ [entry pid event result detail])"
proof -
  let ?n = "length es" and ?s = "audit_log pid event result detail s"
  have h: "audit_head s = ?n mod 256" "audit_count s = min 256 ?n" using assms by (auto simp: audit_rep_def)
  have "audit_buffer ?s (k mod 256) = (es @ [entry pid event result detail]) ! k" if k: "Suc ?n - 256 \<le> k" "k < Suc ?n" for k
  proof (cases "k = ?n")
    case True
    then show ?thesis using h by (simp add: audit_log_def entry_def)
  next
    case False
    then have "k mod 256 \<noteq> ?n mod 256" using mod_window_inj [of k ?n] k by simp
    then show ?thesis using assms False k h by (auto simp: audit_rep_def audit_log_def nth_append)
  qed
  then show ?thesis using h by (auto simp: audit_rep_def audit_log_def mod_Suc_eq)
qed

text \<open>
  The audit ring holds the last 256 records in order: if the ring represents the sequence \<open>es\<close> of all
  records so far, then logging represents \<open>es\<close> with the new record appended, and
  \<^verbatim>\<open>audit_get_entries\<close> returns, oldest first, as many as asked for of the last 256 records of \<open>es\<close>.
\<close>

theorem audit_ring_refines:
  assumes "audit_rep s es"
  shows "audit_rep (audit_log pid event result detail s) (es @ [entry pid event result detail])
    \<and> (0 < n \<longrightarrow> audit_get_entries True n s =
         (int (min (nat n) (min 256 (length es))), take (nat n) (drop (length es - 256) es)))"
proof -
  let ?L = "length es" and ?c = "min 256 (length es)"
  have h: "audit_head s = ?L mod 256" "audit_count s = ?c" using assms by (auto simp: audit_rep_def)
  have st: "(audit_head s + 256 - audit_count s) mod 256 = (?L - 256) mod 256"
  proof (cases "?L < 256")
    case True
    then show ?thesis using h by simp
  next
    case False
    then have "?L = (?L - 256) + 256" by simp
    then have "?L mod 256 = (?L - 256) mod 256" by (metis mod_add_self2)
    then show ?thesis using h False by simp
  qed
  have el: "audit_buffer s (((?L - 256) mod 256 + i) mod 256) = es ! (?L - 256 + i)" if "i < ?c" for i
  proof -
    have "?L - 256 + i < ?L" using that by arith
    then have "audit_buffer s ((?L - 256 + i) mod 256) = es ! (?L - 256 + i)" using assms by (simp add: audit_rep_def)
    then show ?thesis by (simp add: mod_add_left_eq)
  qed
  have "audit_get_entries True n s = (int (min (nat n) ?c), take (nat n) (drop (?L - 256) es))" if "0 < n"
  proof -
    define k where "k = (if int (audit_count s) < n then audit_count s else nat n)"
    have k: "k = min (nat n) ?c" using that h by (auto simp: k_def)
    have "map (\<lambda>i. audit_buffer s (((?L - 256) mod 256 + i) mod 256)) [0..<k] = take (nat n) (drop (?L - 256) es)"
      using el by (intro nth_equalityI) (auto simp: k)
    then show ?thesis using that by (simp add: audit_get_entries_def Let_def st k_def [symmetric] k [symmetric])
  qed
  then show ?thesis using audit_log_rep [OF assms] by simp
qed

theorem audit_ring_refines_witness:
  "\<exists>s. audit_rep s [entry 7 2 2 None] \<and> audit_get_entries True 5 s = (1, [entry 7 2 2 None])"
proof -
  define s :: security where "s = \<lparr>lsm_modules = [], mods = (\<lambda>_. default_cap_lsm), sandboxes = (\<lambda>_. None), sandbox_count = 0,
    sandbox_next_id = 1, audit_buffer = (\<lambda>_. entry 0 0 0 None), audit_head = 0, audit_count = 0\<rparr>"
  have 0: "audit_rep s []" by (simp add: audit_rep_def s_def)
  have 1: "audit_rep (audit_log 7 2 2 None s) [entry 7 2 2 None]" using audit_ring_refines [OF 0, of 7 2 2 None 1] by simp
  show ?thesis using audit_ring_refines [OF 1, of 0 0 0 None 5] 1 by auto
qed

section \<open>Security modules and permissions\<close>

definition refuses :: "nat \<Rightarrow> cred option \<Rightarrow> u64 \<Rightarrow> lsm_module \<Rightarrow> bool" where
  "refuses h p a m \<longleftrightarrow> enabled m \<and> (\<exists>f. hooks m h = Some f \<and> f p a \<in> {LSM_DENY, LSM_ERROR})"

lemma hook_loop_find:
  "hook_loop h p a ms = map_option (\<lambda>m. the (hooks m h) p a) (find (refuses h p a) ms)"
  by (induction ms) (auto simp: refuses_def split: option.split)

lemma unregister_at_perm:
  "unregister_at m xs = Some ys \<Longrightarrow> \<exists>us vs. xs = us @ m # vs \<and> m \<notin> set us \<and> ys = us @ (if vs = [] then [] else last vs # butlast vs)"
proof (induction xs arbitrary: ys)
  case (Cons x xs)
  show ?case
  proof (cases "x = m")
    case True
    then show ?thesis using Cons.prems by (intro exI [of _ "[]"] exI [of _ xs]) auto
  next
    case False
    then obtain zs where z: "unregister_at m xs = Some zs" "ys = x # zs" using Cons.prems by auto
    then obtain us vs where "xs = us @ m # vs" "m \<notin> set us" "zs = us @ (if vs = [] then [] else last vs # butlast vs)"
      using Cons.IH [of zs] by auto
    then show ?thesis using z(2) False by (intro exI [of _ "x # us"] exI [of _ vs]) auto
  qed
qed simp

text \<open>
  C34. What the permission check for signals decides: \<^verbatim>\<open>process_security_check_kill\<close> permits a signal exactly if the caller runs
  as root or with the target's effective user, and every refusal by it leaves a record in the audit
  ring naming the process; a permitted signal leaves none. No capability or security module can grant the permission. (No system
  call uses the check yet: \<^verbatim>\<open>sys_kill\<close> sends signals without it.)
\<close>

theorem kill_permission:
  assumes "audit_rep s es"
  shows "if ceuid c = 0 \<or> ceuid c = ceuid d
    then process_security_check_kill (Some c) (Some d) a s = (0, s)
    else \<exists>s' fs. process_security_check_kill (Some c) (Some d) a s = (- EPERM, s')
      \<and> audit_rep s' (es @ fs @ [entry (sint (cpid c)) 2 LSM_DENY (Some ''kill denied: no CAP_KILL'')])"
proof (cases "ceuid c = 0 \<or> ceuid c = ceuid d")
  case True
  then show ?thesis by (auto simp: process_security_check_kill_def)
next
  case False
  obtain r s1 where r: "lsm_hook_invoke HOOK_CAPABLE (Some c) a s = (r, s1)" by fastforce
  then have "audit_rep s1 (es @ []) \<or> (\<exists>e. audit_rep s1 (es @ [e]))"
    using audit_log_rep [OF assms] assms unfolding lsm_hook_invoke_def by (auto split: option.splits) blast
  then obtain fs where "audit_rep s1 (es @ fs)" by blast
  from audit_log_rep [OF this] show ?thesis
    using False r by (auto simp: process_security_check_kill_def process_security_check_cap_def cap_valid_def Let_def) blast
qed

definition sec_demo :: security where
  "sec_demo = \<lparr>lsm_modules = [1], mods = (\<lambda>_. default_cap_lsm), sandboxes = (\<lambda>_. None), sandbox_count = 0,
    sandbox_next_id = 1, audit_buffer = (\<lambda>_. entry 0 0 0 None), audit_head = 0, audit_count = 0\<rparr>"

theorem kill_permission_witness:
  "\<exists>s'. process_security_check_kill (Some \<lparr>cpid = 9, cuid = 5, cgid = 5, ceuid = 5, cegid = 5\<rparr>)
     (Some \<lparr>cpid = 1, cuid = 0, cgid = 0, ceuid = 0, cegid = 0\<rparr>) 0 sec_demo = (- EPERM, s')"
proof -
  have "audit_rep sec_demo []" by (simp add: audit_rep_def sec_demo_def)
  from kill_permission [OF this, of "\<lparr>cpid = 9, cuid = 5, cgid = 5, ceuid = 5, cegid = 5\<rparr>"
      "\<lparr>cpid = 1, cuid = 0, cgid = 0, ceuid = 0, cegid = 0\<rparr>" 0]
  show ?thesis by auto
qed

section \<open>Sandboxes\<close>

lemma slot_pos: "0 \<le> i \<Longrightarrow> slot i = Some (nat (i mod 64))"
  by (cases "i = 0") (auto simp: slot_def signed_modulo_int_def)

text \<open>
  A new sandbox is found under its identifier and every sandbox in another slot of the table stays; but the one
  whose identifier is congruent modulo 64 is lost, though it still counts as live.
\<close>

theorem sandbox_create_lookup:
  assumes "0 < sandbox_next_id s" "sandbox_count s < 64" "0 \<le> i"
  shows "\<exists>s' sb. sandbox_create name flags bound True s = Some (sandbox_next_id s, s')
    \<and> sandbox_get (sandbox_next_id s) s' = Some (Some sb) \<and> sbid sb = sandbox_next_id s
    \<and> (i \<noteq> sandbox_next_id s \<longrightarrow> sandbox_get i s' = (if i mod 64 = sandbox_next_id s mod 64 then Some None else sandbox_get i s))"
proof -
  have "nat (i mod 64) = nat (sandbox_next_id s mod 64) \<longleftrightarrow> i mod 64 = sandbox_next_id s mod 64"
    by (metis eq_nat_nat_iff pos_mod_sign zero_less_numeral)
  then show ?thesis
    using assms by (auto simp: sandbox_create_def sandbox_get_def sandbox_lookup_def slot_pos Let_def)
qed

theorem sandbox_create_lookup_witness:
  "\<exists>s'. sandbox_create None 0 None True sec_demo = Some (1, s') \<and> sandbox_get 65 s' = Some None"
  using sandbox_create_lookup [of sec_demo 65 None 0 None] by (auto simp: sec_demo_def)

end
