(* ===== verification/Ipc.thy ===== *)
theory Ipc
  imports Ring Sched Vmm Vfs
begin

text \<open>
  System V style communication, \<^verbatim>\<open>kernel/ipc.c\<close>: pipes, shared memory, message queues and semaphores.

  A caller's buffer is the list of its bytes. The lock of a message queue is part of the state,
  since a blocking receive takes it twice; the other locks are released on every path. A process is
  known by its address; \<open>cur\<close> is \<^verbatim>\<open>get_current_process()\<close>. What other processes do while a caller
  yields is a parameter \<open>Y\<close> of the blocking operations. \<open>None\<close> is a crash or an endless wait.
\<close>

section \<open>State\<close>

record pipe_buffer =
  pb_data :: "u8 list"
  pb_capacity :: nat
  pb_readers :: u32
  pb_writers :: u32
  read_pos :: nat
  write_pos :: nat

record shm_segment =
  shm_id :: u32
  shm_size :: u64
  shm_virt :: u64
  shm_pages :: "u64 list option"
  shm_refcount :: u32
  shm_key :: u32
  shm_creator :: nat

record msg_buffer =
  msg_type :: u64
  msg_data :: "u8 list"

record msg_queue =
  mq_id :: u32
  mq_key :: u32
  mq_creator :: nat
  mq_msgs :: "msg_buffer list"
  mq_lock :: bool

record sem_wait =
  wproc :: nat
  wneeded :: u32
  wready :: bool
  wnext :: nat

record semaphore =
  sem_id :: u32
  sem_key :: u32
  svalue :: u32
  smax :: u32
  sem_creator :: nat
  wait_head :: nat
  wait_tail :: nat

text \<open>The three lists, first element first, the waiter objects by address, and the kernel parts used.\<close>

record ipc =
  shm_list :: "shm_segment list"
  next_shm_id :: u32
  msg_queue_list :: "msg_queue list"
  next_msg_id :: u32
  sem_list :: "semaphore list"
  next_sem_id :: u32
  waits :: "nat \<Rightarrow> sem_wait"
  next_wait :: nat
  pstate :: "nat \<Rightarrow> u32"
  isched :: sched
  ivm :: vmm

section \<open>Pipes\<close>

definition pipe_node :: "ptr \<Rightarrow> vfs_node" where
  "pipe_node p = zero_node\<lparr>vflags := 5, vimpl := p\<rparr>"

text \<open>\<open>ok\<close> gives the outcomes of the four \<^verbatim>\<open>kmalloc\<close> calls; \<open>p\<close> is the address of the new buffer.\<close>

definition pipe_create :: "(nat \<Rightarrow> bool) \<Rightarrow> ptr \<Rightarrow> int \<times> (pipe_buffer \<times> vfs_node \<times> vfs_node) option" where
  "pipe_create ok p =
     (if \<not> ok 0 then (- ENOMEM, None)
      else if \<not> ok 1 then (- ENOMEM, None)
      else if \<not> ok 2 \<or> \<not> ok 3 then (- ENOMEM, None)
      else (0, Some (\<lparr>pb_data = replicate 4096 0, pb_capacity = 4096, pb_readers = 1, pb_writers = 1, read_pos = 0, write_pos = 0\<rparr>,
                     (pipe_node p)\<lparr>read_fn := Some ''pipe_read''\<rparr>, (pipe_node p)\<lparr>write_fn := Some ''pipe_write''\<rparr>)))"

fun pipe_read_loop :: "nat \<Rightarrow> pipe_buffer \<Rightarrow> u8 list \<times> pipe_buffer" where
  "pipe_read_loop 0 b = ([], b)"
| "pipe_read_loop (Suc n) b =
     (if read_pos b \<noteq> write_pos b
      then map_prod (Cons (pb_data b ! read_pos b)) id (pipe_read_loop n (b\<lparr>read_pos := (read_pos b + 1) mod pb_capacity b\<rparr>))
      else ([], b))"

definition pipe_read :: "pipe_buffer option \<Rightarrow> bool \<Rightarrow> nat \<Rightarrow> (int \<times> u8 list) \<times> pipe_buffer option" where
  "pipe_read p buf n = (case p of None \<Rightarrow> ((- EINVAL, []), None)
     | Some b \<Rightarrow> if \<not> buf then ((- EINVAL, []), p)
                 else let (bs, b') = pipe_read_loop n b in ((int (length bs), bs), Some b'))"

fun pipe_write_loop :: "u8 list \<Rightarrow> pipe_buffer \<Rightarrow> nat \<times> pipe_buffer" where
  "pipe_write_loop [] b = (0, b)"
| "pipe_write_loop (c # cs) b =
     (let nxt = (write_pos b + 1) mod pb_capacity b
      in if nxt \<noteq> read_pos b
         then map_prod Suc id (pipe_write_loop cs (b\<lparr>pb_data := (pb_data b)[write_pos b := c], write_pos := nxt\<rparr>))
         else (0, b))"

definition pipe_write :: "pipe_buffer option \<Rightarrow> u8 list option \<Rightarrow> int \<times> pipe_buffer option" where
  "pipe_write p buf = (case (p, buf) of
     (Some b, Some cs) \<Rightarrow> let (n, b') = pipe_write_loop cs b in (int n, Some b')
   | _ \<Rightarrow> (- EINVAL, p))"

text \<open>The result \<open>None\<close> for a pipe means that it was freed.\<close>

definition pipe_close :: "bool \<Rightarrow> pipe_buffer option \<Rightarrow> pipe_buffer option" where
  "pipe_close is_writer p = (case p of None \<Rightarrow> None
     | Some b \<Rightarrow> let b' = (if is_writer then b\<lparr>pb_writers := pb_writers b - 1\<rparr> else b\<lparr>pb_readers := pb_readers b - 1\<rparr>)
                 in if pb_readers b' = 0 \<and> pb_writers b' = 0 then None else Some b')"

section \<open>Shared memory\<close>

definition shmget :: "bool \<Rightarrow> nat \<Rightarrow> u32 \<Rightarrow> u64 \<Rightarrow> ipc \<Rightarrow> int \<times> ipc" where
  "shmget mem cur key sz s = (case find (\<lambda>g. shm_key g = key) (shm_list s) of
     Some g \<Rightarrow> (sint (shm_id g), s)
   | None \<Rightarrow> if \<not> mem then (- ENOMEM, s)
             else (sint (next_shm_id s), s\<lparr>next_shm_id := next_shm_id s + 1,
                     shm_list := \<lparr>shm_id = next_shm_id s, shm_size = sz, shm_virt = 0, shm_pages = None, shm_refcount = 0,
                                  shm_key = key, shm_creator = cur\<rparr> # shm_list s\<rparr>))"

text \<open>
  One page of a first attach: the result of \<^verbatim>\<open>pmm_alloc_page\<close> is not checked. For a segment of no
  pages \<^verbatim>\<open>kmalloc(0)\<close> leaves the page array \<^verbatim>\<open>NULL\<close>. The mapping is
  made in the address space \<open>cr3\<close> of the caller; \<open>base\<close> is the random base the ASLR module gives.
\<close>

definition shm_page :: "u64 \<Rightarrow> nat \<Rightarrow> u64 list \<times> vmm \<Rightarrow> (u64 list \<times> vmm) option" where
  "shm_page base i = (\<lambda>(ps, v). let (p, pm) = pmm_alloc_page (vpmm v)
     in map_option (\<lambda>v'. (ps @ [p], v')) (vmm_map_page p (base + of_nat i * 4096) 7 (v\<lparr>vpmm := pm\<rparr>)))"

fun shmat_in :: "u64 \<Rightarrow> u64 \<Rightarrow> u32 \<Rightarrow> shm_segment list \<Rightarrow> vmm \<Rightarrow> (u64 \<times> shm_segment list \<times> vmm) option" where
  "shmat_in cr3 base shmid [] v = Some (word_of_int (- ENOENT), [], v)"
| "shmat_in cr3 base shmid (g # gs) v =
     (if shm_id g \<noteq> shmid then map_option (\<lambda>(r, gs', v'). (r, g # gs', v')) (shmat_in cr3 base shmid gs v)
      else case shm_pages g of
        Some ps \<Rightarrow> Some (shm_virt g, g\<lparr>shm_refcount := shm_refcount g + 1\<rparr> # gs, v)
      | None \<Rightarrow> map_option (\<lambda>(ps, v'). (base, g\<lparr>shm_pages := (if ps = [] then None else Some ps), shm_virt := base, shm_refcount := shm_refcount g + 1\<rparr> # gs,
                                          v'\<lparr>vcr3 := vcr3 v\<rparr>))
                  (ofold (shm_page base) [0..<unat ((shm_size g + 4095) div 4096)] ([], v\<lparr>vcr3 := cr3\<rparr>)))"

definition shmat :: "u64 \<Rightarrow> u64 \<Rightarrow> int \<Rightarrow> ipc \<Rightarrow> (u64 \<times> ipc) option" where
  "shmat cr3 base shmid s =
     map_option (\<lambda>(r, gs, v). (r, s\<lparr>shm_list := gs, ivm := v\<rparr>)) (shmat_in cr3 base (word_of_int shmid) (shm_list s) (ivm s))"

definition shmdt :: "u64 \<Rightarrow> int" where
  "shmdt a = 0"

definition shmctl :: "int \<Rightarrow> int \<Rightarrow> int" where
  "shmctl shmid cmd = 0"

section \<open>Message queues\<close>

definition msgq_find :: "u32 \<Rightarrow> ipc \<Rightarrow> msg_queue option" where
  "msgq_find key s = find (\<lambda>q. mq_key q = key) (msg_queue_list s)"

definition msgget :: "bool \<Rightarrow> nat \<Rightarrow> u32 \<Rightarrow> ipc \<Rightarrow> int \<times> ipc" where
  "msgget mem cur key s = (case msgq_find key s of
     Some q \<Rightarrow> (sint (mq_id q), s)
   | None \<Rightarrow> if \<not> mem then (- ENOMEM, s)
             else (sint (next_msg_id s), s\<lparr>next_msg_id := next_msg_id s + 1,
                     msg_queue_list := \<lparr>mq_id = next_msg_id s, mq_key = key, mq_creator = cur, mq_msgs = [], mq_lock = False\<rparr>
                                       # msg_queue_list s\<rparr>))"

text \<open>The first queue with an identifier, as the search loops find it, and its update in place.\<close>

definition mq_get :: "u32 \<Rightarrow> ipc \<Rightarrow> msg_queue option" where
  "mq_get i s = find (\<lambda>q. mq_id q = i) (msg_queue_list s)"

fun mq_upd :: "u32 \<Rightarrow> (msg_queue \<Rightarrow> msg_queue) \<Rightarrow> msg_queue list \<Rightarrow> msg_queue list" where
  "mq_upd i f [] = []"
| "mq_upd i f (q # qs) = (if mq_id q = i then f q # qs else q # mq_upd i f qs)"

definition mq_set :: "u32 \<Rightarrow> (msg_queue \<Rightarrow> msg_queue) \<Rightarrow> ipc \<Rightarrow> ipc" where
  "mq_set i f s = s\<lparr>msg_queue_list := mq_upd i f (msg_queue_list s)\<rparr>"

definition mq_spin_lock :: "u32 \<Rightarrow> ipc \<Rightarrow> ipc option" where
  "mq_spin_lock i s = (case mq_get i s of None \<Rightarrow> None
     | Some q \<Rightarrow> if mq_lock q then None else Some (mq_set i (\<lambda>q. q\<lparr>mq_lock := True\<rparr>) s))"

definition mq_spin_unlock :: "u32 \<Rightarrow> ipc \<Rightarrow> ipc" where
  "mq_spin_unlock i s = mq_set i (\<lambda>q. q\<lparr>mq_lock := False\<rparr>) s"

text \<open>\<^verbatim>\<open>while (q->msg_count >= MAX_MSG_QUEUE) { unlock; yield(); lock; }\<close>\<close>

partial_function (option) snd_wait :: "(ipc \<Rightarrow> ipc) \<Rightarrow> u32 \<Rightarrow> ipc \<Rightarrow> ipc option" where
  "snd_wait Y i s = (case mq_get i s of None \<Rightarrow> None
     | Some q \<Rightarrow> if length (mq_msgs q) \<ge> 64
                 then Option.bind (mq_spin_lock i (Y (mq_spin_unlock i s))) (snd_wait Y i)
                 else Some s)"

definition msgsnd :: "(ipc \<Rightarrow> ipc) \<Rightarrow> bool \<Rightarrow> int \<Rightarrow> u64 \<Rightarrow> u8 list \<Rightarrow> bool \<Rightarrow> ipc \<Rightarrow> (int \<times> ipc) option" where
  "msgsnd Y mem msqid typ data nowait s =
     (let i = word_of_int msqid in case mq_get i s of None \<Rightarrow> Some (- EINVAL, s)
      | Some _ \<Rightarrow> if \<not> mem then Some (- ENOMEM, s)
        else do {
          s1 \<leftarrow> mq_spin_lock i s;
          q \<leftarrow> mq_get i s1;
          if length (mq_msgs q) \<ge> 64 \<and> nowait then Some (- EAGAIN, mq_spin_unlock i s1)
          else do {
            s2 \<leftarrow> (if length (mq_msgs q) \<ge> 64 then snd_wait Y i (mq_spin_unlock i s1) else Some s1);
            Some (int (length data),
                  mq_spin_unlock i (mq_set i (\<lambda>q. q\<lparr>mq_msgs := mq_msgs q @ [\<lparr>msg_type = typ, msg_data = data\<rparr>]\<rparr>) s2)) } })"

text \<open>\<^verbatim>\<open>while (q->msg_count == 0) { yield(); lock; }\<close>: the lock is not released before the next turn.\<close>

partial_function (option) rcv_wait :: "(ipc \<Rightarrow> ipc) \<Rightarrow> u32 \<Rightarrow> ipc \<Rightarrow> ipc option" where
  "rcv_wait Y i s = (case mq_get i s of None \<Rightarrow> None
     | Some q \<Rightarrow> if mq_msgs q = [] then Option.bind (mq_spin_lock i (Y s)) (rcv_wait Y i) else Some s)"

definition msgrcv :: "(ipc \<Rightarrow> ipc) \<Rightarrow> int \<Rightarrow> nat \<Rightarrow> bool \<Rightarrow> ipc \<Rightarrow> ((int \<times> (u64 \<times> u8 list) option) \<times> ipc) option" where
  "msgrcv Y msqid msgsz nowait s =
     (let i = word_of_int msqid in case mq_get i s of None \<Rightarrow> Some ((- EINVAL, None), s)
      | Some _ \<Rightarrow> do {
          s1 \<leftarrow> mq_spin_lock i s;
          q \<leftarrow> mq_get i s1;
          if mq_msgs q = [] \<and> nowait then Some ((- ENOMSG, None), mq_spin_unlock i s1)
          else do {
            s2 \<leftarrow> (if mq_msgs q = [] then rcv_wait Y i (mq_spin_unlock i s1) else Some s1);
            q2 \<leftarrow> mq_get i s2;
            case mq_msgs q2 of [] \<Rightarrow> None
            | b # bs \<Rightarrow> let out = take msgsz (msg_data b)
                in Some ((int (length out), Some (msg_type b, out)), mq_spin_unlock i (mq_set i (\<lambda>q. q\<lparr>mq_msgs := bs\<rparr>) s2)) } })"

definition msgctl :: "int \<Rightarrow> int \<Rightarrow> int" where
  "msgctl msqid cmd = 0"

section \<open>Semaphores\<close>

definition sem_find :: "u32 \<Rightarrow> ipc \<Rightarrow> semaphore option" where
  "sem_find key s = find (\<lambda>x. sem_key x = key) (sem_list s)"

definition semget :: "bool \<Rightarrow> nat \<Rightarrow> u32 \<Rightarrow> int \<Rightarrow> ipc \<Rightarrow> int \<times> ipc" where
  "semget mem cur key nsems s = (case sem_find key s of
     Some x \<Rightarrow> (sint (sem_id x), s)
   | None \<Rightarrow> if \<not> mem then (- ENOMEM, s)
             else let v = (if nsems > 0 then word_of_int nsems else 1)
                  in (sint (next_sem_id s), s\<lparr>next_sem_id := next_sem_id s + 1,
                        sem_list := \<lparr>sem_id = next_sem_id s, sem_key = key, svalue = v, smax = v, sem_creator = cur, wait_head = 0, wait_tail = 0\<rparr>
                                    # sem_list s\<rparr>))"

definition sem_get :: "u32 \<Rightarrow> ipc \<Rightarrow> semaphore option" where
  "sem_get i s = find (\<lambda>x. sem_id x = i) (sem_list s)"

fun sem_upd :: "u32 \<Rightarrow> (semaphore \<Rightarrow> semaphore) \<Rightarrow> semaphore list \<Rightarrow> semaphore list" where
  "sem_upd i f [] = []"
| "sem_upd i f (x # xs) = (if sem_id x = i then f x # xs else x # sem_upd i f xs)"

definition sem_set :: "u32 \<Rightarrow> (semaphore \<Rightarrow> semaphore) \<Rightarrow> ipc \<Rightarrow> ipc" where
  "sem_set i f s = s\<lparr>sem_list := sem_upd i f (sem_list s)\<rparr>"

text \<open>The wake-up loop: after a waiter is woken the loop steps twice, through a pointer it does not check.\<close>

partial_function (option) sem_wake :: "u32 \<Rightarrow> nat \<Rightarrow> ipc \<Rightarrow> ipc option" where
  "sem_wake v w s =
     (if w = 0 then Some s
      else if v \<ge> wneeded (waits s w) then
        Option.bind (sched_enqueue (wproc (waits s w)) (isched s)) (\<lambda>sc.
          let nxt = wnext (waits s w);
              s1 = s\<lparr>waits := (waits s)(w := (waits s w)\<lparr>wready := True, wnext := 0\<rparr>),
                     pstate := (pstate s)(wproc (waits s w) := 1), isched := sc\<rparr>
          in if nxt = 0 then None else sem_wake v (wnext (waits s1 nxt)) s1)
      else Some s)"

definition sem_enqueue_waiter :: "nat \<Rightarrow> u32 \<Rightarrow> u32 \<Rightarrow> ipc \<Rightarrow> ipc" where
  "sem_enqueue_waiter cur need i s = (case sem_get i s of None \<Rightarrow> s
     | Some x \<Rightarrow>
        let w = next_wait s;
            s1 = s\<lparr>waits := (waits s)(w := \<lparr>wproc = cur, wneeded = need, wready = False, wnext = 0\<rparr>), next_wait := w + 1\<rparr>;
            s2 = (if wait_tail x \<noteq> 0 then s1\<lparr>waits := (waits s1)(wait_tail x := (waits s1 (wait_tail x))\<lparr>wnext := w\<rparr>)\<rparr>
                  else sem_set i (\<lambda>x. x\<lparr>wait_head := w\<rparr>) s1)
        in (sem_set i (\<lambda>x. x\<lparr>wait_tail := w\<rparr>) s2)\<lparr>pstate := (pstate s2)(cur := 2)\<rparr>)"

partial_function (option) sem_wait_loop :: "(ipc \<Rightarrow> ipc) \<Rightarrow> nat \<Rightarrow> u32 \<Rightarrow> u32 \<Rightarrow> ipc \<Rightarrow> ipc option" where
  "sem_wait_loop Y cur need i s = (case sem_get i s of None \<Rightarrow> None
     | Some x \<Rightarrow> if svalue x < need then sem_wait_loop Y cur need i (Y (sem_enqueue_waiter cur need i s)) else Some s)"

text \<open>One element of \<^verbatim>\<open>sops\<close>; \<^verbatim>\<open>sem_op\<close> is a \<^verbatim>\<open>short\<close>.\<close>

definition sem_do :: "(ipc \<Rightarrow> ipc) \<Rightarrow> nat \<Rightarrow> u32 \<Rightarrow> int \<Rightarrow> ipc \<Rightarrow> ipc option" where
  "sem_do Y cur i op s = (case sem_get i s of None \<Rightarrow> None
     | Some x \<Rightarrow>
        if op > 0 then
          (let v = svalue x + word_of_int op
           in sem_wake v (wait_head x) (sem_set i (\<lambda>x. x\<lparr>svalue := v, smax := (if v > smax x then v else smax x)\<rparr>) s))
        else if op < 0 then
          map_option (sem_set i (\<lambda>x. x\<lparr>svalue := svalue x - word_of_int (- op)\<rparr>)) (sem_wait_loop Y cur (word_of_int (- op)) i s)
        else Some s)"

definition semop :: "(ipc \<Rightarrow> ipc) \<Rightarrow> nat \<Rightarrow> int \<Rightarrow> int list \<Rightarrow> ipc \<Rightarrow> (int \<times> ipc) option" where
  "semop Y cur semid ops s =
     (let i = word_of_int semid in case sem_get i s of None \<Rightarrow> Some (- EINVAL, s)
      | Some _ \<Rightarrow> map_option (Pair 0) (ofold (sem_do Y cur i) ops s))"

definition semctl :: "int \<Rightarrow> int \<Rightarrow> int \<Rightarrow> int" where
  "semctl semid semnum cmd = 0"


section \<open>Pipes are bounded queues of bytes\<close>

definition pipe_bytes :: "pipe_buffer \<Rightarrow> u8 list" where
  "pipe_bytes b = ring_list (pb_data b) (write_pos b) (read_pos b)"

definition pipe_ok :: "pipe_buffer \<Rightarrow> bool" where
  "pipe_ok b \<longleftrightarrow> pb_capacity b = 4096 \<and> ring_ok 4096 (pb_data b) (write_pos b) (read_pos b)"

definition pipe_inv :: "u32 \<times> u32 \<Rightarrow> pipe_buffer \<Rightarrow> bool" where
  "pipe_inv ends b \<longleftrightarrow> pipe_ok b \<and> (pb_readers b, pb_writers b) = ends"

definition pipe_put :: "u8 \<Rightarrow> pipe_buffer \<Rightarrow> pipe_buffer option" where
  "pipe_put c b = (let (n, b') = pipe_write_loop [c] b in if n = 0 then None else Some b')"

definition pipe_get :: "pipe_buffer \<Rightarrow> (u8 \<times> pipe_buffer) option" where
  "pipe_get b = (case pipe_read_loop 1 b of ([], b') \<Rightarrow> None | (c # cs, b') \<Rightarrow> Some (c, b'))"

lemma pipe_put_simp:
  "pipe_put c b = (let nxt = (write_pos b + 1) mod pb_capacity b
     in if nxt \<noteq> read_pos b then Some (b\<lparr>pb_data := (pb_data b)[write_pos b := c], write_pos := nxt\<rparr>) else None)"
  by (simp add: pipe_put_def Let_def)

lemma pipe_get_simp:
  "pipe_get b = (if read_pos b \<noteq> write_pos b
     then Some (pb_data b ! read_pos b, b\<lparr>read_pos := (read_pos b + 1) mod pb_capacity b\<rparr>) else None)"
  by (simp add: pipe_get_def)

interpretation pp: fifo_stream "pipe_inv ends" pipe_bytes 4095 pipe_put pipe_get pipe_write_loop pipe_read_loop
proof
  fix s :: pipe_buffer and x
  assume "pipe_inv ends s"
  then have cap: "pb_capacity s = 4096" and ok: "ring_ok 4096 (pb_data s) (write_pos s) (read_pos s)"
    and e: "(pb_readers s, pb_writers s) = ends" by (auto simp: pipe_inv_def pipe_ok_def)
  show "length (pipe_bytes s) \<le> 4095" using ring_list_bound [OF ok] by (simp add: pipe_bytes_def)
  show "pipe_put x s = None" if "length (pipe_bytes s) = 4095"
    using ring_full_iff [OF ok] that cap by (simp add: pipe_put_simp pipe_bytes_def)
  show "\<exists>s'. pipe_put x s = Some s' \<and> pipe_inv ends s' \<and> pipe_bytes s' = pipe_bytes s @ [x]" if "length (pipe_bytes s) < 4095"
    using ring_full_iff [OF ok] ring_list_put [OF ok, of x] ring_ok_put [OF ok, of x] that cap e
    by (auto simp: pipe_put_simp pipe_bytes_def pipe_inv_def pipe_ok_def simp del: One_nat_def)
  show "pipe_get s = None" if "pipe_bytes s = []"
    using ring_empty_iff [OF ok] that by (simp add: pipe_get_simp pipe_bytes_def)
  show "\<exists>s'. pipe_get s = Some (x, s') \<and> pipe_inv ends s' \<and> pipe_bytes s' = xs" if "pipe_bytes s = x # xs" for xs
    using ring_empty_iff [OF ok] ring_list_get [OF ok] ring_ok_get [OF ok] that cap e
    by (auto simp: pipe_get_simp pipe_bytes_def pipe_inv_def pipe_ok_def)
qed (simp_all add: pipe_put_simp pipe_get_simp Let_def)

text \<open>
  C19. A pipe is a first-in first-out queue of at most 4095 bytes: a write stores as many bytes as
  fit, in order after the queued ones, and reports how many; a read returns the oldest bytes, as
  many as asked for and available; both leave the end counts alone.
\<close>

theorem pipe_fifo:
  assumes "pipe_ok b"
  shows "(\<exists>b'. pipe_write (Some b) (Some cs) = (int (min (length cs) (4095 - length (pipe_bytes b))), Some b') \<and> pipe_ok b'
      \<and> pipe_bytes b' = pipe_bytes b @ take (4095 - length (pipe_bytes b)) cs \<and> (pb_readers b', pb_writers b') = (pb_readers b, pb_writers b))
    \<and> (\<exists>b'. pipe_read (Some b) True n = ((int (min n (length (pipe_bytes b))), take n (pipe_bytes b)), Some b') \<and> pipe_ok b'
      \<and> pipe_bytes b' = drop n (pipe_bytes b) \<and> (pb_readers b', pb_writers b') = (pb_readers b, pb_writers b))"
proof -
  have inv: "pipe_inv (pb_readers b, pb_writers b) b" using assms by (simp add: pipe_inv_def)
  show ?thesis
    using pp.put_all_spec [OF inv, of cs] pp.get_upto_spec [OF inv, of n]
    by (auto simp: pipe_write_def pipe_read_def pipe_inv_def min.commute)
qed

theorem pipe_fifo_witness:
  "\<exists>b b1. snd (pipe_create (\<lambda>_. True) 5) \<noteq> None \<and> b = fst (the (snd (pipe_create (\<lambda>_. True) 5)))
    \<and> pipe_write (Some b) (Some [1, 2]) = (2, Some b1) \<and> pipe_bytes b1 = [1, 2]"
proof -
  define b where "b = fst (the (snd (pipe_create (\<lambda>_. True) 5)))"
  have ok: "pipe_ok b" "pipe_bytes b = []"
    by (simp_all add: b_def pipe_create_def pipe_ok_def pipe_bytes_def ring_ok_def ring_list_def)
  have "snd (pipe_create (\<lambda>_. True) 5) \<noteq> None" by (simp add: pipe_create_def)
  then show ?thesis using pipe_fifo [OF ok(1), of "[1, 2]" 0] ok(2) b_def by auto
qed

section \<open>Message queues\<close>

lemma mq_get_upd: "(\<And>q. mq_id (f q) = mq_id q) \<Longrightarrow>
    find (\<lambda>q. mq_id q = j) (mq_upd i f qs) = (if i = j then map_option f (find (\<lambda>q. mq_id q = j) qs) else find (\<lambda>q. mq_id q = j) qs)"
  by (induction qs) auto

lemma mq_get_set [simp]: "(\<And>q. mq_id (f q) = mq_id q) \<Longrightarrow>
    mq_get j (mq_set i f s) = (if i = j then map_option f (mq_get j s) else mq_get j s)"
  by (simp add: mq_get_def mq_set_def mq_get_upd)

lemma mq_lock_get:
  "mq_get i s = Some q \<Longrightarrow> \<not> mq_lock q \<Longrightarrow> mq_spin_lock i s = Some (mq_set i (\<lambda>q. q\<lparr>mq_lock := True\<rparr>) s)"
  by (simp add: mq_spin_lock_def)

text \<open>
  A message queue is a first-in first-out queue of at most 64 messages: a non-blocking send appends the
  message or answers \<^verbatim>\<open>-EAGAIN\<close> when 64 are queued; a receive takes the oldest message and returns its type
  and its data cut to the caller's size, or \<^verbatim>\<open>-ENOMSG\<close> when none is queued; the lock is free again and
  no other queue changes.
\<close>

theorem msg_queue_fifo:
  assumes q: "mq_get (word_of_int i) s = Some q" "\<not> mq_lock q"
  shows "(\<exists>s'. msgsnd Y True i t d True s = Some (if length (mq_msgs q) < 64 then int (length d) else - EAGAIN, s')
      \<and> mq_get (word_of_int i) s' = Some (if length (mq_msgs q) < 64 then q\<lparr>mq_msgs := mq_msgs q @ [\<lparr>msg_type = t, msg_data = d\<rparr>]\<rparr> else q)
      \<and> (\<forall>j. j \<noteq> word_of_int i \<longrightarrow> mq_get j s' = mq_get j s))
    \<and> (\<exists>r s'. msgrcv Y i n True s = Some (r, s') \<and> (\<forall>j. j \<noteq> word_of_int i \<longrightarrow> mq_get j s' = mq_get j s)
      \<and> (case mq_msgs q of [] \<Rightarrow> r = (- ENOMSG, None) \<and> mq_get (word_of_int i) s' = Some q
         | m # ms \<Rightarrow> r = (int (min n (length (msg_data m))), Some (msg_type m, take n (msg_data m)))
             \<and> mq_get (word_of_int i) s' = Some (q\<lparr>mq_msgs := ms\<rparr>)))"
proof -
  let ?i = "word_of_int i :: u32"
  note defs = q mq_lock_get [OF q] Let_def mq_spin_unlock_def
  have f: "q\<lparr>mq_lock := False\<rparr> = q" using q(2) by simp
  have "\<exists>s'. msgsnd Y True i t d True s = Some (if length (mq_msgs q) < 64 then int (length d) else - EAGAIN, s')
      \<and> mq_get ?i s' = Some (if length (mq_msgs q) < 64 then q\<lparr>mq_msgs := mq_msgs q @ [\<lparr>msg_type = t, msg_data = d\<rparr>]\<rparr> else q)
      \<and> (\<forall>j. j \<noteq> ?i \<longrightarrow> mq_get j s' = mq_get j s)"
    using q(2) by (cases "length (mq_msgs q) < 64") (auto simp: msgsnd_def defs)
  moreover have "\<exists>r s'. msgrcv Y i n True s = Some (r, s') \<and> (\<forall>j. j \<noteq> ?i \<longrightarrow> mq_get j s' = mq_get j s)
      \<and> (case mq_msgs q of [] \<Rightarrow> r = (- ENOMSG, None) \<and> mq_get ?i s' = Some q
         | m # ms \<Rightarrow> r = (int (min n (length (msg_data m))), Some (msg_type m, take n (msg_data m))) \<and> mq_get ?i s' = Some (q\<lparr>mq_msgs := ms\<rparr>))"
    using q(2) by (cases "mq_msgs q") (auto simp: msgrcv_def defs min.commute)
  ultimately show ?thesis by blast
qed

definition ipc_demo :: ipc where
  "ipc_demo = \<lparr>shm_list = [], next_shm_id = 1,
     msg_queue_list = [\<lparr>mq_id = 1, mq_key = 9, mq_creator = 3, mq_msgs = [], mq_lock = False\<rparr>], next_msg_id = 2,
     sem_list = [\<lparr>sem_id = 1, sem_key = 9, svalue = 1, smax = 1, sem_creator = 3, wait_head = 0, wait_tail = 0\<rparr>], next_sem_id = 2,
     waits = (\<lambda>_. \<lparr>wproc = 4, wneeded = 1, wready = False, wnext = 0\<rparr>), next_wait = 1, pstate = (\<lambda>_. 0), isched = sched_demo, ivm = vm_demo\<rparr>"

theorem msg_queue_fifo_witness:
  "\<exists>s'. msgsnd id True 1 5 [7, 8] True ipc_demo = Some (2, s')
    \<and> map_option mq_msgs (mq_get 1 s') = Some [\<lparr>msg_type = 5, msg_data = [7, 8]\<rparr>]"
proof -
  have "mq_get (word_of_int 1) ipc_demo = Some \<lparr>mq_id = 1, mq_key = 9, mq_creator = 3, mq_msgs = [], mq_lock = False\<rparr>"
    by (simp add: mq_get_def ipc_demo_def)
  from msg_queue_fifo [OF this, of id 5 "[7, 8]" 0] show ?thesis by auto
qed

text \<open>
  A blocking receive on an empty queue hangs unless a message arrives during its first yield: after the yield
  the receiver holds the queue's lock, yields again with the lock held, so that no sender can
  get in, and then waits for the lock it holds itself.
\<close>

theorem msgrcv_self_deadlock:
  assumes q: "mq_get (word_of_int i) s = Some q" "\<not> mq_lock q" "mq_msgs q = []"
    and first: "\<And>t. mq_get (word_of_int i) t = Some q \<Longrightarrow> mq_get (word_of_int i) (Y t) = Some q"
    and held: "\<And>t q'. mq_get (word_of_int i) t = Some q' \<Longrightarrow> mq_lock q' \<Longrightarrow> mq_get (word_of_int i) (Y t) = Some q'"
  shows "msgrcv Y i n False s = None"
proof -
  let ?i = "word_of_int i :: u32" and ?l = "\<lambda>q :: msg_queue. q\<lparr>mq_lock := True\<rparr>"
  have f: "q\<lparr>mq_lock := False\<rparr> = q" using q(2) by simp
  define u where "u = mq_spin_unlock ?i (mq_set ?i ?l s)"
  have u: "mq_get ?i u = Some q" using q f by (simp add: u_def mq_spin_unlock_def)
  define v where "v = mq_set ?i ?l (Y u)"
  have v: "mq_spin_lock ?i (Y u) = Some v" "mq_get ?i v = Some (?l q)"
    using first [OF u] q(2) by (simp_all add: v_def mq_lock_get)
  have "mq_get ?i (Y v) = Some (?l q)" using held [OF v(2)] by simp
  then have "mq_spin_lock ?i (Y v) = None" by (simp add: mq_spin_lock_def)
  then have "rcv_wait Y ?i v = None" using v(2) q(3) by (subst rcv_wait.simps) simp
  then have "rcv_wait Y ?i u = None" using u v q(3) by (subst rcv_wait.simps) simp
  then show ?thesis using q by (simp add: msgrcv_def Let_def mq_lock_get u_def)
qed

section \<open>Semaphores\<close>

lemma sem_get_upd: "(\<And>x. sem_id (f x) = sem_id x) \<Longrightarrow>
    find (\<lambda>x. sem_id x = j) (sem_upd i f xs) = (if i = j then map_option f (find (\<lambda>x. sem_id x = j) xs) else find (\<lambda>x. sem_id x = j) xs)"
  by (induction xs) auto

lemma sem_get_set [simp]: "(\<And>x. sem_id (f x) = sem_id x) \<Longrightarrow>
    sem_get j (sem_set i f s) = (if i = j then map_option f (sem_get j s) else sem_get j s)"
  by (simp add: sem_get_def sem_set_def sem_get_upd)

text \<open>Every prefix of the operations keeps the value within a 32-bit unsigned number.\<close>

fun sem_feasible :: "int \<Rightarrow> int list \<Rightarrow> bool" where
  "sem_feasible v [] = True"
| "sem_feasible v (x # xs) \<longleftrightarrow> 0 \<le> v + x \<and> v + x < 2 ^ 32 \<and> \<bar>x\<bar> < 2 ^ 15 \<and> sem_feasible (v + x) xs"

lemma sem_do_spec:
  assumes x: "sem_get i s = Some x" "wait_head x = 0" and v: "0 \<le> uint (svalue x) + p" "uint (svalue x) + p < 2 ^ 32" "\<bar>p\<bar> < 2 ^ 15"
  shows "\<exists>s' x'. sem_do Y cur i p s = Some s' \<and> sem_get i s' = Some x' \<and> wait_head x' = 0 \<and> uint (svalue x') = uint (svalue x) + p
    \<and> (\<forall>j. j \<noteq> i \<longrightarrow> sem_get j s' = sem_get j s)"
proof -
  consider "p > 0" | "p < 0" | "p = 0" by linarith
  then show ?thesis
  proof cases
    case 1
    have "uint (svalue x + word_of_int p) = uint (svalue x) + p" using v 1 by (simp add: uint_word_ariths uint_word_of_int)
    then show ?thesis using 1 x by (simp add: sem_do_def Let_def sem_wake.simps)
  next
    case 2
    then obtain m where m: "p = - m" "0 < m" by (metis neg_less_0_iff_less minus_minus)
    have n: "uint (word_of_int m :: u32) = m" using v m by (simp add: uint_word_of_int)
    then have "\<not> svalue x < word_of_int m" using v m by (simp add: word_less_def)
    then have "sem_wait_loop Y cur (word_of_int m) i s = Some s" using x by (subst sem_wait_loop.simps) simp
    moreover have "uint (svalue x - word_of_int m) = uint (svalue x) - m"
      using v m n by (simp add: uint_word_ariths)
    ultimately show ?thesis using m x by (simp add: sem_do_def)
  next
    case 3
    then show ?thesis using x by (simp add: sem_do_def)
  qed
qed

text \<open>
  Uncontended semaphore operations are exact: if nobody waits and the running value of the
  semaphore stays between zero and \<open>2\<^sup>3\<^sup>2 - 1\<close>, \<^verbatim>\<open>semop\<close> returns 0 without blocking, the value changes
  by exactly the sum of the operations, and no other semaphore changes.
\<close>

theorem semop_uncontended:
  assumes "sem_get (word_of_int i) s = Some x" "wait_head x = 0" "sem_feasible (uint (svalue x)) ops"
  shows "\<exists>s' x'. semop Y cur i ops s = Some (0, s') \<and> sem_get (word_of_int i) s' = Some x'
    \<and> uint (svalue x') = uint (svalue x) + sum_list ops \<and> (\<forall>j. j \<noteq> word_of_int i \<longrightarrow> sem_get j s' = sem_get j s)"
proof -
  let ?i = "word_of_int i :: u32"
  have "\<exists>s' x'. ofold (sem_do Y cur ?i) ops s = Some s' \<and> sem_get ?i s' = Some x' \<and> uint (svalue x') = uint (svalue x) + sum_list ops
      \<and> (\<forall>j. j \<noteq> ?i \<longrightarrow> sem_get j s' = sem_get j s)"
    using assms
  proof (induction ops arbitrary: s x)
    case (Cons p ps)
    then obtain s1 x1 where "sem_do Y cur ?i p s = Some s1" "sem_get ?i s1 = Some x1" "wait_head x1 = 0"
        "uint (svalue x1) = uint (svalue x) + p" "\<forall>j. j \<noteq> ?i \<longrightarrow> sem_get j s1 = sem_get j s"
      using sem_do_spec [of ?i s x p Y cur] by auto
    then show ?case using Cons.IH [of s1 x1] Cons.prems(3) by (auto simp: add.assoc)
  qed simp
  then show ?thesis using assms(1) by (auto simp: semop_def Let_def)
qed

theorem semop_uncontended_witness:
  "\<exists>s' x'. semop id 3 1 [- 1, 5] ipc_demo = Some (0, s') \<and> sem_get 1 s' = Some x' \<and> uint (svalue x') = 5"
proof -
  have "sem_get (word_of_int 1) ipc_demo = Some \<lparr>sem_id = 1, sem_key = 9, svalue = 1, smax = 1, sem_creator = 3, wait_head = 0, wait_tail = 0\<rparr>"
    by (simp add: sem_get_def ipc_demo_def)
  from semop_uncontended [OF this, of "[- 1, 5]" id 3] show ?thesis by auto
qed

text \<open>
  Waking the only waiter crashes: if exactly one process waits on a semaphore and an operation
  raises the value to what it needs, \<^verbatim>\<open>semop\<close> enqueues it and then follows the null pointer at the end of
  the waiter list.
\<close>

theorem semop_wake_crash:
  assumes "sem_get (word_of_int i) s = Some x" "wait_head x = w" "w \<noteq> 0" "wnext (waits s w) = 0"
    and "0 < p" "wneeded (waits s w) \<le> svalue x + word_of_int p"
  shows "semop Y cur i (p # ops) s = None"
proof -
  have "sem_do Y cur (word_of_int i) p s = None"
    using assms by (simp add: sem_do_def Let_def) (subst sem_wake.simps, simp add: sem_set_def split: option.split bind_split)
  then show ?thesis using assms(1) by (simp add: semop_def Let_def)
qed

theorem semop_wake_crash_witness:
  "semop id 3 1 [2] (ipc_demo\<lparr>sem_list := [\<lparr>sem_id = 1, sem_key = 9, svalue = 0, smax = 1, sem_creator = 3, wait_head = 6, wait_tail = 6\<rparr>]\<rparr>) = None"
  by (rule semop_wake_crash [where x = "\<lparr>sem_id = 1, sem_key = 9, svalue = 0, smax = 1, sem_creator = 3, wait_head = 6, wait_tail = 6\<rparr>" and w = 6])
     (simp_all add: sem_get_def ipc_demo_def)

end
