(* ===== verification/Net_Base.thy ===== *)
theory Net_Base
  imports Kstring
begin

text \<open>
  What the protocols of \<^verbatim>\<open>net/\<close> share: the packed headers of \<^verbatim>\<open>include/net.h\<close>, their layout in
  memory, the byte order functions, the Internet checksum of \<^verbatim>\<open>net/net.c\<close>, the socket and
  device structures and the state of the stack.

  The processor is little endian, so a 16-bit or 32-bit field of a packed struct is the little
  endian reading of its bytes, whatever order the protocol defines. A received packet is an
  address in a byte memory, so that a read past the end of the packet is a read of what follows.
  A network driver is outside the model: the frames handed to \<^verbatim>\<open>dev->send_packet\<close> are logged in
  \<open>sent\<close>, and its result is ignored, as in the code. Freed sockets are undefined. \<open>nplan\<close> holds the
  outcomes of the next \<^verbatim>\<open>kmalloc\<close> calls (all succeed once it is empty). An operation that writes
  past an array or follows a null or freed pointer is \<open>None\<close>; the one exception is the copy in
  \<^verbatim>\<open>tcp_checksum\<close>, which always writes a few bytes past its heap buffer: \<open>overrun\<close> counts them, so that
  the rest of the protocol can still be described.
\<close>

section \<open>Bytes in memory\<close>

definition rd16 :: "mem \<Rightarrow> nat \<Rightarrow> u16" where
  "rd16 m a = ucast (m a) OR push_bit 8 (ucast (m (a + 1)))"

definition rd32 :: "mem \<Rightarrow> nat \<Rightarrow> u32" where
  "rd32 m a = ucast (rd16 m a) OR push_bit 16 (ucast (rd16 m (a + 2)))"

definition le16 :: "u16 \<Rightarrow> u8 list" where
  "le16 w = [ucast w, ucast (drop_bit 8 w)]"

definition le32 :: "u32 \<Rightarrow> u8 list" where
  "le32 w = le16 (ucast w) @ le16 (ucast (drop_bit 16 w))"

definition bytes_at :: "mem \<Rightarrow> nat \<Rightarrow> nat \<Rightarrow> u8 list" where
  "bytes_at m a n = map (\<lambda>i. m (a + i)) [0..<n]"

definition mem_of :: "u8 list \<Rightarrow> mem" where
  "mem_of xs i = (if i < length xs then xs ! i else 0)"

definition ntohs :: "u16 \<Rightarrow> u16" where
  "ntohs x = drop_bit 8 x OR push_bit 8 x"

definition ntohl :: "u32 \<Rightarrow> u32" where
  "ntohl x = (drop_bit 24 x AND 0xFF) OR (drop_bit 8 x AND 0xFF00) OR (push_bit 8 x AND 0xFF0000) OR (push_bit 24 x AND 0xFF000000)"

section \<open>Headers\<close>

record eth_header =
  eth_dest :: "u8 list"
  eth_src :: "u8 list"
  ethertype :: u16

record arp_packet =
  hw_type :: u16
  proto_type :: u16
  hw_addr_len :: u8
  proto_addr_len :: u8
  arp_opcode :: u16
  arp_src_mac :: "u8 list"
  arp_src_ip :: u32
  arp_dest_mac :: "u8 list"
  arp_dest_ip :: u32

record ip_header =
  version_ihl :: u8
  tos :: u8
  total_len :: u16
  ip_id :: u16
  flags_frag :: u16
  ttl :: u8
  protocol :: u8
  ip_checksum :: u16
  ip_src :: u32
  ip_dest :: u32

record icmp_header =
  icmp_type :: u8
  icmp_code :: u8
  icmp_checksum :: u16
  icmp_id :: u16
  icmp_sequence :: u16

record udp_header =
  udp_src_port :: u16
  udp_dest_port :: u16
  udp_length :: u16
  udp_checksum :: u16

record tcp_header =
  tcp_src_port :: u16
  tcp_dest_port :: u16
  seq_num :: u32
  ack_num :: u32
  data_offset :: u8
  tcp_flags :: u8
  window_size :: u16
  tcp_hchecksum :: u16
  urgent_ptr :: u16

definition eth_bytes :: "eth_header \<Rightarrow> u8 list" where
  "eth_bytes h = eth_dest h @ eth_src h @ le16 (ethertype h)"

definition arp_bytes :: "arp_packet \<Rightarrow> u8 list" where
  "arp_bytes h = le16 (hw_type h) @ le16 (proto_type h) @ [hw_addr_len h, proto_addr_len h] @ le16 (arp_opcode h)
     @ arp_src_mac h @ le32 (arp_src_ip h) @ arp_dest_mac h @ le32 (arp_dest_ip h)"

definition ip_bytes :: "ip_header \<Rightarrow> u8 list" where
  "ip_bytes h = [version_ihl h, tos h] @ le16 (total_len h) @ le16 (ip_id h) @ le16 (flags_frag h)
     @ [ttl h, protocol h] @ le16 (ip_checksum h) @ le32 (ip_src h) @ le32 (ip_dest h)"

definition icmp_bytes :: "icmp_header \<Rightarrow> u8 list" where
  "icmp_bytes h = [icmp_type h, icmp_code h] @ le16 (icmp_checksum h) @ le16 (icmp_id h) @ le16 (icmp_sequence h)"

definition udp_bytes :: "udp_header \<Rightarrow> u8 list" where
  "udp_bytes h = le16 (udp_src_port h) @ le16 (udp_dest_port h) @ le16 (udp_length h) @ le16 (udp_checksum h)"

definition tcp_bytes :: "tcp_header \<Rightarrow> u8 list" where
  "tcp_bytes h = le16 (tcp_src_port h) @ le16 (tcp_dest_port h) @ le32 (seq_num h) @ le32 (ack_num h)
     @ [data_offset h, tcp_flags h] @ le16 (window_size h) @ le16 (tcp_hchecksum h) @ le16 (urgent_ptr h)"

definition get_eth :: "mem \<Rightarrow> nat \<Rightarrow> eth_header" where
  "get_eth m a = \<lparr>eth_dest = bytes_at m a 6, eth_src = bytes_at m (a + 6) 6, ethertype = rd16 m (a + 12)\<rparr>"

definition get_arp :: "mem \<Rightarrow> nat \<Rightarrow> arp_packet" where
  "get_arp m a = \<lparr>hw_type = rd16 m a, proto_type = rd16 m (a + 2), hw_addr_len = m (a + 4), proto_addr_len = m (a + 5),
     arp_opcode = rd16 m (a + 6), arp_src_mac = bytes_at m (a + 8) 6, arp_src_ip = rd32 m (a + 14),
     arp_dest_mac = bytes_at m (a + 18) 6, arp_dest_ip = rd32 m (a + 24)\<rparr>"

definition get_ip :: "mem \<Rightarrow> nat \<Rightarrow> ip_header" where
  "get_ip m a = \<lparr>version_ihl = m a, tos = m (a + 1), total_len = rd16 m (a + 2), ip_id = rd16 m (a + 4),
     flags_frag = rd16 m (a + 6), ttl = m (a + 8), protocol = m (a + 9), ip_checksum = rd16 m (a + 10),
     ip_src = rd32 m (a + 12), ip_dest = rd32 m (a + 16)\<rparr>"

definition get_icmp :: "mem \<Rightarrow> nat \<Rightarrow> icmp_header" where
  "get_icmp m a = \<lparr>icmp_type = m a, icmp_code = m (a + 1), icmp_checksum = rd16 m (a + 2), icmp_id = rd16 m (a + 4),
     icmp_sequence = rd16 m (a + 6)\<rparr>"

definition get_udp :: "mem \<Rightarrow> nat \<Rightarrow> udp_header" where
  "get_udp m a = \<lparr>udp_src_port = rd16 m a, udp_dest_port = rd16 m (a + 2), udp_length = rd16 m (a + 4),
     udp_checksum = rd16 m (a + 6)\<rparr>"

definition get_tcp :: "mem \<Rightarrow> nat \<Rightarrow> tcp_header" where
  "get_tcp m a = \<lparr>tcp_src_port = rd16 m a, tcp_dest_port = rd16 m (a + 2), seq_num = rd32 m (a + 4), ack_num = rd32 m (a + 8),
     data_offset = m (a + 12), tcp_flags = m (a + 13), window_size = rd16 m (a + 14), tcp_hchecksum = rd16 m (a + 16),
     urgent_ptr = rd16 m (a + 18)\<rparr>"

section \<open>The Internet checksum\<close>

fun csum_add :: "mem \<Rightarrow> nat \<Rightarrow> nat \<Rightarrow> u32 \<Rightarrow> u32" where
  "csum_add m a n acc =
     (if n > 1 then csum_add m (a + 2) (n - 2) (acc + ucast (rd16 m a))
      else if n > 0 then acc + ucast (m a) else acc)"

declare csum_add.simps [simp del]

lemma unat_split16: "unat (s :: u32) = unat (s AND 0xFFFF) + 65536 * unat (drop_bit 16 s)"
proof -
  have "s AND 0xFFFF = take_bit 16 s" by (simp add: take_bit_eq_mask mask_numeral)
  moreover have "unat (take_bit 16 s) = unat s mod 65536"
    by (subst unsigned_take_bit_eq) (simp_all add: take_bit_eq_mod)
  moreover have "unat (drop_bit 16 s) = unat s div 65536"
    by (simp add: drop_bit_eq_div unat_div_distrib)
  ultimately show ?thesis by simp
qed

lemma unat_fold_step: "unat ((s AND 0xFFFF) + drop_bit 16 s) = unat (s AND 0xFFFF) + unat (drop_bit 16 (s::u32))"
proof -
  have "unat (s AND 0xFFFF) + unat (drop_bit 16 s) < 2 ^ 32" using unat_split16 [of s] unsigned_less [of s, where 'a = nat] by simp
  then show ?thesis by (simp add: unat_word_ariths)
qed

text \<open>\<^verbatim>\<open>while (sum >> 16) sum = (sum & 0xFFFF) + (sum >> 16);\<close>\<close>

function csum_fold :: "u32 \<Rightarrow> u32" where
  "csum_fold s = (if drop_bit 16 s \<noteq> 0 then csum_fold ((s AND 0xFFFF) + drop_bit 16 s) else s)"
  by auto
termination
proof (relation "measure unat")
  fix s :: u32
  assume "drop_bit 16 s \<noteq> 0"
  then have "unat (drop_bit 16 s) \<noteq> 0" by (simp add: unat_eq_0)
  then show "((s AND 0xFFFF) + drop_bit 16 s, s) \<in> measure unat"
    using unat_split16 [of s] unat_fold_step [of s] by simp
qed simp

declare csum_fold.simps [simp del]

definition net_checksum :: "mem \<Rightarrow> nat \<Rightarrow> nat \<Rightarrow> u16" where
  "net_checksum m a n = ucast (NOT (csum_fold (csum_add m a n 0)))"

section \<open>Devices, sockets and the state of the stack\<close>

record net_device =
  dname :: string
  dmac :: "u8 list"
  dip :: u32
  netmask :: u32
  gateway :: u32
  dnext :: nat

record arp_entry =
  ae_ip :: u32
  ae_mac :: "u8 list"
  ae_timestamp :: u64

text \<open>A receive buffer is \<open>None\<close> when its allocation failed (the code does not check it).\<close>

record udp_socket =
  ulocal_ip :: u32
  ulocal_port :: u16
  uremote_ip :: u32
  uremote_port :: u16
  urecv_buffer :: "u8 list option"
  urecv_size :: u32
  urecv_capacity :: u32

datatype tcp_state = TCP_CLOSED | TCP_LISTEN | TCP_SYN_SENT | TCP_SYN_RECEIVED | TCP_ESTABLISHED | TCP_FIN_WAIT_1
  | TCP_FIN_WAIT_2 | TCP_CLOSE_WAIT | TCP_CLOSING | TCP_LAST_ACK | TCP_TIME_WAIT

record tcp_socket =
  tlocal_ip :: u32
  tlocal_port :: u16
  tremote_ip :: u32
  tremote_port :: u16
  send_seq :: u32
  recv_seq :: u32
  send_unack :: u32
  send_window :: u32
  recv_window :: u32
  tstate :: tcp_state
  tsend_buffer :: "u8 list option"
  trecv_buffer :: "u8 list option"
  send_buffer_size :: u32
  recv_buffer_size :: u32
  cwnd :: u32
  ssthresh :: u32
  rtt :: u32
  rtt_var :: u32
  rto :: u32

text \<open>
  The intrusive socket lists are the lists of their nodes, newest first; sockets and devices live
  in stores indexed by their address, \<open>0\<close> is \<^verbatim>\<open>NULL\<close>.
\<close>

record net =
  net_devices :: nat
  devs :: "nat \<Rightarrow> net_device"
  sent :: "(nat \<times> u8 list) list"
  arp_cache :: "arp_entry list"
  arp_cache_count :: int
  ping_id_counter :: u32
  ping_received :: bool
  udp_sockets :: "nat list"
  usocks :: "nat \<Rightarrow> udp_socket option"
  next_udp_port :: u16
  tcp_sockets :: "nat list"
  tsocks :: "nat \<Rightarrow> tcp_socket option"
  next_tcp_port :: u16
  default_dev :: nat
  next_sock :: nat
  nplan :: "bool list"
  ms_time :: u64
  overrun :: nat

text \<open>The static variables before \<^verbatim>\<open>net_init\<close>.\<close>

definition net_zero :: net where
  "net_zero = \<lparr>net_devices = 0, devs = (\<lambda>_. \<lparr>dname = [], dmac = replicate 6 0, dip = 0, netmask = 0, gateway = 0, dnext = 0\<rparr>),
     sent = [], arp_cache = replicate 32 \<lparr>ae_ip = 0, ae_mac = replicate 6 0, ae_timestamp = 0\<rparr>, arp_cache_count = 0,
     ping_id_counter = 0, ping_received = False, udp_sockets = [], usocks = (\<lambda>_. None), next_udp_port = 40000,
     tcp_sockets = [], tsocks = (\<lambda>_. None), next_tcp_port = 49152, default_dev = 0, next_sock = 1, nplan = [], ms_time = 0, overrun = 0\<rparr>"

definition net_alloc :: "'a net_scheme \<Rightarrow> bool \<times> 'a net_scheme" where
  "net_alloc s = (case nplan s of [] \<Rightarrow> (True, s) | b # bs \<Rightarrow> (b, s\<lparr>nplan := bs\<rparr>))"

definition send_packet :: "nat \<Rightarrow> u8 list \<Rightarrow> u32 \<Rightarrow> 'a net_scheme \<Rightarrow> 'a net_scheme" where
  "send_packet dev frame n s = s\<lparr>sent := sent s @ [(dev, take (unat n) frame)]\<rparr>"

text \<open>The assignments to the IP header that every sender makes, in their order.\<close>

definition mk_ip :: "u16 \<Rightarrow> u8 \<Rightarrow> u32 \<Rightarrow> u32 \<Rightarrow> ip_header" where
  "mk_ip tlen proto src dst =
     (let h = \<lparr>version_ihl = 0x45, tos = 0, total_len = tlen, ip_id = 0, flags_frag = 0, ttl = 64, protocol = proto,
               ip_checksum = 0, ip_src = src, ip_dest = dst\<rparr>
      in h\<lparr>ip_checksum := net_checksum (mem_of (ip_bytes h)) 0 20\<rparr>)"

text \<open>\<^verbatim>\<open>memcpy\<close> of a byte list to an offset of an array; \<open>None\<close> if it does not fit.\<close>

definition buf_write :: "nat \<Rightarrow> u8 list \<Rightarrow> u8 list \<Rightarrow> u8 list option" where
  "buf_write off xs buf =
     (if off + length xs \<le> length buf then Some (take off buf @ xs @ drop (off + length xs) buf) else None)"

text \<open>
  The common part of the two receive operations, for a buffer that holds \<open>z\<close> bytes: the number of
  bytes to copy, the bytes, and the buffer after the \<^verbatim>\<open>memmove\<close> of the rest to its start.
\<close>

definition sock_take :: "u32 \<Rightarrow> u32 \<Rightarrow> u8 list option \<Rightarrow> (u32 \<times> u8 list \<times> u8 list) option" where
  "sock_take n z buf =
     (let c = (if n < z then n else z)
      in case buf of None \<Rightarrow> None
      | Some b \<Rightarrow> if unat z > length b then None
                  else Some (c, take (unat c) b, drop (unat c) (take (unat z) b) @ drop (unat z - unat c) b))"

text \<open>\<^verbatim>\<open>while (sock) { if (...) break; sock = sock->next; }\<close>: \<open>0\<close> when no socket matches.\<close>

fun sock_find :: "('x \<Rightarrow> bool) \<Rightarrow> (nat \<Rightarrow> 'x option) \<Rightarrow> nat list \<Rightarrow> nat option" where
  "sock_find P st [] = Some 0"
| "sock_find P st (q # qs) = (case st q of None \<Rightarrow> None | Some x \<Rightarrow> if P x then Some q else sock_find P st qs)"

section \<open>Layout lemmas\<close>

lemma bit_le16: "i < 8 \<Longrightarrow> bit (le16 w ! 0) i = bit w i" "i < 8 \<Longrightarrow> bit (le16 w ! 1) i = bit w (8 + i)"
  by (simp_all add: le16_def bit_ucast_iff bit_drop_bit_eq)

lemma length_le [simp]: "length (le16 w) = 2" "length (le32 v) = 4"
  by (simp_all add: le16_def le32_def)

lemma rd16_le16 [simp]: "ucast (ucast w :: u8) OR push_bit 8 (ucast (ucast (drop_bit 8 w) :: u8)) = (w :: u16)"
  by (rule bit_word_eqI) (auto simp: bit_or_iff bit_ucast_iff bit_push_bit_iff bit_drop_bit_eq)

lemma join16 [simp]: "ucast (ucast w :: u16) OR push_bit 16 (ucast (ucast (drop_bit 16 w) :: u16)) = (w :: u32)"
  by (rule bit_word_eqI) (auto simp: bit_or_iff bit_ucast_iff bit_push_bit_iff bit_drop_bit_eq)

lemma ntohs_ntohs [simp]: "ntohs (ntohs x) = x"
proof (rule bit_word_eqI)
  show "bit (ntohs (ntohs x)) n = bit x n" if "n < LENGTH(16)" for n
    using that by (cases "n < 8") (auto simp: ntohs_def bit_or_iff bit_push_bit_iff bit_drop_bit_eq dest: bit_imp_le_length)
qed

definition at_mem :: "mem \<Rightarrow> nat \<Rightarrow> u8 list \<Rightarrow> bool" where
  "at_mem m a xs \<longleftrightarrow> (\<forall>i < length xs. m (a + i) = xs ! i)"

lemma at_mem_append: "at_mem m a (xs @ ys) \<longleftrightarrow> at_mem m a xs \<and> at_mem m (a + length xs) ys"
proof
  assume l: "at_mem m a (xs @ ys)"
  have "m (a + i) = (xs @ ys) ! i" if "i < length xs + length ys" for i using l that by (simp add: at_mem_def)
  from this this [of "length xs + i" for i] show "at_mem m a xs \<and> at_mem m (a + length xs) ys"
    by (simp add: at_mem_def nth_append add.assoc)
next
  assume "at_mem m a xs \<and> at_mem m (a + length xs) ys"
  then have x: "i < length xs \<Longrightarrow> m (a + i) = xs ! i" and y: "i < length ys \<Longrightarrow> m (a + length xs + i) = ys ! i" for i
    by (simp_all add: at_mem_def)
  have "m (a + i) = (xs @ ys) ! i" if "i < length xs + length ys" for i
    using x [of i] y [of "i - length xs"] that by (cases "i < length xs") (simp_all add: nth_append)
  then show "at_mem m a (xs @ ys)" by (simp add: at_mem_def)
qed

lemma at_mem_Cons: "at_mem m a (x # xs) \<longleftrightarrow> m a = x \<and> at_mem m (Suc a) xs"
  using at_mem_append [of m a "[x]" xs] by (simp add: at_mem_def)

lemma at_mem_Nil [simp]: "at_mem m a []" by (simp add: at_mem_def)

lemma at_mem_le16: "at_mem m a (le16 w) \<Longrightarrow> rd16 m a = w"
  by (simp add: le16_def at_mem_Cons rd16_def)

lemma at_mem_le32: "at_mem m a (le32 w) \<Longrightarrow> rd32 m a = w"
  by (auto simp: le32_def at_mem_append rd32_def dest!: at_mem_le16)

lemma at_mem_bytes: "at_mem m a xs \<Longrightarrow> n = length xs \<Longrightarrow> bytes_at m a n = xs"
  by (auto simp: at_mem_def bytes_at_def intro: nth_equalityI)

lemma at_mem_mem_of [simp]: "at_mem (mem_of xs) 0 xs" by (simp add: at_mem_def mem_of_def)

lemma at_mem_upd: "b < a \<or> a + length xs \<le> b \<Longrightarrow> at_mem (m(b := v)) a xs \<longleftrightarrow> at_mem m a xs"
proof -
  assume "b < a \<or> a + length xs \<le> b"
  then have "a + i \<noteq> b" if "i < length xs" for i using that by linarith
  then have "(m(b := v)) (a + i) = m (a + i)" if "i < length xs" for i using that by simp
  then show ?thesis by (simp add: at_mem_def)
qed

lemma ucast_rd16: "ucast (rd16 m a) = m a" "ucast (drop_bit 8 (rd16 m a)) = m (a + 1)"
proof -
  show "ucast (rd16 m a) = m a"
    by (rule bit_word_eqI) (auto simp: rd16_def bit_ucast_iff bit_or_iff bit_push_bit_iff)
  show "ucast (drop_bit 8 (rd16 m a)) = m (a + 1)"
    by (rule bit_word_eqI) (auto simp: rd16_def bit_ucast_iff bit_or_iff bit_push_bit_iff bit_drop_bit_eq dest: bit_imp_le_length)
qed

lemmas layout = at_mem_append at_mem_Cons at_mem_le16 at_mem_le32 at_mem_bytes

text \<open>Reading a header back where its bytes were stored.\<close>

lemma get_eth_bytes: "at_mem m a (eth_bytes h) \<Longrightarrow> length (eth_dest h) = 6 \<Longrightarrow> length (eth_src h) = 6 \<Longrightarrow> get_eth m a = h"
  by (simp add: get_eth_def eth_bytes_def layout add.commute)

lemma get_arp_bytes:
  "at_mem m a (arp_bytes h) \<Longrightarrow> length (arp_src_mac h) = 6 \<Longrightarrow> length (arp_dest_mac h) = 6 \<Longrightarrow> get_arp m a = h"
  by (simp add: get_arp_def arp_bytes_def layout add.assoc eval_nat_numeral)

lemma get_ip_bytes: "at_mem m a (ip_bytes h) \<Longrightarrow> get_ip m a = h"
  by (simp add: get_ip_def ip_bytes_def layout add.assoc eval_nat_numeral)

lemma get_icmp_bytes: "at_mem m a (icmp_bytes h) \<Longrightarrow> get_icmp m a = h"
  by (simp add: get_icmp_def icmp_bytes_def layout add.assoc eval_nat_numeral)

lemma get_udp_bytes: "at_mem m a (udp_bytes h) \<Longrightarrow> get_udp m a = h"
  by (simp add: get_udp_def udp_bytes_def layout add.assoc eval_nat_numeral)

lemma get_tcp_bytes: "at_mem m a (tcp_bytes h) \<Longrightarrow> get_tcp m a = h"
  by (simp add: get_tcp_def tcp_bytes_def layout add.assoc eval_nat_numeral)

lemma length_hdr [simp]:
  "length (ip_bytes h) = 20" "length (icmp_bytes i) = 8" "length (udp_bytes u) = 8" "length (tcp_bytes t) = 20"
  "length (eth_dest e) = 6 \<Longrightarrow> length (eth_src e) = 6 \<Longrightarrow> length (eth_bytes e) = 14"
  "length (arp_src_mac r) = 6 \<Longrightarrow> length (arp_dest_mac r) = 6 \<Longrightarrow> length (arp_bytes r) = 28"
  by (simp_all add: ip_bytes_def icmp_bytes_def udp_bytes_def tcp_bytes_def eth_bytes_def arp_bytes_def)

section \<open>Buffers and socket lists\<close>

lemma sock_find_spec:
  "\<forall>q \<in> set qs. q \<noteq> 0 \<and> st q \<noteq> None \<Longrightarrow>
   sock_find P st qs = Some (case find (\<lambda>q. P (the (st q))) qs of None \<Rightarrow> 0 | Some q \<Rightarrow> q)"
  by (induction qs) auto

lemma buf_write_spec:
  "off + length xs \<le> length b \<Longrightarrow>
   \<exists>b'. buf_write off xs b = Some b' \<and> length b' = length b \<and> take (off + length xs) b' = take off b @ xs"
  by (auto simp: buf_write_def)

lemma length_bytes_at [simp]: "length (bytes_at m a n) = n"
  by (simp add: bytes_at_def)

lemma sint_unat: "unat (c :: u32) < 2 ^ 31 \<Longrightarrow> sint c = int (unat c)"
proof -
  have "signed_take_bit 31 (int k) = int k" if "k < 2 ^ 31" for k
    using that by (intro signed_take_bit_int_eq_self) simp_all
  moreover have "sint c = signed_take_bit 31 (int (unat c))" by (simp add: sint_uint)
  moreover assume "unat c < 2 ^ 31"
  ultimately show ?thesis by metis
qed

lemma sock_take_spec:
  assumes "unat z \<le> length b" "unat n < 2 ^ 31"
  obtains c b' where "sock_take n z (Some b) = Some (c, take (unat n) (take (unat z) b), b')"
    "sint c = int (min (unat n) (unat z))" "unat (z - c) = unat z - unat n" "z - c \<le> z" "length b' = length b"
    "take (unat (z - c)) b' = drop (unat n) (take (unat z) b)"
proof
  let ?c = "if n < z then n else z"
  let ?b = "drop (unat ?c) (take (unat z) b) @ drop (unat z - unat ?c) b"
  have c: "unat ?c = min (unat n) (unat z)" by (auto simp: word_less_nat_alt)
  have "take (unat ?c) b = take (unat n) (take (unat z) b)" unfolding c by simp
  then show "sock_take n z (Some b) = Some (?c, take (unat n) (take (unat z) b), ?b)"
    using assms(1) by (simp add: sock_take_def Let_def)
  show "sint ?c = int (min (unat n) (unat z))" using sint_unat [of ?c] assms(2) c by simp
  have le: "?c \<le> z" by (auto simp: not_less)
  then have u: "unat (z - ?c) = unat z - unat ?c" by (simp add: unat_sub)
  then show "unat (z - ?c) = unat z - unat n" unfolding c by simp
  show "z - ?c \<le> z" using u by (simp add: word_le_nat_alt)
  show "length ?b = length b" using assms(1) c by simp
  show "take (unat (z - ?c)) ?b = drop (unat n) (take (unat z) b)" using assms(1) unfolding u c by (simp add: min_def)
qed

section \<open>What the checksum is\<close>

text \<open>The sum of the little endian 16-bit words, an odd last byte as a word of its own.\<close>

fun word_sum :: "mem \<Rightarrow> nat \<Rightarrow> nat \<Rightarrow> nat" where
  "word_sum m a n = (if n > 1 then unat (rd16 m a) + word_sum m (a + 2) (n - 2) else if n > 0 then unat (m a) else 0)"

declare word_sum.simps [simp del]

lemma csum_add_cong: "(\<And>i. i < n \<Longrightarrow> m (a + i) = m' (b + i)) \<Longrightarrow> csum_add m a n acc = csum_add m' b n acc"
proof (induction m a n acc arbitrary: b rule: csum_add.induct)
  case (1 m a n acc)
  have "csum_add m (a + 2) (n - 2) (acc + ucast (rd16 m a)) = csum_add m' (b + 2) (n - 2) (acc + ucast (rd16 m a))" if "n > 1"
    using 1(1) [OF that, of "b + 2"] 1(2) [of "2 + i" for i] by (simp add: add.assoc)
  moreover have "rd16 m a = rd16 m' b" if "n > 1" using 1(2) [of 0] 1(2) [of 1] that by (simp add: rd16_def)
  moreover have "m a = m' b" if "n > 0" using 1(2) [of 0] that by simp
  ultimately show ?case by (simp add: csum_add.simps [of _ a n] csum_add.simps [of _ b n])
qed

lemma net_checksum_at: "at_mem m a xs \<Longrightarrow> n \<le> length xs \<Longrightarrow> net_checksum m a n = net_checksum (mem_of xs) 0 n"
  unfolding net_checksum_def by (subst csum_add_cong [of n m a "mem_of xs" 0]) (auto simp: at_mem_def mem_of_def)

text \<open>The one's complement representative below \<open>2 ^ 16\<close>: end-around carry.\<close>

definition ones_sum :: "nat \<Rightarrow> nat" where
  "ones_sum k = (if k = 0 then 0 else (k - 1) mod 65535 + 1)"

lemma ones_sum_bound: "ones_sum k \<le> 65535"
  by (simp add: ones_sum_def Suc_le_eq less_Suc_eq_le)

lemma ones_sum_id: "k \<le> 65535 \<Longrightarrow> ones_sum k = k"
  by (cases k) (auto simp: ones_sum_def)

lemma ones_sum_carry: "0 < h \<Longrightarrow> ones_sum (l + 65536 * h) = ones_sum (l + h)"
proof -
  assume "0 < h"
  then have "l + 65536 * h - 1 = (l + h - 1) + h * 65535" by simp
  then have "(l + 65536 * h - 1) mod 65535 = (l + h - 1) mod 65535" by (metis mod_mult_self1)
  then show ?thesis using \<open>0 < h\<close> by (simp add: ones_sum_def)
qed

lemma ones_sum_mod: "ones_sum k mod 65535 = k mod 65535"
  by (cases k) (simp_all add: ones_sum_def mod_simps)

lemma word_sum_bound: "word_sum m a n \<le> 65535 * ((n + 1) div 2)"
proof (induction m a n rule: word_sum.induct)
  case (1 m a n)
  have "unat (rd16 m a) \<le> 65535" "unat (m a) \<le> 255"
    using unsigned_less [of "rd16 m a", where 'a = nat] unsigned_less [of "m a", where 'a = nat] by simp_all
  moreover have "(n + 1) div 2 = (n - 2 + 1) div 2 + 1" if "n > 1" using that by presburger
  ultimately show ?case using 1 by (subst word_sum.simps) auto
qed

lemma unat_csum_add: "unat acc + word_sum m a n < 2 ^ 32 \<Longrightarrow> unat (csum_add m a n acc) = unat acc + word_sum m a n"
proof (induction m a n acc rule: csum_add.induct)
  case (1 m a n acc)
  have u: "unat (acc + ucast w) = unat acc + unat w" if "unat acc + unat w < 2 ^ 32" for w :: u16
    using that by (simp add: unat_word_ariths unsigned_ucast_eq take_bit_nat_eq_self)
  have v: "unat (acc + ucast w) = unat acc + unat w" if "unat acc + unat w < 2 ^ 32" for w :: u8
    using that by (simp add: unat_word_ariths unsigned_ucast_eq take_bit_nat_eq_self)
  from 1 show ?case
    by (subst csum_add.simps, subst word_sum.simps) (auto simp: word_sum.simps [of m a n] u v)
qed

lemma unat_csum_fold: "unat (csum_fold s) = ones_sum (unat s)"
proof (induction s rule: csum_fold.induct)
  case (1 s)
  show ?case
  proof (cases "drop_bit 16 s = 0")
    case True
    then have "unat s \<le> 65535" using div_eq_0_iff [of "unat s" 65536]
      by (simp add: drop_bit_eq_div unat_div_distrib flip: unat_eq_0)
    then show ?thesis using True by (subst csum_fold.simps) (simp add: ones_sum_id)
  next
    case False
    then have "0 < unat (drop_bit 16 s)" by (simp add: unat_gt_0)
    then show ?thesis using 1 False unat_split16 [of s] unat_fold_step [of s] ones_sum_carry
      by (subst csum_fold.simps) simp
  qed
qed

lemma net_checksum_sum:
  assumes "n \<le> 131072"
  shows "unat (net_checksum m a n) = 65535 - ones_sum (word_sum m a n)"
proof -
  have "word_sum m a n < 2 ^ 32" using word_sum_bound [of m a n] assms by (auto dest: div_le_mono [where k = 2])
  then have f: "unat (csum_fold (csum_add m a n 0)) = ones_sum (word_sum m a n)"
    by (simp add: unat_csum_fold unat_csum_add)
  define w where "w = csum_fold (csum_add m a n 0)"
  have "ucast (NOT w) = (NOT (ucast w) :: u16)" by (rule bit_word_eqI) (simp add: bit_ucast_iff bit_not_iff)
  then have "net_checksum m a n = - 1 - ucast w" by (simp add: net_checksum_def w_def not_eq_complement)
  moreover have "unat (ucast w :: u16) = unat w"
    using f ones_sum_bound [of "word_sum m a n"] by (simp add: w_def unsigned_ucast_eq take_bit_nat_eq_self)
  moreover have "unat (- 1 - ucast w :: u16) = 65535 - unat (ucast w :: u16)"
    by (subst unat_sub) (simp_all add: unsigned_minus_1_eq_mask mask_eq_exp_minus_1)
  ultimately show ?thesis using f by (simp add: w_def)
qed

lemma rd16_store:
  "rd16 (m(a := ucast w, Suc a := ucast (drop_bit 8 w))) a = w"
  "b + 1 < a \<or> a + 1 < b \<Longrightarrow> rd16 (m(a := x, Suc a := y)) b = rd16 m b"
  by (auto simp: rd16_def)

lemma word_sum_frame: "(\<And>x. a \<le> x \<Longrightarrow> m x = m' x) \<Longrightarrow> word_sum m a n = word_sum m' a n"
proof (induction m a n rule: word_sum.induct)
  case (1 m a n)
  then show ?case by (simp add: word_sum.simps [of _ a n] rd16_def)
qed

text \<open>Changing the word at an even offset changes the sum by the difference.\<close>

lemma word_sum_store:
  fixes w :: u16
  assumes "even j" "j + 1 < n"
  shows "word_sum (m(a + j := ucast w, Suc (a + j) := ucast (drop_bit 8 w))) a n + unat (rd16 m (a + j))
       = word_sum m a n + unat w"
  using assms
proof (induction m a n arbitrary: j rule: word_sum.induct)
  case (1 m a n)
  let ?m = "m(a + j := ucast w, Suc (a + j) := ucast (drop_bit 8 w))"
  have n: "n > 1" using 1(3) by simp
  show ?case
  proof (cases "j = 0")
    case True
    have "rd16 ?m a = w" "word_sum ?m (a + 2) (n - 2) = word_sum m (a + 2) (n - 2)"
      using rd16_store(1) [of m a w] word_sum_frame [of "a + 2" ?m m "n - 2"] True by simp_all
    then show ?thesis using n True unfolding word_sum.simps [of _ a n] by simp
  next
    case False
    then have j: "j \<ge> 2" "even (j - 2)" "j - 2 + 1 < n - 2" using 1(2,3) by (auto elim!: evenE)
    have e: "a + 2 + (j - 2) = a + j" using j by simp
    have "word_sum ?m (a + 2) (n - 2) + unat (rd16 m (a + j)) = word_sum m (a + 2) (n - 2) + unat w"
      using 1(1) [OF n j(2,3)] unfolding e .
    moreover have "rd16 ?m a = rd16 m a" using j(1) by (intro rd16_store(2)) simp
    ultimately show ?thesis using n unfolding word_sum.simps [of _ a n] by simp
  qed
qed

lemma ones_sum_complement: "ones_sum (k + (65535 - ones_sum k)) = 65535"
proof (cases k)
  case (Suc i)
  have i: "i = 65535 * (i div 65535) + i mod 65535" by simp
  have "i mod 65535 \<le> 65534" by (simp add: less_Suc_eq_le [symmetric])
  with i have "Suc i + (65535 - (i mod 65535 + 1)) - 1 = 65534 + i div 65535 * 65535" by linarith
  then have "(Suc i + (65535 - (i mod 65535 + 1)) - 1) mod 65535 = 65534" by simp
  then show ?thesis using Suc by (simp add: ones_sum_def)
qed (simp add: ones_sum_def)

lemma residue_cases:
  assumes "(k + y) mod 65535 = (k + x) mod 65535" "x \<le> 65535" "y \<le> (65535 :: nat)"
  shows "x = y \<or> {x, y} = {0, 65535}"
proof -
  have "int (k + y) mod 65535 = int (k + x) mod 65535" using assms(1) by (metis of_nat_mod of_nat_numeral)
  then have "65535 dvd int y - int x" by (simp add: mod_eq_dvd_iff)
  then obtain q where "int y - int x = 65535 * q" by (elim dvdE)
  moreover from this have "-1 \<le> q" "q \<le> 1" using assms(2,3) by linarith+
  then have "q = -1 \<or> q = 0 \<or> q = 1" by linarith
  ultimately show ?thesis using assms(2,3) by auto
qed

lemma ones_sum_cong: "ones_sum x = ones_sum y \<Longrightarrow> x mod 65535 = y mod 65535"
  using ones_sum_mod [of x] ones_sum_mod [of y] by simp

text \<open>
  C29. The checksum is the complement of the one's complement sum of the 16-bit words, for every
  buffer of at most 128 KiB: the carries of the 32-bit accumulator are all folded in. Storing it in a
  zero field at an even offset makes the checksum of the whole buffer 0, the receiver's test; and
  replacing one word by another changes the checksum, unless one is 0 and the other \<^verbatim>\<open>0xFFFF\<close>.
\<close>

theorem net_checksum_correct:
  assumes "n \<le> 131072"
  shows "unat (net_checksum m a n) = 65535 - ones_sum (word_sum m a n)
    \<and> (even j \<and> j + 1 < n \<and> rd16 m (a + j) = 0 \<and> w = net_checksum m a n
        \<longrightarrow> net_checksum (m(a + j := ucast w, Suc (a + j) := ucast (drop_bit 8 w))) a n = 0)
    \<and> (even j \<and> j + 1 < n \<and> v \<noteq> rd16 m (a + j) \<and> {v, rd16 m (a + j)} \<noteq> {0, 0xFFFF}
        \<longrightarrow> net_checksum (m(a + j := ucast v, Suc (a + j) := ucast (drop_bit 8 v))) a n \<noteq> net_checksum m a n)"
proof (intro conjI impI)
  let ?S = "word_sum m a n"
  show c: "unat (net_checksum m a n) = 65535 - ones_sum ?S" by (rule net_checksum_sum [OF assms])
  let ?m = "\<lambda>w. m(a + j := ucast w, Suc (a + j) := ucast (drop_bit 8 w))"
  {
    assume h: "even j \<and> j + 1 < n \<and> rd16 m (a + j) = 0 \<and> w = net_checksum m a n"
    then have S: "word_sum (?m w) a n = ?S + (65535 - ones_sum ?S)" using word_sum_store [of j n m a w] c by simp
    then have "unat (net_checksum (?m w) a n) = 0" using net_checksum_sum [OF assms, of "?m w" a] S ones_sum_complement [of ?S] by simp
    then show "net_checksum (?m w) a n = 0" by (simp add: unat_eq_0)
  }
  assume h: "even j \<and> j + 1 < n \<and> v \<noteq> rd16 m (a + j) \<and> {v, rd16 m (a + j)} \<noteq> {0, 0xFFFF}"
  define x y where "x = unat v" and "y = unat (rd16 m (a + j))"
  have "x \<le> 65535" "y \<le> 65535"
    using unsigned_less [of v, where 'a = nat] unsigned_less [of "rd16 m (a + j)", where 'a = nat] by (simp_all add: x_def y_def)
  moreover have "v = of_nat x" "rd16 m (a + j) = of_nat y" by (simp_all add: x_def y_def)
  ultimately have b: "x \<le> 65535" "y \<le> 65535" "x \<noteq> y" "\<not> (x = 0 \<and> y = 65535)" "\<not> (y = 0 \<and> x = 65535)"
    using h by auto
  have s: "word_sum (?m v) a n + y = ?S + x" using word_sum_store [of j n m a v] h by (simp add: x_def y_def)
  show "net_checksum (?m v) a n \<noteq> net_checksum m a n"
  proof
    assume "net_checksum (?m v) a n = net_checksum m a n"
    then have "ones_sum (word_sum (?m v) a n) = ones_sum ?S"
      using net_checksum_sum [OF assms, of "?m v" a] c ones_sum_bound [of "word_sum (?m v) a n"] ones_sum_bound [of ?S] by simp
    then have "word_sum (?m v) a n mod 65535 = ?S mod 65535" by (rule ones_sum_cong)
    then have "(?S + y) mod 65535 = (?S + x) mod 65535" by (metis s mod_add_left_eq)
    then show False using residue_cases [OF _ b(1,2)] b by (auto simp: doubleton_eq_iff)
  qed
qed


theorem net_checksum_correct_witness:
  "net_checksum (mem_of [1, 0, 2, 0, 0, 0]) 0 6 = 0xFFFC
   \<and> net_checksum ((mem_of [1, 0, 2, 0, 0, 0])(4 := 0xFC, 5 := 0xFF)) 0 6 = 0
   \<and> net_checksum ((mem_of [1, 0, 2, 0, 0, 0])(4 := 3, 5 := 0)) 0 6 \<noteq> 0xFFFC"
proof -
  let ?m = "mem_of [1, 0, 2, 0, 0, 0]"
  have r: "rd16 ?m 0 = 1" "rd16 ?m 2 = 2" "rd16 ?m 4 = 0" by (simp_all add: rd16_def mem_of_def nth_Cons')
  have "word_sum ?m 0 6 = unat (rd16 ?m 0) + (unat (rd16 ?m 2) + unat (rd16 ?m 4))" by (simp add: word_sum.simps eval_nat_numeral)
  then have "word_sum ?m 0 6 = 3" by (simp add: r)
  then have "unat (net_checksum ?m 0 6) = 65532"
    using net_checksum_correct [of 6 ?m 0 4 0 0] by (simp add: ones_sum_def)
  then have c: "net_checksum ?m 0 6 = 0xFFFC" by (simp add: word_unat_eq_iff)
  have u: "(0xFFFC :: u8) = 0xFC" by (simp add: word_unat_eq_iff)
  show ?thesis using c net_checksum_correct [of 6 ?m 0 4 "0xFFFC" 3] r by (simp add: doubleton_eq_iff u)
qed

end
