(* ===== verification/Udp.thy ===== *)
theory Udp
  imports Net_Base
begin

text \<open>
  Datagram sockets, \<^verbatim>\<open>net/udp.c\<close>. A socket's received bytes are the first \<open>urecv_size\<close> bytes of its
  buffer; the contents of a fresh buffer are unspecified and never read, they are zero here.
\<close>

section \<open>Operations\<close>

definition udp_init :: "net \<Rightarrow> net" where
  "udp_init s = s\<lparr>udp_sockets := [], next_udp_port := 40000\<rparr>"

definition udp_socket_create :: "net \<Rightarrow> nat \<times> net" where
  "udp_socket_create s =
     (let (ok, s1) = net_alloc s
      in if \<not> ok then (0, s1)
      else let (ok2, s2) = net_alloc s1; p = next_sock s2;
               x = \<lparr>ulocal_ip = 0, ulocal_port = 0, uremote_ip = 0, uremote_port = 0,
                    urecv_buffer = (if ok2 then Some (replicate 65536 0) else None), urecv_size = 0, urecv_capacity = 65536\<rparr>
           in (p, s2\<lparr>usocks := (usocks s2)(p \<mapsto> x), udp_sockets := p # udp_sockets s2, next_sock := p + 1\<rparr>))"

definition udp_socket_bind :: "nat \<Rightarrow> u32 \<Rightarrow> u16 \<Rightarrow> net \<Rightarrow> (int \<times> net) option" where
  "udp_socket_bind p ip port s =
     (if p = 0 then Some (- EINVAL, s)
      else case usocks s p of None \<Rightarrow> None
      | Some x \<Rightarrow> Some (0, s\<lparr>usocks := (usocks s)(p \<mapsto> x\<lparr>ulocal_ip := ip, ulocal_port := port\<rparr>)\<rparr>))"

text \<open>The frame: Ethernet, IP and UDP headers, then \<open>n\<close> bytes at address \<open>d\<close> of memory \<open>m\<close>.\<close>

definition udp_frame :: "net_device \<Rightarrow> u32 \<Rightarrow> u32 \<Rightarrow> u16 \<Rightarrow> u16 \<Rightarrow> u8 list \<Rightarrow> u8 list" where
  "udp_frame dv src dst sport dport bs =
     eth_bytes \<lparr>eth_dest = replicate 6 0xFF, eth_src = dmac dv, ethertype = 0x0008\<rparr>
     @ ip_bytes (mk_ip (of_nat (28 + length bs)) 17 src dst)
     @ udp_bytes \<lparr>udp_src_port = sport, udp_dest_port = dport, udp_length = of_nat (8 + length bs), udp_checksum = 0\<rparr>
     @ bs"

definition udp_socket_sendto :: "nat \<Rightarrow> nat \<Rightarrow> u32 \<Rightarrow> u16 \<Rightarrow> mem \<Rightarrow> nat \<Rightarrow> u32 \<Rightarrow> net \<Rightarrow> (int \<times> net) option" where
  "udp_socket_sendto p dev dst dport m d n s =
     (if p = 0 \<or> dev = 0 then Some (- EINVAL, s)
      else case usocks s p of None \<Rightarrow> None
      | Some x \<Rightarrow>
        let (ok, s1) = net_alloc s
        in if \<not> ok then Some (- ENOMEM, s1)
        else let dv = devs s1 dev;
                 src = (if ulocal_ip x \<noteq> 0 then ulocal_ip x else dip dv);
                 sport = (if ulocal_port x \<noteq> 0 then ulocal_port x else next_udp_port s1);
                 s2 = (if ulocal_port x \<noteq> 0 then s1 else s1\<lparr>next_udp_port := next_udp_port s1 + 1\<rparr>);
                 frame = udp_frame dv src dst sport dport (bytes_at m d (unat n));
                 s3 = (if ulocal_port x = 0 then s2\<lparr>usocks := (usocks s2)(p \<mapsto> x\<lparr>ulocal_port := sport\<rparr>)\<rparr> else s2)
             in Some (sint n, send_packet dev frame (42 + n) s3))"

definition udp_socket_recvfrom :: "nat \<Rightarrow> u32 \<Rightarrow> net \<Rightarrow> ((int \<times> u8 list) \<times> net) option" where
  "udp_socket_recvfrom p n s =
     (if p = 0 then Some ((- EINVAL, []), s)
      else case usocks s p of None \<Rightarrow> None
      | Some x \<Rightarrow>
        if urecv_size x = 0 then Some ((0, []), s)
        else (case sock_take n (urecv_size x) (urecv_buffer x) of None \<Rightarrow> None
          | Some (c, bs, b') \<Rightarrow> Some ((sint c, bs), s\<lparr>usocks := (usocks s)(p \<mapsto> x\<lparr>urecv_buffer := Some b', urecv_size := urecv_size x - c\<rparr>)\<rparr>)))"

definition udp_socket_destroy :: "nat \<Rightarrow> net \<Rightarrow> net option" where
  "udp_socket_destroy p s =
     (if p = 0 then Some s
      else case usocks s p of None \<Rightarrow> None
      | Some x \<Rightarrow> Some (s\<lparr>udp_sockets := remove1 p (udp_sockets s), usocks := (usocks s)(p := None)\<rparr>))"

definition udp_match :: "udp_header \<Rightarrow> udp_socket \<Rightarrow> bool" where
  "udp_match h x \<longleftrightarrow> ulocal_port x = udp_dest_port h \<and> (uremote_port x = 0 \<or> uremote_port x = udp_src_port h)"

text \<open>
  \<^verbatim>\<open>uint32_t data_len = udp->length - sizeof(struct udp_header)\<close> and the capacity test are 32-bit
  arithmetic, so both wrap.
\<close>

definition udp_handle_packet :: "mem \<Rightarrow> nat \<Rightarrow> u32 \<Rightarrow> u32 \<Rightarrow> net \<Rightarrow> net option" where
  "udp_handle_packet m a n src s =
     (if n < 8 then Some s
      else let h = get_udp m a in
      case sock_find (udp_match h) (usocks s) (udp_sockets s) of None \<Rightarrow> None
      | Some p \<Rightarrow> if p = 0 then Some s
        else case usocks s p of None \<Rightarrow> None
        | Some x \<Rightarrow>
          let k = ucast (udp_length h) - 8
          in if k > 0 \<and> urecv_size x + k \<le> urecv_capacity x
             then case urecv_buffer x of None \<Rightarrow> None
               | Some b \<Rightarrow> (case buf_write (unat (urecv_size x)) (bytes_at m (a + 8) (unat k)) b of None \<Rightarrow> None
                  | Some b' \<Rightarrow> Some (s\<lparr>usocks := (usocks s)(p \<mapsto> x\<lparr>urecv_buffer := Some b', urecv_size := urecv_size x + k\<rparr>)\<rparr>))
             else Some s)"

section \<open>Sockets as queues of bytes\<close>

definition udp_ok :: "udp_socket \<Rightarrow> bool" where
  "udp_ok x \<longleftrightarrow> urecv_capacity x = 65536 \<and> urecv_size x \<le> 65536 \<and> (\<exists>b. urecv_buffer x = Some b \<and> length b = 65536)"

definition udp_data :: "udp_socket \<Rightarrow> u8 list" where
  "udp_data x = take (unat (urecv_size x)) (the (urecv_buffer x))"

definition udp_inv :: "net \<Rightarrow> bool" where
  "udp_inv s \<longleftrightarrow> distinct (udp_sockets s) \<and> (\<forall>p \<in> set (udp_sockets s). p \<noteq> 0 \<and> p < next_sock s \<and> (\<exists>x. usocks s p = Some x \<and> udp_ok x))"

text \<open>The socket a packet goes to: the newest one that matches.\<close>

definition udp_target :: "udp_header \<Rightarrow> net \<Rightarrow> nat option" where
  "udp_target h s = find (\<lambda>q. udp_match h (the (usocks s q))) (udp_sockets s)"

lemma udp_invD: "udp_inv s \<Longrightarrow> p \<in> set (udp_sockets s) \<Longrightarrow> p \<noteq> 0 \<and> p < next_sock s \<and> (\<exists>x. usocks s p = Some x \<and> udp_ok x)"
  by (simp add: udp_inv_def)

lemma udp_find:
  assumes "udp_inv s"
  shows "sock_find (udp_match h) (usocks s) (udp_sockets s) = Some (case udp_target h s of None \<Rightarrow> 0 | Some q \<Rightarrow> q)"
  unfolding udp_target_def using assms by (intro sock_find_spec) (auto simp: udp_inv_def)

lemma udp_targetD: "udp_target h s = Some p \<Longrightarrow> p \<in> set (udp_sockets s) \<and> udp_match h (the (usocks s p))"
  by (auto simp: udp_target_def find_Some_iff)

lemma udp_inv_upd:
  assumes "udp_inv s" "udp_ok x'" "usocks s p \<noteq> None"
  shows "udp_inv (s\<lparr>usocks := (usocks s)(p \<mapsto> x')\<rparr>)"
  using assms by (auto simp: udp_inv_def)

text \<open>Delivery to one socket.\<close>

lemma udp_handle_to:
  assumes inv: "udp_inv s" and n: "8 \<le> n" and t: "udp_target (get_udp m a) s = Some p"
    and h: "udp_length (get_udp m a) = of_nat (8 + k)" and k: "k \<le> 65527"
    and x: "usocks s p = Some x"
  shows "\<exists>x'. udp_handle_packet m a n src s = Some (s\<lparr>usocks := (usocks s)(p \<mapsto> x')\<rparr>) \<and> udp_ok x'
     \<and> x' = x\<lparr>urecv_buffer := urecv_buffer x', urecv_size := urecv_size x'\<rparr>
     \<and> udp_data x' = (if length (udp_data x) + k \<le> 65536 then udp_data x @ bytes_at m (a + 8) k else udp_data x)"
proof -
  have p: "p \<noteq> 0" and ok: "udp_ok x" using udp_invD [OF inv, of p] udp_targetD [OF t] x by auto
  then obtain b where b: "urecv_buffer x = Some b" "length b = 65536" "urecv_capacity x = 65536" "unat (urecv_size x) \<le> 65536"
    by (auto simp: udp_ok_def word_le_nat_alt)
  have ld: "length (udp_data x) = unat (urecv_size x)" using b by (simp add: udp_data_def)
  have l: "ucast (udp_length (get_udp m a)) - 8 = (of_nat k :: u32)"
  proof -
    have "ucast (of_nat (8 + k) :: u16) = (of_nat (8 + k) :: u32)"
      using k by (simp only: word_unat_eq_iff unsigned_ucast_eq unsigned_of_nat) (simp add: take_bit_nat_eq_self)
    then show ?thesis by (simp only: h) simp
  qed
  have uk: "unat (of_nat k :: u32) = k" using k by (simp add: unsigned_of_nat take_bit_nat_eq_self)
  have sk: "unat (urecv_size x + of_nat k) = unat (urecv_size x) + k" using b(4) k by (simp add: unat_word_ariths uk)
  have cond: "(of_nat k :: u32) > 0 \<and> urecv_size x + of_nat k \<le> urecv_capacity x \<longleftrightarrow> 0 < k \<and> unat (urecv_size x) + k \<le> 65536"
    using uk sk b(3) by (simp add: word_less_nat_alt word_le_nat_alt)
  have hd: "udp_handle_packet m a n src s = (if 0 < k \<and> unat (urecv_size x) + k \<le> 65536
     then map_option (\<lambda>b'. s\<lparr>usocks := (usocks s)(p \<mapsto> x\<lparr>urecv_buffer := Some b', urecv_size := urecv_size x + of_nat k\<rparr>)\<rparr>)
            (buf_write (unat (urecv_size x)) (bytes_at m (a + 8) k) b) else Some s)"
    using n [folded not_less] p
    by (simp add: udp_handle_packet_def Let_def udp_find [OF inv] t x l cond b(1) uk split: option.split)
  show ?thesis
  proof (cases "0 < k \<and> unat (urecv_size x) + k \<le> 65536")
    case True
    then obtain b' where b': "buf_write (unat (urecv_size x)) (bytes_at m (a + 8) k) b = Some b'" "length b' = 65536"
        "take (unat (urecv_size x) + k) b' = take (unat (urecv_size x)) b @ bytes_at m (a + 8) k"
      using buf_write_spec [of "unat (urecv_size x)" "bytes_at m (a + 8) k" b] b(2) by auto
    show ?thesis using hd True b' b sk
      by (intro exI [of _ "x\<lparr>urecv_buffer := Some b', urecv_size := urecv_size x + of_nat k\<rparr>"])
        (simp add: udp_ok_def udp_data_def word_le_nat_alt)
  next
    case False
    then have "udp_data x = (if length (udp_data x) + k \<le> 65536 then udp_data x @ bytes_at m (a + 8) k else udp_data x)"
      using ld by (auto simp: bytes_at_def)
    then show ?thesis using hd False ok x
      by (intro exI [of _ x]) (auto simp: fun_upd_idem)
  qed
qed


lemma udp_recv_spec:
  assumes inv: "udp_inv s" and p: "p \<in> set (udp_sockets s)" "usocks s p = Some x" and n: "unat n < 2 ^ 31"
  shows "\<exists>x'. udp_socket_recvfrom p n s = Some ((int (min (unat n) (length (udp_data x))), take (unat n) (udp_data x)),
        s\<lparr>usocks := (usocks s)(p \<mapsto> x')\<rparr>) \<and> udp_ok x'
     \<and> x' = x\<lparr>urecv_buffer := urecv_buffer x', urecv_size := urecv_size x'\<rparr> \<and> udp_data x' = drop (unat n) (udp_data x)"
proof -
  have p0: "p \<noteq> 0" and ok: "udp_ok x" using udp_invD [OF inv p(1)] p(2) by auto
  then obtain b where b: "urecv_buffer x = Some b" "length b = 65536" "urecv_capacity x = 65536" "unat (urecv_size x) \<le> 65536"
    by (auto simp: udp_ok_def word_le_nat_alt)
  define z where "z = unat (urecv_size x)"
  have d: "udp_data x = take z b" and ld: "length (udp_data x) = z" using b by (simp_all add: udp_data_def z_def)
  show ?thesis
  proof (cases "urecv_size x = 0")
    case True
    then show ?thesis using p0 p(2) ok
      by (intro exI [of _ x]) (simp add: udp_socket_recvfrom_def fun_upd_idem udp_data_def)
  next
    case False
    from b(4) have "unat (urecv_size x) \<le> length b" by (simp add: b(2))
    then obtain c b' where c: "sock_take n (urecv_size x) (Some b) = Some (c, take (unat n) (take z b), b')"
        "sint c = int (min (unat n) z)" "urecv_size x - c \<le> urecv_size x" "length b' = length b"
        "take (unat (urecv_size x - c)) b' = drop (unat n) (take z b)"
      unfolding z_def by (rule sock_take_spec [OF _ n]) blast
    let ?x = "x\<lparr>urecv_buffer := Some b', urecv_size := urecv_size x - c\<rparr>"
    have "udp_socket_recvfrom p n s = Some ((sint c, take (unat n) (udp_data x)), s\<lparr>usocks := (usocks s)(p \<mapsto> ?x)\<rparr>)"
      using False p0 p(2) b(1) c(1) by (simp add: udp_socket_recvfrom_def d)
    moreover have "udp_ok ?x" using b c(3,4) order.trans [OF c(3)] by (simp add: udp_ok_def word_le_nat_alt)
    moreover have "udp_data ?x = drop (unat n) (udp_data x)" using c(5) by (simp only: d) (simp add: udp_data_def)
    ultimately show ?thesis using c(2) ld by (intro exI [of _ ?x]) simp
  qed
qed

text \<open>
  The receive buffer of a datagram socket is a queue of at most 65536 bytes: a packet whose length
  field is at least 8 is appended to the newest socket that matches its ports if it fits and is
  dropped otherwise, no other socket changes, and nothing is written past the buffer; a receive takes
  the oldest bytes, up to the length asked for.
\<close>

theorem udp_queue:
  assumes "udp_inv s" "8 \<le> n" "udp_length (get_udp m a) = of_nat (8 + k)" "k \<le> 65527"
    and "q \<in> set (udp_sockets s)" "usocks s q = Some x" "unat c < 2 ^ 31"
  shows "(\<exists>s' x'. udp_handle_packet m a n src s = Some s' \<and> udp_inv s' \<and> usocks s' q = Some x'
      \<and> udp_data x' = (if udp_target (get_udp m a) s = Some q \<and> length (udp_data x) + k \<le> 65536
                       then udp_data x @ bytes_at m (a + 8) k else udp_data x))
    \<and> (\<exists>s' x'. udp_socket_recvfrom q c s = Some ((int (min (unat c) (length (udp_data x))), take (unat c) (udp_data x)), s')
      \<and> udp_inv s' \<and> usocks s' q = Some x' \<and> udp_data x' = drop (unat c) (udp_data x))"
proof (intro conjI)
  show "\<exists>s' x'. udp_handle_packet m a n src s = Some s' \<and> udp_inv s' \<and> usocks s' q = Some x'
      \<and> udp_data x' = (if udp_target (get_udp m a) s = Some q \<and> length (udp_data x) + k \<le> 65536
                       then udp_data x @ bytes_at m (a + 8) k else udp_data x)"
  proof (cases "udp_target (get_udp m a) s")
    case None
    then have "udp_handle_packet m a n src s = Some s" using assms(1,2)
      by (simp add: udp_handle_packet_def Let_def udp_find)
    then show ?thesis using None assms(1,6) by simp
  next
    case (Some p)
    then obtain y where y: "usocks s p = Some y" using udp_targetD udp_invD [OF assms(1)] by blast
    from udp_handle_to [OF assms(1,2) Some assms(3,4) y, of src] obtain y' where
      "udp_handle_packet m a n src s = Some (s\<lparr>usocks := (usocks s)(p \<mapsto> y')\<rparr>)" "udp_ok y'"
      "udp_data y' = (if length (udp_data y) + k \<le> 65536 then udp_data y @ bytes_at m (a + 8) k else udp_data y)" by blast
    then show ?thesis using Some y assms(1,6) udp_inv_upd [OF assms(1), of y' p] by (cases "p = q") auto
  qed
  show "\<exists>s' x'. udp_socket_recvfrom q c s = Some ((int (min (unat c) (length (udp_data x))), take (unat c) (udp_data x)), s')
      \<and> udp_inv s' \<and> usocks s' q = Some x' \<and> udp_data x' = drop (unat c) (udp_data x)"
    using udp_recv_spec [OF assms(1,5,6,7)] udp_inv_upd [OF assms(1)] assms(6) by fastforce
qed

text \<open>
  A packet whose length field is below 8 is a memory error as soon as the matching socket
  holds a few bytes: the length minus 8 wraps to almost 4 GiB, the capacity test wraps back and passes,
  and the copy runs past the buffer.
\<close>

theorem udp_short_length_crash:
  assumes inv: "udp_inv s" and n: "8 \<le> n" and t: "udp_target (get_udp m a) s = Some p" and x: "usocks s p = Some x"
    and l: "unat (udp_length (get_udp m a)) < 8" "8 \<le> unat (udp_length (get_udp m a)) + length (udp_data x)"
  shows "udp_handle_packet m a n src s = None"
proof -
  let ?l = "udp_length (get_udp m a)"
  have p: "p \<noteq> 0" and ok: "udp_ok x" using udp_invD [OF inv, of p] udp_targetD [OF t] x by auto
  then obtain b where b: "urecv_buffer x = Some b" "length b = 65536" "urecv_capacity x = 65536" "unat (urecv_size x) \<le> 65536"
    by (auto simp: udp_ok_def word_le_nat_alt)
  define k where "k = (ucast ?l - 8 :: u32)"
  have ul: "unat (ucast ?l :: u32) = unat ?l" using l(1) by (simp add: unsigned_ucast_eq take_bit_nat_eq_self)
  have k: "unat k = 2 ^ 32 - 8 + unat ?l" using l(1) ul by (simp add: k_def unat_sub_if' word_le_nat_alt)
  have z: "length (udp_data x) = unat (urecv_size x)" using b by (simp add: udp_data_def)
  have "unat (urecv_size x + k) = unat (urecv_size x) + unat ?l - 8"
    using l k z b(4) by (simp add: unat_word_ariths mod_if)
  then have c: "k > 0 \<and> urecv_size x + k \<le> urecv_capacity x" using b(3,4) k l by (simp add: word_less_nat_alt word_le_nat_alt)
  have "buf_write (unat (urecv_size x)) (bytes_at m (a + 8) (unat k)) b = None" using k b(2) by (simp add: buf_write_def)
  then show ?thesis using n [folded not_less] p c b(1) x
    by (simp add: udp_handle_packet_def Let_def udp_find [OF inv] t k_def)
qed


section \<open>The invariant is established and kept\<close>

lemma udp_init_inv: "udp_inv (udp_init s)"
  by (simp add: udp_inv_def udp_init_def)

text \<open>The invariant needs the second allocation of \<^verbatim>\<open>udp_socket_create\<close>, which the code does not check.\<close>

lemma udp_create_spec:
  assumes "udp_inv s" "nplan s = []" "0 < next_sock s"
  obtains x s' where "udp_socket_create s = (next_sock s, s')" "udp_inv s'" "udp_sockets s' = next_sock s # udp_sockets s"
    "usocks s' = (usocks s)(next_sock s \<mapsto> x)" "udp_ok x" "udp_data x = []" "ulocal_port x = 0" "uremote_port x = 0"
    "nplan s' = []" "next_sock s' = next_sock s + 1" "devs s' = devs s"
proof
  define b where "b = (replicate 65536 0 :: u8 list)"
  define x where "x = \<lparr>ulocal_ip = 0, ulocal_port = 0, uremote_ip = 0, uremote_port = 0, urecv_buffer = Some b, urecv_size = 0, urecv_capacity = 65536\<rparr>"
  let ?s = "s\<lparr>usocks := (usocks s)(next_sock s \<mapsto> x), udp_sockets := next_sock s # udp_sockets s, next_sock := next_sock s + 1\<rparr>"
  have b: "length b = 65536" unfolding b_def by (rule length_replicate)
  show "udp_socket_create s = (next_sock s, ?s)"
    using assms(2) unfolding udp_socket_create_def b_def [symmetric] by (simp add: net_alloc_def x_def Let_def)
  show "udp_ok x" "udp_data x = []" "ulocal_port x = 0" "uremote_port x = 0" using b by (simp_all add: x_def udp_ok_def udp_data_def)
  then show "udp_inv ?s" using assms(1,3) by (fastforce simp: udp_inv_def)
qed (use assms(2) in simp_all)

lemma udp_bind_spec:
  assumes "udp_inv s" "p \<in> set (udp_sockets s)" "usocks s p = Some x"
  shows "udp_socket_bind p ip port s = Some (0, s\<lparr>usocks := (usocks s)(p \<mapsto> x\<lparr>ulocal_ip := ip, ulocal_port := port\<rparr>)\<rparr>)
    \<and> udp_inv (s\<lparr>usocks := (usocks s)(p \<mapsto> x\<lparr>ulocal_ip := ip, ulocal_port := port\<rparr>)\<rparr>)"
  using assms udp_invD [OF assms(1,2)]
  by (auto simp: udp_socket_bind_def udp_ok_def intro!: udp_inv_upd)

lemma udp_destroy_spec:
  assumes "udp_inv s" "p \<in> set (udp_sockets s)"
  shows "\<exists>s'. udp_socket_destroy p s = Some s' \<and> udp_inv s' \<and> udp_sockets s' = remove1 p (udp_sockets s)
    \<and> usocks s' p = None \<and> (\<forall>q. q \<noteq> p \<longrightarrow> usocks s' q = usocks s q)"
proof -
  obtain x where "p \<noteq> 0" "usocks s p = Some x" using udp_invD [OF assms] by blast
  then show ?thesis using assms(1) by (auto simp: udp_socket_destroy_def udp_inv_def)
qed

text \<open>A socket bound to port 7 in a fresh stack, and the datagrams to it.\<close>

lemma udp_example:
  obtains s x where "udp_inv s" "udp_sockets s = [1]" "usocks s 1 = Some x" "udp_data x = []" "ulocal_port x = 7" "uremote_port x = 0"
    "nplan s = []" "devs s = devs net_zero"
proof -
  have i: "udp_inv net_zero" "nplan net_zero = []" "0 < next_sock net_zero" by (simp_all add: net_zero_def udp_inv_def)
  have z: "next_sock net_zero = 1" "udp_sockets net_zero = []" by (simp_all add: net_zero_def)
  obtain x s' where "udp_inv s'" "udp_sockets s' = [1]" "usocks s' 1 = Some x" "udp_data x = []" "uremote_port x = 0"
      "nplan s' = []" "devs s' = devs net_zero"
    by (rule udp_create_spec [OF i]) (use that z in fastforce)
  then show ?thesis
    using udp_bind_spec [of s' 1 x 0 7]
    by (intro that [of "s'\<lparr>usocks := (usocks s')(1 \<mapsto> x\<lparr>ulocal_ip := 0, ulocal_port := 7\<rparr>)\<rparr>" "x\<lparr>ulocal_ip := 0, ulocal_port := 7\<rparr>"])
      (auto simp: udp_data_def)
qed

theorem udp_queue_witness:
  "\<exists>s s' x'. udp_handle_packet (mem_of [5, 0, 7, 0, 10, 0, 0, 0, 1, 2]) 0 10 99 s = Some s' \<and> usocks s' 1 = Some x' \<and> udp_data x' = [1, 2]"
proof -
  obtain s x where s: "udp_inv s" "udp_sockets s = [1]" "usocks s 1 = Some x" "udp_data x = []" "ulocal_port x = 7" "uremote_port x = 0"
    by (rule udp_example)
  let ?m = "mem_of [5, 0, 7, 0, 10, 0, 0, 0, 1, 2]"
  have h: "get_udp ?m 0 = \<lparr>udp_src_port = 5, udp_dest_port = 7, udp_length = 10, udp_checksum = 0\<rparr>"
    by (simp add: get_udp_def rd16_def mem_of_def nth_Cons')
  then have t: "udp_target (get_udp ?m 0) s = Some 1" using s by (simp add: udp_target_def udp_match_def)
  have "bytes_at ?m 8 2 = [1, 2]" by (simp add: bytes_at_def mem_of_def nth_Cons' upt_rec)
  then show ?thesis using udp_queue [of s 10 ?m 0 2 1 x 0 99] s h t by fastforce
qed

theorem udp_short_length_crash_witness:
  "\<exists>s. udp_handle_packet (mem_of [5, 0, 7, 0, 7, 0, 0, 0]) 0 8 99 s = None"
proof -
  obtain s x where s: "udp_inv s" "udp_sockets s = [1]" "usocks s 1 = Some x" "udp_data x = []" "ulocal_port x = 7" "uremote_port x = 0"
    by (rule udp_example)
  let ?m = "mem_of [5, 0, 7, 0, 10, 0, 0, 0, 1, 2]"
  have h: "get_udp ?m 0 = \<lparr>udp_src_port = 5, udp_dest_port = 7, udp_length = 10, udp_checksum = 0\<rparr>"
    by (simp add: get_udp_def rd16_def mem_of_def nth_Cons')
  then have t: "udp_target (get_udp ?m 0) s = Some 1" using s by (simp add: udp_target_def udp_match_def)
  from udp_handle_to [OF s(1) _ t _ _ s(3), of 10 2 99] h s(4) obtain x'
    where x': "udp_ok x'" "x' = x\<lparr>urecv_buffer := urecv_buffer x', urecv_size := urecv_size x'\<rparr>" "length (udp_data x') = 2"
    by auto
  let ?s = "s\<lparr>usocks := (usocks s)(1 \<mapsto> x')\<rparr>" and ?n = "mem_of [5, 0, 7, 0, 7, 0, 0, 0]"
  have g: "get_udp ?n 0 = \<lparr>udp_src_port = 5, udp_dest_port = 7, udp_length = 7, udp_checksum = 0\<rparr>"
    by (simp add: get_udp_def rd16_def mem_of_def nth_Cons')
  have "ulocal_port x' = 7" "uremote_port x' = 0" using s(5,6) by (subst x'(2), simp)+
  then have "udp_target (get_udp ?n 0) ?s = Some 1" using s(2) g by (simp add: udp_target_def udp_match_def)
  then have "udp_handle_packet ?n 0 8 99 ?s = None"
    using udp_short_length_crash [of ?s 8 ?n 0 1 x' 99] udp_inv_upd [OF s(1) x'(1), of 1] s(3) x'(3) g by simp
  then show ?thesis by blast
qed

end
