(* ===== verification/Tcp.thy ===== *)
theory Tcp
  imports Net_Base
begin

text \<open>
  Stream sockets, \<^verbatim>\<open>net/tcp.c\<close>: segments out, the connection state machine of
  \<^verbatim>\<open>tcp_handle_packet\<close>, the socket operations, the congestion window and the timer estimate. The
  lines that send are translated with the segment they build; the windows, the congestion window and
  the timer are not used by the sender, as in the code.
\<close>

section \<open>Sending\<close>

abbreviation (input) TCP_FIN :: u8 where "TCP_FIN \<equiv> 0x01"
abbreviation (input) TCP_SYN :: u8 where "TCP_SYN \<equiv> 0x02"
abbreviation (input) TCP_PSH :: u8 where "TCP_PSH \<equiv> 0x08"
abbreviation (input) TCP_ACK :: u8 where "TCP_ACK \<equiv> 0x10"

definition tcp_init :: "net \<Rightarrow> net" where
  "tcp_init s = s\<lparr>tcp_sockets := [], next_tcp_port := 49152\<rparr>"

definition tcp_get_dev :: "net \<Rightarrow> nat \<times> net" where
  "tcp_get_dev s = (if default_dev s \<noteq> 0 then (default_dev s, s) else (net_devices s, s\<lparr>default_dev := net_devices s\<rparr>))"

text \<open>The eight 16-bit words before the segment, as bytes.\<close>

definition pseudo_bytes :: "u32 \<Rightarrow> u32 \<Rightarrow> u32 \<Rightarrow> u8 list" where
  "pseudo_bytes src dst n = concat (map le16
     [ucast (drop_bit 16 src), ucast src, ucast (drop_bit 16 dst), ucast dst, 0, 6, ucast (drop_bit 16 n), ucast n])"

text \<open>
  The buffer has \<open>12 + n\<close> bytes, plus one when \<open>n\<close> is odd, and the sum runs over that many; the header
  words take 16 bytes, so the copy of the segment ends past it. (Sizes are those of segments more
  than 13 bytes shorter than 4 GiB, for which the 32-bit size does not wrap.)
\<close>

definition tcp_checksum :: "u32 \<Rightarrow> u32 \<Rightarrow> u8 list \<Rightarrow> net \<Rightarrow> u32 \<times> net" where
  "tcp_checksum src dst seg s =
     (let (ok, s1) = net_alloc s
      in if \<not> ok then (0, s1)
      else let n = length seg; sz = 12 + n + n mod 2;
               sm = csum_fold (csum_add (mem_of (pseudo_bytes src dst (of_nat n) @ seg)) 0 sz 0)
           in (NOT sm AND 0xFFFF, s1\<lparr>overrun := overrun s1 + (16 + n - sz)\<rparr>))"

definition tcp_send_ip_packet :: "nat \<Rightarrow> u32 \<Rightarrow> u8 \<Rightarrow> u8 list \<Rightarrow> net \<Rightarrow> int \<times> net" where
  "tcp_send_ip_packet dev dst proto bs s =
     (let (ok, s1) = net_alloc s
      in if \<not> ok then (- ENOMEM, s1)
      else let dv = devs s1 dev;
               frame = eth_bytes \<lparr>eth_dest = replicate 6 0xFF, eth_src = dmac dv, ethertype = 0x0008\<rparr>
                 @ ip_bytes (mk_ip (of_nat (20 + length bs)) proto (dip dv) dst) @ bs
           in (sint (of_nat (length bs) :: u32), send_packet dev frame (of_nat (34 + length bs)) s1))"

text \<open>
  The common shape of the four senders: the header with its checksum field zero and the data, the
  checksum over both, the packet.
\<close>

definition tcp_hdr :: "tcp_socket \<Rightarrow> u32 \<Rightarrow> u32 \<Rightarrow> u8 \<Rightarrow> tcp_header" where
  "tcp_hdr x seq ack fl = \<lparr>tcp_src_port = tlocal_port x, tcp_dest_port = tremote_port x, seq_num = seq, ack_num = ack,
     data_offset = 0x50, tcp_flags = fl, window_size = ucast (recv_window x), tcp_hchecksum = 0, urgent_ptr = 0\<rparr>"

definition tcp_transmit :: "tcp_socket \<Rightarrow> nat \<Rightarrow> tcp_header \<Rightarrow> u8 list \<Rightarrow> net \<Rightarrow> int \<times> net" where
  "tcp_transmit x dev h bs s =
     (let (c, s1) = tcp_checksum (tlocal_ip x) (tremote_ip x) (tcp_bytes h @ bs) s
      in tcp_send_ip_packet dev (tremote_ip x) 6 (tcp_bytes (h\<lparr>tcp_hchecksum := ucast c\<rparr>) @ bs) s1)"

definition tcp_send_syn :: "tcp_socket \<Rightarrow> nat \<Rightarrow> net \<Rightarrow> int \<times> net" where
  "tcp_send_syn x dev s = tcp_transmit x dev (tcp_hdr x (send_seq x) 0 TCP_SYN) [] s"

definition tcp_send_ack :: "tcp_socket \<Rightarrow> nat \<Rightarrow> u32 \<Rightarrow> u32 \<Rightarrow> net \<Rightarrow> int \<times> net" where
  "tcp_send_ack x dev seq ack s = tcp_transmit x dev (tcp_hdr x seq ack TCP_ACK) [] s"

definition tcp_send_fin :: "tcp_socket \<Rightarrow> nat \<Rightarrow> net \<Rightarrow> int \<times> net" where
  "tcp_send_fin x dev s = tcp_transmit x dev (tcp_hdr x (send_seq x) (recv_seq x) (TCP_FIN OR TCP_ACK)) [] s"

text \<open>\<open>tcp_len\<close> is 32-bit; when it wraps, the copy of the data runs past the buffer.\<close>

definition tcp_send_data :: "nat \<Rightarrow> nat \<Rightarrow> mem \<Rightarrow> nat \<Rightarrow> u32 \<Rightarrow> net \<Rightarrow> (int \<times> net) option" where
  "tcp_send_data p dev m d n s = (case tsocks s p of None \<Rightarrow> None
     | Some x \<Rightarrow>
       let (ok, s1) = net_alloc s
       in if \<not> ok then Some (- ENOMEM, s1)
       else if 20 + unat n \<ge> 2 ^ 32 then None
       else let (r, s2) = tcp_transmit x dev (tcp_hdr x (send_seq x) (recv_seq x) (TCP_PSH OR TCP_ACK)) (bytes_at m d (unat n)) s1
            in Some (r, s2\<lparr>tsocks := (tsocks s2)(p \<mapsto> x\<lparr>send_seq := send_seq x + n\<rparr>)\<rparr>))"

section \<open>Socket operations\<close>

definition tcp_socket_create :: "net \<Rightarrow> nat \<times> net" where
  "tcp_socket_create s =
     (let (ok, s1) = net_alloc s
      in if \<not> ok then (0, s1)
      else let (ok2, s2) = net_alloc s1; (ok3, s3) = net_alloc s2; p = next_sock s3;
               x = \<lparr>tlocal_ip = 0, tlocal_port = 0, tremote_ip = 0, tremote_port = 0, send_seq = 0, recv_seq = 0, send_unack = 0,
                    send_window = 8192, recv_window = 8192, tstate = TCP_CLOSED,
                    tsend_buffer = (if ok2 then Some (replicate 65536 0) else None),
                    trecv_buffer = (if ok3 then Some (replicate 65536 0) else None),
                    send_buffer_size = 0, recv_buffer_size = 0, cwnd = 10, ssthresh = 65535, rtt = 0, rtt_var = 0, rto = 200\<rparr>
           in (p, s3\<lparr>tsocks := (tsocks s3)(p \<mapsto> x), tcp_sockets := p # tcp_sockets s3, next_sock := p + 1\<rparr>))"

text \<open>\<open>sock->f = v\<close> for a socket pointer.\<close>

definition tset :: "nat \<Rightarrow> (tcp_socket \<Rightarrow> tcp_socket) \<Rightarrow> net \<Rightarrow> net" where
  "tset p f s = s\<lparr>tsocks := (tsocks s)(p := map_option f (tsocks s p))\<rparr>"

definition tcp_socket_bind :: "nat \<Rightarrow> u32 \<Rightarrow> u16 \<Rightarrow> net \<Rightarrow> (int \<times> net) option" where
  "tcp_socket_bind p ip port s =
     (if p = 0 then Some (- EINVAL, s) else if tsocks s p = None then None
      else Some (0, tset p (\<lambda>x. x\<lparr>tlocal_ip := ip, tlocal_port := port\<rparr>) s))"

definition tcp_port :: "nat \<Rightarrow> tcp_socket \<Rightarrow> net \<Rightarrow> net" where
  "tcp_port p x s = (if tlocal_port x = 0
     then tset p (\<lambda>x. x\<lparr>tlocal_port := next_tcp_port s\<rparr>) (s\<lparr>next_tcp_port := next_tcp_port s + 1\<rparr>) else s)"

definition tcp_socket_connect :: "nat \<Rightarrow> u32 \<Rightarrow> u16 \<Rightarrow> net \<Rightarrow> (int \<times> net) option" where
  "tcp_socket_connect p ip port s =
     (if p = 0 then Some (- EINVAL, s)
      else case tsocks s p of None \<Rightarrow> None
      | Some x \<Rightarrow>
        let s1 = tcp_port p x (tset p (\<lambda>x. x\<lparr>tremote_ip := ip, tremote_port := port\<rparr>) s);
            s2 = tset p (\<lambda>x. x\<lparr>send_seq := ucast (ms_time s * 1000), tstate := TCP_SYN_SENT\<rparr>) s1;
            (dev, s3) = tcp_get_dev s2
        in Some (0, if dev \<noteq> 0 then snd (tcp_send_syn (the (tsocks s3 p)) dev s3) else s3))"

definition tcp_socket_listen :: "nat \<Rightarrow> net \<Rightarrow> (int \<times> net) option" where
  "tcp_socket_listen p s =
     (if p = 0 then Some (- EINVAL, s)
      else case tsocks s p of None \<Rightarrow> None
      | Some x \<Rightarrow> Some (0, tset p (\<lambda>x. x\<lparr>tstate := TCP_LISTEN\<rparr>) (tcp_port p x s)))"

text \<open>\<^verbatim>\<open>NULL\<close> on both paths.\<close>

definition tcp_socket_accept :: "nat \<Rightarrow> net \<Rightarrow> nat option" where
  "tcp_socket_accept p s =
     (if p = 0 then Some 0 else case tsocks s p of None \<Rightarrow> None | Some x \<Rightarrow> if tstate x \<noteq> TCP_LISTEN then Some 0 else Some 0)"

definition tcp_socket_send :: "nat \<Rightarrow> mem \<Rightarrow> nat \<Rightarrow> u32 \<Rightarrow> net \<Rightarrow> (int \<times> net) option" where
  "tcp_socket_send p m d n s =
     (if p = 0 then Some (- EINVAL, s)
      else case tsocks s p of None \<Rightarrow> None
      | Some x \<Rightarrow> if tstate x \<noteq> TCP_ESTABLISHED then Some (- EINVAL, s)
        else let (dev, s1) = tcp_get_dev s
             in if dev = 0 then Some (- ENODEV, s1) else tcp_send_data p dev m d n s1)"

definition tcp_socket_recv :: "nat \<Rightarrow> u32 \<Rightarrow> net \<Rightarrow> ((int \<times> u8 list) \<times> net) option" where
  "tcp_socket_recv p n s =
     (if p = 0 then Some ((- EINVAL, []), s)
      else case tsocks s p of None \<Rightarrow> None
      | Some x \<Rightarrow>
        if tstate x \<noteq> TCP_ESTABLISHED then Some ((- EINVAL, []), s)
        else if recv_buffer_size x = 0 then Some ((0, []), s)
        else (case sock_take n (recv_buffer_size x) (trecv_buffer x) of None \<Rightarrow> None
          | Some (c, bs, b') \<Rightarrow> Some ((sint c, bs), s\<lparr>tsocks := (tsocks s)(p \<mapsto> x\<lparr>trecv_buffer := Some b', recv_buffer_size := recv_buffer_size x - c\<rparr>)\<rparr>)))"

definition tcp_socket_close :: "nat \<Rightarrow> net \<Rightarrow> net option" where
  "tcp_socket_close p s =
     (if p = 0 then Some s
      else case tsocks s p of None \<Rightarrow> None
      | Some x \<Rightarrow>
        let (dev, s1) = tcp_get_dev s;
            s2 = (if tstate x = TCP_ESTABLISHED \<and> dev \<noteq> 0 then snd (tcp_send_fin x dev s1) else s1)
        in Some (s2\<lparr>tcp_sockets := remove1 p (tcp_sockets s2), tsocks := (tsocks s2)(p := None)\<rparr>))"

section \<open>Segments in\<close>

definition tcp_match :: "tcp_header \<Rightarrow> tcp_socket \<Rightarrow> bool" where
  "tcp_match h x \<longleftrightarrow> tlocal_port x = ntohs (tcp_dest_port h) \<and> (tremote_port x = 0 \<or> tremote_port x = ntohs (tcp_src_port h))"

definition tcp_ack_from :: "nat \<Rightarrow> nat \<Rightarrow> u32 \<Rightarrow> net \<Rightarrow> net" where
  "tcp_ack_from p dev ack s = (case tsocks s p of None \<Rightarrow> s | Some x \<Rightarrow> snd (tcp_send_ack x dev (send_seq x) ack s))"

text \<open>The data part of an established connection.\<close>

definition tcp_store :: "mem \<Rightarrow> nat \<Rightarrow> u32 \<Rightarrow> tcp_socket \<Rightarrow> tcp_socket option" where
  "tcp_store m d k x =
     (if recv_buffer_size x + k \<le> 65536
      then (case trecv_buffer x of None \<Rightarrow> None
         | Some b \<Rightarrow> map_option (\<lambda>b'. x\<lparr>trecv_buffer := Some b', recv_buffer_size := recv_buffer_size x + k\<rparr>)
             (buf_write (unat (recv_buffer_size x)) (bytes_at m d (unat k)) b))
      else Some x)"

definition tcp_receive :: "nat \<Rightarrow> nat \<Rightarrow> mem \<Rightarrow> nat \<Rightarrow> u32 \<Rightarrow> tcp_header \<Rightarrow> net \<Rightarrow> net option" where
  "tcp_receive p dev m a n h s =
     (let off = ucast (drop_bit 4 (data_offset h)) * 4;
          k = n - off
      in if k > 0
         then case tsocks s p of None \<Rightarrow> None
           | Some x \<Rightarrow> (case tcp_store m (a + unat off) k x of None \<Rightarrow> None
             | Some x' \<Rightarrow> let ack = ntohl (seq_num h) + k
                          in Some (tcp_ack_from p dev ack (tset p (\<lambda>_. x'\<lparr>recv_seq := ack\<rparr>) s)))
         else Some s)"

definition tcp_handle_state :: "nat \<Rightarrow> tcp_socket \<Rightarrow> nat \<Rightarrow> mem \<Rightarrow> nat \<Rightarrow> u32 \<Rightarrow> tcp_header \<Rightarrow> net \<Rightarrow> net option" where
  "tcp_handle_state p x dev m a n h s =
     (let seq = ntohl (seq_num h); ack = ntohl (ack_num h); fl = tcp_flags h
      in case tstate x of
        TCP_SYN_SENT \<Rightarrow>
          if fl AND (TCP_SYN OR TCP_ACK) = TCP_SYN OR TCP_ACK
          then Some (tcp_ack_from p dev (seq + 1)
                 (tset p (\<lambda>x. x\<lparr>tstate := TCP_ESTABLISHED, recv_seq := seq + 1, send_unack := ack\<rparr>) s))
          else if fl AND TCP_SYN \<noteq> 0
          then let s1 = tcp_ack_from p dev (seq + 1) (tset p (\<lambda>x. x\<lparr>tstate := TCP_SYN_RECEIVED, recv_seq := seq + 1\<rparr>) s)
               in Some (snd (tcp_send_syn (the (tsocks s1 p)) dev s1))
          else Some s
      | TCP_SYN_RECEIVED \<Rightarrow>
          if fl AND TCP_ACK \<noteq> 0 then Some (tset p (\<lambda>x. x\<lparr>tstate := TCP_ESTABLISHED, send_unack := ack\<rparr>) s) else Some s
      | TCP_ESTABLISHED \<Rightarrow>
          let s1 = (if fl AND TCP_ACK \<noteq> 0 then tset p (\<lambda>x. x\<lparr>send_unack := ack\<rparr>) s else s);
              s2 = (if fl AND TCP_FIN \<noteq> 0 then tcp_ack_from p dev (seq + 1) (tset p (\<lambda>x. x\<lparr>tstate := TCP_CLOSE_WAIT\<rparr>) s1) else s1)
          in tcp_receive p dev m a n h s2
      | TCP_FIN_WAIT_1 \<Rightarrow>
          if fl AND TCP_FIN \<noteq> 0 then Some (tset p (\<lambda>x. x\<lparr>tstate := TCP_TIME_WAIT\<rparr>) (tcp_ack_from p dev (seq + 1) s)) else Some s
      | TCP_FIN_WAIT_2 \<Rightarrow>
          if fl AND TCP_FIN \<noteq> 0 then Some (tset p (\<lambda>x. x\<lparr>tstate := TCP_TIME_WAIT\<rparr>) (tcp_ack_from p dev (seq + 1) s)) else Some s
      | _ \<Rightarrow> Some s)"

definition tcp_handle_packet :: "nat \<Rightarrow> mem \<Rightarrow> nat \<Rightarrow> u32 \<Rightarrow> net \<Rightarrow> net option" where
  "tcp_handle_packet dev m a n s =
     (if n < 20 then Some s
      else let h = get_tcp m a in
      case sock_find (tcp_match h) (tsocks s) (tcp_sockets s) of None \<Rightarrow> None
      | Some p \<Rightarrow> if p = 0 then Some s
        else case tsocks s p of None \<Rightarrow> None | Some x \<Rightarrow> tcp_handle_state p x dev m a n h s)"

section \<open>Congestion window and timer\<close>

definition tcp_congestion_control :: "tcp_socket \<Rightarrow> tcp_socket" where
  "tcp_congestion_control x =
     (let c = (if cwnd x < ssthresh x then cwnd x * 2 else cwnd x + 1460)
      in x\<lparr>cwnd := (if c > 65535 then 65535 else c)\<rparr>)"

text \<open>\<^verbatim>\<open>abs\<close> of \<^verbatim>\<open>lib/kstring.c\<close>, on a 32-bit \<^verbatim>\<open>int\<close>.\<close>

definition abs_int :: "u32 \<Rightarrow> u32" where
  "abs_int j = (if sint j < 0 then - j else j)"

definition tcp_update_rtt :: "u32 \<Rightarrow> tcp_socket \<Rightarrow> tcp_socket" where
  "tcp_update_rtt r x =
     (let x1 = (if rtt x = 0 then x\<lparr>rtt := r, rtt_var := r div 2\<rparr>
                else x\<lparr>rtt_var := (3 * rtt_var x + abs_int (rtt x - r)) div 4, rtt := (7 * rtt x + r) div 8\<rparr>);
          t = rtt x1 + 4 * rtt_var x1;
          t1 = (if t < 200 then 200 else t)
      in x1\<lparr>rto := (if t1 > 120000 then 120000 else t1)\<rparr>)"

section \<open>What sending leaves alone\<close>

lemma net_alloc_frame [simp]:
  "tsocks (snd (net_alloc s)) = tsocks s" "tcp_sockets (snd (net_alloc s)) = tcp_sockets s" "next_sock (snd (net_alloc s)) = next_sock s"
  "sent (snd (net_alloc s)) = sent s" "devs (snd (net_alloc s)) = devs s"
  by (simp_all add: net_alloc_def split: list.split)

lemma tcp_transmit_frame [simp]:
  "tsocks (snd (tcp_transmit x dev h bs s)) = tsocks s" "tcp_sockets (snd (tcp_transmit x dev h bs s)) = tcp_sockets s"
  "next_sock (snd (tcp_transmit x dev h bs s)) = next_sock s"
  by (simp_all add: tcp_transmit_def tcp_checksum_def tcp_send_ip_packet_def send_packet_def Let_def net_alloc_def
      split: list.split)

lemma tcp_ack_from_frame [simp]:
  "tsocks (tcp_ack_from p dev ack s) = tsocks s" "tcp_sockets (tcp_ack_from p dev ack s) = tcp_sockets s"
  "next_sock (tcp_ack_from p dev ack s) = next_sock s"
  by (simp_all add: tcp_ack_from_def tcp_send_ack_def split: option.split)

lemma tcp_send_frame [simp]:
  "tsocks (snd (tcp_send_syn x dev s)) = tsocks s" "tcp_sockets (snd (tcp_send_syn x dev s)) = tcp_sockets s"
  "next_sock (snd (tcp_send_syn x dev s)) = next_sock s"
  "tsocks (snd (tcp_send_fin x dev s)) = tsocks s" "tcp_sockets (snd (tcp_send_fin x dev s)) = tcp_sockets s"
  "next_sock (snd (tcp_send_fin x dev s)) = next_sock s"
  by (simp_all add: tcp_send_syn_def tcp_send_fin_def)

lemma tcp_get_dev_frame [simp]:
  "tsocks (snd (tcp_get_dev s)) = tsocks s" "tcp_sockets (snd (tcp_get_dev s)) = tcp_sockets s" "next_sock (snd (tcp_get_dev s)) = next_sock s"
  by (simp_all add: tcp_get_dev_def)

lemma tset_frame [simp]:
  "tsocks (tset p f s) = (tsocks s)(p := map_option f (tsocks s p))" "tcp_sockets (tset p f s) = tcp_sockets s"
  "next_sock (tset p f s) = next_sock s" "nplan (tset p f s) = nplan s" "sent (tset p f s) = sent s" "devs (tset p f s) = devs s"
  by (simp_all add: tset_def)

section \<open>The invariant of the sockets\<close>

definition tcp_buf_ok :: "tcp_socket \<Rightarrow> bool" where
  "tcp_buf_ok x \<longleftrightarrow> (if trecv_buffer x = None then recv_buffer_size x = 0
     else length (the (trecv_buffer x)) = 65536 \<and> recv_buffer_size x \<le> 65536)"

definition tcp_reached :: "tcp_state set" where
  "tcp_reached = {TCP_CLOSED, TCP_LISTEN, TCP_SYN_SENT, TCP_SYN_RECEIVED, TCP_ESTABLISHED, TCP_CLOSE_WAIT}"

definition tcp_sock_ok :: "tcp_socket \<Rightarrow> bool" where
  "tcp_sock_ok x \<longleftrightarrow> tcp_buf_ok x \<and> tstate x \<in> tcp_reached"

definition tcp_inv :: "net \<Rightarrow> bool" where
  "tcp_inv s \<longleftrightarrow> distinct (tcp_sockets s) \<and> dom (tsocks s) = set (tcp_sockets s) \<and> 0 \<notin> set (tcp_sockets s)
     \<and> (\<forall>p \<in> set (tcp_sockets s). p < next_sock s) \<and> 0 < next_sock s \<and> (\<forall>p x. tsocks s p = Some x \<longrightarrow> tcp_sock_ok x)"

lemma tcp_inv_frame:
  "tcp_inv s \<Longrightarrow> tsocks s' = tsocks s \<Longrightarrow> tcp_sockets s' = tcp_sockets s \<Longrightarrow> next_sock s \<le> next_sock s' \<Longrightarrow> tcp_inv s'"
  by (auto simp: tcp_inv_def)

lemma tcp_inv_tset:
  assumes "tcp_inv s" "\<And>x. tsocks s p = Some x \<Longrightarrow> tcp_sock_ok x \<Longrightarrow> tcp_sock_ok (f x)"
  shows "tcp_inv (tset p f s)"
proof -
  have d: "dom ((tsocks s)(p := map_option f (tsocks s p))) = dom (tsocks s)" by (cases "tsocks s p") auto
  show ?thesis using assms by (auto simp: tcp_inv_def d split: if_splits)
qed

lemma tcp_inv_ack [simp]:
  "tcp_inv (tcp_ack_from p dev ack s) \<longleftrightarrow> tcp_inv s" "tcp_inv (snd (tcp_send_syn x dev s)) \<longleftrightarrow> tcp_inv s"
  "tcp_inv (snd (tcp_send_fin x dev s)) \<longleftrightarrow> tcp_inv s" "tcp_inv (snd (tcp_get_dev s)) \<longleftrightarrow> tcp_inv s"
  by (simp_all add: tcp_inv_def)

lemma tcp_find:
  assumes "tcp_inv s"
  shows "sock_find P (tsocks s) (tcp_sockets s)
     = Some (case find (\<lambda>q. P (the (tsocks s q))) (tcp_sockets s) of None \<Rightarrow> 0 | Some q \<Rightarrow> q)"
  using assms by (intro sock_find_spec) (auto simp: tcp_inv_def)

section \<open>The connection states that can occur\<close>

text \<open>One operation on the sockets, or a step of the rest of the system that leaves them alone.\<close>

inductive tcp_step :: "net \<Rightarrow> net \<Rightarrow> bool" where
  step_create: "tcp_step s (snd (tcp_socket_create s))"
| step_bind: "tcp_socket_bind p ip port s = Some (r, s') \<Longrightarrow> tcp_step s s'"
| step_connect: "tcp_socket_connect p ip port s = Some (r, s') \<Longrightarrow> tcp_step s s'"
| step_listen: "tcp_socket_listen p s = Some (r, s') \<Longrightarrow> tcp_step s s'"
| step_send: "tcp_socket_send p m d n s = Some (r, s') \<Longrightarrow> tcp_step s s'"
| step_recv: "tcp_socket_recv p n s = Some (r, s') \<Longrightarrow> tcp_step s s'"
| step_close: "tcp_socket_close p s = Some s' \<Longrightarrow> tcp_step s s'"
| step_segment: "tcp_handle_packet dev m a n s = Some s' \<Longrightarrow> tcp_step s s'"
| step_other: "tsocks s' = tsocks s \<Longrightarrow> tcp_sockets s' = tcp_sockets s \<Longrightarrow> next_sock s \<le> next_sock s' \<Longrightarrow> tcp_step s s'"

lemma tcp_buf_ok_upd [simp]:
  "tcp_buf_ok (x\<lparr>tlocal_ip := a\<rparr>) = tcp_buf_ok x" "tcp_buf_ok (x\<lparr>tlocal_port := b\<rparr>) = tcp_buf_ok x"
  "tcp_buf_ok (x\<lparr>tremote_ip := a\<rparr>) = tcp_buf_ok x" "tcp_buf_ok (x\<lparr>tremote_port := b\<rparr>) = tcp_buf_ok x"
  "tcp_buf_ok (x\<lparr>send_seq := a\<rparr>) = tcp_buf_ok x" "tcp_buf_ok (x\<lparr>recv_seq := a\<rparr>) = tcp_buf_ok x"
  "tcp_buf_ok (x\<lparr>send_unack := a\<rparr>) = tcp_buf_ok x" "tcp_buf_ok (x\<lparr>tstate := t\<rparr>) = tcp_buf_ok x"
  by (simp_all add: tcp_buf_ok_def)

lemma tcp_sock_ok_upd [simp]:
  "tcp_sock_ok (x\<lparr>tlocal_ip := a\<rparr>) = tcp_sock_ok x" "tcp_sock_ok (x\<lparr>tlocal_port := b\<rparr>) = tcp_sock_ok x"
  "tcp_sock_ok (x\<lparr>tremote_ip := a\<rparr>) = tcp_sock_ok x" "tcp_sock_ok (x\<lparr>tremote_port := b\<rparr>) = tcp_sock_ok x"
  "tcp_sock_ok (x\<lparr>send_seq := a\<rparr>) = tcp_sock_ok x" "tcp_sock_ok (x\<lparr>recv_seq := a\<rparr>) = tcp_sock_ok x"
  "tcp_sock_ok (x\<lparr>send_unack := a\<rparr>) = tcp_sock_ok x" "tcp_sock_ok (x\<lparr>tstate := t\<rparr>) \<longleftrightarrow> tcp_buf_ok x \<and> t \<in> tcp_reached"
  by (simp_all add: tcp_sock_ok_def)

lemma tcp_sock_ok_buf: "tcp_sock_ok x \<Longrightarrow> tcp_buf_ok x"
  by (simp add: tcp_sock_ok_def)

lemmas ok_simps = tcp_reached_def tcp_sock_ok_buf

lemma tcp_create_inv:
  assumes "tcp_inv s"
  shows "tcp_inv (snd (tcp_socket_create s))"
proof -
  define b where "b = (replicate 65536 0 :: u8 list)"
  have b: "length b = 65536" unfolding b_def by (rule length_replicate)
  have "next_sock s \<notin> set (tcp_sockets s)" using assms by (auto simp: tcp_inv_def)
  then show ?thesis
    using assms b unfolding tcp_socket_create_def b_def [symmetric]
    by (auto simp: Let_def case_prod_beta tcp_inv_def tcp_sock_ok_def tcp_buf_ok_def tcp_reached_def less_Suc_eq)
qed

lemma tcp_store_ok: "tcp_sock_ok x \<Longrightarrow> tcp_store m d k x = Some x' \<Longrightarrow> tcp_sock_ok x'"
  by (auto simp: tcp_store_def tcp_sock_ok_def tcp_buf_ok_def buf_write_def split: if_splits option.splits)

lemma tcp_receive_inv:
  assumes "tcp_inv s" "tcp_receive p dev m a n h s = Some s'"
  shows "tcp_inv s'"
proof -
  have "tcp_inv (tset p (\<lambda>_. x'\<lparr>recv_seq := v\<rparr>) s)" if "tsocks s p = Some x" "tcp_store m d k x = Some x'" for x x' d k v
  proof -
    have "tcp_sock_ok x" using assms(1) that(1) by (simp add: tcp_inv_def)
    then have "tcp_sock_ok x'" using that(2) by (rule tcp_store_ok)
    then show ?thesis by (intro tcp_inv_tset [OF assms(1)]) simp
  qed
  then show ?thesis using assms by (auto simp: tcp_receive_def Let_def split: if_splits option.splits)
qed

lemma tcp_handle_inv:
  assumes "tcp_inv s" "tcp_handle_packet dev m a n s = Some s'"
  shows "tcp_inv s'"
proof -
  note up = tcp_inv_tset [OF assms(1)]
  consider "s' = s" | p x where "tsocks s p = Some x" "tcp_handle_state p x dev m a n (get_tcp m a) s = Some s'"
    using assms(2) by (auto simp: tcp_handle_packet_def Let_def split: if_splits option.splits)
  then show ?thesis
  proof cases
    case 1
    then show ?thesis using assms(1) by simp
  next
    case 2
    have ok: "tcp_sock_ok x" using assms(1) 2(1) by (simp add: tcp_inv_def)
    have t: "tcp_inv (tset p f s)" if "\<And>x. tcp_sock_ok x \<Longrightarrow> tcp_sock_ok (f x)" for f using up that by blast
    show ?thesis
    proof (cases "tstate x")
      case TCP_SYN_SENT
      then show ?thesis using 2(2) assms(1)
        by (auto simp: tcp_handle_state_def Let_def ok_simps split: if_splits intro!: t)
    next
      case TCP_SYN_RECEIVED
      then show ?thesis using 2(2) assms(1)
        by (auto simp: tcp_handle_state_def Let_def ok_simps split: if_splits intro!: t)
    next
      case TCP_ESTABLISHED
      let ?h = "get_tcp m a"
      define s1 where "s1 = (if tcp_flags ?h AND TCP_ACK \<noteq> 0 then tset p (\<lambda>x. x\<lparr>send_unack := ntohl (ack_num ?h)\<rparr>) s else s)"
      define s2 where "s2 = (if tcp_flags ?h AND TCP_FIN \<noteq> 0
        then tcp_ack_from p dev (ntohl (seq_num ?h) + 1) (tset p (\<lambda>x. x\<lparr>tstate := TCP_CLOSE_WAIT\<rparr>) s1) else s1)"
      have "tcp_inv s1" using assms(1) by (auto simp: s1_def intro!: t)
      then have "tcp_inv s2" by (auto simp: s2_def ok_simps intro!: tcp_inv_tset)
      moreover have "tcp_handle_state p x dev m a n ?h s = tcp_receive p dev m a n ?h s2"
        unfolding tcp_handle_state_def Let_def s2_def s1_def TCP_ESTABLISHED tcp_state.case ..
      then have "tcp_receive p dev m a n ?h s2 = Some s'" using 2(2) by simp
      ultimately show ?thesis by (rule tcp_receive_inv)
    qed (use 2(2) assms(1) ok in \<open>auto simp: tcp_handle_state_def Let_def tcp_sock_ok_def tcp_reached_def split: if_splits\<close>)
  qed
qed

lemma tcp_port_inv: "tcp_inv s \<Longrightarrow> tcp_inv (tcp_port p x s)"
proof -
  assume "tcp_inv s"
  then have "tcp_inv (s\<lparr>next_tcp_port := next_tcp_port s + 1\<rparr>)" by (simp add: tcp_inv_def)
  then show ?thesis using \<open>tcp_inv s\<close>
    by (auto simp: tcp_port_def intro!: tcp_inv_tset)
qed

lemma tcp_connect_inv:
  assumes "tcp_inv s" "tcp_socket_connect p ip port s = Some (r, s')"
  shows "tcp_inv s'"
proof (cases "p = 0 \<or> tsocks s p = None")
  case True
  then show ?thesis using assms by (simp add: tcp_socket_connect_def split: if_splits)
next
  case False
  then obtain x where x: "tsocks s p = Some x" "p \<noteq> 0" by auto
  define s1 where "s1 = tcp_port p x (tset p (\<lambda>x. x\<lparr>tremote_ip := ip, tremote_port := port\<rparr>) s)"
  define s2 where "s2 = tset p (\<lambda>x. x\<lparr>send_seq := ucast (ms_time s * 1000), tstate := TCP_SYN_SENT\<rparr>) s1"
  have "tcp_inv s1" unfolding s1_def
    by (intro tcp_port_inv tcp_inv_tset [OF assms(1)]) (auto)
  then have s2: "tcp_inv s2" by (auto simp: s2_def ok_simps intro!: tcp_inv_tset)
  have "tcp_socket_connect p ip port s = Some (0, if fst (tcp_get_dev s2) \<noteq> 0
      then snd (tcp_send_syn (the (tsocks (snd (tcp_get_dev s2)) p)) (fst (tcp_get_dev s2)) (snd (tcp_get_dev s2))) else snd (tcp_get_dev s2))"
    unfolding tcp_socket_connect_def Let_def case_prod_beta s2_def s1_def x(1) option.case using x(2) by (simp only: if_False)
  with assms(2) have "s' = (if fst (tcp_get_dev s2) \<noteq> 0
      then snd (tcp_send_syn (the (tsocks (snd (tcp_get_dev s2)) p)) (fst (tcp_get_dev s2)) (snd (tcp_get_dev s2))) else snd (tcp_get_dev s2))"
    by simp
  then show ?thesis using s2 by simp
qed

lemma tcp_inv_store:
  assumes "tcp_inv s" "tsocks s p \<noteq> None" "tcp_sock_ok x" "tsocks s' = (tsocks s)(p \<mapsto> x)"
    and "tcp_sockets s' = tcp_sockets s" "next_sock s' = next_sock s"
  shows "tcp_inv s'"
  using assms by (auto simp: tcp_inv_def insert_absorb split: if_splits)

lemma tcp_send_data_inv:
  assumes "tcp_inv s" "tcp_send_data p dev m d n s = Some (r, s')"
  shows "tcp_inv s'"
proof -
  obtain x where x: "tsocks s p = Some x" using assms(2) by (auto simp: tcp_send_data_def split: option.splits)
  then have ok: "tcp_sock_ok x" using assms(1) by (simp add: tcp_inv_def)
  show ?thesis
  proof (cases "fst (net_alloc s)")
    case False
    then have "s' = snd (net_alloc s)" using assms(2) x by (simp add: tcp_send_data_def case_prod_beta)
    then show ?thesis using tcp_inv_frame [OF assms(1)] by simp
  next
    case True
    then have "s' = (let s2 = snd (tcp_transmit x dev (tcp_hdr x (send_seq x) (recv_seq x) (TCP_PSH OR TCP_ACK))
        (bytes_at m d (unat n)) (snd (net_alloc s))) in s2\<lparr>tsocks := (tsocks s2)(p \<mapsto> x\<lparr>send_seq := send_seq x + n\<rparr>)\<rparr>)"
      using assms(2) x by (simp add: tcp_send_data_def case_prod_beta Let_def split: if_splits)
    then show ?thesis using ok x by (intro tcp_inv_store [OF assms(1), of p "x\<lparr>send_seq := send_seq x + n\<rparr>"]) (simp_all add: Let_def)
  qed
qed

lemma tcp_send_inv:
  assumes "tcp_inv s" "tcp_socket_send p m d n s = Some (r, s')"
  shows "tcp_inv s'"
  using assms tcp_send_data_inv [of "snd (tcp_get_dev s)"]
  by (auto simp: tcp_socket_send_def Let_def case_prod_beta split: option.splits if_splits)

lemma sock_take_bounds:
  assumes "sock_take n z buf = Some (c, bs, b')"
  shows "\<exists>b. buf = Some b \<and> length b' = length b \<and> z - c \<le> z"
proof -
  obtain b where b: "buf = Some b" "unat z \<le> length b" "c = (if n < z then n else z)"
      "b' = drop (unat c) (take (unat z) b) @ drop (unat z - unat c) b"
    using assms by (auto simp: sock_take_def Let_def split: option.splits if_splits)
  have "c \<le> z" using b(3) by (auto simp: not_less)
  then have "unat (z - c) = unat z - unat c" "unat c \<le> unat z" by (simp_all add: unat_sub word_le_nat_alt)
  then show ?thesis using b by (simp add: word_le_nat_alt)
qed

lemma tcp_recv_inv:
  assumes "tcp_inv s" "tcp_socket_recv p n s = Some (r, s')"
  shows "tcp_inv s'"
proof -
  have "s' = s \<or> (\<exists>x c bs b'. tsocks s p = Some x \<and> sock_take n (recv_buffer_size x) (trecv_buffer x) = Some (c, bs, b')
      \<and> s' = s\<lparr>tsocks := (tsocks s)(p \<mapsto> x\<lparr>trecv_buffer := Some b', recv_buffer_size := recv_buffer_size x - c\<rparr>)\<rparr>)"
    using assms(2) unfolding tcp_socket_recv_def by (auto split: if_split_asm option.split_asm)
  then consider "s' = s" | x c bs b' where "tsocks s p = Some x" "sock_take n (recv_buffer_size x) (trecv_buffer x) = Some (c, bs, b')"
      "s' = s\<lparr>tsocks := (tsocks s)(p \<mapsto> x\<lparr>trecv_buffer := Some b', recv_buffer_size := recv_buffer_size x - c\<rparr>)\<rparr>"
    by blast
  then show ?thesis
  proof cases
    case 2
    have "tcp_sock_ok x" using assms(1) 2(1) by (simp add: tcp_inv_def)
    then have "tcp_sock_ok (x\<lparr>trecv_buffer := Some b', recv_buffer_size := recv_buffer_size x - c\<rparr>)"
      using sock_take_bounds [OF 2(2)] by (auto simp: tcp_sock_ok_def tcp_buf_ok_def)
    then show ?thesis using 2 by (intro tcp_inv_store [OF assms(1)]) simp_all
  qed (use assms(1) in simp)
qed

lemma tcp_close_inv:
  assumes "tcp_inv s" "tcp_socket_close p s = Some s'"
  shows "tcp_inv s'"
proof -
  have rm: "tcp_inv (s1\<lparr>tcp_sockets := remove1 p (tcp_sockets s1), tsocks := (tsocks s1)(p := None)\<rparr>)" if "tcp_inv s1" for s1
    using that by (auto simp: tcp_inv_def split: if_splits)
  show ?thesis
  proof (cases "p = 0 \<or> tsocks s p = None")
    case True
    then show ?thesis using assms by (simp add: tcp_socket_close_def split: if_splits)
  next
    case False
    then obtain x where x: "tsocks s p = Some x" "p \<noteq> 0" by blast
    define s2 where "s2 = (if tstate x = TCP_ESTABLISHED \<and> fst (tcp_get_dev s) \<noteq> 0
      then snd (tcp_send_fin x (fst (tcp_get_dev s)) (snd (tcp_get_dev s))) else snd (tcp_get_dev s))"
    have "s' = s2\<lparr>tcp_sockets := remove1 p (tcp_sockets s2), tsocks := (tsocks s2)(p := None)\<rparr>"
      using assms(2) x by (simp add: tcp_socket_close_def case_prod_beta Let_def s2_def)
    moreover have "tcp_inv s2" using assms(1) by (simp add: s2_def)
    ultimately show ?thesis using rm by simp
  qed
qed

lemma tcp_step_inv: "tcp_step s s' \<Longrightarrow> tcp_inv s \<Longrightarrow> tcp_inv s'"
proof (induction rule: tcp_step.induct)
  case (step_bind p ip port s r s')
  then show ?case by (auto simp: tcp_socket_bind_def split: if_splits intro!: tcp_inv_tset)
next
  case (step_listen p s r s')
  then show ?case by (auto simp: tcp_socket_listen_def ok_simps split: if_splits option.splits intro!: tcp_inv_tset tcp_port_inv)
next
  case (step_other s' s)
  then show ?case using tcp_inv_frame by blast
next
  case (step_create s)
  then show ?case by (rule tcp_create_inv)
next
  case (step_connect p ip port s r s')
  from step_connect(2,1) show ?case by (rule tcp_connect_inv)
next
  case (step_send p m d n s r s')
  from step_send(2,1) show ?case by (rule tcp_send_inv)
next
  case (step_recv p n s r s')
  from step_recv(2,1) show ?case by (rule tcp_recv_inv)
next
  case (step_close p s s')
  from step_close(2,1) show ?case by (rule tcp_close_inv)
next
  case (step_segment dev m a n s s')
  from step_segment(2,1) show ?case by (rule tcp_handle_inv)
qed

section \<open>Opening a connection and receiving\<close>

definition tcp_target :: "tcp_header \<Rightarrow> net \<Rightarrow> nat option" where
  "tcp_target h s = find (\<lambda>q. tcp_match h (the (tsocks s q))) (tcp_sockets s)"

lemma tcp_handle_target:
  assumes "tcp_inv s" "20 \<le> n" "tcp_target (get_tcp m a) s = Some p" "tsocks s p = Some x"
  shows "tcp_handle_packet dev m a n s = tcp_handle_state p x dev m a n (get_tcp m a) s"
proof -
  have "p \<noteq> 0" using assms(1,4) by (auto simp: tcp_inv_def dest: domI)
  then show ?thesis using assms(2) [folded not_less] assms(3,4)
    by (simp add: tcp_handle_packet_def Let_def tcp_find [OF assms(1)] tcp_target_def)
qed

text \<open>One frame goes out for one segment.\<close>

definition tcp_frame :: "tcp_socket \<Rightarrow> net_device \<Rightarrow> tcp_header \<Rightarrow> u8 list \<Rightarrow> u8 list" where
  "tcp_frame x dv h bs = eth_bytes \<lparr>eth_dest = replicate 6 0xFF, eth_src = dmac dv, ethertype = 0x0008\<rparr>
     @ ip_bytes (mk_ip (of_nat (40 + length bs)) 6 (dip dv) (tremote_ip x)) @ tcp_bytes h @ bs"

lemma tcp_transmit_sent:
  assumes "nplan s = []" "length (dmac (devs s dev)) = 6" "length bs < 65000"
  shows "\<exists>c. sent (snd (tcp_transmit x dev h bs s)) = sent s @ [(dev, tcp_frame x (devs s dev) (h\<lparr>tcp_hchecksum := c\<rparr>) bs)]"
proof -
  have l: "unat (of_nat (54 + length bs) :: u32) = 54 + length bs"
    using assms(3) by (simp only: unsigned_of_nat) (simp add: take_bit_nat_eq_self)
  have len: "length (tcp_frame x (devs s dev) g bs) = 54 + length bs" for g using assms(2) by (simp add: tcp_frame_def)
  have "sent (snd (tcp_transmit x dev h bs s)) = sent s @ [(dev, take (unat (of_nat (54 + length bs) :: u32))
      (tcp_frame x (devs s dev) (h\<lparr>tcp_hchecksum := ucast (fst (tcp_checksum (tlocal_ip x) (tremote_ip x) (tcp_bytes h @ bs) s))\<rparr>) bs))]"
    using assms(1)
    by (simp add: tcp_transmit_def tcp_checksum_def tcp_send_ip_packet_def send_packet_def Let_def net_alloc_def tcp_frame_def
        add.assoc [symmetric])
  then show ?thesis unfolding l using len by (auto simp del: take_append)
qed

text \<open>
  A segment with SYN and ACK to a connecting socket opens the connection: the socket is established,
  expects the byte after the peer's initial sequence number and records what the peer acknowledged;
  exactly one segment goes out, an ACK of that sequence number with the socket's ports, and no other
  socket changes.
\<close>

theorem tcp_handshake:
  assumes inv: "tcp_inv s" and n: "20 \<le> n" and t: "tcp_target (get_tcp m a) s = Some p"
    and x: "tsocks s p = Some x" "tstate x = TCP_SYN_SENT"
    and fl: "tcp_flags (get_tcp m a) AND 0x12 = 0x12" and mem: "nplan s = []" "length (dmac (devs s dev)) = 6"
  shows "\<exists>s' c. tcp_handle_packet dev m a n s = Some s'
    \<and> tsocks s' = (tsocks s)(p \<mapsto> x\<lparr>tstate := TCP_ESTABLISHED, recv_seq := ntohl (seq_num (get_tcp m a)) + 1,
                                     send_unack := ntohl (ack_num (get_tcp m a))\<rparr>)
    \<and> sent s' = sent s @ [(dev, tcp_frame x (devs s dev)
        ((tcp_hdr x (send_seq x) (ntohl (seq_num (get_tcp m a)) + 1) TCP_ACK)\<lparr>tcp_hchecksum := c\<rparr>) [])]"
proof -
  let ?q = "ntohl (seq_num (get_tcp m a)) + 1"
  let ?x = "x\<lparr>tstate := TCP_ESTABLISHED, recv_seq := ?q, send_unack := ntohl (ack_num (get_tcp m a))\<rparr>"
  let ?s = "tset p (\<lambda>x. x\<lparr>tstate := TCP_ESTABLISHED, recv_seq := ?q, send_unack := ntohl (ack_num (get_tcp m a))\<rparr>) s"
  have h: "tcp_handle_packet dev m a n s = Some (tcp_ack_from p dev ?q ?s)"
    unfolding tcp_handle_target [OF inv n t x(1)] using x(2) fl by (simp add: tcp_handle_state_def Let_def)
  have "tcp_ack_from p dev ?q ?s = snd (tcp_transmit ?x dev (tcp_hdr ?x (send_seq x) ?q TCP_ACK) [] ?s)"
    using x(1) by (simp add: tcp_ack_from_def tcp_send_ack_def)
  moreover obtain c where "sent (snd (tcp_transmit ?x dev (tcp_hdr ?x (send_seq x) ?q TCP_ACK) [] ?s))
      = sent s @ [(dev, tcp_frame ?x (devs s dev) ((tcp_hdr ?x (send_seq x) ?q TCP_ACK)\<lparr>tcp_hchecksum := c\<rparr>) [])]"
    using tcp_transmit_sent [of ?s dev "[]" ?x "tcp_hdr ?x (send_seq x) ?q TCP_ACK"] mem by auto
  moreover have "tcp_hdr ?x = tcp_hdr x" "tcp_frame ?x = tcp_frame x" by (simp_all add: fun_eq_iff tcp_hdr_def tcp_frame_def)
  ultimately show ?thesis using h x(1) by auto
qed

lemma tcp_ack_sent:
  assumes "tsocks s p = Some y" "nplan s = []" "length (dmac (devs s dev)) = 6" "sent s = sent s0" "devs s = devs s0"
    and "tcp_hdr y = tcp_hdr x" "tcp_frame y = tcp_frame x" "send_seq y = send_seq x"
  shows "\<exists>c. sent (tcp_ack_from p dev ack s) = sent s0 @ [(dev, tcp_frame x (devs s0 dev) ((tcp_hdr x (send_seq x) ack TCP_ACK)\<lparr>tcp_hchecksum := c\<rparr>) [])]"
  using tcp_transmit_sent [OF assms(2,3), of "[]" y "tcp_hdr y (send_seq y) ack TCP_ACK"] assms
  by (simp add: tcp_ack_from_def tcp_send_ack_def)

definition tcp_data :: "tcp_socket \<Rightarrow> u8 list" where
  "tcp_data x = take (unat (recv_buffer_size x)) (the (trecv_buffer x))"

lemma tcp_store_spec:
  assumes "tcp_buf_ok x" "trecv_buffer x \<noteq> None" "unat k < 2 ^ 31"
  shows "\<exists>x'. tcp_store m d k x = Some x' \<and> tcp_data x' = (if length (tcp_data x) + unat k \<le> 65536 then tcp_data x @ bytes_at m d (unat k) else tcp_data x)
     \<and> x' = x\<lparr>trecv_buffer := trecv_buffer x', recv_buffer_size := recv_buffer_size x'\<rparr>"
proof -
  obtain b where b: "trecv_buffer x = Some b" "length b = 65536" "unat (recv_buffer_size x) \<le> 65536"
    using assms(1,2) by (auto simp: tcp_buf_ok_def word_le_nat_alt)
  define z where "z = unat (recv_buffer_size x)"
  have d: "tcp_data x = take z b" "length (tcp_data x) = z" using b by (simp_all add: tcp_data_def z_def)
  have sum: "unat (recv_buffer_size x + k) = z + unat k" using b(3) assms(3) by (simp add: unat_word_ariths z_def)
  then have c: "recv_buffer_size x + k \<le> 65536 \<longleftrightarrow> z + unat k \<le> 65536" by (simp add: word_le_nat_alt)
  show ?thesis
  proof (cases "z + unat k \<le> 65536")
    case True
    then obtain b' where "buf_write z (bytes_at m d (unat k)) b = Some b'" "take (z + unat k) b' = take z b @ bytes_at m d (unat k)"
      using buf_write_spec [of z "bytes_at m d (unat k)" b] b(2) by auto
    then show ?thesis using True b(1) c d sum
      by (intro exI [of _ "x\<lparr>trecv_buffer := Some b', recv_buffer_size := recv_buffer_size x + k\<rparr>"])
        (simp add: tcp_store_def z_def [symmetric] tcp_data_def)
  next
    case False
    then show ?thesis using c d by (intro exI [of _ x]) (simp add: tcp_store_def)
  qed
qed

lemma tcp_receive_returns:
  assumes "tcp_inv s" "tsocks s p = Some x" "trecv_buffer x \<noteq> None" "ucast (drop_bit 4 (data_offset h)) * 4 \<le> n" "unat n < 2 ^ 31"
  shows "\<exists>s'. tcp_receive p dev m a n h s = Some s'"
proof -
  let ?off = "ucast (drop_bit 4 (data_offset h)) * 4 :: u32"
  have "tcp_buf_ok x" using assms(1,2) by (simp add: tcp_inv_def tcp_sock_ok_def)
  moreover have "unat (n - ?off) < 2 ^ 31" using assms(4,5) by (simp add: unat_sub)
  ultimately obtain x' where "tcp_store m (a + unat ?off) (n - ?off) x = Some x'" using tcp_store_spec assms(3) by blast
  then show ?thesis using assms(2) by (simp add: tcp_receive_def Let_def)
qed

text \<open>Every live socket has its receive buffer.\<close>

definition tcp_buffered :: "net \<Rightarrow> bool" where
  "tcp_buffered s \<longleftrightarrow> (\<forall>q y. tsocks s q = Some y \<longrightarrow> trecv_buffer y \<noteq> None)"

lemma tcp_handle_returns:
  assumes inv: "tcp_inv s" and buf: "tcp_buffered s" and off: "ucast (drop_bit 4 (data_offset (get_tcp m a))) * 4 \<le> n" "unat n < 2 ^ 31"
  shows "\<exists>s'. tcp_handle_packet dev m a n s = Some s'"
proof (cases "20 \<le> n")
  case n: True
  let ?h = "get_tcp m a"
  show ?thesis
  proof (cases "tcp_target ?h s")
    case None
    then show ?thesis using n by (simp add: tcp_handle_packet_def Let_def tcp_find [OF inv] tcp_target_def)
  next
    case (Some p)
    then have "p \<in> dom (tsocks s)" using inv by (auto simp: tcp_target_def tcp_inv_def find_Some_iff)
    then obtain x where x: "tsocks s p = Some x" by blast
    show ?thesis unfolding tcp_handle_target [OF inv n Some x]
    proof (cases "tstate x")
      case TCP_ESTABLISHED
      define s1 where "s1 = (if tcp_flags ?h AND TCP_ACK \<noteq> 0 then tset p (\<lambda>x. x\<lparr>send_unack := ntohl (ack_num ?h)\<rparr>) s else s)"
      define s2 where "s2 = (if tcp_flags ?h AND TCP_FIN \<noteq> 0
        then tcp_ack_from p dev (ntohl (seq_num ?h) + 1) (tset p (\<lambda>x. x\<lparr>tstate := TCP_CLOSE_WAIT\<rparr>) s1) else s1)"
      have "tcp_inv s1" using inv by (auto simp: s1_def intro!: tcp_inv_tset)
      then have "tcp_inv s2" by (auto simp: s2_def ok_simps intro!: tcp_inv_tset)
      moreover have "\<exists>y. tsocks s2 p = Some y \<and> trecv_buffer y \<noteq> None" using x buf by (auto simp: s2_def s1_def tcp_buffered_def)
      moreover have "tcp_handle_state p x dev m a n ?h s = tcp_receive p dev m a n ?h s2"
        unfolding tcp_handle_state_def Let_def s2_def s1_def TCP_ESTABLISHED tcp_state.case ..
      ultimately show "\<exists>s'. tcp_handle_state p x dev m a n ?h s = Some s'" using tcp_receive_returns [of s2 p] off by auto
    qed (auto simp: tcp_handle_state_def Let_def)
  qed
qed (simp add: tcp_handle_packet_def not_le)

lemma tcp_calls_return:
  assumes "tcp_inv s" "tsocks s p = Some x"
  shows "\<exists>r. tcp_socket_bind p ip port s = Some r" "\<exists>r. tcp_socket_connect p ip port s = Some r" "\<exists>r. tcp_socket_listen p s = Some r"
    "20 + unat n < 2 ^ 32 \<Longrightarrow> \<exists>r. tcp_socket_send p m d n s = Some r" "\<exists>r. tcp_socket_recv p n s = Some r" "\<exists>s'. tcp_socket_close p s = Some s'"
proof -
  have ok: "tcp_buf_ok x" using assms by (simp add: tcp_inv_def tcp_sock_ok_def)
  show "\<exists>r. tcp_socket_recv p n s = Some r"
  proof (cases "recv_buffer_size x = 0")
    case False
    then obtain b where "trecv_buffer x = Some b" "length b = 65536" "unat (recv_buffer_size x) \<le> 65536"
      using ok by (auto simp: tcp_buf_ok_def word_le_nat_alt split: if_splits)
    then show ?thesis using assms(2) by (simp add: tcp_socket_recv_def sock_take_def Let_def)
  qed (use assms(2) in \<open>simp add: tcp_socket_recv_def\<close>)
  show "20 + unat n < 2 ^ 32 \<Longrightarrow> \<exists>r. tcp_socket_send p m d n s = Some r"
    using assms(2) by (simp add: tcp_socket_send_def tcp_send_data_def Let_def case_prod_beta)
qed (use assms(2) in \<open>simp_all add: tcp_socket_bind_def tcp_socket_connect_def tcp_socket_listen_def tcp_socket_close_def Let_def case_prod_beta\<close>)


lemma tcp_recv_spec:
  assumes inv: "tcp_inv s" and x: "tsocks s p = Some x" "tstate x = TCP_ESTABLISHED" and n: "unat n < 2 ^ 31"
  shows "\<exists>x'. tcp_socket_recv p n s = Some ((int (min (unat n) (length (tcp_data x))), take (unat n) (tcp_data x)), s\<lparr>tsocks := (tsocks s)(p \<mapsto> x')\<rparr>)
     \<and> tcp_data x' = drop (unat n) (tcp_data x) \<and> x' = x\<lparr>trecv_buffer := trecv_buffer x', recv_buffer_size := recv_buffer_size x'\<rparr>"
proof -
  have p: "p \<noteq> 0" and ok: "tcp_buf_ok x" using inv x(1) by (auto simp: tcp_inv_def tcp_sock_ok_def dest: domI)
  show ?thesis
  proof (cases "recv_buffer_size x = 0")
    case True
    then show ?thesis using p x by (intro exI [of _ x]) (simp add: tcp_socket_recv_def tcp_data_def fun_upd_idem)
  next
    case False
    then obtain b where b: "trecv_buffer x = Some b" "unat (recv_buffer_size x) \<le> length b"
      using ok by (auto simp: tcp_buf_ok_def word_le_nat_alt split: if_splits)
    have d: "take (unat (recv_buffer_size x)) b = tcp_data x" "length (tcp_data x) = unat (recv_buffer_size x)"
      using b by (simp_all add: tcp_data_def)
    obtain c b' where c: "sock_take n (recv_buffer_size x) (Some b) = Some (c, take (unat n) (tcp_data x), b')"
        "sint c = int (min (unat n) (unat (recv_buffer_size x)))" "take (unat (recv_buffer_size x - c)) b' = drop (unat n) (tcp_data x)"
      unfolding d(1) [symmetric] by (rule sock_take_spec [OF b(2) n]) blast
    let ?x = "x\<lparr>trecv_buffer := Some b', recv_buffer_size := recv_buffer_size x - c\<rparr>"
    have "tcp_socket_recv p n s = Some ((sint c, take (unat n) (tcp_data x)), s\<lparr>tsocks := (tsocks s)(p \<mapsto> ?x)\<rparr>)"
      using False p x b(1) c(1) by (simp add: tcp_socket_recv_def)
    moreover have "tcp_data ?x = drop (unat n) (tcp_data x)" using c(3) by (simp only: tcp_data_def [of ?x]) simp
    ultimately show ?thesis using c(2) d(2) by (intro exI [of _ ?x]) simp
  qed
qed


section \<open>Concrete runs\<close>

text \<open>A socket that connects to port 80 in a stack without a device.\<close>

lemma tcp_example:
  obtains s x where "tcp_step\<^sup>*\<^sup>* (tcp_init net_zero) s" "tcp_inv s" "tcp_sockets s = [1]" "tsocks s 1 = Some x" "tstate x = TCP_SYN_SENT"
    "tlocal_port x = 49152" "tremote_port x = 80" "nplan s = []" "devs s = devs net_zero" "trecv_buffer x \<noteq> None" "tcp_data x = []"
proof -
  define b where "b = (replicate 65536 0 :: u8 list)"
  let ?i = "tcp_init net_zero"
  define x where "x = \<lparr>tlocal_ip = 0, tlocal_port = 0, tremote_ip = 0, tremote_port = 0, send_seq = 0, recv_seq = 0, send_unack = 0,
                    send_window = 8192, recv_window = 8192, tstate = TCP_CLOSED, tsend_buffer = Some b, trecv_buffer = Some b,
                    send_buffer_size = 0, recv_buffer_size = 0, cwnd = 10, ssthresh = 65535, rtt = 0, rtt_var = 0, rto = 200\<rparr>"
  define s1 where "s1 = snd (tcp_socket_create ?i)"
  have s1: "s1 = ?i\<lparr>tsocks := [1 \<mapsto> x], tcp_sockets := [1], next_sock := 2\<rparr>"
    unfolding s1_def tcp_socket_create_def b_def [symmetric] by (simp add: net_alloc_def tcp_init_def net_zero_def x_def Let_def)
  define x2 where "x2 = x\<lparr>tremote_ip := 5, tremote_port := 80, tlocal_port := 49152, send_seq := 0, tstate := TCP_SYN_SENT\<rparr>"
  define s2 where "s2 = (s1\<lparr>tsocks := [1 \<mapsto> x2],
      next_tcp_port := 49153, default_dev := 0\<rparr>)"
  have "tcp_socket_connect 1 5 80 s1 = Some (0, s2)"
    by (simp add: tcp_socket_connect_def s1 s2_def x2_def Let_def tcp_port_def tset_def tcp_get_dev_def tcp_init_def net_zero_def x_def)
  then have "tcp_step ?i s1" "tcp_step s1 s2" by (auto simp: s1_def intro: tcp_step.intros)
  then have st: "tcp_step\<^sup>*\<^sup>* ?i s2" by (meson converse_rtranclp_into_rtranclp r_into_rtranclp)
  have "tcp_inv ?i" by (simp add: tcp_inv_def tcp_init_def net_zero_def)
  with \<open>tcp_step ?i s1\<close> \<open>tcp_step s1 s2\<close> have "tcp_inv s2" using tcp_step_inv by blast
  then show ?thesis
    by (rule that [OF st, of x2]) (simp_all add: s2_def s1 x2_def x_def tcp_init_def net_zero_def tcp_data_def)
qed


text \<open>A SYN and ACK segment from port 80 to port 49152, and one with two bytes of data.\<close>

definition ex_synack :: mem where
  "ex_synack = mem_of [0, 80, 0xC0, 0, 0, 0, 0, 7, 0, 0, 0, 1, 0x50, 0x12, 0, 0, 0, 0, 0, 0]"

definition ex_segment :: mem where
  "ex_segment = mem_of [0, 80, 0xC0, 0, 0, 0, 0, 8, 0, 0, 0, 1, 0x50, 0x10, 0, 0, 0, 0, 0, 0, 3, 4]"

lemma ex_synack_hdr: "get_tcp ex_synack 0 = \<lparr>tcp_src_port = 0x5000, tcp_dest_port = 0x00C0, seq_num = 0x07000000, ack_num = 0x01000000,
    data_offset = 0x50, tcp_flags = 0x12, window_size = 0, tcp_hchecksum = 0, urgent_ptr = 0\<rparr>"
  by (simp add: get_tcp_def rd16_def rd32_def ex_synack_def mem_of_def nth_Cons')

lemma ex_segment_hdr: "get_tcp ex_segment 0 = \<lparr>tcp_src_port = 0x5000, tcp_dest_port = 0x00C0, seq_num = 0x08000000, ack_num = 0x01000000,
    data_offset = 0x50, tcp_flags = 0x10, window_size = 0, tcp_hchecksum = 0, urgent_ptr = 0\<rparr>"
  by (simp add: get_tcp_def rd16_def rd32_def ex_segment_def mem_of_def nth_Cons')

theorem tcp_handshake_witness:
  "\<exists>s s' x'. tcp_step\<^sup>*\<^sup>* (tcp_init net_zero) s \<and> tcp_handle_packet 1 ex_synack 0 20 s = Some s' \<and> tsocks s' 1 = Some x'
     \<and> tstate x' = TCP_ESTABLISHED \<and> recv_seq x' = 8 \<and> length (sent s') = length (sent s) + 1"
proof -
  obtain s x where s: "tcp_step\<^sup>*\<^sup>* (tcp_init net_zero) s" "tcp_inv s" "tcp_sockets s = [1]" "tsocks s 1 = Some x" "tstate x = TCP_SYN_SENT"
    "tlocal_port x = 49152" "tremote_port x = 80" "nplan s = []" "devs s = devs net_zero" by (rule tcp_example)
  have "tcp_target (get_tcp ex_synack 0) s = Some 1"
    using s by (simp add: tcp_target_def tcp_match_def ex_synack_hdr ntohs_def)
  then show ?thesis
    using tcp_handshake [of s 20 ex_synack 0 1 x 1] s by (fastforce simp: ex_synack_hdr ntohl_def net_zero_def)
qed


section \<open>Window, timer and checksum\<close>

text \<open>
  The congestion window never exceeds 65535 after an update and grows strictly with every update until
  it is there; the retransmission timeout is between 200 and 120000 ms after every sample, whatever the
  sample, and no other field of the socket changes.
\<close>

theorem tcp_window_timer_bounds:
  "cwnd (tcp_congestion_control x) \<le> 65535
   \<and> (0 < cwnd x \<and> cwnd x < 65535 \<longrightarrow> cwnd x < cwnd (tcp_congestion_control x))
   \<and> tcp_congestion_control x = x\<lparr>cwnd := cwnd (tcp_congestion_control x)\<rparr>
   \<and> 200 \<le> rto (tcp_update_rtt r x) \<and> rto (tcp_update_rtt r x) \<le> 120000
   \<and> tcp_update_rtt r x = x\<lparr>rtt := rtt (tcp_update_rtt r x), rtt_var := rtt_var (tcp_update_rtt r x), rto := rto (tcp_update_rtt r x)\<rparr>"
proof (intro conjI impI)
  show "cwnd (tcp_congestion_control x) \<le> 65535" by (auto simp: tcp_congestion_control_def Let_def not_less)
  assume c: "0 < cwnd x \<and> cwnd x < 65535"
  then have u: "0 < unat (cwnd x)" "unat (cwnd x) < 65535" by (auto simp: word_less_nat_alt)
  have "unat (cwnd x * 2) = unat (cwnd x) * 2" "unat (cwnd x + 1460) = unat (cwnd x) + 1460"
    using u by (simp_all add: unat_word_ariths)
  then show "cwnd x < cwnd (tcp_congestion_control x)"
    using u c by (auto simp: tcp_congestion_control_def Let_def word_less_nat_alt)
qed (auto simp: tcp_congestion_control_def tcp_update_rtt_def Let_def not_less)

theorem tcp_window_timer_bounds_witness:
  "\<exists>x. cwnd x = 10 \<and> 10 < cwnd (tcp_congestion_control x)"
proof -
  obtain x :: tcp_socket where "cwnd x = 10" by (metis tcp_socket.select_convs(15))
  then show ?thesis using tcp_window_timer_bounds [of x 0] by (intro exI [of _ x]) simp
qed

text \<open>
  The checksum of a segment of even length does not cover its last four bytes, so changing them
  goes undetected, and computing it writes four bytes past the heap buffer; for a segment of odd
  length it is three bytes.
\<close>

theorem tcp_checksum_overrun:
  assumes "nplan s = []" "length xs = 4" "length ys = 4"
  shows "(even (length seg) \<longrightarrow> fst (tcp_checksum src dst (seg @ xs) s) = fst (tcp_checksum src dst (seg @ ys) s))
    \<and> overrun (snd (tcp_checksum src dst seg s)) = overrun s + (if even (length seg) then 4 else 3)"
proof -
  have "csum_add (mem_of (pseudo_bytes src dst k @ seg @ xs)) 0 (16 + length seg) acc
      = csum_add (mem_of (pseudo_bytes src dst k @ seg @ ys)) 0 (16 + length seg) acc" for k acc
    using assms(2,3) by (intro csum_add_cong) (auto simp: mem_of_def nth_append pseudo_bytes_def)
  moreover have "12 + (length seg + 4) + (length seg + 4) mod 2 = 16 + length seg" if "even (length seg)"
    using that by (simp add: mod2_eq_if)
  ultimately have "fst (tcp_checksum src dst (seg @ xs) s) = fst (tcp_checksum src dst (seg @ ys) s)" if "even (length seg)"
    using assms that by (simp add: tcp_checksum_def net_alloc_def Let_def)
  then show ?thesis using assms(1) by (simp add: tcp_checksum_def net_alloc_def Let_def mod2_eq_if)
qed

theorem tcp_checksum_overrun_witness:
  "fst (tcp_checksum 1 2 (replicate 16 0 @ [0, 0, 0, 0]) net_zero) = fst (tcp_checksum 1 2 (replicate 16 0 @ [9, 9, 9, 9]) net_zero)
   \<and> overrun (snd (tcp_checksum 1 2 (replicate 16 0) net_zero)) = 4"
  using tcp_checksum_overrun [of net_zero "[0, 0, 0, 0]" "[9, 9, 9, 9]" "replicate 16 0" 1 2] by (simp add: net_zero_def)

end
