(* ===== verification/Net.thy ===== *)
theory Net
  imports Udp Tcp "HOL-Library.Monad_Syntax"
begin

text \<open>
  The packet path of \<^verbatim>\<open>net/net.c\<close>: Ethernet and IP dispatch, address resolution, echo requests and
  replies, the ping operation. A handler gets the memory the packet lies in and its address;
  \<^verbatim>\<open>ip_handle_packet\<close> writes to the packet, so it returns the memory too.
\<close>

section \<open>Devices and start-up\<close>

definition net_init :: "net \<Rightarrow> net" where
  "net_init s = udp_init (tcp_init (s\<lparr>net_devices := 0, arp_cache_count := 0, arp_cache := map (\<lambda>e. e\<lparr>ae_ip := 0\<rparr>) (arp_cache s)\<rparr>))"

definition net_register_device :: "nat \<Rightarrow> net \<Rightarrow> net" where
  "net_register_device dev s =
     (if dev = 0 then s else s\<lparr>devs := (devs s)(dev := (devs s dev)\<lparr>dnext := net_devices s\<rparr>), net_devices := dev\<rparr>)"

section \<open>Address resolution\<close>

text \<open>The first slot that is free or already holds the address; nothing when there is none.\<close>

fun arp_store :: "u32 \<Rightarrow> u8 list \<Rightarrow> arp_entry list \<Rightarrow> arp_entry list" where
  "arp_store ip mac [] = []"
| "arp_store ip mac (e # es) =
     (if ae_ip e = 0 \<or> ae_ip e = ip then \<lparr>ae_ip = ip, ae_mac = mac, ae_timestamp = 0\<rparr> # es else e # arp_store ip mac es)"

fun arp_find :: "u32 \<Rightarrow> arp_entry list \<Rightarrow> u8 list option" where
  "arp_find ip [] = None"
| "arp_find ip (e # es) = (if ae_ip e = ip then Some (ae_mac e) else arp_find ip es)"

definition arp_handle_packet :: "nat \<Rightarrow> mem \<Rightarrow> nat \<Rightarrow> u32 \<Rightarrow> net \<Rightarrow> net" where
  "arp_handle_packet dev m a n s =
     (if n < 28 then s
      else let arp = get_arp m a; dv = devs s dev in
      if hw_type arp \<noteq> 1 \<or> proto_type arp \<noteq> 0x0800 then s
      else if hw_addr_len arp \<noteq> 6 \<or> proto_addr_len arp \<noteq> 4 then s
      else if arp_opcode arp = 1 then
        (if arp_dest_ip arp = dip dv
         then let reply = \<lparr>hw_type = 1, proto_type = 0x0800, hw_addr_len = 6, proto_addr_len = 4, arp_opcode = 2,
                           arp_src_mac = dmac dv, arp_src_ip = dip dv, arp_dest_mac = arp_src_mac arp, arp_dest_ip = arp_src_ip arp\<rparr>;
                  eth = \<lparr>eth_dest = arp_src_mac arp, eth_src = dmac dv, ethertype = 0x0806\<rparr>
              in send_packet dev (eth_bytes eth @ arp_bytes reply) 42 s
         else s)
      else if arp_opcode arp = 2 then s\<lparr>arp_cache := arp_store (arp_src_ip arp) (arp_src_mac arp) (arp_cache s)\<rparr>
      else s)"

definition net_arp_lookup :: "u32 \<Rightarrow> net \<Rightarrow> int \<times> u8 list option" where
  "net_arp_lookup ip s = (case arp_find ip (arp_cache s) of None \<Rightarrow> (0, None) | Some mac \<Rightarrow> (1, Some mac))"

definition arp_dest_mac_for :: "u32 \<Rightarrow> net \<Rightarrow> u8 list" where
  "arp_dest_mac_for ip s = (case arp_find ip (arp_cache s) of None \<Rightarrow> replicate 6 0xFF | Some mac \<Rightarrow> mac)"

section \<open>Echo\<close>

text \<open>
  Both buffers have 512 bytes. The checksum bytes are stored high byte first, although the sum was
  taken over words in the processor's order.
\<close>

definition echo_bytes :: "u8 \<Rightarrow> u16 \<Rightarrow> u16 \<Rightarrow> u8 list \<Rightarrow> u8 list" where
  "echo_bytes ty i sq bs =
     (let h = \<lparr>icmp_type = ty, icmp_code = 0, icmp_checksum = 0, icmp_id = i, icmp_sequence = sq\<rparr>;
          c = net_checksum (mem_of (icmp_bytes h @ bs)) 0 (8 + length bs)
      in icmp_bytes (h\<lparr>icmp_checksum := ntohs c\<rparr>) @ bs)"

definition icmp_handle_packet :: "nat \<Rightarrow> mem \<Rightarrow> nat \<Rightarrow> u32 \<Rightarrow> u32 \<Rightarrow> net \<Rightarrow> net option" where
  "icmp_handle_packet dev m a n src s =
     (if n < 8 then Some s
      else let icmp = get_icmp m a in
      if icmp_type icmp \<noteq> 8 then Some s
      else let k = unat (n - 8) in
      if 28 + k > 512 then None
      else let ip = mk_ip (of_nat (28 + k)) 1 (dip (devs s dev)) src;
               pkt = ip_bytes ip @ echo_bytes 0 (icmp_id icmp) (icmp_sequence icmp) (bytes_at m (a + 8) k);
               eth = \<lparr>eth_dest = arp_dest_mac_for src s, eth_src = dmac (devs s dev), ethertype = 0x0800\<rparr>
           in if 14 + unat (total_len ip) > 512 then None
              else Some (send_packet dev (eth_bytes eth @ take (unat (total_len ip)) pkt) (14 + ucast (total_len ip)) s))"

definition icmp_handle_echo_reply :: "mem \<Rightarrow> nat \<Rightarrow> u32 \<Rightarrow> net \<Rightarrow> net" where
  "icmp_handle_echo_reply m a n s =
     (if n < 8 then s
      else if \<not> ping_received s \<and> ucast (icmp_id (get_icmp m a)) = ping_id_counter s then s\<lparr>ping_received := True\<rparr> else s)"

definition icmp_dispatch :: "nat \<Rightarrow> mem \<Rightarrow> nat \<Rightarrow> u32 \<Rightarrow> u32 \<Rightarrow> net \<Rightarrow> net option" where
  "icmp_dispatch dev m a n src s =
     (if n < 8 then Some s
      else if icmp_type (get_icmp m a) = 0 then Some (icmp_handle_echo_reply m a n s)
      else if icmp_type (get_icmp m a) = 8 then icmp_handle_packet dev m a n src s
      else Some s)"

section \<open>Dispatch\<close>

definition ip_handle_packet :: "nat \<Rightarrow> mem \<Rightarrow> nat \<Rightarrow> u32 \<Rightarrow> net \<Rightarrow> (mem \<times> net) option" where
  "ip_handle_packet dev m a n s =
     (if n < 20 then Some (m, s)
      else let c = ip_checksum (get_ip m a); m1 = m(a + 10 := 0, a + 11 := 0) in
      if net_checksum m1 a 20 \<noteq> c then Some (m1, s)
      else let m2 = m1(a + 10 := ucast c, a + 11 := ucast (drop_bit 8 c)); ip = get_ip m2 a in
      if ip_dest ip \<noteq> dip (devs s dev) \<and> ip_dest ip \<noteq> 0xFFFFFFFF then Some (m2, s)
      else let ihl = unat (version_ihl ip AND 0x0F) * 4;
               pl = a + ihl; k = ucast (total_len ip) - of_nat ihl
           in map_option (Pair m2)
             (if protocol ip = 1 then icmp_dispatch dev m2 pl k (ip_src ip) s
              else if protocol ip = 17 then udp_handle_packet m2 pl k (ip_src ip) s
              else if protocol ip = 6 then tcp_handle_packet dev m2 pl k s
              else Some s))"

definition net_handle_packet :: "nat \<Rightarrow> mem \<Rightarrow> nat \<Rightarrow> u32 \<Rightarrow> net \<Rightarrow> (mem \<times> net) option" where
  "net_handle_packet dev m a n s =
     (if n < 14 then Some (m, s)
      else let ty = ntohs (ethertype (get_eth m a)) in
      if ty = 0x0806 then Some (m, arp_handle_packet dev m (a + 14) (n - 14) s)
      else if ty = 0x0800 then ip_handle_packet dev m (a + 14) (n - 14) s
      else Some (m, s))"

section \<open>Ping\<close>

text \<open>\<open>Y\<close> is what happens during a \<^verbatim>\<open>yield()\<close>: time passes and packets arrive.\<close>

partial_function (option) ping_wait :: "(net \<Rightarrow> net) \<Rightarrow> u64 \<Rightarrow> u32 \<Rightarrow> net \<Rightarrow> (int \<times> net) option" where
  "ping_wait Y start timeout s =
     (if ms_time s - start < ucast timeout
      then if ping_received s then Some (sint (ucast (ms_time s - start) :: u32), s)
           else ping_wait Y start timeout (Y s)
      else Some (- 1, s))"

definition net_ping :: "(net \<Rightarrow> net) \<Rightarrow> u32 \<Rightarrow> u32 \<Rightarrow> net \<Rightarrow> (int \<times> net) option" where
  "net_ping Y ip timeout s =
     (if net_devices s = 0 then Some (- ENODEV, s)
      else let dev = net_devices s; dv = devs s dev;
               eth = \<lparr>eth_dest = arp_dest_mac_for ip s, eth_src = dmac dv, ethertype = 0x0008\<rparr>;
               i = ping_id_counter s + 1;
               s1 = s\<lparr>ping_id_counter := i, ping_received := False\<rparr>;
               frame = eth_bytes eth @ ip_bytes (mk_ip 28 1 (dip dv) ip) @ echo_bytes 8 (ucast i) 0 []
           in ping_wait Y (ms_time s1) timeout (send_packet dev frame 42 s1))"

section \<open>A packet built by this stack is accepted by it\<close>

lemma mk_ip_simps [simp]:
  "version_ihl (mk_ip t pr src dst) = 0x45" "total_len (mk_ip t pr src dst) = t" "protocol (mk_ip t pr src dst) = pr"
  "ip_src (mk_ip t pr src dst) = src" "ip_dest (mk_ip t pr src dst) = dst"
  by (simp_all add: mk_ip_def Let_def)

lemma ip_verify:
  assumes "at_mem m a (ip_bytes (mk_ip t pr src dst))"
  shows "net_checksum (m(a + 10 := 0, a + 11 := 0)) a 20 = ip_checksum (mk_ip t pr src dst)"
proof -
  let ?h = "\<lparr>version_ihl = 0x45, tos = 0, total_len = t, ip_id = 0, flags_frag = 0, ttl = 64, protocol = pr, ip_checksum = 0, ip_src = src, ip_dest = dst\<rparr>"
  have "at_mem (m(a + 10 := 0, a + 11 := 0)) a (ip_bytes ?h)"
    using assms by (simp add: mk_ip_def Let_def ip_bytes_def at_mem_append at_mem_Cons at_mem_upd le16_def add.assoc eval_nat_numeral)
  then show ?thesis using net_checksum_at [of _ a "ip_bytes ?h" 20] by (simp add: mk_ip_def Let_def)
qed

lemma ip_accept:
  assumes g: "get_ip m a = h" and v: "net_checksum (m(a + 10 := 0, a + 11 := 0)) a 20 = ip_checksum h" and n: "20 \<le> n"
    and d: "ip_dest h = dip (devs s dev) \<or> ip_dest h = 0xFFFFFFFF" and ihl: "version_ihl h = 0x45"
  shows "ip_handle_packet dev m a n s = map_option (Pair m)
     (if protocol h = 1 then icmp_dispatch dev m (a + 20) (ucast (total_len h) - 20) (ip_src h) s
      else if protocol h = 17 then udp_handle_packet m (a + 20) (ucast (total_len h) - 20) (ip_src h) s
      else if protocol h = 6 then tcp_handle_packet dev m (a + 20) (ucast (total_len h) - 20) s else Some s)"
proof -
  have c: "ip_checksum h = rd16 m (a + 10)" by (simp add: g [symmetric] get_ip_def)
  have m2: "m(a + 10 := 0, a + 11 := 0, a + 10 := ucast (rd16 m (a + 10)), a + 11 := ucast (drop_bit 8 (rd16 m (a + 10)))) = m"
    using ucast_rd16 [of m "a + 10"] by (simp add: fun_eq_iff add.commute)
  have i: "unat ((0x45 :: u8) AND 0x0F) * 4 = 20" by simp
  show ?thesis using n [folded not_less] d v ihl
    unfolding ip_handle_packet_def Let_def g c by (auto simp only: m2 g i) auto
qed

lemma ip_deliver:
  assumes at: "at_mem m a (ip_bytes (mk_ip t pr src dst))" and n: "20 \<le> n"
    and d: "dst = dip (devs s dev) \<or> dst = 0xFFFFFFFF"
  shows "ip_handle_packet dev m a n s = map_option (Pair m)
     (if pr = 1 then icmp_dispatch dev m (a + 20) (ucast t - 20) src s
      else if pr = 17 then udp_handle_packet m (a + 20) (ucast t - 20) src s
      else if pr = 6 then tcp_handle_packet dev m (a + 20) (ucast t - 20) s else Some s)"
  using ip_accept [OF get_ip_bytes [OF at] ip_verify [OF at] n, of s dev] d by simp

lemma udp_frame_length: "length (dmac dv) = 6 \<Longrightarrow> length (udp_frame dv src dst sport dport bs) = 42 + length bs"
  by (simp add: udp_frame_def)

lemma net_deliver_udp:
  assumes at: "at_mem m a (udp_frame dv src dst sport dport bs)" and dv: "length (dmac dv) = 6"
    and d: "dst = dip (devs s dev) \<or> dst = 0xFFFFFFFF" and l: "length bs \<le> 65507"
  shows "net_handle_packet dev m a (of_nat (42 + length bs)) s
       = map_option (Pair m) (udp_handle_packet m (a + 34) (of_nat (8 + length bs)) src s)"
    and "get_udp m (a + 34) = \<lparr>udp_src_port = sport, udp_dest_port = dport, udp_length = of_nat (8 + length bs), udp_checksum = 0\<rparr>"
    and "bytes_at m (a + 42) (length bs) = bs"
proof -
  let ?e = "\<lparr>eth_dest = replicate 6 0xFF, eth_src = dmac dv, ethertype = 0x0008\<rparr>"
  let ?u = "\<lparr>udp_src_port = sport, udp_dest_port = dport, udp_length = of_nat (8 + length bs), udp_checksum = 0\<rparr>"
  let ?i = "mk_ip (of_nat (28 + length bs)) 17 src dst"
  have e: "length (eth_bytes ?e) = 14" using dv by simp
  have 1: "at_mem m a (eth_bytes ?e)" and 2: "at_mem m (a + 14) (ip_bytes ?i)" and 3: "at_mem m (a + 34) (udp_bytes ?u)"
    and 4: "at_mem m (a + 42) bs"
    using at unfolding udp_frame_def at_mem_append e by (simp_all add: ac_simps)
  have ge: "ntohs (ethertype (get_eth m a)) = 0x0800" using get_eth_bytes [OF 1] dv by (simp add: ntohs_def)
  show "get_udp m (a + 34) = ?u" using 3 by (rule get_udp_bytes)
  show "bytes_at m (a + 42) (length bs) = bs" using at_mem_bytes [OF 4] by simp
  have n: "unat (of_nat (42 + length bs) :: u32) = 42 + length bs"
    using l by (simp only: unsigned_of_nat) (simp add: take_bit_nat_eq_self)
  then have n14: "\<not> (of_nat (42 + length bs) :: u32) < 14" and n20: "(20 :: u32) \<le> of_nat (42 + length bs) - 14"
    by (simp_all only: word_less_nat_alt word_le_nat_alt) (simp_all add: unat_sub_if' n del: of_nat_add)
  have t: "ucast (of_nat (28 + length bs) :: u16) - 20 = (of_nat (8 + length bs) :: u32)"
  proof -
    have "ucast (of_nat (28 + length bs) :: u16) = (of_nat (28 + length bs) :: u32)"
      using l by (simp only: word_unat_eq_iff unsigned_ucast_eq unsigned_of_nat) (simp add: take_bit_nat_eq_self)
    then show ?thesis by simp
  qed
  show "net_handle_packet dev m a (of_nat (42 + length bs)) s
       = map_option (Pair m) (udp_handle_packet m (a + 34) (of_nat (8 + length bs)) src s)"
    using n14 ip_deliver [OF 2 n20 d] unfolding net_handle_packet_def Let_def ge t by (simp add: add.assoc)
qed

text \<open>
  C20. A datagram sent by one machine running this stack and received by another arrives: the frame
  \<^verbatim>\<open>udp_socket_sendto\<close> hands to the device, read back from memory by \<^verbatim>\<open>net_handle_packet\<close> on a machine with
  the destination address, passes every header and checksum test and appends exactly the bytes sent to the
  socket bound to the destination port, provided they fit. (The fields are in the processor's byte order
  on both sides.)
\<close>

theorem udp_roundtrip:
  assumes send: "usocks s p = Some x" "p \<noteq> 0" "dev \<noteq> 0" "nplan s = []" "length (dmac (devs s dev)) = 6" "unat n \<le> 65507"
    and r: "udp_inv r" "dip (devs r dv) = dst" "usocks r q = Some y"
    and q: "\<And>h. udp_dest_port h = dport \<Longrightarrow> udp_target h r = Some q"
    and fits: "length (udp_data y) + unat n \<le> 65536"
  shows "\<exists>s' frame. udp_socket_sendto p dev dst dport m d n s = Some (int (unat n), s') \<and> sent s' = sent s @ [(dev, frame)]
    \<and> (\<forall>m' a. at_mem m' a frame \<longrightarrow>
        (\<exists>r' y'. net_handle_packet dv m' a (of_nat (length frame)) r = Some (m', r') \<and> udp_inv r'
           \<and> usocks r' q = Some y' \<and> udp_data y' = udp_data y @ bytes_at m d (unat n)))"
proof -
  define src where "src = (if ulocal_ip x \<noteq> 0 then ulocal_ip x else dip (devs s dev))"
  define sport where "sport = (if ulocal_port x \<noteq> 0 then ulocal_port x else next_udp_port s)"
  let ?bs = "bytes_at m d (unat n)"
  define frame where "frame = udp_frame (devs s dev) src dst sport dport ?bs"
  have lf: "length frame = 42 + unat n" using send(5) by (simp add: frame_def udp_frame_length)
  have u: "unat (42 + n) = 42 + unat n" using send(6) by (simp add: unat_word_ariths)
  have "\<exists>s'. udp_socket_sendto p dev dst dport m d n s = Some (sint n, s') \<and> sent s' = sent s @ [(dev, take (unat (42 + n)) frame)]"
    using send by (simp add: udp_socket_sendto_def net_alloc_def Let_def send_packet_def frame_def src_def sport_def)
  then obtain s' where s': "udp_socket_sendto p dev dst dport m d n s = Some (int (unat n), s')" "sent s' = sent s @ [(dev, frame)]"
    using u lf sint_unat [of n] send(6) by auto
  have "\<exists>r' y'. net_handle_packet dv m' a (of_nat (length frame)) r = Some (m', r') \<and> udp_inv r'
           \<and> usocks r' q = Some y' \<and> udp_data y' = udp_data y @ ?bs" if at: "at_mem m' a frame" for m' a
  proof -
    note dl = net_deliver_udp [OF at [unfolded frame_def] send(5), of r dv, unfolded length_bytes_at, OF _ send(6)]
    have t: "udp_target (get_udp m' (a + 34)) r = Some q" using dl(2) r(2) q by simp
    have n8: "(8 :: u32) \<le> of_nat (8 + unat n)"
      using send(6) by (simp only: word_le_nat_alt unsigned_of_nat) (simp add: take_bit_nat_eq_self)
    obtain y' where y': "udp_handle_packet m' (a + 34) (of_nat (8 + unat n)) src r = Some (r\<lparr>usocks := (usocks r)(q \<mapsto> y')\<rparr>)" "udp_ok y'"
        "udp_data y' = udp_data y @ bytes_at m' (a + 34 + 8) (unat n)"
      using udp_handle_to [OF r(1) n8 t, of "unat n" y src] dl(2) r(2,3) fits send(6) by auto
    have "bytes_at m' (a + 34 + 8) (unat n) = ?bs" using dl(3) r(2) by (simp add: add.assoc)
    then show ?thesis using dl(1) r(2,3) y' udp_inv_upd [OF r(1) y'(2), of q] lf by auto
  qed
  then show ?thesis using s' by blast
qed

theorem udp_roundtrip_witness:
  "\<exists>s s' frame r' y'. udp_socket_sendto 1 1 0 7 (mem_of [1, 2]) 0 2 s = Some (2, s') \<and> sent s' = sent s @ [(1, frame)]
     \<and> net_handle_packet 1 (mem_of frame) 0 (of_nat (length frame)) s = Some (mem_of frame, r') \<and> usocks r' 1 = Some y' \<and> udp_data y' = [1, 2]"
proof -
  obtain s x where s: "udp_inv s" "udp_sockets s = [1]" "usocks s 1 = Some x" "udp_data x = []" "ulocal_port x = 7" "uremote_port x = 0"
      "nplan s = []" "devs s = devs net_zero" by (rule udp_example)
  have "udp_target h s = Some 1" if "udp_dest_port h = 7" for h using s that by (simp add: udp_target_def udp_match_def)
  moreover have "bytes_at (mem_of [1, 2]) 0 2 = [1, 2]" by (simp add: bytes_at_def mem_of_def upt_rec)
  ultimately show ?thesis
    using udp_roundtrip [of s 1 x 1 2 s 1 0 1 x 7 "mem_of [1, 2]" 0] s at_mem_mem_of by (fastforce simp: net_zero_def)
qed

section \<open>Address resolution\<close>

lemma arp_find_store:
  assumes "ip \<noteq> 0"
  shows "arp_find ip (arp_store ip mac es) = (if \<exists>e \<in> set es. ae_ip e = 0 \<or> ae_ip e = ip then Some mac else None)"
    and "ip' \<noteq> ip \<Longrightarrow> ip' \<noteq> 0 \<Longrightarrow> arp_find ip' (arp_store ip mac es) = arp_find ip' es"
  using assms by (induction es) auto

lemma length_arp_store [simp]: "length (arp_store ip mac es) = length es"
  by (induction es) auto

text \<open>
  The address cache is a finite map from addresses other than 0 to hardware addresses: an announced
  pair is found afterwards if the address was known or a slot was free, whatever was known about other
  addresses is kept, and the cache keeps its 32 slots. A request for the device's own address is
  answered with exactly one frame to the asker that carries the device's pair, and changes nothing else.
\<close>

theorem arp_correct:
  assumes n: "28 \<le> n" and at: "at_mem m a (arp_bytes h)" "length (arp_src_mac h) = 6" "length (arp_dest_mac h) = 6"
    and f: "hw_type h = 1" "proto_type h = 0x0800" "hw_addr_len h = 6" "proto_addr_len h = 4" "arp_src_ip h \<noteq> 0"
    and ip: "ip \<noteq> 0" "ip \<noteq> arp_src_ip h" and dv: "length (dmac (devs s dev)) = 6"
  shows "(arp_opcode h = 2 \<longrightarrow>
       net_arp_lookup (arp_src_ip h) (arp_handle_packet dev m a n s)
         = (if \<exists>e \<in> set (arp_cache s). ae_ip e = 0 \<or> ae_ip e = arp_src_ip h then (1, Some (arp_src_mac h)) else (0, None))
       \<and> net_arp_lookup ip (arp_handle_packet dev m a n s) = net_arp_lookup ip s
       \<and> length (arp_cache (arp_handle_packet dev m a n s)) = length (arp_cache s))
    \<and> (arp_opcode h = 1 \<and> arp_dest_ip h = dip (devs s dev) \<longrightarrow>
       (\<exists>frame. arp_handle_packet dev m a n s = s\<lparr>sent := sent s @ [(dev, frame)]\<rparr>
         \<and> get_eth (mem_of frame) 0 = \<lparr>eth_dest = arp_src_mac h, eth_src = dmac (devs s dev), ethertype = 0x0806\<rparr>
         \<and> get_arp (mem_of frame) 14 = h\<lparr>arp_opcode := 2, arp_src_mac := dmac (devs s dev), arp_src_ip := dip (devs s dev),
             arp_dest_mac := arp_src_mac h, arp_dest_ip := arp_src_ip h\<rparr>))"
proof -
  have g: "get_arp m a = h" using at by (rule get_arp_bytes)
  let ?e = "\<lparr>eth_dest = arp_src_mac h, eth_src = dmac (devs s dev), ethertype = 0x0806\<rparr>"
  let ?r = "\<lparr>hw_type = 1, proto_type = 0x0800, hw_addr_len = 6, proto_addr_len = 4, arp_opcode = 2, arp_src_mac = dmac (devs s dev),
      arp_src_ip = dip (devs s dev), arp_dest_mac = arp_src_mac h, arp_dest_ip = arp_src_ip h\<rparr>"
  let ?f = "eth_bytes ?e @ arp_bytes ?r"
  have le: "length (eth_bytes ?e) = 14" "length (arp_bytes ?r) = 28" using at(2) dv by simp_all
  have "at_mem (mem_of ?f) 0 (eth_bytes ?e)" "at_mem (mem_of ?f) 14 (arp_bytes ?r)"
    using at_mem_mem_of [of ?f] unfolding at_mem_append le by simp_all
  then have "get_eth (mem_of ?f) 0 = ?e" "get_arp (mem_of ?f) 14 = ?r"
    using get_eth_bytes [of "mem_of ?f" 0 ?e] get_arp_bytes [of "mem_of ?f" 14 ?r] at(2) dv by simp_all
  moreover have "?r = h\<lparr>arp_opcode := 2, arp_src_mac := dmac (devs s dev), arp_src_ip := dip (devs s dev),
             arp_dest_mac := arp_src_mac h, arp_dest_ip := arp_src_ip h\<rparr>" using f by simp
  moreover have "arp_handle_packet dev m a n s = s\<lparr>sent := sent s @ [(dev, ?f)]\<rparr>" if "arp_opcode h = 1" "arp_dest_ip h = dip (devs s dev)"
    using that n [folded not_less] f le by (simp add: arp_handle_packet_def Let_def g send_packet_def)
  moreover have "arp_handle_packet dev m a n s = s\<lparr>arp_cache := arp_store (arp_src_ip h) (arp_src_mac h) (arp_cache s)\<rparr>" if "arp_opcode h = 2"
    using that n [folded not_less] f by (simp add: arp_handle_packet_def Let_def g)
  ultimately show ?thesis using f(5) ip by (auto simp: net_arp_lookup_def arp_find_store)
qed

theorem arp_correct_witness:
  "net_arp_lookup 5 (arp_handle_packet 1 (mem_of (arp_bytes \<lparr>hw_type = 1, proto_type = 0x0800, hw_addr_len = 6, proto_addr_len = 4,
      arp_opcode = 2, arp_src_mac = [1, 2, 3, 4, 5, 6], arp_src_ip = 5, arp_dest_mac = replicate 6 0, arp_dest_ip = 9\<rparr>)) 0 28 net_zero)
    = (1, Some [1, 2, 3, 4, 5, 6])"
proof -
  let ?h = "\<lparr>hw_type = 1, proto_type = 0x0800, hw_addr_len = 6, proto_addr_len = 4,
      arp_opcode = 2, arp_src_mac = [1, 2, 3, 4, 5, 6], arp_src_ip = 5, arp_dest_mac = replicate 6 0, arp_dest_ip = 9\<rparr>"
  have "\<exists>e \<in> set (arp_cache net_zero). ae_ip e = 0" by (simp add: net_zero_def)
  then show ?thesis using arp_correct [of 28 "mem_of (arp_bytes ?h)" 0 ?h 7 net_zero 1] by (auto simp: net_zero_def)
qed

section \<open>Packets in network byte order\<close>

text \<open>
  Packets in the byte order the protocols define are misread: an ARP packet for Ethernet and IP is ignored, and
  every valid echo request of fewer than 256 bytes is a memory error, because the length field is read with
  its bytes exchanged and the reply is built in a buffer of 512 bytes.
\<close>

theorem network_order_misread:
  "(at_mem m a [0, 1, 8, 0] \<longrightarrow> arp_handle_packet dev m a n s = s)
   \<and> (34 \<le> n \<and> at_mem m a (d6 @ s6 @ [8, 0] @ ip_bytes h @ [8]) \<and> length d6 = 6 \<and> length s6 = 6
      \<and> version_ihl h = 0x45 \<and> protocol h = 1 \<and> ip_dest h = dip (devs s dev) \<and> total_len h = ntohs (of_nat L) \<and> 28 \<le> L \<and> L < 256
      \<and> net_checksum (m(a + 24 := 0, a + 25 := 0)) (a + 14) 20 = ip_checksum h \<longrightarrow> net_handle_packet dev m a n s = None)"
proof (intro conjI impI)
  assume "at_mem m a [0, 1, 8, 0]"
  then have "hw_type (get_arp m a) = 0x100" by (simp add: at_mem_Cons get_arp_def rd16_def)
  then show "arp_handle_packet dev m a n s = s" by (simp add: arp_handle_packet_def Let_def)
next
  assume h: "34 \<le> n \<and> at_mem m a (d6 @ s6 @ [8, 0] @ ip_bytes h @ [8]) \<and> length d6 = 6 \<and> length s6 = 6
      \<and> version_ihl h = 0x45 \<and> protocol h = 1 \<and> ip_dest h = dip (devs s dev) \<and> total_len h = ntohs (of_nat L) \<and> 28 \<le> L \<and> L < 256
      \<and> net_checksum (m(a + 24 := 0, a + 25 := 0)) (a + 14) 20 = ip_checksum h"
  then have l: "length d6 = 6" "length s6 = 6" and at0: "at_mem m a (d6 @ s6 @ [8, 0] @ ip_bytes h @ [8])" by blast+
  have at: "at_mem m (a + 14) (ip_bytes h)" "m (a + 12) = 8" "m (a + 13) = 0" "m (a + 34) = 8"
    using at0 unfolding at_mem_append at_mem_Cons l length_hdr by (simp_all add: add.commute)
  have "m (13 + a) = 0" using at(3) by (subst add.commute)
  then have "ethertype (get_eth m a) = 8" using at(2) by (simp add: get_eth_def rd16_def)
  then have ty: "ntohs (ethertype (get_eth m a)) = 0x0800" by (simp add: ntohs_def)
  have g: "get_ip m (a + 14) = h" using at(1) by (rule get_ip_bytes)
  have c: "ip_checksum h = rd16 m (a + 24)" by (simp add: g [symmetric] get_ip_def add.assoc)
  let ?L = "of_nat L :: u16"
  have "drop_bit 8 ?L = 0" using h by (simp add: word_unat_eq_iff drop_bit_eq_div unat_div_distrib unsigned_of_nat take_bit_nat_eq_self)
  then have tl: "ntohs ?L = of_nat (256 * L)" by (simp add: ntohs_def push_bit_eq_mult)
  have uc: "ucast (of_nat (256 * L) :: u16) = (of_nat (256 * L) :: u32)"
    using h by (simp only: word_unat_eq_iff unsigned_ucast_eq unsigned_of_nat) (simp add: take_bit_nat_eq_self)
  define k where "k = (of_nat (256 * L) - 20 :: u32)"
  have u: "unat (of_nat (256 * L) :: u32) = 256 * L" using h by (simp only: unsigned_of_nat) (simp add: take_bit_nat_eq_self)
  have uk: "unat k = 256 * L - 20" unfolding k_def using u h by (subst unat_sub) (simp_all add: word_le_nat_alt del: of_nat_mult)
  have L: "28 \<le> L" using h by blast
  from uk have "unat (k - 8) = 256 * L - 28" using L by (subst unat_sub) (simp_all add: word_le_nat_alt)
  moreover have "\<not> k < 8" using uk L by (simp add: word_less_nat_alt)
  ultimately have icmp: "icmp_dispatch dev m (a + 34) k (ip_src h) s = None"
    using at(4) L by (simp add: icmp_dispatch_def icmp_handle_packet_def Let_def get_icmp_def)
  have n: "\<not> n < 14" "\<not> n - 14 < 20" using h by (auto simp: word_less_nat_alt word_le_nat_alt unat_sub_if')
  have "ip_handle_packet dev m (a + 14) (n - 14) s = map_option (Pair m) (icmp_dispatch dev m (a + 34) k (ip_src h) s)"
    using ip_accept [OF g, of "n - 14" s dev] n(2) [unfolded not_less] h uc by (simp add: add.assoc tl k_def)
  then show "net_handle_packet dev m a n s = None"
    using n(1) icmp by (simp add: net_handle_packet_def Let_def ty)
qed

text \<open>An echo request of 28 bytes, its length field in network order, to the address 0 of a fresh stack.\<close>

theorem network_order_misread_witness:
  "arp_handle_packet 1 (mem_of [0, 1, 8, 0]) 0 28 net_zero = net_zero
   \<and> net_handle_packet 1 (mem_of (replicate 6 0 @ replicate 6 0 @ [8, 0] @ ip_bytes (mk_ip (ntohs 28) 1 3 0) @ [8, 0, 0, 0, 0, 0, 0, 0])) 0 42 net_zero = None"
proof -
  let ?h = "mk_ip (ntohs 28) 1 3 0"
  let ?f = "replicate 6 0 @ replicate 6 0 @ [8, 0] @ ip_bytes ?h @ [8]" and ?g = "[0, 0, 0, 0, 0, 0, 0 :: u8]"
  have f: "replicate 6 0 @ replicate 6 0 @ [8, 0] @ ip_bytes ?h @ [8, 0, 0, 0, 0, 0, 0, 0] = ?f @ ?g" by simp
  have at: "at_mem (mem_of (?f @ ?g)) 0 ?f" using at_mem_mem_of [of "?f @ ?g"] unfolding at_mem_append [of _ _ ?f] by blast
  have "at_mem (mem_of (?f @ ?g)) 14 (ip_bytes ?h)" using at unfolding at_mem_append by (simp only: length_replicate list.size) simp
  then have "net_checksum ((mem_of (?f @ ?g))(0 + 24 := 0, 0 + 25 := 0)) (0 + 14) 20 = ip_checksum ?h"
    using ip_verify [of "mem_of (?f @ ?g)" 14 "ntohs 28" 1 3 0] by simp
  then have "net_handle_packet 1 (mem_of (?f @ ?g)) 0 42 net_zero = None"
    using network_order_misread [of "mem_of (?f @ ?g)" 0 1 42 net_zero "replicate 6 0" "replicate 6 0" ?h 28] at
    by (simp add: net_zero_def)
  moreover have "arp_handle_packet 1 (mem_of [0, 1, 8, 0]) 0 28 net_zero = net_zero"
    using network_order_misread [of "mem_of [0, 1, 8, 0]" 0 1 28 net_zero "[]" "[]" ?h 28] by simp
  ultimately show ?thesis unfolding f by blast
qed

section \<open>Echo replies\<close>

text \<open>
  An echo request whose payload is at most 470 bytes (as the length field is read) is answered by exactly
  one frame to the hardware address known for the sender, or the broadcast address: an IP packet from
  the device to the sender of the length of the request, whose identifier, sequence number and payload
  are those of the request and whose type is echo reply; a longer one is a memory error.
\<close>

theorem icmp_echo:
  assumes n: "8 \<le> n" and ty: "icmp_type (get_icmp m a) = 8" and k: "k = unat (n - 8)"
    and dv: "length (dmac (devs s dev)) = 6" "length (arp_dest_mac_for src s) = 6"
  shows "(k \<le> 470 \<longrightarrow> (\<exists>frame c. icmp_dispatch dev m a n src s = Some (s\<lparr>sent := sent s @ [(dev, frame)]\<rparr>)
        \<and> frame = eth_bytes \<lparr>eth_dest = arp_dest_mac_for src s, eth_src = dmac (devs s dev), ethertype = 0x0800\<rparr>
            @ ip_bytes (mk_ip (of_nat (28 + k)) 1 (dip (devs s dev)) src)
            @ icmp_bytes (get_icmp m a\<lparr>icmp_type := 0, icmp_code := 0, icmp_checksum := c\<rparr>) @ bytes_at m (a + 8) k))
    \<and> (470 < k \<longrightarrow> icmp_dispatch dev m a n src s = None)"
proof -
  define t where "t = (of_nat (28 + k) :: u16)"
  have h: "icmp_dispatch dev m a n src s = icmp_handle_packet dev m a n src s"
    using n [folded not_less] ty by (simp add: icmp_dispatch_def)
  have ut: "unat t = 28 + k" if "k \<le> 484" unfolding t_def using that by (simp only: unsigned_of_nat) (simp add: take_bit_nat_eq_self)
  let ?e = "\<lparr>eth_dest = arp_dest_mac_for src s, eth_src = dmac (devs s dev), ethertype = 0x0800\<rparr>"
  let ?b = "echo_bytes 0 (icmp_id (get_icmp m a)) (icmp_sequence (get_icmp m a)) (bytes_at m (a + 8) k)"
  have lb: "length ?b = 8 + k" by (simp add: echo_bytes_def Let_def)
  have le: "length (eth_bytes ?e) = 14" using dv by simp
  have d: "icmp_handle_packet dev m a n src s = (if 28 + k > 512 then None else if 14 + unat t > 512 then None
     else Some (send_packet dev (eth_bytes ?e @ take (unat t) (ip_bytes (mk_ip t 1 (dip (devs s dev)) src) @ ?b)) (14 + ucast t) s))"
    using n [folded not_less] ty by (simp add: icmp_handle_packet_def Let_def k [symmetric] t_def)
  show ?thesis
  proof (intro conjI impI)
    assume k': "k \<le> 470"
    then have u: "unat t = 28 + k" and u2: "unat (14 + ucast t :: u32) = 42 + k"
      using ut by (simp_all add: unat_word_ariths unsigned_ucast_eq take_bit_nat_eq_self)
    obtain c where "?b = icmp_bytes (get_icmp m a\<lparr>icmp_type := 0, icmp_code := 0, icmp_checksum := c\<rparr>) @ bytes_at m (a + 8) k"
      by (simp add: echo_bytes_def Let_def icmp_bytes_def)
    then have "icmp_dispatch dev m a n src s = Some (s\<lparr>sent := sent s @ [(dev, eth_bytes ?e
        @ ip_bytes (mk_ip (of_nat (28 + k)) 1 (dip (devs s dev)) src)
        @ icmp_bytes (get_icmp m a\<lparr>icmp_type := 0, icmp_code := 0, icmp_checksum := c\<rparr>) @ bytes_at m (a + 8) k)]\<rparr>)"
      using h d k' u u2 lb le by (simp add: send_packet_def t_def)
    then show "\<exists>frame c. icmp_dispatch dev m a n src s = Some (s\<lparr>sent := sent s @ [(dev, frame)]\<rparr>)
        \<and> frame = eth_bytes ?e @ ip_bytes (mk_ip (of_nat (28 + k)) 1 (dip (devs s dev)) src)
            @ icmp_bytes (get_icmp m a\<lparr>icmp_type := 0, icmp_code := 0, icmp_checksum := c\<rparr>) @ bytes_at m (a + 8) k"
      by blast
  next
    assume "470 < k"
    then show "icmp_dispatch dev m a n src s = None" using h d ut by (cases "k \<le> 484") simp_all
  qed
qed

theorem icmp_echo_witness:
  "\<exists>frame. icmp_dispatch 1 (mem_of [8, 0, 0, 0, 1, 0, 2, 0, 77]) 0 9 3 net_zero = Some (net_zero\<lparr>sent := [(1, frame)]\<rparr>)"
proof -
  let ?m = "mem_of [8, 0, 0, 0, 1, 0, 2, 0, 77]"
  have "icmp_type (get_icmp ?m 0) = 8" by (simp add: get_icmp_def mem_of_def)
  moreover have "arp_find 3 (replicate k e) = None" if "ae_ip e = 0" for k e using that by (induction k) auto
  then have "length (arp_dest_mac_for 3 net_zero) = 6" unfolding arp_dest_mac_for_def net_zero_def net.select_convs by simp
  ultimately show ?thesis using icmp_echo [of 9 ?m 0 1 net_zero 1 3] by (auto simp: net_zero_def)
qed

section \<open>Ping\<close>

text \<open>
  The wait for an echo reply always ends when the clock advances with every \<^verbatim>\<open>yield\<close>: after at most as many
  turns as the timeout has milliseconds, with the elapsed time if a reply came and \<open>-1\<close> otherwise.
\<close>

theorem ping_wait_terminates:
  assumes "\<And>s. unat (ms_time s) < unat start + unat timeout \<Longrightarrow> unat (ms_time s) < unat (ms_time (Y s)) \<and> unat (ms_time (Y s)) \<le> unat (ms_time s) + step"
    and "unat start \<le> unat (ms_time s)" "unat start + unat timeout + step < 2 ^ 64" "unat timeout < 2 ^ 31"
    and "unat (ms_time s) \<le> unat start + unat timeout + step"
  shows "\<exists>r s'. ping_wait Y start timeout s = Some (r, s') \<and> (r = -1 \<or> 0 \<le> r \<and> r < int (unat timeout) \<and> ping_received s')"
  using assms(2,5)
proof (induction "unat start + unat timeout + step - unat (ms_time s)" arbitrary: s rule: less_induct)
  case less
  let ?d = "ms_time s - start"
  have d: "unat ?d = unat (ms_time s) - unat start" using less.prems by (simp add: unat_sub word_le_nat_alt)
  have ut: "unat (ucast timeout :: u64) = unat timeout" using assms(4) by (simp add: unsigned_ucast_eq take_bit_nat_eq_self)
  have t: "?d < ucast timeout \<longleftrightarrow> unat (ms_time s) < unat start + unat timeout"
    using d less.prems ut by (simp add: word_less_nat_alt) linarith
  show ?case
  proof (cases "?d < ucast timeout \<and> \<not> ping_received s")
    case True
    have y: "unat (ms_time s) < unat (ms_time (Y s))" "unat (ms_time (Y s)) \<le> unat (ms_time s) + step" using assms(1) [of s] t True by auto
    have "unat start + unat timeout + step - unat (ms_time (Y s)) < unat start + unat timeout + step - unat (ms_time s)"
      "unat start \<le> unat (ms_time (Y s))" "unat (ms_time (Y s)) \<le> unat start + unat timeout + step"
      using y t True less.prems by linarith+
    from less.hyps [OF this] show ?thesis using True by (subst ping_wait.simps) simp
  next
    case False
    show ?thesis
    proof (cases "?d < ucast timeout")
      case in_time: True
      then have l: "unat ?d < unat timeout" using ut by (simp add: word_less_nat_alt)
      then have "unat (ucast ?d :: u32) = unat ?d" using assms(4) by (simp add: unsigned_ucast_eq take_bit_nat_eq_self)
      then have "sint (ucast ?d :: u32) = int (unat ?d)" using sint_unat [of "ucast ?d"] l assms(4) by simp
      moreover have "ping_wait Y start timeout s = Some (sint (ucast ?d :: u32), s)" "ping_received s"
        using False in_time by (subst ping_wait.simps, auto)+
      ultimately show ?thesis using l by (intro exI [of _ "int (unat ?d)"] exI [of _ s]) (simp del: of_nat_unat)
    next
      case late: False
      then show ?thesis by (subst ping_wait.simps) simp
    qed
  qed
qed

theorem ping_wait_terminates_witness:
  "\<exists>r s'. ping_wait (\<lambda>s. s\<lparr>ms_time := ms_time s + 1\<rparr>) 0 3 net_zero = Some (r, s') \<and> (r = -1 \<or> 0 \<le> r \<and> r < 3 \<and> ping_received s')"
  using ping_wait_terminates [of 0 3 "\<lambda>s. s\<lparr>ms_time := ms_time s + 1\<rparr>" 1 net_zero]
  by (simp add: net_zero_def unat_word_ariths)

end
