(* ===== verification/Dns.thy ===== *)
theory Dns
  imports Net
begin

text \<open>
  The resolver of \<^verbatim>\<open>net/dns.c\<close>: address literals, the cache of eight names, the query, and the reader
  of the reply. A name is the list of its bytes before the terminating zero. The reply buffer is a
  function from positions to bytes.
\<close>

record dns =
  dns_server :: u32
  dns_cache :: "(u8 list \<times> u32) list"

definition dns_init :: dns where
  "dns_init = \<lparr>dns_server = 0x0A000203, dns_cache = []\<rparr>"

definition dns_set_server :: "u32 \<Rightarrow> dns \<Rightarrow> dns" where
  "dns_set_server ip d = d\<lparr>dns_server := ip\<rparr>"

definition dns_get_server :: "dns \<Rightarrow> u32" where
  "dns_get_server d = dns_server d"

abbreviation (input) DOT :: u8 where "DOT \<equiv> 46"

section \<open>Names\<close>

function encode_labels :: "nat \<Rightarrow> u8 list \<Rightarrow> u8 list \<Rightarrow> u8 list option" where
  "encode_labels maxlen out label =
     (if label = [] then Some out
      else let l = takeWhile (\<lambda>c. c \<noteq> DOT) label; dot = dropWhile (\<lambda>c. c \<noteq> DOT) label in
      if length l = 0 \<or> length l > 63 then None
      else if length out + length l + 1 \<ge> maxlen then None
      else let out' = out @ of_nat (length l) # l
           in if dot = [] then Some out' else encode_labels maxlen out' (tl dot))"
  by auto
termination
proof (relation "measure (\<lambda>(_, _, label). length label)")
  fix label l dot :: "u8 list"
  assume "dot = dropWhile (\<lambda>c. c \<noteq> DOT) label" "dot \<noteq> []"
  then have "length (tl dot) < length dot" "length dot \<le> length label" by (simp_all add: length_dropWhile_le)
  then show "((maxlen, out', tl dot), maxlen, out, label) \<in> measure (\<lambda>(_, _, label). length label)" for maxlen out out' by simp
qed auto

declare encode_labels.simps [simp del]

definition dns_encode_name :: "nat \<Rightarrow> u8 list \<Rightarrow> u8 list option" where
  "dns_encode_name maxlen name = (case encode_labels maxlen [] name of None \<Rightarrow> None
     | Some out \<Rightarrow> if out = [] then None else Some (out @ [0]))"

section \<open>Address literals\<close>

definition is_numeric :: "u8 list \<Rightarrow> bool" where
  "is_numeric name \<longleftrightarrow> name \<noteq> [] \<and> (\<forall>c \<in> set name. 48 \<le> c \<and> c \<le> 57 \<or> c = DOT)"

fun read_part :: "u32 \<Rightarrow> u8 list \<Rightarrow> u32 \<times> u8 list" where
  "read_part part [] = (part, [])"
| "read_part part (c # cs) = (if c = DOT then (part, c # cs) else read_part (part * 10 + (ucast c - 48)) cs)"

fun read_ip :: "nat \<Rightarrow> u32 \<Rightarrow> u8 list \<Rightarrow> u32" where
  "read_ip 0 ip s = ip"
| "read_ip (Suc i) ip s =
     (let (part, s1) = read_part 0 s
      in read_ip i (push_bit 8 ip OR (part AND 0xFF)) (if s1 \<noteq> [] \<and> hd s1 = DOT then tl s1 else s1))"

section \<open>The reply\<close>

function skip_name :: "mem \<Rightarrow> nat \<Rightarrow> nat \<Rightarrow> nat" where
  "skip_name resp r pos =
     (if pos < r
      then let l = resp pos in
           if l = 0 then pos + 1
           else if l \<ge> 192 then pos + 2
           else skip_name resp r (pos + 1 + unat l)
      else pos)"
  by auto
termination by (relation "measure (\<lambda>(_, r, pos). r - pos)") auto

declare skip_name.simps [simp del]

definition cache_add :: "u8 list \<Rightarrow> u32 \<Rightarrow> (u8 list \<times> u32) list \<Rightarrow> (u8 list \<times> u32) list" where
  "cache_add name ip c = (if length c < 8 then c @ [(take 63 name, ip)] else c)"

text \<open>The loop over the answers: the cache and the address found so far.\<close>

fun dns_answers :: "u8 list \<Rightarrow> mem \<Rightarrow> nat \<Rightarrow> nat \<Rightarrow> nat \<Rightarrow> (u8 list \<times> u32) list \<times> u32 option \<Rightarrow> (u8 list \<times> u32) list \<times> u32 option" where
  "dns_answers name resp r 0 pos (c, out) = (c, out)"
| "dns_answers name resp r (Suc i) pos (c, out) =
     (if pos < r
      then let p = skip_name resp r pos in
           if p + 10 > r then (c, out)
           else let type = push_bit 8 (ucast (resp p)) OR ucast (resp (p + 1)) :: u16;
                    rdlen = push_bit 8 (ucast (resp (p + 8))) OR ucast (resp (p + 9)) :: u16;
                    st = (if type = 1 \<and> rdlen = 4 \<and> p + 14 \<le> r
                          then let ip = push_bit 24 (ucast (resp (p + 10))) OR push_bit 16 (ucast (resp (p + 11)))
                                 OR push_bit 8 (ucast (resp (p + 12))) OR ucast (resp (p + 13))
                               in (cache_add name ip c, Some ip)
                          else (c, out))
                in dns_answers name resp r i (p + 10 + unat rdlen) st
      else (c, out))"

definition dns_reply :: "u8 list \<Rightarrow> mem \<Rightarrow> nat \<Rightarrow> (u8 list \<times> u32) list \<Rightarrow> (u8 list \<times> u32) list \<times> u32 option" where
  "dns_reply name resp r c = dns_answers name resp r (unat (ntohs (rd16 resp 6))) (skip_name resp r 12 + 4) (c, None)"

section \<open>Resolution\<close>

text \<open>
  The header fields are stored in the processor's byte order. \<open>None\<close> when the four bytes after the name do not fit in the
  512 bytes of the query.
\<close>

definition dns_query :: "u64 \<Rightarrow> u8 list \<Rightarrow> u8 list option" where
  "dns_query now enc =
     (if 12 + length enc + 4 > 512 then None
      else Some (concat (map le16 [ucast now, 0x0100, 1, 0, 0, 0]) @ enc @ [0, 1, 0, 1]))"

partial_function (option) dns_wait :: "(net \<Rightarrow> net) \<Rightarrow> u64 \<Rightarrow> nat \<Rightarrow> net \<Rightarrow> (u8 list option \<times> net) option" where
  "dns_wait Y start sock s =
     (if ms_time s - start < 2500
      then (case udp_socket_recvfrom sock 512 s of None \<Rightarrow> None
        | Some (rb, s1) \<Rightarrow> if fst rb > 12 then Some (Some (snd rb), s1) else dns_wait Y start sock (Y s1))
      else Some (None, s))"

definition dns_resolve :: "(net \<Rightarrow> net) \<Rightarrow> u8 list \<Rightarrow> dns \<Rightarrow> net \<Rightarrow> ((int \<times> u32 option) \<times> dns \<times> net) option" where
  "dns_resolve Y name d s =
     (if is_numeric name then Some ((0, Some (read_ip 4 0 name)), d, s)
      else case map_of (dns_cache d) name of Some ip \<Rightarrow> Some ((0, Some ip), d, s)
      | None \<Rightarrow>
        if net_devices s = 0 then Some ((- ENODEV, None), d, s)
        else let (sock, s1) = udp_socket_create s in
        if sock = 0 then Some ((- ENOMEM, None), d, s1)
        else do {
          (_, s2) \<leftarrow> udp_socket_bind sock 0 0 s1;
          case dns_encode_name 500 name of
            None \<Rightarrow> do { s3 \<leftarrow> udp_socket_destroy sock s2; Some ((- EINVAL, None), d, s3) }
          | Some enc \<Rightarrow> do {
              query \<leftarrow> dns_query (ms_time s2) enc;
              (_, s3) \<leftarrow> udp_socket_sendto sock (net_devices s2) (dns_server d) 53 (mem_of query) 0 (of_nat (length query)) s2;
              (rep, s4) \<leftarrow> dns_wait Y (ms_time s3) sock s3;
              s5 \<leftarrow> udp_socket_destroy sock s4;
              (case rep of None \<Rightarrow> Some ((- 1, None), d, s5)
               | Some bs \<Rightarrow> let (c, out) = dns_reply name (mem_of bs) (length bs) (dns_cache d)
                            in Some ((if out = None then - 1 else 0, out), d\<lparr>dns_cache := c\<rparr>, s5)) }
        })"

section \<open>Names round trip\<close>

fun join_dots :: "u8 list list \<Rightarrow> u8 list" where
  "join_dots [] = []"
| "join_dots [l] = l"
| "join_dots (l # ls) = l @ DOT # join_dots ls"

definition enc_labels :: "u8 list list \<Rightarrow> u8 list" where
  "enc_labels ls = concat (map (\<lambda>l. of_nat (length l) # l) ls)"

definition label_ok :: "u8 list \<Rightarrow> bool" where
  "label_ok l \<longleftrightarrow> l \<noteq> [] \<and> length l \<le> 63 \<and> DOT \<notin> set l"

text \<open>What a resolver reads: labels up to the zero byte.\<close>

function read_labels :: "u8 list \<Rightarrow> u8 list list" where
  "read_labels xs = (case xs of [] \<Rightarrow> [] | n # ys \<Rightarrow> if n = 0 then [] else take (unat n) ys # read_labels (drop (unat n) ys))"
  by auto
termination by (relation "measure length") auto

declare read_labels.simps [simp del]

lemma takeWhile_label: "DOT \<notin> set l \<Longrightarrow> takeWhile (\<lambda>c. c \<noteq> DOT) (l @ DOT # r) = l \<and> dropWhile (\<lambda>c. c \<noteq> DOT) (l @ DOT # r) = DOT # r"
  by (induction l) auto

lemma takeWhile_last: "DOT \<notin> set l \<Longrightarrow> takeWhile (\<lambda>c. c \<noteq> DOT) l = l" "DOT \<notin> set l \<Longrightarrow> dropWhile (\<lambda>c. c \<noteq> DOT) l = []"
  by (induction l) auto

lemma encode_labels_join:
  assumes "\<forall>l \<in> set ls. label_ok l" "ls \<noteq> []"
  shows "encode_labels maxlen out (join_dots ls)
     = (if length (out @ enc_labels ls) < maxlen then Some (out @ enc_labels ls) else None)"
  using assms
proof (induction ls arbitrary: out rule: join_dots.induct)
  case (2 l)
  then have "DOT \<notin> set l" "l \<noteq> []" "length l \<le> 63" by (simp_all add: label_ok_def)
  then show ?case by (subst encode_labels.simps) (simp add: enc_labels_def takeWhile_last Let_def not_less)
next
  case (3 l l' ls)
  have l: "DOT \<notin> set l" "l \<noteq> []" "length l \<le> 63" using 3(2) by (simp_all add: label_ok_def)
  have ih: "encode_labels maxlen o' (join_dots (l' # ls)) = (if length (o' @ enc_labels (l' # ls)) < maxlen then Some (o' @ enc_labels (l' # ls)) else None)" for o'
    using 3 by simp
  have "encode_labels maxlen out (join_dots (l # l' # ls)) = (if length out + length l + 1 \<ge> maxlen then None
      else encode_labels maxlen (out @ of_nat (length l) # l) (join_dots (l' # ls)))"
    using l takeWhile_label [of l "join_dots (l' # ls)"] by (subst encode_labels.simps) (simp add: Let_def)
  then show ?case unfolding ih by (simp add: enc_labels_def)
qed simp

lemma unat_label: "label_ok l \<Longrightarrow> unat (of_nat (length l) :: u8) = length l"
  by (simp add: label_ok_def unsigned_of_nat take_bit_nat_eq_self)

lemma read_labels_enc: "\<forall>l \<in> set ls. label_ok l \<Longrightarrow> read_labels (enc_labels ls @ 0 # rest) = ls"
proof (induction ls)
  case (Cons l ls)
  then have "(of_nat (length l) :: u8) \<noteq> 0" using unat_label [of l] by (auto simp: label_ok_def simp flip: unat_eq_0)
  then show ?case using Cons unat_label [of l] by (subst read_labels.simps) (simp add: enc_labels_def)
qed (subst read_labels.simps, simp add: enc_labels_def)

lemma skip_name_enc:
  assumes "\<forall>l \<in> set ls. label_ok l" "at_mem resp pos (enc_labels ls @ [0])" "pos + length (enc_labels ls) < r"
  shows "skip_name resp r pos = pos + length (enc_labels ls) + 1"
  using assms
proof (induction ls arbitrary: pos)
  case Nil
  then show ?case by (subst skip_name.simps) (simp add: enc_labels_def at_mem_Cons)
next
  case (Cons l ls)
  have l: "label_ok l" "unat (of_nat (length l) :: u8) = length l" using Cons.prems unat_label [of l] by simp_all
  then have "resp pos = of_nat (length l)" "(of_nat (length l) :: u8) \<noteq> 0" "\<not> 192 \<le> (of_nat (length l) :: u8)"
    using Cons.prems by (auto simp: enc_labels_def at_mem_Cons label_ok_def word_le_nat_alt simp flip: unat_eq_0)
  then have "skip_name resp r pos = skip_name resp r (pos + 1 + length l)"
    using Cons.prems l(2) by (subst skip_name.simps) (simp add: Let_def)
  also have "\<dots> = pos + 1 + length l + length (enc_labels ls) + 1"
    using Cons.prems by (intro Cons.IH) (simp_all add: enc_labels_def at_mem_Cons at_mem_append add.assoc)
  finally show ?case by (simp add: enc_labels_def)
qed

text \<open>
  C33. A dotted name of labels of 1 to 63 bytes is encoded as its labels with their lengths and a final zero, if
  they fit, and refused otherwise; reading the encoding gives the labels back, and the reader of replies
  steps over it exactly.
\<close>

theorem dns_name_roundtrip:
  assumes "\<forall>l \<in> set ls. label_ok l" "ls \<noteq> []"
  shows "dns_encode_name maxlen (join_dots ls) = (if length (enc_labels ls) < maxlen then Some (enc_labels ls @ [0]) else None)
    \<and> read_labels (enc_labels ls @ [0]) = ls
    \<and> (at_mem resp pos (enc_labels ls @ [0]) \<and> pos + length (enc_labels ls) < r \<longrightarrow>
        skip_name resp r pos = pos + length (enc_labels ls @ [0]))"
proof -
  have "enc_labels ls \<noteq> []" using assms(2) by (cases ls) (simp_all add: enc_labels_def)
  then show ?thesis
    using encode_labels_join [OF assms, of maxlen "[]"] read_labels_enc [OF assms(1), of "[]"] skip_name_enc [OF assms(1), of resp pos r]
    by (simp add: dns_encode_name_def)
qed

theorem dns_name_roundtrip_witness:
  "dns_encode_name 500 [97, 46, 98, 99] = Some [1, 97, 2, 98, 99, 0] \<and> read_labels [1, 97, 2, 98, 99, 0] = [[97], [98, 99]]"
  using dns_name_roundtrip [of "[[97], [98, 99]]" 500 "\<lambda>_. 0" 0 0] by (simp add: enc_labels_def label_ok_def)

section \<open>Address literals\<close>

fun dec :: "nat \<Rightarrow> u8 list" where
  "dec n = (if n < 10 then [of_nat (48 + n)] else dec (n div 10) @ [of_nat (48 + n mod 10)])"

declare dec.simps [simp del]

definition print_ip :: "u32 \<Rightarrow> u8 list" where
  "print_ip w = join_dots (map (\<lambda>k. dec (unat (drop_bit k w AND 0xFF))) [24, 16, 8, 0])"

lemma digit:
  assumes "n < 10"
  shows "ucast (of_nat (48 + n) :: u8) - 48 = (of_nat n :: u32)" "(of_nat (48 + n) :: u8) \<noteq> DOT"
    "48 \<le> (of_nat (48 + n) :: u8)" "(of_nat (48 + n) :: u8) \<le> 57"
proof -
  have u: "unat (of_nat (48 + n) :: u8) = 48 + n" using assms by (simp only: unsigned_of_nat) (simp add: take_bit_nat_eq_self)
  have "ucast (of_nat (48 + n) :: u8) = (of_nat (48 + n) :: u32)"
    using assms by (simp only: word_unat_eq_iff unsigned_ucast_eq unsigned_of_nat) (simp add: take_bit_nat_eq_self)
  then show "ucast (of_nat (48 + n) :: u8) - 48 = (of_nat n :: u32)" by simp
  show "(of_nat (48 + n) :: u8) \<noteq> DOT"
  proof
    assume e: "(of_nat (48 + n) :: u8) = DOT"
    show False using u unfolding e by simp
  qed
  show "48 \<le> (of_nat (48 + n) :: u8)" "(of_nat (48 + n) :: u8) \<le> 57" using u assms by (simp_all only: word_le_nat_alt) simp_all
qed

lemma read_part_dec: "read_part p (dec n @ r) = read_part (p * 10 ^ length (dec n) + of_nat n) r"
proof (induction n arbitrary: r rule: dec.induct)
  case (1 n)
  show ?case
  proof (cases "n < 10")
    case True
    then show ?thesis using digit [OF True] by (simp add: dec.simps [of n] del: of_nat_add)
  next
    case False
    let ?d = "of_nat (48 + n mod 10) :: u8"
    have "read_part p (dec n @ r) = read_part (p * 10 ^ length (dec (n div 10)) + of_nat (n div 10)) (?d # r)"
      using False 1 [OF False, of "?d # r"] by (simp add: dec.simps [of n])
    also have "\<dots> = read_part ((p * 10 ^ length (dec (n div 10)) + of_nat (n div 10)) * 10 + of_nat (n mod 10)) r"
      using digit [of "n mod 10"] by (simp del: of_nat_add of_nat_mod)
    also have "of_nat n = (of_nat (n div 10 * 10 + n mod 10) :: u32)" by simp
    then have "(p * 10 ^ length (dec (n div 10)) + of_nat (n div 10)) * 10 + of_nat (n mod 10) = p * 10 ^ length (dec n) + of_nat n"
      using False unfolding of_nat_add of_nat_mult by (simp add: dec.simps [of n] algebra_simps del: of_nat_mod)
    finally show ?thesis .
  qed
qed

lemma dec_chars: "c \<in> set (dec n) \<Longrightarrow> 48 \<le> c \<and> c \<le> 57"
proof (induction n rule: dec.induct)
  case (1 n)
  then show ?case using digit [of n] digit [of "n mod 10"]
    by (cases "n < 10") (auto simp: dec.simps [of n] simp del: of_nat_add of_nat_mod)
qed

lemma read_part_end: "read_part p [] = (p, [])" "read_part p (DOT # r) = (p, DOT # r)"
  by simp_all

lemma join8: "push_bit 8 (drop_bit 8 v) OR (v AND 0xFF) = (v :: u32)"
proof (rule bit_word_eqI)
  fix i assume "i < LENGTH(32)"
  moreover have "bit (0xFF :: u32) i \<longleftrightarrow> i < 8" using bit_mask_iff [of 8 i, where 'a = u32] by (auto simp: mask_numeral)
  ultimately show "bit (push_bit 8 (drop_bit 8 v) OR (v AND 0xFF)) i = bit v i"
    by (cases "i < 8") (auto simp: bit_or_iff bit_and_iff bit_push_bit_iff bit_drop_bit_eq not_less)
qed

lemma read_ip_print: "read_ip 4 0 (print_ip w) = w"
proof -
  define f where "f k = drop_bit k w AND 0xFF" for k
  have p: "read_part 0 (dec (unat (f k)) @ DOT # r) = (f k, DOT # r)" "read_part 0 (dec (unat (f k))) = (f k, [])" for k r
    using read_part_dec [of 0 "unat (f k)" "DOT # r"] read_part_dec [of 0 "unat (f k)" "[]"] by simp_all
  have top: "drop_bit 32 w = 0" by (rule bit_word_eqI) (simp add: bit_drop_bit_eq)
  have "read_ip 4 0 (print_ip w) = push_bit 8 (push_bit 8 (push_bit 8 (push_bit 8 0 OR (f 24 AND 0xFF)) OR (f 16 AND 0xFF)) OR (f 8 AND 0xFF)) OR (f 0 AND 0xFF)"
    unfolding print_ip_def f_def [symmetric] by (simp add: p numeral_eq_Suc)
  also have "\<dots> = w"
    using join8 [of "drop_bit 24 w"] join8 [of "drop_bit 16 w"] join8 [of "drop_bit 8 w"] join8 [of w]
    by (simp add: f_def and.assoc top)
  finally show ?thesis .
qed

lemma dec_ne: "dec n \<noteq> []"
  by (subst dec.simps) simp

text \<open>
  The dotted decimal form of any address resolves to that address, without using the network or the cache.
\<close>

theorem dns_resolve_literal: "dns_resolve Y (print_ip w) d s = Some ((0, Some w), d, s)"
proof -
  have "is_numeric (print_ip w)"
    unfolding is_numeric_def print_ip_def by (auto simp: dec_ne dest: dec_chars)
  then show ?thesis by (simp add: dns_resolve_def read_ip_print)
qed

section \<open>Replies\<close>

text \<open>An answer record as servers send it: a pointer to the question's name, type, class, lifetime, length and data.\<close>

definition be16 :: "u16 \<Rightarrow> u8 list" where
  "be16 w = [ucast (drop_bit 8 w), ucast w]"

definition enc_rec :: "u16 \<times> u8 list \<Rightarrow> u8 list" where
  "enc_rec x = [0xC0, 0x0C] @ be16 (fst x) @ [0, 1, 0, 0, 0, 60] @ be16 (of_nat (length (snd x))) @ snd x"

definition be32 :: "u8 list \<Rightarrow> u32" where
  "be32 b = push_bit 24 (ucast (b ! 0)) OR push_bit 16 (ucast (b ! 1)) OR push_bit 8 (ucast (b ! 2)) OR ucast (b ! 3)"

text \<open>The addresses among the records, in order.\<close>

definition addresses :: "(u16 \<times> u8 list) list \<Rightarrow> u32 list" where
  "addresses recs = map (be32 \<circ> snd) (filter (\<lambda>x. fst x = 1 \<and> length (snd x) = 4) recs)"

lemma be16_join: "push_bit 8 (ucast (ucast (drop_bit 8 w) :: u8)) OR ucast (ucast w :: u8) = (w :: u16)"
  by (subst or.commute) simp

lemma enc_rec_at:
  assumes at: "at_mem resp pos (enc_rec (t, rd))" and l: "length rd < 65536" and r: "pos + length (enc_rec (t, rd)) \<le> r"
  shows "dns_answers name resp r (Suc i) pos (c, out) = dns_answers name resp r i (pos + length (enc_rec (t, rd)))
     (if t = 1 \<and> length rd = 4 then (cache_add name (be32 rd) c, Some (be32 rd)) else (c, out))"
proof -
  define p where "p = pos + 2"
  have a: "resp pos = 0xC0" "resp p = ucast (drop_bit 8 t)" "resp (Suc p) = ucast t"
      "resp (p + 8) = ucast (drop_bit 8 (of_nat (length rd) :: u16))" "resp (p + 9) = ucast (of_nat (length rd) :: u16)"
      "at_mem resp (p + 10) rd"
    using at by (simp_all add: p_def enc_rec_def be16_def at_mem_Cons at_mem_append add.commute numeral_eq_Suc)
  have sk: "skip_name resp r pos = p" using a(1) r by (subst skip_name.simps) (simp add: enc_rec_def p_def)
  have ul: "unat (of_nat (length rd) :: u16) = length rd" using l by (simp add: unsigned_of_nat take_bit_nat_eq_self)
  have len: "length (enc_rec (t, rd)) = 12 + length rd" by (simp add: enc_rec_def be16_def)
  have eq4: "(of_nat (length rd) :: u16) = 4 \<longleftrightarrow> length rd = 4" by (subst word_unat_eq_iff, subst ul) simp
  have rd: "resp (p + (10 + i)) = rd ! i" if "i < length rd" for i using a(6) that by (simp add: at_mem_def add.assoc)
  have d: "resp (p + 10) = rd ! 0" "resp (p + 11) = rd ! 1" "resp (p + 12) = rd ! 2" "resp (p + 13) = rd ! 3" if "length rd = 4"
    using rd [of 0] rd [of 1] rd [of 2] rd [of 3] that by simp_all
  have q: "p + 10 + length rd = pos + (12 + length rd)" "pos < r" "p + 10 \<le> r" "length rd = 4 \<Longrightarrow> p + 14 \<le> r"
    using r by (simp_all add: len p_def)
  show ?thesis
    unfolding len q(1) [symmetric] using q(2-) by (auto simp: sk Let_def a(2-5) be16_join ul eq4 d be32_def)
qed

lemma dns_answers_enc:
  assumes "at_mem resp pos (concat (map enc_rec recs))" "\<forall>x \<in> set recs. length (snd x) < 65536"
    and "pos + length (concat (map enc_rec recs)) \<le> r"
  shows "dns_answers name resp r (length recs) pos (c, out)
     = (fold (cache_add name) (addresses recs) c, if addresses recs = [] then out else Some (last (addresses recs)))"
  using assms
proof (induction recs arbitrary: pos c out)
  case (Cons x recs)
  obtain t rd where x: "x = (t, rd)" by (cases x)
  let ?p = "pos + length (enc_rec (t, rd))"
  have at: "at_mem resp pos (enc_rec (t, rd))" "at_mem resp ?p (concat (map enc_rec recs))" using Cons.prems(1) by (simp_all add: x at_mem_append)
  have "dns_answers name resp r (length (x # recs)) pos (c, out) = dns_answers name resp r (length recs) ?p
     (if t = 1 \<and> length rd = 4 then (cache_add name (be32 rd) c, Some (be32 rd)) else (c, out))"
    using enc_rec_at [OF at(1), of r name "length recs" c out] Cons.prems(2,3) x by simp
  moreover have "dns_answers name resp r (length recs) ?p (c', out')
     = (fold (cache_add name) (addresses recs) c', if addresses recs = [] then out' else Some (last (addresses recs)))" for c' out'
    using Cons.prems x by (intro Cons.IH [OF at(2)]) (simp_all add: add.assoc)
  moreover have "addresses (x # recs) = (if t = 1 \<and> length rd = 4 then be32 rd # addresses recs else addresses recs)"
    by (simp add: x addresses_def)
  ultimately show ?case by (cases "t = 1 \<and> length rd = 4") simp_all
qed (simp add: addresses_def)

lemma fold_cache_add: "fold (cache_add name) ips c = c @ take (8 - length c) (map (Pair (take 63 name)) ips)"
  by (induction ips arbitrary: c) (auto simp: cache_add_def take_Cons' Suc_diff_le split: nat.split)

text \<open>
  From a reply with one question and any answer records the resolver takes the last address record with
  four bytes; it appends every such address to the cache under the first 63 bytes of the name while
  the cache has fewer than eight entries. So the address returned now and the one the cache returns next
  time differ when a name has several.
\<close>

theorem dns_reply_correct:
  assumes at: "at_mem resp 0 (h6 @ be16 (of_nat (length recs)) @ h4 @ enc_labels q @ [0] @ qt @ concat (map enc_rec recs))"
    and l: "length h6 = 6" "length h4 = 4" "length qt = 4" "\<forall>l \<in> set q. label_ok l"
      "length recs < 65536" "\<forall>x \<in> set recs. length (snd x) < 65536"
    and r: "r = 17 + length (enc_labels q) + length (concat (map enc_rec recs))"
  shows "dns_reply name resp r c = (c @ take (8 - length c) (map (Pair (take 63 name)) (addresses recs)),
     if addresses recs = [] then None else Some (last (addresses recs)))"
proof -
  let ?e = "length (enc_labels q)"
  have a: "at_mem resp 6 (be16 (of_nat (length recs)))" "at_mem resp 12 (enc_labels q @ [0])"
      "at_mem resp (17 + ?e) (concat (map enc_rec recs))"
    using at l(1-3) by (simp_all add: at_mem_append at_mem_Cons be16_def add.commute)
  have "ntohs (rd16 resp 6) = of_nat (length recs)"
  proof -
    have "rd16 resp 6 = ntohs (of_nat (length recs))"
      using a(1) by (intro bit_word_eqI) (auto simp: be16_def at_mem_Cons rd16_def ntohs_def bit_or_iff bit_ucast_iff bit_push_bit_iff bit_drop_bit_eq
          dest: bit_imp_le_length)
    then show ?thesis by simp
  qed
  then have n: "unat (ntohs (rd16 resp 6)) = length recs" using l(5) by (simp add: unsigned_of_nat take_bit_nat_eq_self)
  have "skip_name resp r 12 = 12 + ?e + 1" using r by (intro skip_name_enc [OF l(4) a(2)]) simp
  then show ?thesis
    using dns_answers_enc [OF a(3) l(6), of r name c None] r n by (simp add: dns_reply_def fold_cache_add add.commute)
qed

theorem dns_reply_correct_witness:
  "dns_reply [97] (mem_of ([9, 9, 0x81, 0x80, 0, 1] @ be16 2 @ [0, 0, 0, 0] @ [1, 97] @ [0] @ [0, 1, 0, 1]
     @ enc_rec (1, [10, 0, 0, 1]) @ enc_rec (1, [10, 0, 0, 2]))) 51 []
   = ([([97], 0x0A000001), ([97], 0x0A000002)], Some 0x0A000002)"
proof -
  let ?q = "[[97]]" and ?recs = "[(1, [10, 0, 0, 1]), (1, [10, 0, 0, 2])] :: (u16 \<times> u8 list) list"
  have "addresses ?recs = [0x0A000001, 0x0A000002]" by (simp add: addresses_def be32_def)
  moreover have "length (concat (map enc_rec ?recs)) = 32" "enc_labels ?q = [1, 97]" by (simp_all add: enc_rec_def be16_def enc_labels_def)
  ultimately show ?thesis
    using dns_reply_correct [of "mem_of ([9, 9, 0x81, 0x80, 0, 1] @ be16 2 @ [0, 0, 0, 0] @ [1, 97] @ [0] @ [0, 1, 0, 1]
        @ enc_rec (1, [10, 0, 0, 1]) @ enc_rec (1, [10, 0, 0, 2]))" "[9, 9, 0x81, 0x80, 0, 1]" ?recs "[0, 0, 0, 0]" ?q "[0, 1, 0, 1]" 51 "[97]" "[]"]
    by (simp add: label_ok_def)
qed

lemma skip_name_cong: "(\<And>i. i < r \<Longrightarrow> m i = m' i) \<Longrightarrow> skip_name m r pos = skip_name m' r pos"
proof (induction m r pos rule: skip_name.induct)
  case (1 resp r pos)
  then show ?case by (simp add: skip_name.simps [of resp r pos] skip_name.simps [of m' r pos] Let_def)
qed

lemma dns_answers_cong: "(\<And>i. i < r \<Longrightarrow> m i = m' i) \<Longrightarrow> dns_answers name m r n pos st = dns_answers name m' r n pos st"
proof (induction n arbitrary: pos st)
  case (Suc n)
  obtain c out where st: "st = (c, out)" by (cases st)
  have "skip_name m r pos = skip_name m' r pos" using Suc.prems by (rule skip_name_cong)
  then show ?case using Suc by (simp add: st Let_def)
next
  case 0
  show ?case by (cases st) simp
qed

text \<open>
  The reader of replies never reads past the bytes received: whatever the reply contains, its result depends
  only on the first \<open>r\<close> bytes of the buffer.
\<close>

theorem dns_reply_bounded:
  assumes "12 \<le> r" "\<And>i. i < r \<Longrightarrow> resp i = resp' i"
  shows "dns_reply name resp r c = dns_reply name resp' r c"
proof -
  have "skip_name resp r 12 = skip_name resp' r 12" using assms(2) by (rule skip_name_cong)
  moreover have "rd16 resp 6 = rd16 resp' 6" using assms by (simp add: rd16_def)
  moreover note dns_answers_cong [of r resp resp', OF assms(2)]
  ultimately show ?thesis by (simp add: dns_reply_def)
qed

theorem dns_reply_bounded_witness:
  "dns_reply [97] (\<lambda>i. if i < 13 then 200 else 0) 13 [] = dns_reply [97] (\<lambda>i. if i < 13 then 200 else 7) 13 []"
  by (rule dns_reply_bounded) simp_all

end
