(* ===== verification/Unix_Socket.thy ===== *)
theory Unix_Socket
  imports Task Ring
begin

text \<open>
  Local sockets, \<^verbatim>\<open>net/socket.c\<close>: a ring of 4096 bytes per socket, a registry of bound names, and a pair of
  peers. A write goes to the peer's ring, a read comes from the socket's own. Descriptors are those of
  \<open>Task\<close>; the node of a socket has the flag of a pipe. Sockets live in a store; an address that holds no
  socket is \<open>None\<close>. A path is the list of its bytes before the terminating zero.
\<close>

record usock =
  sbound :: bool
  spath :: "u8 list"
  sbuffer :: "u8 list"
  shead :: nat
  stail :: nat
  speer :: nat

record unix =
  sockets :: "nat list"
  socks :: "nat \<Rightarrow> usock option"

abbreviation (input) SOCK_BUF_SIZE :: nat where "SOCK_BUF_SIZE \<equiv> 4096"
abbreviation (input) EBADF :: int where "EBADF \<equiv> 9"
abbreviation (input) ENOSYS :: int where "ENOSYS \<equiv> 38"
abbreviation (input) EAFNOSUPPORT :: int where "EAFNOSUPPORT \<equiv> 97"
abbreviation (input) EISCONN :: int where "EISCONN \<equiv> 106"

definition socket_init :: "unix \<Rightarrow> unix" where
  "socket_init s = s\<lparr>sockets := replicate 128 0\<rparr>"

definition set_sock :: "nat \<Rightarrow> usock \<Rightarrow> unix \<Rightarrow> unix" where
  "set_sock p x s = s\<lparr>socks := (socks s)(p \<mapsto> x)\<rparr>"

section \<open>Reading and writing\<close>

fun socket_read_loop :: "nat \<Rightarrow> usock \<Rightarrow> u8 list \<times> usock" where
  "socket_read_loop 0 x = ([], x)"
| "socket_read_loop (Suc n) x =
     (if shead x \<noteq> stail x
      then map_prod (Cons (sbuffer x ! stail x)) id (socket_read_loop n (x\<lparr>stail := (stail x + 1) mod SOCK_BUF_SIZE\<rparr>))
      else ([], x))"

fun socket_write_loop :: "u8 list \<Rightarrow> usock \<Rightarrow> nat \<times> usock" where
  "socket_write_loop [] x = (0, x)"
| "socket_write_loop (c # cs) x =
     (if (shead x + 1) mod SOCK_BUF_SIZE \<noteq> stail x
      then map_prod Suc id (socket_write_loop cs (x\<lparr>sbuffer := (sbuffer x)[shead x := c], shead := (shead x + 1) mod SOCK_BUF_SIZE\<rparr>))
      else (0, x))"

text \<open>The node's \<^verbatim>\<open>impl\<close> is the socket's address \<open>p\<close>.\<close>

definition socket_read :: "nat \<Rightarrow> nat \<Rightarrow> unix \<Rightarrow> (u8 list \<times> unix) option" where
  "socket_read p n s =
     (if p = 0 then Some ([], s)
      else case socks s p of None \<Rightarrow> None
      | Some x \<Rightarrow> let (bs, x') = socket_read_loop n x in Some (bs, set_sock p x' s))"

definition socket_write :: "nat \<Rightarrow> u8 list \<Rightarrow> unix \<Rightarrow> (nat \<times> unix) option" where
  "socket_write p bs s =
     (if p = 0 then Some (0, s)
      else case socks s p of None \<Rightarrow> None
      | Some x \<Rightarrow> if speer x = 0 then Some (0, s)
        else case socks s (speer x) of None \<Rightarrow> None
        | Some y \<Rightarrow> let (n, y') = socket_write_loop bs y in Some (n, set_sock (speer x) y' s))"

section \<open>The socket calls\<close>

text \<open>
  The three allocations give the addresses \<open>p\<close> (socket), \<open>n\<close> (node) and \<open>f\<close> (file), \<open>0\<close> when one fails. The file starts with
  one reference and \<^verbatim>\<open>process_fd_install\<close> adds another.
\<close>

definition sb_socket_create :: "int \<Rightarrow> nat \<Rightarrow> nat \<Rightarrow> nat \<Rightarrow> unix \<Rightarrow> kernel \<Rightarrow> int \<times> unix \<times> kernel" where
  "sb_socket_create domain p n f s k =
     (if domain \<noteq> 1 then (- EAFNOSUPPORT, s, k)
      else if p = 0 then (- ENOMEM, s, k)
      else if n = 0 then (- ENOMEM, s, k)
      else if f = 0 then (- ENOMEM, s, k)
      else let s1 = set_sock p \<lparr>sbound = False, spath = [], sbuffer = replicate 4096 0, shead = 0, stail = 0, speer = 0\<rparr> s;
               k1 = k\<lparr>nodes := (nodes k)(n := \<lparr>nflags = 5, impl = p, has_close = False\<rparr>), freed_nodes := freed_nodes k - {n},
                      files := (files k)(f := \<lparr>node = n, foffset = 0, fflags = 0, refcount = 1\<rparr>), freed_files := freed_files k - {f}\<rparr>;
               (r, k2) = process_fd_install (current_proc k1) f k1
           in (r, s1, k2))"

text \<open>\<^verbatim>\<open>!f || !f->node || f->node->flags != FS_PIPE\<close>, and the address of the socket.\<close>

definition fd_sock :: "int \<Rightarrow> kernel \<Rightarrow> nat option" where
  "fd_sock fd k =
     (let f = process_fd_get (current_proc k) fd k; n = node (files k f)
      in if f = 0 \<or> n = 0 \<or> nflags (nodes k n) \<noteq> 5 then None else Some (impl (nodes k n)))"

fun register_sock :: "nat \<Rightarrow> nat list \<Rightarrow> nat list" where
  "register_sock p [] = []"
| "register_sock p (q # qs) = (if q = 0 then p # qs else q # register_sock p qs)"

definition sb_socket_bind :: "int \<Rightarrow> u8 list \<Rightarrow> unix \<Rightarrow> kernel \<Rightarrow> (int \<times> unix) option" where
  "sb_socket_bind fd path s k = (case fd_sock fd k of None \<Rightarrow> Some (- EBADF, s)
     | Some p \<Rightarrow> (case socks s p of None \<Rightarrow> None
        | Some x \<Rightarrow> if sbound x then Some (- EINVAL, s)
          else if length path \<ge> 128 then None
          else let s1 = set_sock p (x\<lparr>spath := path, sbound := True\<rparr>) s
               in Some (0, s1\<lparr>sockets := register_sock p (sockets s1)\<rparr>)))"

definition sb_socket_listen :: "int \<Rightarrow> int \<Rightarrow> int" where
  "sb_socket_listen fd backlog = 0"

definition sb_socket_accept :: "int \<Rightarrow> int" where
  "sb_socket_accept fd = - ENOSYS"

fun find_bound :: "u8 list \<Rightarrow> nat list \<Rightarrow> unix \<Rightarrow> nat option" where
  "find_bound path [] s = Some 0"
| "find_bound path (q # qs) s =
     (if q = 0 then find_bound path qs s
      else case socks s q of None \<Rightarrow> None
      | Some x \<Rightarrow> if sbound x \<and> spath x = path then Some q else find_bound path qs s)"

definition sb_socket_connect :: "int \<Rightarrow> u8 list \<Rightarrow> unix \<Rightarrow> kernel \<Rightarrow> (int \<times> unix) option" where
  "sb_socket_connect fd path s k = (case fd_sock fd k of None \<Rightarrow> Some (- EBADF, s)
     | Some p \<Rightarrow> (case socks s p of None \<Rightarrow> None
        | Some x \<Rightarrow> if speer x \<noteq> 0 then Some (- EISCONN, s)
          else case find_bound path (sockets s) s of None \<Rightarrow> None
          | Some t \<Rightarrow> if t = 0 then Some (- ENOENT, s)
            else let s1 = set_sock p (x\<lparr>speer := t\<rparr>) s
                 in case socks s1 t of None \<Rightarrow> None
                    | Some y \<Rightarrow> Some (0, if speer y = 0 then set_sock t (y\<lparr>speer := p\<rparr>) s1 else s1)))"

section \<open>A socket's ring is a bounded queue\<close>

definition sock_bytes :: "usock \<Rightarrow> u8 list" where
  "sock_bytes x = ring_list (sbuffer x) (shead x) (stail x)"

definition sock_ok :: "usock \<Rightarrow> bool" where
  "sock_ok x \<longleftrightarrow> ring_ok 4096 (sbuffer x) (shead x) (stail x)"

text \<open>The ring is well formed, and the other fields are those of \<open>r\<close>.\<close>

definition sock_inv :: "usock \<Rightarrow> usock \<Rightarrow> bool" where
  "sock_inv r x \<longleftrightarrow> sock_ok x \<and> x = r\<lparr>sbuffer := sbuffer x, shead := shead x, stail := stail x\<rparr>"

definition sock_put :: "u8 \<Rightarrow> usock \<Rightarrow> usock option" where
  "sock_put c x = (let (n, x') = socket_write_loop [c] x in if n = 0 then None else Some x')"

definition sock_get :: "usock \<Rightarrow> (u8 \<times> usock) option" where
  "sock_get x = (case socket_read_loop 1 x of ([], x') \<Rightarrow> None | (c # cs, x') \<Rightarrow> Some (c, x'))"

lemma sock_put_simp:
  "sock_put c x = (if (shead x + 1) mod 4096 \<noteq> stail x
     then Some (x\<lparr>sbuffer := (sbuffer x)[shead x := c], shead := (shead x + 1) mod 4096\<rparr>) else None)"
  by (simp add: sock_put_def)

lemma sock_get_simp:
  "sock_get x = (if shead x \<noteq> stail x then Some (sbuffer x ! stail x, x\<lparr>stail := (stail x + 1) mod 4096\<rparr>) else None)"
  by (simp add: sock_get_def)

interpretation us: fifo_stream "sock_inv r" sock_bytes 4095 sock_put sock_get socket_write_loop socket_read_loop
proof
  fix x :: usock and c
  assume "sock_inv r x"
  then have ok: "ring_ok 4096 (sbuffer x) (shead x) (stail x)" and e: "x = r\<lparr>sbuffer := sbuffer x, shead := shead x, stail := stail x\<rparr>"
    by (auto simp: sock_inv_def sock_ok_def)
  have keep: "x\<lparr>sbuffer := b, shead := h, stail := t\<rparr> = r\<lparr>sbuffer := b, shead := h, stail := t\<rparr>" for b h t by (subst e) simp
  show "length (sock_bytes x) \<le> 4095" using ring_list_bound [OF ok] by (simp add: sock_bytes_def)
  show "sock_put c x = None" if "length (sock_bytes x) = 4095"
    using ring_full_iff [OF ok] that by (simp add: sock_put_simp sock_bytes_def)
  show "\<exists>s'. sock_put c x = Some s' \<and> sock_inv r s' \<and> sock_bytes s' = sock_bytes x @ [c]" if "length (sock_bytes x) < 4095"
    using ring_full_iff [OF ok] ring_list_put [OF ok, of c] ring_ok_put [OF ok, of c] that
      keep [of "stail x" "(shead x + 1) mod 4096" "(sbuffer x)[shead x := c]"]
    by (auto simp: sock_put_simp sock_bytes_def sock_inv_def sock_ok_def simp del: One_nat_def)
  show "sock_get x = None" if "sock_bytes x = []"
    using ring_empty_iff [OF ok] that by (simp add: sock_get_simp sock_bytes_def)
  show "\<exists>s'. sock_get x = Some (c, s') \<and> sock_inv r s' \<and> sock_bytes s' = xs" if "sock_bytes x = c # xs" for xs
    using ring_empty_iff [OF ok] ring_list_get [OF ok] ring_ok_get [OF ok] that keep [of "(stail x + 1) mod 4096" "shead x" "sbuffer x"]
    by (auto simp: sock_get_simp sock_bytes_def sock_inv_def sock_ok_def simp del: One_nat_def)
qed (simp_all add: sock_put_simp sock_get_simp Let_def)

lemma sock_inv_refl: "sock_ok x \<Longrightarrow> sock_inv x x"
  by (simp add: sock_inv_def)

lemma socket_write_spec:
  assumes "p \<noteq> 0" "socks s p = Some x" "speer x = q" "q \<noteq> 0" "socks s q = Some y" "sock_ok y"
  shows "\<exists>y'. socket_write p bs s = Some (min (length bs) (4095 - length (sock_bytes y)), set_sock q y' s) \<and> sock_inv y y'
    \<and> sock_bytes y' = sock_bytes y @ take (4095 - length (sock_bytes y)) bs"
  using us.put_all_spec [OF sock_inv_refl [OF assms(6)], of bs] assms by (auto simp: socket_write_def)

lemma socket_read_spec:
  assumes "p \<noteq> 0" "socks s p = Some x" "sock_ok x"
  shows "\<exists>x'. socket_read p n s = Some (take n (sock_bytes x), set_sock p x' s) \<and> sock_inv x x' \<and> sock_bytes x' = drop n (sock_bytes x)"
  using us.get_upto_spec [OF sock_inv_refl [OF assms(3)], of n] assms by (auto simp: socket_read_def)

section \<open>Connecting\<close>

definition registry_ok :: "unix \<Rightarrow> bool" where
  "registry_ok s \<longleftrightarrow> (\<forall>q \<in> set (sockets s). q \<noteq> 0 \<longrightarrow> socks s q \<noteq> None)"

lemma find_bound_register:
  assumes "\<forall>q \<in> set qs. q \<noteq> 0 \<longrightarrow> (\<exists>z. socks s q = Some z \<and> \<not> (sbound z \<and> spath z = path))"
    and "0 \<in> set qs" "p \<noteq> 0" "socks s p = Some x" "sbound x" "spath x = path"
  shows "find_bound path (register_sock p qs) s = Some p"
  using assms by (induction qs) auto

text \<open>
  C22. A socket bound to a free name is found by the next connect to that name: the two become each other's
  peers, and then each carries a byte stream to the other. What one writes, up to the free space of the
  other's 4095 byte queue, the other reads in order after what was queued before.
\<close>

theorem socket_connect_stream:
  assumes fd: "fd_sock fa k = Some a" "fd_sock fb k = Some b" and ab: "a \<noteq> b" "a \<noteq> 0" "b \<noteq> 0"
    and x: "socks s a = Some x" "sock_ok x" "\<not> sbound x" "speer x = 0" and y: "socks s b = Some y" "sock_ok y" "speer y = 0"
    and reg: "registry_ok s" "0 \<in> set (sockets s)" "a \<notin> set (sockets s)"
    and free: "\<forall>q z. socks s q = Some z \<and> sbound z \<longrightarrow> spath z \<noteq> path" and len: "length path < 128"
  shows "\<exists>s1 s2. sb_socket_bind fa path s k = Some (0, s1) \<and> sb_socket_connect fb path s1 k = Some (0, s2)
    \<and> (\<exists>s3 s4. socket_write b bs s2 = Some (min (length bs) (4095 - length (sock_bytes x)), s3)
         \<and> socket_read a n s3 = Some (take n (sock_bytes x @ take (4095 - length (sock_bytes x)) bs), s4))
    \<and> (\<exists>s3 s4. socket_write a bs s2 = Some (min (length bs) (4095 - length (sock_bytes y)), s3)
         \<and> socket_read b n s3 = Some (take n (sock_bytes y @ take (4095 - length (sock_bytes y)) bs), s4))"
proof -
  let ?x = "x\<lparr>spath := path, sbound := True\<rparr>"
  let ?s1 = "(set_sock a ?x s)\<lparr>sockets := register_sock a (sockets s)\<rparr>"
  let ?s2 = "set_sock a (?x\<lparr>speer := b\<rparr>) (set_sock b (y\<lparr>speer := a\<rparr>) ?s1)"
  have 1: "sb_socket_bind fa path s k = Some (0, ?s1)" using fd x len by (simp add: sb_socket_bind_def Let_def set_sock_def)
  have z: "\<exists>z. socks ?s1 q = Some z \<and> \<not> (sbound z \<and> spath z = path)" if "q \<in> set (sockets s)" "q \<noteq> 0" for q
    using that reg free by (auto simp: registry_ok_def set_sock_def)
  have "find_bound path (sockets ?s1) ?s1 = Some a"
    using find_bound_register [of "sockets s" ?s1 path a ?x] z reg(2) ab by (simp add: set_sock_def)
  then have 2: "sb_socket_connect fb path ?s1 k = Some (0, ?s2)"
    using fd x y ab by (simp add: sb_socket_connect_def Let_def set_sock_def)
  have sx: "socks ?s2 a = Some (?x\<lparr>speer := b\<rparr>)" "socks ?s2 b = Some (y\<lparr>speer := a\<rparr>)" using ab by (simp_all add: set_sock_def)
  have ok: "sock_ok (?x\<lparr>speer := b\<rparr>)" "sock_ok (y\<lparr>speer := a\<rparr>)" "sock_bytes (?x\<lparr>speer := b\<rparr>) = sock_bytes x" "sock_bytes (y\<lparr>speer := a\<rparr>) = sock_bytes y"
    using x y by (simp_all add: sock_ok_def sock_bytes_def)
  have "\<exists>s3 s4. socket_write b bs ?s2 = Some (min (length bs) (4095 - length (sock_bytes x)), s3)
         \<and> socket_read a n s3 = Some (take n (sock_bytes x @ take (4095 - length (sock_bytes x)) bs), s4)"
  proof -
    obtain x' where x': "socket_write b bs ?s2 = Some (min (length bs) (4095 - length (sock_bytes x)), set_sock a x' ?s2)" "sock_ok x'"
        "sock_bytes x' = sock_bytes x @ take (4095 - length (sock_bytes x)) bs"
      using socket_write_spec [OF ab(3) sx(2) _ ab(2) sx(1) ok(1), of bs] ok by (auto simp: sock_inv_def)
    then show ?thesis using socket_read_spec [OF ab(2), of "set_sock a x' ?s2" x' n] by (auto simp: set_sock_def)
  qed
  moreover have "\<exists>s3 s4. socket_write a bs ?s2 = Some (min (length bs) (4095 - length (sock_bytes y)), s3)
         \<and> socket_read b n s3 = Some (take n (sock_bytes y @ take (4095 - length (sock_bytes y)) bs), s4)"
  proof -
    obtain y' where y': "socket_write a bs ?s2 = Some (min (length bs) (4095 - length (sock_bytes y)), set_sock b y' ?s2)" "sock_ok y'"
        "sock_bytes y' = sock_bytes y @ take (4095 - length (sock_bytes y)) bs"
      using socket_write_spec [OF ab(2) sx(1) _ ab(3) sx(2) ok(2), of bs] ok by (auto simp: sock_inv_def)
    then show ?thesis using socket_read_spec [OF ab(3), of "set_sock b y' ?s2" y' n] by (auto simp: set_sock_def)
  qed
  ultimately show ?thesis using 1 2 by blast
qed

text \<open>Two fresh sockets on descriptors 0 and 1 of the process at address 1.\<close>

theorem socket_connect_stream_witness:
  "\<exists>s k s1 s2 s3 s4. sb_socket_bind 0 [47, 97] s k = Some (0, s1) \<and> sb_socket_connect 1 [47, 97] s1 k = Some (0, s2)
     \<and> socket_write 3 [7, 8] s2 = Some (2, s3) \<and> socket_read 2 9 s3 = Some ([7, 8], s4)"
proof -
  define b where "b = (replicate 4096 0 :: u8 list)"
  define x where "x = \<lparr>sbound = False, spath = [], sbuffer = b, shead = 0, stail = 0, speer = 0\<rparr>"
  define s where "s = \<lparr>sockets = replicate 128 0, socks = [2 \<mapsto> x, 3 \<mapsto> x]\<rparr>"
  obtain k0 :: kernel where True by simp
  define k where "k = k0\<lparr>current_proc := 1, tasks := (\<lambda>_. zero_task\<lparr>fds := [5, 6]\<rparr>),
     files := (\<lambda>f. \<lparr>node = f + 2, foffset = 0, fflags = 0, refcount = 2\<rparr>), nodes := (\<lambda>n. \<lparr>nflags = 5, impl = n - 5, has_close = False\<rparr>)\<rparr>"
  have b: "length b = 4096" unfolding b_def by (rule length_replicate)
  have x: "sock_ok x" "sock_bytes x = []" "\<not> sbound x" "speer x = 0" using b by (simp_all add: x_def sock_ok_def ring_ok_def sock_bytes_def ring_list_def)
  have fd: "fd_sock 0 k = Some 2" "fd_sock 1 k = Some 3" by (simp_all add: fd_sock_def process_fd_get_def k_def Let_def)
  have reg: "registry_ok s" "0 \<in> set (sockets s)" "2 \<notin> set (sockets s)" by (simp_all add: s_def registry_ok_def)
  have sx: "socks s 2 = Some x" "socks s 3 = Some x" by (simp_all add: s_def)
  have free: "\<forall>q z. socks s q = Some z \<and> sbound z \<longrightarrow> spath z \<noteq> [47, 97]" using x(3) by (simp add: s_def)
  have len: "length [47, 97 :: u8] < 128" by simp
  show ?thesis
    using socket_connect_stream [OF fd _ _ _ sx(1) x(1,3,4) sx(2) x(1,4) reg free len, of "[7, 8]" 9] x(2)
    by (simp flip: numeral_2_eq_2) blast
qed

text \<open>
  A socket's open file keeps a reference for ever: it starts with one and installing the descriptor adds one, so
  closing the only descriptor leaves the count at one and frees neither the file nor the socket.
\<close>

theorem socket_close_leaks:
  assumes "p \<noteq> 0" "n \<noteq> 0" "f \<noteq> 0" "first_free (fds (tasks k (current_proc k))) 0 = Some i" "i < MAX_FDS" "length (fds (tasks k (current_proc k))) = MAX_FDS"
  shows "\<exists>s' k'. sb_socket_create 1 p n f s k = (int i, s', k')
    \<and> (let k2 = process_fd_close (current_proc k') (int i) k'
       in refcount (files k2 f) = 1 \<and> f \<notin> freed_files k2 \<and> process_fd_get (current_proc k') (int i) k2 = 0)"
  using assms
  by (auto simp: sb_socket_create_def Let_def process_fd_install_def upd_task_def upd_file_def process_fd_close_def process_fd_get_def)

theorem socket_close_leaks_witness:
  "\<exists>s k s' k'. sb_socket_create 1 2 3 4 s k = (0, s', k') \<and> refcount (files (process_fd_close (current_proc k') 0 k') 4) = 1"
proof -
  obtain k0 :: kernel where True by simp
  define k where "k = k0\<lparr>current_proc := 1, tasks := (\<lambda>_. zero_task\<lparr>fds := 0 # replicate 255 0\<rparr>)\<rparr>"
  have "fds (tasks k (current_proc k)) = 0 # replicate 255 0" by (simp add: k_def)
  then have "length (fds (tasks k (current_proc k))) = MAX_FDS" "first_free (fds (tasks k (current_proc k))) 0 = Some 0"
    by (simp_all)
  then show ?thesis using socket_close_leaks [of 2 3 4 k 0 undefined] by (fastforce simp: Let_def)
qed

end
