(* ===== verification/Sys_Base.thy ===== *)
theory Sys_Base
  imports Kstring Unix_Socket
begin

text \<open>
  What the system calls of \<^verbatim>\<open>kernel/syscall.c\<close> share: error results, the range check of user
  pointers, the paths they copy from user memory, and words stored in user memory.

  A system call answers a 64-bit word; \<^verbatim>\<open>-Exxx\<close> is its two's complement. User memory is the byte
  memory of \<open>Kstring\<close>, the address space of the current process; a page of it that is not mapped is
  outside the model.
\<close>

abbreviation (input) ENOTDIR :: int where "ENOTDIR \<equiv> 20"
abbreviation (input) ENOTTY :: int where "ENOTTY \<equiv> 25"

definition err :: "int \<Rightarrow> u64" where
  "err e = word_of_int (- e)"

definition is_user_range :: "u64 \<Rightarrow> u64 \<Rightarrow> bool" where
  "is_user_range addr n \<longleftrightarrow> validate_user_ptr \<lparr>ptr = addr, len = n\<rparr> 0 = 0"

text \<open>A descriptor argument, narrowed to \<^verbatim>\<open>int\<close> by the callee.\<close>

definition fd_arg :: "u64 \<Rightarrow> int" where
  "fd_arg fd = sint (ucast fd :: u32)"

text \<open>The copy of a path into \<^verbatim>\<open>char name[128]\<close>: up to the NUL, at most 127 characters.\<close>

fun user_path :: "mem \<Rightarrow> nat \<Rightarrow> nat \<Rightarrow> string" where
  "user_path m a 0 = []"
| "user_path m a (Suc n) = (if m a = 0 then [] else char_of (unat (m a)) # user_path m (a + 1) n)"

definition path_arg :: "mem \<Rightarrow> u64 \<Rightarrow> string" where
  "path_arg m a = user_path m (unat a) 127"

text \<open>Bytes, and little-endian words of 4 and 8 bytes, at an address.\<close>

definition store :: "mem \<Rightarrow> nat \<Rightarrow> u8 list \<Rightarrow> mem" where
  "store m a bs = (\<lambda>x. if a \<le> x \<and> x < a + length bs then bs ! (x - a) else m x)"

definition load :: "mem \<Rightarrow> nat \<Rightarrow> nat \<Rightarrow> u8 list" where
  "load m a n = map (\<lambda>i. m (a + i)) [0..<n]"

definition mem32 :: "u32 \<Rightarrow> u8 list" where
  "mem32 w = map (\<lambda>i. ucast (drop_bit (8 * i) w)) [0..<4]"

definition mem64 :: "u64 \<Rightarrow> u8 list" where
  "mem64 w = map (\<lambda>i. ucast (drop_bit (8 * i) w)) [0..<8]"

definition load64 :: "mem \<Rightarrow> nat \<Rightarrow> u64" where
  "load64 m a = foldr (\<lambda>i w. push_bit (8 * i) (ucast (m (a + i))) OR w) [0..<8] 0"

section \<open>Lemmas\<close>

lemma length_mem [simp]: "length (mem32 v) = 4" "length (mem64 w) = 8"
  by (simp_all add: mem32_def mem64_def)

lemma length_load [simp]: "length (load m a n) = n"
  by (simp add: load_def)

lemma load_store [simp]: "load (store m a bs) a (length bs) = bs"
  by (rule nth_equalityI) (simp_all add: load_def store_def)

lemma store_nth: "i < length bs \<Longrightarrow> store m a bs (a + i) = bs ! i"
  by (simp add: store_def)

lemma bit_foldr_or: "bit (foldr (\<lambda>i w. f i OR w) xs (0 :: u64)) n \<longleftrightarrow> (\<exists>i \<in> set xs. bit (f i) n)"
  by (induction xs) (auto simp: bit_or_iff)

lemma load64_mem64 [simp]: "load64 (store m a (mem64 w)) a = w"
proof (rule bit_word_eqI)
  fix n assume n: "n < LENGTH(64)"
  have b: "bit (push_bit (8 * i) (ucast (store m a (mem64 w) (a + i)) :: u64)) n \<longleftrightarrow> n div 8 = i \<and> bit w n" if "i < 8" for i
  proof -
    have "store m a (mem64 w) (a + i) = ucast (drop_bit (8 * i) w)"
      using store_nth [of i "mem64 w" m a] that by (simp add: mem64_def)
    then have "bit (push_bit (8 * i) (ucast (store m a (mem64 w) (a + i)) :: u64)) n \<longleftrightarrow> 8 * i \<le> n \<and> n - 8 * i < 8 \<and> bit w n"
      using n by (auto simp: bit_push_bit_iff bit_ucast_iff bit_drop_bit_eq)
    also have "\<dots> \<longleftrightarrow> n div 8 = i \<and> bit w n" by auto
    finally show ?thesis .
  qed
  have "bit (load64 (store m a (mem64 w)) a) n \<longleftrightarrow> (\<exists>i \<in> {0..<8}. n div 8 = i \<and> bit w n)"
    using b by (simp add: load64_def bit_foldr_or)
  then show "bit (load64 (store m a (mem64 w)) a) n \<longleftrightarrow> bit w n" using n by auto
qed

lemma store_outside: "x < a \<or> a + length bs \<le> x \<Longrightarrow> store m a bs x = m x"
  by (auto simp: store_def)

lemma err_eq: "err e = word_of_int (- e)"
  by (simp add: err_def)

lemma fd_arg_small: "unat fd < 2 ^ 31 \<Longrightarrow> fd_arg fd = int (unat fd)"
proof -
  assume a: "unat fd < 2 ^ 31"
  have *: "signed_take_bit 31 (take_bit 32 (int n)) = int n" if "n < 2 ^ 31" for n
  proof -
    have n: "int n < 2147483648" using that by simp
    then have "take_bit 32 (int n) = int n" by (intro take_bit_int_eq_self) simp_all
    moreover have "signed_take_bit 31 (int n) = int n" using n by (intro signed_take_bit_int_eq_self) simp_all
    ultimately show ?thesis by simp
  qed
  show ?thesis using * [OF a] by (simp add: fd_arg_def sint_uint unsigned_ucast_eq)
qed

text \<open>A range that passes the check lies below the end of user space and does not wrap.\<close>

lemma mod_range: "A < W \<Longrightarrow> N < W \<Longrightarrow> L < W \<Longrightarrow>
    \<not> (A + N) mod W < A \<and> \<not> L < (A + N) mod W \<longleftrightarrow> A + N \<le> L" for A N L W :: nat
proof (cases "A + N < W")
  case False
  assume "A < W" "N < W" "L < W"
  then have "(A + N) mod W = A + N - W" using False by (simp add: le_mod_geq)
  then show ?thesis using False \<open>N < W\<close> \<open>L < W\<close> by linarith
qed auto

lemma is_user_range_bound: "is_user_range a n \<longleftrightarrow> unat a + unat n \<le> unat USER_SPACE_END"
proof -
  have "is_user_range a n \<longleftrightarrow> \<not> unat (a + n) < unat a \<and> \<not> unat USER_SPACE_END < unat (a + n)"
    unfolding is_user_range_def validate_user_ptr_def Let_def word_less_nat_alt by simp
  also have "\<dots> \<longleftrightarrow> unat a + unat n \<le> unat USER_SPACE_END"
    unfolding unat_word_ariths(1) by (rule mod_range) (rule unsigned_less)+
  finally show ?thesis .
qed

lemma user_path_length: "length (user_path m a n) \<le> n"
  by (induction m a n rule: user_path.induct) auto

lemma path_arg_length: "length (path_arg m a) \<le> 127"
  unfolding path_arg_def by (rule user_path_length)

end
