(* ===== verification/Sys_Mem.thy ===== *)
theory Sys_Mem
  imports Vmm Sys_Base
begin

text \<open>
  The memory system calls of \<^verbatim>\<open>kernel/syscall.c\<close>: \<^verbatim>\<open>mmap\<close>, \<^verbatim>\<open>mprotect\<close>, \<^verbatim>\<open>munmap\<close>, \<^verbatim>\<open>brk\<close> and the
  mapping of the frame buffer, over the page tables of \<open>Vmm\<close>. Each of them loads the caller's \<^verbatim>\<open>cr3\<close>,
  works, and loads the old value again. A loop over the pages of a rounded size is a fold over the
  page numbers; the loop of \<^verbatim>\<open>brk\<close> compares addresses and may wrap, so it is a partial function.
\<close>

section \<open>Operations\<close>

definition round_up :: "u64 \<Rightarrow> u64" where
  "round_up n = (n + 4096 - 1) AND NOT 0xFFF"

definition page_list :: "u64 \<Rightarrow> u64 \<Rightarrow> u64 list" where
  "page_list start n = map (\<lambda>i. start + of_nat i * 4096) [0..<unat n div 4096]"

definition mmap_flags :: "u64 \<Rightarrow> u32" where
  "mmap_flags prot = (if prot AND 2 \<noteq> 0 then (4 OR 0x200) OR 2 else 4 OR 0x200)"

definition sys_mmap :: "u64 \<Rightarrow> u64 \<Rightarrow> u64 \<Rightarrow> task \<Rightarrow> vmm \<Rightarrow> (u64 \<times> vmm) option" where
  "sys_mmap addr length' prot t s =
     (if length' = 0 then Some (err EINVAL, s)
      else do {
        let page_start = (if addr = 0 then 0x70000000 else addr AND NOT 0xFFF);
        s1 \<leftarrow> ofold (\<lambda>v. vmm_map_page 0 v (mmap_flags prot)) (page_list page_start (round_up length')) (s\<lparr>vcr3 := cr3 t\<rparr>);
        Some (page_start, s1\<lparr>vcr3 := vcr3 s\<rparr>)
      })"

text \<open>The bits that \<^verbatim>\<open>mprotect\<close> sets and clears, with and without \<^verbatim>\<open>PROT_WRITE\<close>.\<close>

definition set_flags :: "bool \<Rightarrow> u32" where
  "set_flags w = (if w then (1 OR 4) OR 2 else 1 OR 4)"

definition clear_flags :: "bool \<Rightarrow> u32" where
  "clear_flags w = (if w then 0 else 2)"

text \<open>Whether every page was changed; the loop stops at the first that is not mapped.\<close>

fun mprotect_loop :: "u32 \<Rightarrow> u32 \<Rightarrow> u64 list \<Rightarrow> vmm \<Rightarrow> bool \<times> vmm" where
  "mprotect_loop st cl [] s = (True, s)"
| "mprotect_loop st cl (v # vs) s =
     (let (r, s1) = vmm_set_page_flags v st cl s in if r < 0 then (False, s1) else mprotect_loop st cl vs s1)"

definition sys_mprotect :: "u64 \<Rightarrow> u64 \<Rightarrow> u64 \<Rightarrow> task \<Rightarrow> vmm \<Rightarrow> u64 \<times> vmm" where
  "sys_mprotect addr n prot t s =
     (if addr AND 0xFFF \<noteq> 0 then (err EINVAL, s)
      else if n = 0 then (err EINVAL, s)
      else let w = (prot AND 2 \<noteq> 0);
               (ok, s1) = mprotect_loop (set_flags w) (clear_flags w) (page_list addr (round_up n)) (s\<lparr>vcr3 := cr3 t\<rparr>)
           in (if ok then 0 else err ENOMEM, s1\<lparr>vcr3 := vcr3 s\<rparr>))"

definition sys_munmap :: "u64 \<Rightarrow> u64 \<Rightarrow> task \<Rightarrow> vmm \<Rightarrow> u64 \<times> vmm" where
  "sys_munmap addr length' t s =
     (if addr AND 0xFFF \<noteq> 0 then (err EINVAL, s)
      else if length' = 0 then (err EINVAL, s)
      else (0, (fold vmm_unmap_page (page_list addr (round_up length')) (s\<lparr>vcr3 := cr3 t\<rparr>))\<lparr>vcr3 := vcr3 s\<rparr>))"

text \<open>
  The loop of \<^verbatim>\<open>sys_brk\<close>: allocate, map, and clear the page through the kernel's view of physical
  memory. The first component is the address at which no frame was left.
\<close>

partial_function (option) brk_loop :: "u64 \<Rightarrow> u64 \<Rightarrow> vmm \<Rightarrow> (u64 option \<times> vmm) option" where
  "brk_loop a map_limit s =
     (if a < map_limit then
        (let (p, pm) = pmm_alloc_page (vpmm s); s1 = s\<lparr>vpmm := pm\<rparr>
         in if p = 0 then Some (Some a, s1)
            else Option.bind (vmm_map_page p a 7 s1)
                   (\<lambda>s2. brk_loop (a + 4096) map_limit (fill_page p (\<lambda>_. 0) s2)))
      else Some (None, s))"

definition sys_brk :: "u64 \<Rightarrow> task \<Rightarrow> vmm \<Rightarrow> (u64 \<times> task \<times> vmm) option" where
  "sys_brk brk t s =
     (let brk_page = round_up brk
      in if brk = 0 then Some (brk_end t, t, s)
         else if brk_page \<le> brk_end t then Some (brk, t\<lparr>brk_end := brk_page\<rparr>, s)
         else do {
           (stopped, s1) \<leftarrow> brk_loop (brk_end t) (brk_page + 4096) (s\<lparr>vcr3 := cr3 t\<rparr>);
           let s2 = s1\<lparr>vcr3 := vcr3 s\<rparr>;
           Some (case stopped of Some a \<Rightarrow> (a, t\<lparr>brk_end := a\<rparr>, s2) | None \<Rightarrow> (brk, t\<lparr>brk_end := brk_page\<rparr>, s2))
         })"

text \<open>The frame buffer driver gives the address, the height and the pitch.\<close>

definition sys_fb_mmap :: "u64 \<Rightarrow> u32 \<Rightarrow> u32 \<Rightarrow> task \<Rightarrow> vmm \<Rightarrow> (u64 \<times> vmm) option" where
  "sys_fb_mmap fb_phys height pitch t s =
     (if fb_phys = 0 then Some (err ENODEV, s)
      else do {
        let fb_size = ucast height * ucast pitch;
        let page_end = round_up (0x78000000 + fb_size);
        s1 \<leftarrow> ofold (\<lambda>i. vmm_map_page (fb_phys + of_nat i * 4096) (0x78000000 + of_nat i * 4096) 7)
               [0..<unat (page_end - 0x78000000) div 4096] (s\<lparr>vcr3 := cr3 t\<rparr>);
        Some (0x78000000, s1\<lparr>vcr3 := vcr3 s\<rparr>)
      })"

section \<open>One page\<close>

text \<open>The entry of an address in its page table, present or not.\<close>

definition pte_slot :: "vmm \<Rightarrow> u64 \<Rightarrow> u64 option" where
  "pte_slot s v = map_option (\<lambda>pt. phys s pt (idx1 v)) (walk_pt s v)"

text \<open>A frame that is in use and not a table.\<close>

definition data_frame :: "vmm \<Rightarrow> u64 \<Rightarrow> bool" where
  "data_frame s f \<longleftrightarrow> blk f \<in> used_set (vpmm s) \<and> fresh_for (phys s) (page_of (vcr3 s)) f"

lemma slot_write:
  assumes inv: "vm_inv s" and pt: "walk_pt s v = Some pt" and s': "s' = set_entry pt (idx1 v) e s"
  shows "pte_slot s' u = (if idxs u = idxs v then Some e else pte_slot s u)"
    and "fresh_for (phys s') (page_of (vcr3 s)) f \<longleftrightarrow> fresh_for (phys s) (page_of (vcr3 s)) f"
proof -
  have tree: "tree (phys s) (page_of (vcr3 s))" using inv by (simp add: vm_inv_def)
  have t: "tbl (phys s) (page_of (vcr3 s)) [idx2 v, idx3 v, idx4 v] = Some pt" using pt by (simp only: walk_pt_tbl)
  have T: "tbl (phys s') (page_of (vcr3 s)) a = tbl (phys s) (page_of (vcr3 s)) a" if "length a \<le> 3" for a
    by (rule tbl_leaf_write [OF tree t _ that]) (simp add: s' set_entry_def)
  then show "fresh_for (phys s') (page_of (vcr3 s)) f \<longleftrightarrow> fresh_for (phys s) (page_of (vcr3 s)) f"
    unfolding fresh_for_def by metis
  have ph: "phys s' f i = (if f = pt \<and> i = idx1 v then e else phys s f i)" for f i by (simp add: s' set_entry_def)
  have w: "walk_pt s' u = walk_pt s u" using T by (simp add: walk_pt_tbl s' set_entry_def del: tbl.simps)
  show "pte_slot s' u = (if idxs u = idxs v then Some e else pte_slot s u)"
  proof (cases "walk_pt s u = Some pt")
    case True
    then have "[idx2 u, idx3 u, idx4 u] = [idx2 v, idx3 v, idx4 v]"
      using tree_inj [OF tree _ t, of "[idx2 u, idx3 u, idx4 u]"] by (simp add: walk_pt_tbl del: tbl.simps)
    then show ?thesis using True by (auto simp: pte_slot_def w ph)
  next
    case False
    moreover from this have "idxs u \<noteq> idxs v" using pt by (auto simp: walk_pt_tbl simp del: tbl.simps)
    ultimately show ?thesis by (cases "walk_pt s u") (auto simp: pte_slot_def w ph)
  qed
qed

lemma extends_slot:
  assumes ext: "extends s s'" and x: "pte_slot s u = Some x"
  shows "pte_slot s' u = Some x"
proof -
  let ?a = "[idx2 u, idx3 u, idx4 u]"
  obtain pt where pt: "tbl (phys s) (page_of (vcr3 s)) ?a = Some pt" "x = phys s pt (idx1 u)"
    using x by (auto simp: pte_slot_def walk_pt_tbl simp del: tbl.simps)
  have "length ?a = 3" by simp
  then have "tbl (phys s') (page_of (vcr3 s')) ?a = Some pt" "phys s' pt = phys s pt"
    using ext pt(1) unfolding extends_def by (metis order_refl)+
  then show ?thesis using pt(2) by (simp add: pte_slot_def walk_pt_tbl del: tbl.simps)
qed

lemma extends_data: "extends s s' \<Longrightarrow> data_frame s f \<Longrightarrow> data_frame s' f \<and> phys s' f = phys s f"
  unfolding data_frame_def extends_def by (auto simp del: tbl.simps)

lemma slot_translate: "vm_inv s \<Longrightarrow> pte_slot s v = Some e \<Longrightarrow> translate s v = (if present e then Some e else None)"
  by (auto simp: pte_slot_def walk_pt_translate)

text \<open>All that mapping one page does and does not do.\<close>

lemma map_page_full:
  assumes inv: "vm_inv s" and room: "3 \<le> free_blocks (vpmm s)"
  obtains s' where "vmm_map_page p v fl s = Some s'" "vm_inv s'" "vcr3 s' = vcr3 s"
    "pte_slot s' v = Some (p OR ucast fl)" "\<And>u x. idxs u \<noteq> idxs v \<Longrightarrow> pte_slot s u = Some x \<Longrightarrow> pte_slot s' u = Some x"
    "\<And>u. idxs u \<noteq> idxs v \<Longrightarrow> translate s' u = translate s u"
    "\<And>f. data_frame s f \<Longrightarrow> data_frame s' f \<and> phys s' f = phys s f"
    "free_blocks (vpmm s) \<le> free_blocks (vpmm s') + 3" "used_set (vpmm s) \<subseteq> used_set (vpmm s')"
proof (cases rule: map_entry_tables [OF inv table_flags_7, of v "p OR ucast fl"])
  case 1
  then show thesis using room by simp
next
  case (2 s3 pt)
  note E = extendsD [OF 2(2)]
  let ?s' = "set_entry pt (idx1 v) (p OR ucast fl) s3"
  have pt: "walk_pt s3 v = Some pt" using 2(3) E(2) by (simp add: walk_pt_tbl del: tbl.simps)
  note W = slot_write [OF E(1) pt refl]
  have S: "?s' = set_entry pt (idx1 v) (p OR ucast fl) s3" by simp
  have inv': "vm_inv ?s'" using leaf_write(1) [OF E(1) _ _ _ _ S] pt by (simp add: walk_pt_tbl del: tbl.simps)
  have cr: "vcr3 ?s' = vcr3 s" "vpmm ?s' = vpmm s3" using E(2) by (simp_all add: set_entry_def)
  have tr: "translate ?s' u = translate s u" if "idxs u \<noteq> idxs v" for u
    using map_entry_spec [OF inv table_flags_7, of v "p OR ucast fl"] 2(1) that by auto
  have data: "data_frame ?s' f \<and> phys ?s' f = phys s f" if "data_frame s f" for f
  proof -
    have d: "data_frame s3 f" "phys s3 f = phys s f" using extends_data [OF 2(2) that] by auto
    have "f \<noteq> pt" using freshD [of _ _ f, OF _ 2(3)] d(1) E(2) by (auto simp: data_frame_def)
    then show ?thesis using d W(2) by (simp add: data_frame_def set_entry_def)
  qed
  have sl: "pte_slot ?s' u = Some x" if "idxs u \<noteq> idxs v" "pte_slot s u = Some x" for u x
    using W(1) [of _ u] extends_slot [OF 2(2) that(2)] that(1) by auto
  have v: "pte_slot ?s' v = Some (p OR ucast fl)" using W(1) [of _ v] by simp
  have res: "vmm_map_page p v fl s = Some ?s'" using 2(1) by (simp only: vmm_map_page_def)
  have room': "free_blocks (vpmm s) \<le> free_blocks (vpmm ?s') + 3" using 2(4) cr(2) by simp
  have used: "used_set (vpmm s) \<subseteq> used_set (vpmm ?s')" using 2(2) cr(2) by (simp add: extends_def)
  show thesis by (rule that [OF res inv' cr(1) v sl tr data room' used])
qed

lemma slot_idxs: "idxs u = idxs v \<Longrightarrow> pte_slot s u = pte_slot s v"
  by (simp add: pte_slot_def walk_pt_tbl del: tbl.simps)

section \<open>Demand pages\<close>

lemma map_pages:
  assumes "vm_inv s" "3 * length vs \<le> free_blocks (vpmm s)"
  shows "\<exists>s'. ofold (\<lambda>v. vmm_map_page p v fl) vs s = Some s' \<and> vm_inv s' \<and> vcr3 s' = vcr3 s
    \<and> (\<forall>v \<in> set vs. pte_slot s' v = Some (p OR ucast fl))
    \<and> (\<forall>u x. idxs u \<notin> idxs ` set vs \<and> pte_slot s u = Some x \<longrightarrow> pte_slot s' u = Some x)
    \<and> (\<forall>u. idxs u \<notin> idxs ` set vs \<longrightarrow> translate s' u = translate s u)
    \<and> free_blocks (vpmm s) \<le> free_blocks (vpmm s') + 3 * length vs"
  using assms
proof (induction vs arbitrary: s)
  case (Cons v vs)
  have room: "3 \<le> free_blocks (vpmm s)" using Cons.prems(2) by simp
  obtain s1 where s1: "vmm_map_page p v fl s = Some s1" "vm_inv s1" "vcr3 s1 = vcr3 s" "pte_slot s1 v = Some (p OR ucast fl)"
      "\<And>u x. idxs u \<noteq> idxs v \<Longrightarrow> pte_slot s u = Some x \<Longrightarrow> pte_slot s1 u = Some x"
      "\<And>u. idxs u \<noteq> idxs v \<Longrightarrow> translate s1 u = translate s u"
      "free_blocks (vpmm s) \<le> free_blocks (vpmm s1) + 3"
    by (rule map_page_full [OF Cons.prems(1) room, of p v fl]) blast
  have "3 * length vs \<le> free_blocks (vpmm s1)" using Cons.prems(2) s1(7) by simp
  from Cons.IH [OF s1(2) this] obtain s' where s': "ofold (\<lambda>v. vmm_map_page p v fl) vs s1 = Some s'" "vm_inv s'"
      "vcr3 s' = vcr3 s1" "\<forall>v \<in> set vs. pte_slot s' v = Some (p OR ucast fl)"
      "\<forall>u x. idxs u \<notin> idxs ` set vs \<and> pte_slot s1 u = Some x \<longrightarrow> pte_slot s' u = Some x"
      "\<forall>u. idxs u \<notin> idxs ` set vs \<longrightarrow> translate s' u = translate s1 u"
      "free_blocks (vpmm s1) \<le> free_blocks (vpmm s') + 3 * length vs" by blast
  have v: "pte_slot s' v = Some (p OR ucast fl)"
  proof (cases "idxs v \<in> idxs ` set vs")
    case True
    then obtain u where "u \<in> set vs" "idxs v = idxs u" by (rule imageE)
    then show ?thesis using s'(4) slot_idxs [of v u s'] by metis
  qed (use s'(5) s1(4) in blast)
  have other: "idxs u \<noteq> idxs v \<and> idxs u \<notin> idxs ` set vs" if "idxs u \<notin> idxs ` set (v # vs)" for u
    using that by (simp only: list.set(2) image_insert insert_iff de_Morgan_disj simp_thms)
  have "pte_slot s' u = Some x" if "idxs u \<notin> idxs ` set (v # vs)" "pte_slot s u = Some x" for u x
    using other [OF that(1)] s'(5) s1(5) [OF _ that(2)] by blast
  moreover have "translate s' u = translate s u" if "idxs u \<notin> idxs ` set (v # vs)" for u
    using s'(6) [rule_format, OF conjunct2 [OF other [OF that]]] s1(6) [OF conjunct1 [OF other [OF that]]] by (rule trans)
  moreover have "free_blocks (vpmm s) \<le> free_blocks (vpmm s') + 3 * length (v # vs)" using s1(7) s'(7) by simp
  moreover have "ofold (\<lambda>v. vmm_map_page p v fl) (v # vs) s = Some s'" "vcr3 s' = vcr3 s" using s1(1,3) s'(1,3) by simp_all
  moreover have "\<forall>w \<in> set (v # vs). pte_slot s' w = Some (p OR ucast fl)" using v s'(4) by simp
  ultimately show ?case using s'(2) by blast
qed simp

text \<open>The first access to a page that is mapped on demand.\<close>

lemma demand_entry_bits:
  assumes low: "\<And>k. bit e k \<Longrightarrow> k < 12" and e': "e' = (of_nat n * 4096 OR (e AND NOT 0x200)) OR 1"
  shows "page_of e' = of_nat n * 4096" "present e'" "k < 12 \<Longrightarrow> k \<noteq> 0 \<Longrightarrow> k \<noteq> 9 \<Longrightarrow> bit e' k \<longleftrightarrow> bit e k"
proof -
  have b: "bit e' k \<longleftrightarrow> bit (of_nat n * 4096 :: u64) k \<or> (bit e k \<and> k \<noteq> 9) \<or> k = 0" for k
    using bit_and_not_shift [of e 9 k] by (auto simp: e' bit_or_iff bit_1_iff)
  show "page_of e' = of_nat n * 4096"
    by (rule bit_word_eqI) (use b low bit_frame [of _ n] in \<open>fastforce simp: bit_page_of not_less [symmetric]\<close>)
  show "present e'" using b [of 0] by (simp add: present_def)
  show "k < 12 \<Longrightarrow> k \<noteq> 0 \<Longrightarrow> k \<noteq> 9 \<Longrightarrow> bit e' k \<longleftrightarrow> bit e k" using b [of k] bit_frame [of k n] by simp
qed

lemma demand_fault:
  assumes inv: "vm_inv s" and sl: "pte_slot s v = Some e" "\<not> present e" "demand e" "\<And>k. bit e k \<Longrightarrow> k < 12"
    and room: "0 < free_blocks (vpmm s)"
  shows "\<exists>s' e'. vmm_handle_demand_page v s = Some (1, s') \<and> vm_inv s' \<and> translate s' v = Some e'
    \<and> bit e' 2 = bit e 2 \<and> writable e' = writable e \<and> phys s' (page_of e') = (\<lambda>_. 0) \<and> blk (page_of e') \<notin> used_set (vpmm s)
    \<and> (\<forall>u. idxs u \<noteq> idxs v \<longrightarrow> translate s' u = translate s u)"
proof -
  obtain pt where pt: "walk_pt s v = Some pt" "e = phys s pt (idx1 v)" using sl(1) by (auto simp: pte_slot_def)
  have "pmm_inv (vpmm s)" using inv by (simp add: vm_inv_def)
  then obtain n pm where fr: "alloc_frame s = Some (of_nat n * 4096, s\<lparr>vpmm := pm\<rparr>)" "pmm_inv pm"
      "used_set pm = insert n (used_set (vpmm s))" "n \<notin> used_set (vpmm s)" "blk (of_nat n * 4096) = n"
      "max_blocks pm = max_blocks (vpmm s)"
    using room by (cases rule: alloc_frame_cases) auto
  define s1 where "s1 = fill_page (of_nat n * 4096) (\<lambda>_. 0) (s\<lparr>vpmm := pm\<rparr>)"
  define e' where "e' = (of_nat n * 4096 OR (e AND NOT 0x200)) OR 1"
  note B = demand_entry_bits [OF sl(4) e'_def]
  have ext: "extends s s1" unfolding s1_def by (rule extends_fill [OF inv fr(2-6)])
  note E = extendsD [OF ext]
  have w1: "walk_pt s1 v = Some pt"
    using E(4) [of "[idx2 v, idx3 v, idx4 v]" pt] pt(1) E(2) unfolding walk_pt_tbl by (simp del: tbl.simps)
  define s' where "s' = set_entry pt (idx1 v) e' s1"
  have res: "vmm_handle_demand_page v s = Some (1, s')"
    using pt sl(2,3) fr(1) by (simp add: vmm_handle_demand_page_def Let_def s'_def s1_def e'_def)
  have inv': "vm_inv s'" using leaf_write(1) [OF E(1) _ _ _ _ s'_def] w1 by (simp add: walk_pt_tbl del: tbl.simps)
  have "pte_slot s' v = Some e'" using slot_write(1) [OF E(1) w1 s'_def, of v] by simp
  then have tr: "translate s' v = Some e'" using slot_translate [OF inv'] B(2) by simp
  have other: "translate s' u = translate s u" if "idxs u \<noteq> idxs v" for u
    using leaf_write(2) [OF E(1) _ _ _ _ s'_def, where ?j4.0 = "idx4 u" and ?j3.0 = "idx3 u" and ?j2.0 = "idx2 u"
        and ?j1.0 = "idx1 u" and ?i4.0 = "idx4 v" and ?i3.0 = "idx3 v" and ?i2.0 = "idx2 v"] w1 E(2,5) that
    by (auto simp: translate_def walk_pt_tbl s'_def set_entry_def simp del: tbl.simps)
  have "pt \<noteq> of_nat n * 4096"
    using freshD [OF frame_fresh [OF inv, of "of_nat n * 4096"], of "[idx2 v, idx3 v, idx4 v]" pt] pt(1) fr(4,5)
    by (auto simp: walk_pt_tbl simp del: tbl.simps)
  then have "phys s' (page_of e') = (\<lambda>_. 0)" by (simp add: s'_def set_entry_def B(1) s1_def fill_page_def)
  then show ?thesis using res inv' tr other B(1) B(3) [of 1] B(3) [of 2] fr(4,5) by (auto simp: writable_def)
qed

section \<open>Growing the heap\<close>

text \<open>A page of the heap: user, writable, and backed by a cleared frame of its own.\<close>

definition heap_page :: "nat set \<Rightarrow> vmm \<Rightarrow> u64 \<Rightarrow> bool" where
  "heap_page old s v \<longleftrightarrow> (\<exists>p. pte_slot s v = Some (p OR 7) \<and> page_of (p OR 7) = p \<and> data_frame s p
     \<and> phys s p = (\<lambda>_. 0) \<and> blk p \<notin> old)"

lemma heap_page_idxs: "idxs u = idxs v \<Longrightarrow> heap_page old s u = heap_page old s v"
  using slot_idxs [of u v s] by (simp add: heap_page_def)

lemma heap_page_mono: "heap_page old s v \<Longrightarrow> new \<subseteq> old \<Longrightarrow> heap_page new s v"
  by (auto simp: heap_page_def)

lemma fill_slot:
  assumes "vm_inv s" "fresh_for (phys s) (page_of (vcr3 s)) q"
  shows "pte_slot (fill_page q c s) u = pte_slot s u"
proof -
  have w: "walk_pt (fill_page q c s) u = walk_pt s u"
    using fill_fresh(3) [OF assms refl, of "[idx2 u, idx3 u, idx4 u]" c] by (simp add: walk_pt_tbl fill_page_def del: tbl.simps)
  show ?thesis
  proof (cases "walk_pt s u")
    case (Some pt)
    have "pt \<noteq> q" using freshD [OF assms(2), of "[idx2 u, idx3 u, idx4 u]" pt] Some by (auto simp: walk_pt_tbl simp del: tbl.simps)
    then show ?thesis using Some w by (simp add: pte_slot_def fill_page_def)
  qed (simp add: pte_slot_def w)
qed

lemma brk_step:
  assumes inv: "vm_inv s" and room: "4 \<le> free_blocks (vpmm s)"
  obtains p pm s2 s3 where "pmm_alloc_page (vpmm s) = (p, pm)" "p \<noteq> 0" "vmm_map_page p v 7 (s\<lparr>vpmm := pm\<rparr>) = Some s2"
    "s3 = fill_page p (\<lambda>_. 0) s2" "vm_inv s3" "vcr3 s3 = vcr3 s" "heap_page (used_set (vpmm s)) s3 v"
    "\<And>u x. idxs u \<noteq> idxs v \<Longrightarrow> pte_slot s u = Some x \<Longrightarrow> pte_slot s3 u = Some x"
    "\<And>u. idxs u \<noteq> idxs v \<Longrightarrow> translate s3 u = translate s u"
    "\<And>f. data_frame s f \<Longrightarrow> data_frame s3 f \<and> phys s3 f = phys s f"
    "free_blocks (vpmm s) \<le> free_blocks (vpmm s3) + 4" "used_set (vpmm s) \<subseteq> used_set (vpmm s3)"
proof -
  have pi: "pmm_inv (vpmm s)" using inv by (simp add: vm_inv_def)
  then obtain n pm where fr: "alloc_frame s = Some (of_nat n * 4096, s\<lparr>vpmm := pm\<rparr>)" "pmm_inv pm"
      "used_set pm = insert n (used_set (vpmm s))" "n \<notin> used_set (vpmm s)" "blk (of_nat n * 4096) = n"
      "max_blocks pm = max_blocks (vpmm s)" "free_blocks (vpmm s) = Suc (free_blocks pm)"
    using room by (cases rule: alloc_frame_cases) auto
  define p :: u64 where "p = of_nat n * 4096"
  define s1 where "s1 = s\<lparr>vpmm := pm\<rparr>"
  have al: "pmm_alloc_page (vpmm s) = (p, pm)" "p \<noteq> 0"
    using fr(1) by (auto simp: alloc_frame_def p_def split: prod.splits if_splits dest: arg_cong [where f = vpmm])
  have "fill_page p (phys s p) s1 = s1" by (simp add: fill_page_def s1_def)
  then have ext: "extends s s1" using extends_fill [OF inv fr(2-6), of "phys s p"] by (simp add: p_def s1_def)
  note E = extendsD [OF ext]
  have d1: "data_frame s1 p" using frame_fresh [OF inv, of p] fr(3-5) by (simp add: data_frame_def s1_def p_def)
  have r1: "3 \<le> free_blocks (vpmm s1)" using room fr(7) by (simp add: s1_def)
  obtain s2 where s2: "vmm_map_page p v 7 s1 = Some s2" "vm_inv s2" "vcr3 s2 = vcr3 s1"
      "pte_slot s2 v = Some (p OR ucast (7 :: u32))" "\<And>u x. idxs u \<noteq> idxs v \<Longrightarrow> pte_slot s1 u = Some x \<Longrightarrow> pte_slot s2 u = Some x"
      "\<And>u. idxs u \<noteq> idxs v \<Longrightarrow> translate s2 u = translate s1 u"
      "\<And>f. data_frame s1 f \<Longrightarrow> data_frame s2 f \<and> phys s2 f = phys s1 f"
      "free_blocks (vpmm s1) \<le> free_blocks (vpmm s2) + 3" "used_set (vpmm s1) \<subseteq> used_set (vpmm s2)"
    by (rule map_page_full [OF E(1) r1, of p v 7]) blast
  define s3 where "s3 = fill_page p (\<lambda>_. 0) s2"
  have f2: "fresh_for (phys s2) (page_of (vcr3 s2)) p" "blk p \<in> used_set (vpmm s2)" using s2(7) [OF d1] by (simp_all add: data_frame_def)
  note F = fill_fresh [OF s2(2) f2(1) s3_def]
  have s3: "vcr3 s3 = vcr3 s2" "vpmm s3 = vpmm s2" by (simp_all add: s3_def fill_page_def)
  have sl: "pte_slot s3 u = pte_slot s2 u" for u unfolding s3_def by (rule fill_slot [OF s2(2) f2(1)])
  have df: "data_frame s3 f = data_frame s2 f" for f using F(4) [of f] by (simp add: data_frame_def s3)
  have "bit (7 :: u64) k \<Longrightarrow> k < 12" for k using table_flags_7 by (simp add: table_flags_def)
  then have "page_of (p OR 7) = p" unfolding p_def by (rule page_of_frame)
  moreover have "blk p \<notin> used_set (vpmm s)" using fr(4,5) by (simp add: p_def)
  moreover have "phys s3 p = (\<lambda>_. 0)" by (simp add: s3_def fill_page_def)
  ultimately have hp: "heap_page (used_set (vpmm s)) s3 v"
    using s2(4) s2(7) [OF d1] unfolding heap_page_def sl df by (intro exI [of _ p]) simp
  have o: "pte_slot s3 u = Some x" if "idxs u \<noteq> idxs v" "pte_slot s u = Some x" for u x
    using s2(5) [OF that(1) extends_slot [OF ext that(2)]] sl by simp
  have tr: "translate s3 u = translate s u" if "idxs u \<noteq> idxs v" for u using F(2) s2(6) [OF that] E(5) by simp
  have da: "data_frame s3 f \<and> phys s3 f = phys s f" if "data_frame s f" for f
  proof -
    have "f \<noteq> p" using that fr(4,5) by (auto simp: data_frame_def p_def)
    then show ?thesis using extends_data [OF ext that] s2(7) [of f] df by (simp add: s3_def fill_page_def)
  qed
  have fb: "free_blocks (vpmm s) \<le> free_blocks (vpmm s3) + 4" using fr(7) s2(8) s3 by (simp add: s1_def)
  have us: "used_set (vpmm s) \<subseteq> used_set (vpmm s3)" using s2(9) s3 fr(3) by (auto simp: s1_def)
  have cr: "vcr3 s3 = vcr3 s" using s3(1) s2(3) by (simp add: s1_def)
  show thesis by (rule that [OF al s2(1) [unfolded s1_def] s3_def F(1) cr hp o tr da fb us])
qed

lemma brk_loop_grows:
  assumes "vm_inv s" "4 * n \<le> free_blocks (vpmm s)" "unat a + n * 4096 < 2 ^ 64"
  shows "\<exists>s'. brk_loop a (a + of_nat n * 4096) s = Some (None, s') \<and> vm_inv s' \<and> vcr3 s' = vcr3 s
    \<and> (\<forall>i < n. heap_page (used_set (vpmm s)) s' (a + of_nat i * 4096))
    \<and> (\<forall>f. data_frame s f \<longrightarrow> data_frame s' f \<and> phys s' f = phys s f)
    \<and> (\<forall>u. (\<forall>i < n. idxs u \<noteq> idxs (a + of_nat i * 4096)) \<longrightarrow> translate s' u = translate s u \<and> (\<forall>x. pte_slot s u = Some x \<longrightarrow> pte_slot s' u = Some x))"
  using assms
proof (induction n arbitrary: a s)
  case 0
  then show ?case by (subst brk_loop.simps) simp
next
  case (Suc n)
  have room: "4 \<le> free_blocks (vpmm s)" using Suc.prems(2) by simp
  obtain p pm s2 s3 where st: "pmm_alloc_page (vpmm s) = (p, pm)" "p \<noteq> 0" "vmm_map_page p a 7 (s\<lparr>vpmm := pm\<rparr>) = Some s2"
    "s3 = fill_page p (\<lambda>_. 0) s2" "vm_inv s3" "vcr3 s3 = vcr3 s" "heap_page (used_set (vpmm s)) s3 a"
    "\<And>u x. idxs u \<noteq> idxs a \<Longrightarrow> pte_slot s u = Some x \<Longrightarrow> pte_slot s3 u = Some x"
    "\<And>u. idxs u \<noteq> idxs a \<Longrightarrow> translate s3 u = translate s u"
    "\<And>f. data_frame s f \<Longrightarrow> data_frame s3 f \<and> phys s3 f = phys s f"
    "free_blocks (vpmm s) \<le> free_blocks (vpmm s3) + 4" "used_set (vpmm s) \<subseteq> used_set (vpmm s3)"
    by (rule brk_step [OF Suc.prems(1) room, of a]) blast
  have ua: "unat (a + 4096) = unat a + 4096" using Suc.prems(3) by (intro unat_add_lem [THEN iffD1, of a 4096, simplified]) simp
  have lim: "a + of_nat (Suc n) * 4096 = (a + 4096) + of_nat n * 4096" by (simp add: algebra_simps)
  have "unat (a + of_nat (Suc n) * 4096) = unat a + Suc n * 4096"
    using Suc.prems(3) by (simp add: unat_word_ariths unat_of_nat)
  then have less: "a < a + of_nat (Suc n) * 4096" by (simp add: word_less_nat_alt)
  have IHp: "4 * n \<le> free_blocks (vpmm s3)" "unat (a + 4096) + n * 4096 < 2 ^ 64" using Suc.prems(2,3) st(11) ua by simp_all
  from Suc.IH [OF st(5) IHp] obtain s' where s': "brk_loop (a + 4096) ((a + 4096) + of_nat n * 4096) s3 = Some (None, s')"
    "vm_inv s'" "vcr3 s' = vcr3 s3" "\<forall>i < n. heap_page (used_set (vpmm s3)) s' (a + 4096 + of_nat i * 4096)"
    "\<forall>f. data_frame s3 f \<longrightarrow> data_frame s' f \<and> phys s' f = phys s3 f"
    "\<forall>u. (\<forall>i < n. idxs u \<noteq> idxs (a + 4096 + of_nat i * 4096)) \<longrightarrow> translate s' u = translate s3 u \<and> (\<forall>x. pte_slot s3 u = Some x \<longrightarrow> pte_slot s' u = Some x)"
    by blast
  have next_page: "a + 4096 + of_nat i * 4096 = a + of_nat (Suc i) * 4096" for i by (simp add: algebra_simps)
  have run: "brk_loop a (a + of_nat (Suc n) * 4096) s = Some (None, s')"
    using st(1-4) s'(1) less by (subst brk_loop.simps) (simp add: lim add.assoc)
  have hp0: "heap_page (used_set (vpmm s)) s' a"
  proof (cases "\<exists>i < n. idxs a = idxs (a + 4096 + of_nat i * 4096)")
    case True
    then obtain i where "i < n" "idxs a = idxs (a + 4096 + of_nat i * 4096)" by blast
    then show ?thesis using s'(4) heap_page_idxs [of a "a + 4096 + of_nat i * 4096"] heap_page_mono [OF _ st(12)] by metis
  next
    case False
    then have "\<forall>x. pte_slot s3 a = Some x \<longrightarrow> pte_slot s' a = Some x" using s'(6) by blast
    then show ?thesis using st(7) s'(5) unfolding heap_page_def by metis
  qed
  have hp: "heap_page (used_set (vpmm s)) s' (a + of_nat i * 4096)" if "i < Suc n" for i
  proof (cases i)
    case 0
    then show ?thesis using hp0 by simp
  next
    case (Suc j)
    then show ?thesis using that s'(4) [unfolded next_page] heap_page_mono [OF _ st(12)] by (simp del: of_nat_Suc)
  qed
  have ot: "translate s' u = translate s u \<and> (\<forall>x. pte_slot s u = Some x \<longrightarrow> pte_slot s' u = Some x)"
    if u: "\<forall>i < Suc n. idxs u \<noteq> idxs (a + of_nat i * 4096)" for u
  proof -
    have "idxs u \<noteq> idxs (a + of_nat 0 * 4096)" using u by blast
    then have n0: "idxs u \<noteq> idxs a" by simp
    have "\<forall>i < n. idxs u \<noteq> idxs (a + 4096 + of_nat i * 4096)" unfolding next_page using u Suc_mono by blast
    then have r: "translate s' u = translate s3 u" "\<And>x. pte_slot s3 u = Some x \<Longrightarrow> pte_slot s' u = Some x" using s'(6) by blast+
    show ?thesis using r(1) st(9) [OF n0] r(2) st(8) [OF n0] by simp
  qed
  show ?case using run s'(2,3,5) st(6,10) hp ot by (intro exI [of _ s'] conjI) simp_all
qed

section \<open>Changing protection\<close>

text \<open>What \<^verbatim>\<open>mprotect\<close> makes of an entry: present, user, and writable on demand.\<close>

definition protected :: "bool \<Rightarrow> u64 \<Rightarrow> bool" where
  "protected w e \<longleftrightarrow> present e \<and> bit e 2 \<and> writable e = w"

lemma protected_entry: "protected w ((e AND ucast (NOT (clear_flags w))) OR ucast (set_flags w))"
  by (cases w) (simp_all add: protected_def present_def writable_def set_flags_def clear_flags_def bit_or_iff bit_and_iff bit_ucast_iff bit_not_iff)

lemma mprotect_loop_all:
  assumes "vm_inv s" "\<forall>v \<in> set vs. \<exists>e. pte_slot s v = Some e \<and> present e"
  shows "\<exists>s'. mprotect_loop (set_flags w) (clear_flags w) vs s = (True, s') \<and> vm_inv s' \<and> vcr3 s' = vcr3 s
    \<and> (\<forall>v \<in> set vs. \<exists>e. pte_slot s' v = Some e \<and> protected w e)
    \<and> (\<forall>u. idxs u \<notin> idxs ` set vs \<longrightarrow> pte_slot s' u = pte_slot s u)"
  using assms
proof (induction vs arbitrary: s)
  case (Cons v vs)
  obtain e where e: "pte_slot s v = Some e" "present e" using Cons.prems(2) by auto
  then obtain pt where pt: "walk_pt s v = Some pt" "e = phys s pt (idx1 v)" by (auto simp: pte_slot_def)
  define e' where "e' = (e AND ucast (NOT (clear_flags w))) OR ucast (set_flags w)"
  have P: "protected w e'" unfolding e'_def by (rule protected_entry)
  define s1 where "s1 = set_entry pt (idx1 v) e' s"
  have step: "vmm_set_page_flags v (set_flags w) (clear_flags w) s = (0, s1)"
    using pt e(2) by (simp add: vmm_set_page_flags_def Let_def s1_def e'_def)
  have inv1: "vm_inv s1" using leaf_write(1) [OF Cons.prems(1) _ _ _ _ s1_def] pt(1) by (simp add: walk_pt_tbl del: tbl.simps)
  have cr: "vcr3 s1 = vcr3 s" by (simp add: s1_def set_entry_def)
  note W = slot_write(1) [OF Cons.prems(1) pt(1) s1_def]
  have "\<exists>x. pte_slot s1 u = Some x \<and> present x" if "u \<in> set vs" for u
    using Cons.prems(2) W [of u] that P by (cases "idxs u = idxs v") (auto simp: protected_def)
  then obtain s' where s': "mprotect_loop (set_flags w) (clear_flags w) vs s1 = (True, s')" "vm_inv s'" "vcr3 s' = vcr3 s1"
      "\<forall>v \<in> set vs. \<exists>e. pte_slot s' v = Some e \<and> protected w e" "\<forall>u. idxs u \<notin> idxs ` set vs \<longrightarrow> pte_slot s' u = pte_slot s1 u"
    using Cons.IH [OF inv1] by blast
  have "\<exists>x. pte_slot s' v = Some x \<and> protected w x"
  proof (cases "idxs v \<in> idxs ` set vs")
    case True
    then obtain u where "u \<in> set vs" "idxs v = idxs u" by (rule imageE)
    then show ?thesis using s'(4) slot_idxs [of v u s'] by metis
  qed (use s'(5) W [of v] P in auto)
  moreover have "pte_slot s' u = pte_slot s u" if "idxs u \<notin> idxs ` set (v # vs)" for u
  proof -
    have "idxs u \<noteq> idxs v" "idxs u \<notin> idxs ` set vs"
      using that by (simp_all only: list.set(2) image_insert insert_iff de_Morgan_disj simp_thms)
    then show ?thesis using s'(5) W [of u] by (simp only: if_False simp_thms)
  qed
  ultimately show ?case using step s' cr by (intro exI [of _ s'] conjI) simp_all
qed simp

section \<open>Properties\<close>

lemma and_2: "(w :: u64) AND 2 \<noteq> 0 \<longleftrightarrow> bit w 1"
  using and_shift_eq_0 [of w 1] by simp

lemma length_page_list [simp]: "length (page_list a n) = unat n div 4096"
  by (simp add: page_list_def)

lemma mmap_entry_bits:
  "\<not> present (ucast (mmap_flags prot))" "demand (ucast (mmap_flags prot))" "bit (ucast (mmap_flags prot) :: u64) k \<Longrightarrow> k < 12"
  "bit (ucast (mmap_flags prot) :: u64) 2" "writable (ucast (mmap_flags prot)) \<longleftrightarrow> bit prot 1"
proof -
  have "mmap_flags prot AND mask 12 = mmap_flags prot" by (simp add: mmap_flags_def mask_eq_exp_minus_1)
  moreover have "\<not> bit (mmap_flags prot AND mask 12) k" if "12 \<le> k" for k
    using that by (simp add: bit_and_iff bit_mask_iff)
  ultimately show "bit (ucast (mmap_flags prot) :: u64) k \<Longrightarrow> k < 12" by (metis bit_ucast_iff not_less)
qed (simp_all add: present_def demand_def writable_def mmap_flags_def bit_ucast_iff and_2)


definition mem_task :: task where
  "mem_task = zero_task\<lparr>cr3 := 0x1000, brk_end := 0x60000000\<rparr>"

lemma mem_task_space: "vm_demo\<lparr>vcr3 := cr3 mem_task\<rparr> = vm_demo"
  by (simp add: vm_demo_def mem_task_def)




text \<open>
  \<^verbatim>\<open>mprotect\<close> has no limit: for \<^emph>\<open>any\<close> page-aligned range whose pages are all mapped, \<^verbatim>\<open>sys_mprotect\<close> answers 0 and
  every page of the range is then accessible to the user, and writable exactly when \<^verbatim>\<open>PROT_WRITE\<close> was asked
  for; every other page keeps its entry. Nothing keeps the range inside the user half, so a process can open the kernel's pages.
\<close>

theorem sys_mprotect_exposes:
  assumes inv: "vm_inv (s\<lparr>vcr3 := cr3 t\<rparr>)" and al: "addr AND 0xFFF = 0" and n: "n \<noteq> 0"
    and mapped: "\<forall>v \<in> set (page_list addr (round_up n)). \<exists>e. pte_slot (s\<lparr>vcr3 := cr3 t\<rparr>) v = Some e \<and> present e"
  shows "\<exists>s'. sys_mprotect addr n prot t s = (0, s') \<and> vm_inv (s'\<lparr>vcr3 := cr3 t\<rparr>)
    \<and> (\<forall>v \<in> set (page_list addr (round_up n)). \<exists>e. translate (s'\<lparr>vcr3 := cr3 t\<rparr>) v = Some e \<and> bit e 2 \<and> writable e = bit prot 1)
    \<and> (\<forall>u. idxs u \<notin> idxs ` set (page_list addr (round_up n)) \<longrightarrow> pte_slot (s'\<lparr>vcr3 := cr3 t\<rparr>) u = pte_slot (s\<lparr>vcr3 := cr3 t\<rparr>) u)"
proof -
  let ?vs = "page_list addr (round_up n)"
  obtain s1 where s1: "mprotect_loop (set_flags (bit prot 1)) (clear_flags (bit prot 1)) ?vs (s\<lparr>vcr3 := cr3 t\<rparr>) = (True, s1)"
      "vm_inv s1" "vcr3 s1 = cr3 t" "\<forall>v \<in> set ?vs. \<exists>e. pte_slot s1 v = Some e \<and> protected (bit prot 1) e"
      "\<forall>u. idxs u \<notin> idxs ` set ?vs \<longrightarrow> pte_slot s1 u = pte_slot (s\<lparr>vcr3 := cr3 t\<rparr>) u"
    using mprotect_loop_all [OF inv mapped, of "bit prot 1"] by auto
  define s' where "s' = s1\<lparr>vcr3 := vcr3 s\<rparr>"
  have S: "s'\<lparr>vcr3 := cr3 t\<rparr> = s1" using s1(3) by (simp add: s'_def)
  have "\<exists>e. translate s1 v = Some e \<and> bit e 2 \<and> writable e = bit prot 1" if "v \<in> set ?vs" for v
    using s1(4) that slot_translate [OF s1(2), of v] by (auto simp: protected_def)
  moreover have "sys_mprotect addr n prot t s = (0, s')" using al n s1(1) by (simp add: sys_mprotect_def and_2 Let_def s'_def)
  ultimately show ?thesis using s1(2,5) by (intro exI [of _ s'] conjI) (simp_all add: S)
qed

text \<open>An address space with one page, in the kernel half and not accessible to the user.\<close>

definition vm_kernel_phys :: "u64 \<Rightarrow> nat \<Rightarrow> u64" where
  "vm_kernel_phys p i = (if p = 0x1000 then vm_demo_phys p (if i = 256 then 0 else 1)
     else if p = 0x4000 \<and> i = 0 then 0x5003 else vm_demo_phys p i)"

definition vm_kernel :: vmm where
  "vm_kernel = vm_demo\<lparr>phys := vm_kernel_phys\<rparr>"

lemma vm_kernel_next:
  "next_table vm_kernel_phys 0x1000 i = (if i = 256 then Some 0x2000 else None)"
  "next_table vm_kernel_phys 0x2000 i = (if i = 0 then Some 0x3000 else None)"
  "next_table vm_kernel_phys 0x3000 i = (if i = 0 then Some 0x4000 else None)"
  by (simp_all add: next_table_def vm_kernel_phys_def vm_demo_phys_def present_def large_def page_of_def)

lemma vm_kernel_tbl:
  assumes "length a \<le> 3" "tbl vm_kernel_phys 0x1000 a = Some f"
  shows "(a, f) \<in> {([], 0x1000), ([256], 0x2000), ([0, 256], 0x3000), ([0, 0, 256], 0x4000)}"
proof -
  consider "a = []" | x where "a = [x]" | x y where "a = [x, y]" | x y z where "a = [x, y, z]"
    using assms(1) by (auto simp: numeral_3_eq_3 length_Suc_conv le_Suc_eq)
  then show ?thesis using assms(2) by cases (auto simp: vm_kernel_next split: if_splits)
qed

lemma vm_kernel_inv: "vm_inv vm_kernel"
proof -
  have r: "page_of (vcr3 vm_kernel) = 0x1000" "phys vm_kernel = vm_kernel_phys" "vpmm vm_kernel = vpmm vm_demo"
    by (simp_all add: vm_kernel_def vm_demo_def page_of_def)
  have inj: "a = b" if "length a \<le> 3" "length b \<le> 3" "tbl vm_kernel_phys 0x1000 a = Some f" "tbl vm_kernel_phys 0x1000 b = Some f" for a b f
    using vm_kernel_tbl [of a f] vm_kernel_tbl [of b f] that by auto
  have nl: "\<not> large (vm_kernel_phys f i)" if "length a \<le> 1" "tbl vm_kernel_phys 0x1000 a = Some f" "i < 512" for a f i
    using vm_kernel_tbl [of a f] that by (auto simp: vm_kernel_phys_def vm_demo_phys_def large_def)
  have "tree vm_kernel_phys 0x1000" unfolding tree_def using inj nl by blast
  moreover have "pmm_inv (vpmm vm_demo)" using vm_demo_inv by (simp add: vm_inv_def)
  moreover have "blk f \<in> {0, 1, 2, 3, 4, 5}" if "length a \<le> 3" "tbl vm_kernel_phys 0x1000 a = Some f" for a f
    using vm_kernel_tbl [OF that] by (auto simp: blk_def)
  ultimately show ?thesis unfolding vm_inv_def r vm_demo_used by blast
qed

theorem sys_mprotect_exposes_witness:
  "pte_slot vm_kernel 0xFFFF800000000000 = Some 0x5003
   \<and> (\<exists>s' e. sys_mprotect 0xFFFF800000000000 4096 2 mem_task vm_kernel = (0, s')
        \<and> translate (s'\<lparr>vcr3 := cr3 mem_task\<rparr>) 0xFFFF800000000000 = Some e \<and> bit e 2 \<and> writable e)"
proof -
  have i: "idx4 0xFFFF800000000000 = 256" "idx3 0xFFFF800000000000 = 0" "idx2 0xFFFF800000000000 = 0" "idx1 0xFFFF800000000000 = 0"
    by (simp_all add: idx4_def idx3_def idx2_def idx1_def)
  have sp: "vm_kernel\<lparr>vcr3 := cr3 mem_task\<rparr> = vm_kernel" by (simp add: vm_kernel_def vm_demo_def mem_task_def)
  have r: "page_of (vcr3 vm_kernel) = 0x1000" "phys vm_kernel = vm_kernel_phys" by (simp_all add: vm_kernel_def vm_demo_def page_of_def)
  have sl: "pte_slot vm_kernel 0xFFFF800000000000 = Some 0x5003"
    by (simp add: pte_slot_def walk_pt_def r i vm_kernel_next) (simp add: vm_kernel_phys_def)
  have p: "round_up 4096 = 4096" "page_list 0xFFFF800000000000 4096 = [0xFFFF800000000000]" "present 0x5003"
    by (simp_all add: round_up_def page_list_def present_def)
  have inv: "vm_inv (vm_kernel\<lparr>vcr3 := cr3 mem_task\<rparr>)" unfolding sp by (rule vm_kernel_inv)
  from sys_mprotect_exposes [OF inv, of "0xFFFF800000000000" 4096 2] sl p show ?thesis unfolding sp by fastforce
qed

end
