(* ===== verification/Sys_Time.thy ===== *)
theory Sys_Time
  imports Sys_Base "HOL-Library.Monad_Syntax"
begin

text \<open>
  Time: \<^verbatim>\<open>kernel/time.c\<close> and the time system calls of \<^verbatim>\<open>kernel/syscall.c\<close>, over the tick counter, the tick
  rate, the time zone and the correction from the time server. What the real-time clock holds is an argument, its fields at
  their C widths. A waiting loop is a partial function over \<open>Y\<close>, what happens to the clock while the caller yields.
\<close>

record clock =
  boot_ticks :: u64
  hz :: u64
  tz_offset_min :: int
  clock_adjust_sec :: int

section \<open>Ticks\<close>

definition syscall_tick :: "clock \<Rightarrow> clock" where
  "syscall_tick c = c\<lparr>boot_ticks := boot_ticks c + 1\<rparr>"

definition get_ns_time :: "clock \<Rightarrow> u64" where
  "get_ns_time c = (boot_ticks c * 1000000000) div hz c"

definition get_us_time :: "clock \<Rightarrow> u64" where
  "get_us_time c = (boot_ticks c * 1000000) div hz c"

definition get_ms_time :: "clock \<Rightarrow> u64" where
  "get_ms_time c = (boot_ticks c * 1000) div hz c"

definition get_s_time :: "clock \<Rightarrow> u64" where
  "get_s_time c = boot_ticks c div hz c"

definition ktime_get :: "clock \<Rightarrow> u64" where
  "ktime_get c = get_ms_time c"

definition ktime_get_ns :: "clock \<Rightarrow> u64" where
  "ktime_get_ns c = get_ns_time c"

definition ktime_get_real_ns :: "clock \<Rightarrow> u64" where
  "ktime_get_real_ns c = get_ns_time c"

text \<open>Seconds and nanoseconds of \<^verbatim>\<open>struct timespec\<close>.\<close>

definition ktime_get_ts :: "clock \<Rightarrow> u64 \<times> u64" where
  "ktime_get_ts c = (get_ns_time c div 1000000000, get_ns_time c mod 1000000000)"

section \<open>Sleeping\<close>

partial_function (option) sleep_until :: "(clock \<Rightarrow> clock) \<Rightarrow> u64 \<Rightarrow> clock \<Rightarrow> clock option" where
  "sleep_until Y target c = (if boot_ticks c < target then sleep_until Y target (Y c) else Some c)"

definition msleep :: "(clock \<Rightarrow> clock) \<Rightarrow> u64 \<Rightarrow> clock \<Rightarrow> clock option" where
  "msleep Y ms c = sleep_until Y (boot_ticks c + (ms * hz c) div 1000) c"

definition ssleep :: "(clock \<Rightarrow> clock) \<Rightarrow> u64 \<Rightarrow> clock \<Rightarrow> clock option" where
  "ssleep Y s c = msleep Y (s * 1000) c"

definition sys_nanosleep :: "(clock \<Rightarrow> clock) \<Rightarrow> u64 \<Rightarrow> mem \<Rightarrow> clock \<Rightarrow> (u64 \<times> clock) option" where
  "sys_nanosleep Y req m c =
     (if \<not> is_user_range req 16 then Some (err EFAULT, c)
      else let tv_sec = load64 m (unat req); tv_nsec = load64 m (unat req + 8)
           in map_option (Pair 0) (sleep_until Y (boot_ticks c + tv_sec * hz c + (tv_nsec * hz c) div 1000000000) c))"

section \<open>Reading the clock\<close>

definition sys_time :: "u64 \<Rightarrow> mem \<Rightarrow> clock \<Rightarrow> u64 \<times> mem" where
  "sys_time tloc m c =
     (let now = boot_ticks c div hz c
      in (now, if tloc \<noteq> 0 \<and> is_user_range tloc 8 then store m (unat tloc) (mem64 now) else m))"

definition sys_clock_gettime :: "u64 \<Rightarrow> mem \<Rightarrow> clock \<Rightarrow> u64 \<times> mem" where
  "sys_clock_gettime tp m c =
     (if \<not> is_user_range tp 16 then (err EFAULT, m)
      else let total_ms = (boot_ticks c * 1000) div hz c
           in (0, store m (unat tp) (mem64 (total_ms div 1000) @ mem64 (total_ms mod 1000 * 1000000))))"

definition sys_times :: "u64 \<Rightarrow> mem \<Rightarrow> clock \<Rightarrow> u64 \<times> mem" where
  "sys_times buf m c =
     (boot_ticks c, if buf \<noteq> 0 \<and> is_user_range buf 16 then store m (unat buf) (mem64 (boot_ticks c) @ mem64 (hz c)) else m)"

section \<open>The calendar\<close>

text \<open>The loop over the years of \<^verbatim>\<open>rtc_to_unix\<close>: the \<^verbatim>\<open>int\<close> counter is compared as unsigned, and must not be counted past its maximum.\<close>

function rtc_years :: "u32 \<Rightarrow> u32 \<Rightarrow> u64 \<Rightarrow> u64 option" where
  "rtc_years year y days =
     (if y < year
      then if y = 0x7FFFFFFF then None
           else rtc_years year (y + 1) (days + 365 + of_bool ((y mod 4 = 0 \<and> y mod 100 \<noteq> 0) \<or> y mod 400 = 0))
      else Some days)"
  by auto
termination
proof (relation "measure (\<lambda>(year, y, days). unat year - unat y)")
  fix year y :: u32 and days :: u64
  assume "y < year"
  then have "unat (y + 1) = unat y + 1" "unat y < unat year" using less_le_trans [of y year "- 1"] by (auto simp: word_less_nat_alt unat_word_ariths unsigned_minus_1_eq_mask mask_eq_exp_minus_1)
  then show "((year, y + 1, days'), (year, y, days)) \<in> measure (\<lambda>(year, y, days). unat year - unat y)" for days' :: u64 by simp
qed simp

declare rtc_years.simps [simp del]

definition days_in_month :: "nat list" where
  "days_in_month = [0, 31, 28, 31, 30, 31, 30, 31, 31, 30, 31, 30, 31]"

text \<open>The loop over the months, given as the list of its values; an index outside the table is \<open>None\<close>.\<close>

fun rtc_months :: "u32 \<Rightarrow> nat list \<Rightarrow> u64 \<Rightarrow> u64 option" where
  "rtc_months year [] days = Some days"
| "rtc_months year (m # ms) days =
     (if m < length days_in_month
      then rtc_months year ms (days + of_nat (days_in_month ! m)
             + of_bool (m = 2 \<and> ((year mod 4 = 0 \<and> year mod 100 \<noteq> 0) \<or> year mod 400 = 0)))
      else None)"

text \<open>\<^verbatim>\<open>day - 1\<close> is an \<^verbatim>\<open>int\<close> that is added to the unsigned number of days.\<close>

definition rtc_to_unix :: "u32 \<Rightarrow> u8 \<Rightarrow> u8 \<Rightarrow> u8 \<Rightarrow> u8 \<Rightarrow> u8 \<Rightarrow> u64 option" where
  "rtc_to_unix year month day hour minute sec = do {
     d1 \<leftarrow> rtc_years year 1970 0;
     d2 \<leftarrow> rtc_months year [1..<unat month] d1;
     let days = d2 + word_of_int (uint day - 1);
     Some (((days * 24 + ucast hour) * 60 + ucast minute) * 60 + ucast sec)
   }"

text \<open>The real-time clock, in the order of its arguments.\<close>

type_synonym rtc = "u8 \<times> u8 \<times> u8 \<times> u8 \<times> u8 \<times> u32"

text \<open>\<^verbatim>\<open>time.c\<close> has the conversion a second time, with its own table; there the years are compared as \<^verbatim>\<open>int\<close>.\<close>

function now_years :: "int \<Rightarrow> int \<Rightarrow> u64 \<Rightarrow> u64" where
  "now_years year y days =
     (if y < year
      then now_years year (y + 1) (days + 365 + of_bool ((y mod 4 = 0 \<and> y mod 100 \<noteq> 0) \<or> y mod 400 = 0))
      else days)"
  by auto
termination
  by (relation "measure (\<lambda>(year, y, days). nat (year - y))") auto

declare now_years.simps [simp del]

definition tz_days_in_month :: "nat list" where
  "tz_days_in_month = [0, 31, 28, 31, 30, 31, 30, 31, 31, 30, 31, 30, 31]"

fun now_months :: "u32 \<Rightarrow> nat list \<Rightarrow> u64 \<Rightarrow> u64 option" where
  "now_months year [] days = Some days"
| "now_months year (m # ms) days =
     (if m < length tz_days_in_month
      then now_months year ms (days + of_nat (tz_days_in_month ! m)
             + of_bool (m = 2 \<and> ((year mod 4 = 0 \<and> year mod 100 \<noteq> 0) \<or> year mod 400 = 0)))
      else None)"

definition rtc_unix_time_now :: "rtc \<Rightarrow> u64 option" where
  "rtc_unix_time_now r = (case r of (sec, minute, hour, day, month, year) \<Rightarrow> do {
     d2 \<leftarrow> now_months year [1..<unat month] (now_years (sint year) 1970 0);
     let days = d2 + word_of_int (uint day - 1);
     Some (((days * 24 + ucast hour) * 60 + ucast minute) * 60 + ucast sec)
   })"

definition time_set_timezone_offset :: "int \<Rightarrow> clock \<Rightarrow> clock" where
  "time_set_timezone_offset minutes c = c\<lparr>tz_offset_min := minutes\<rparr>"

definition time_get_timezone_offset :: "clock \<Rightarrow> int" where
  "time_get_timezone_offset c = tz_offset_min c"

definition time_set_adjust :: "int \<Rightarrow> clock \<Rightarrow> clock" where
  "time_set_adjust seconds c = c\<lparr>clock_adjust_sec := seconds\<rparr>"

definition time_get_adjust :: "clock \<Rightarrow> int" where
  "time_get_adjust c = clock_adjust_sec c"

definition sys_gettimeofday :: "rtc \<Rightarrow> u64 \<Rightarrow> mem \<Rightarrow> clock \<Rightarrow> (u64 \<times> mem) option" where
  "sys_gettimeofday r tv m c =
     (if tv \<noteq> 0 \<and> is_user_range tv 16
      then (case r of (sec, minute, hour, day, month, year) \<Rightarrow>
             map_option (\<lambda>u. (0, store m (unat tv) (mem64 (u + word_of_int (time_get_adjust c)
                                   + word_of_int (time_get_timezone_offset c * 60)) @ mem64 0)))
               (rtc_to_unix year month day hour minute sec))
      else Some (err EFAULT, m))"

text \<open>The bounds are \<^verbatim>\<open>int\<close> and become unsigned in the comparison with \<^verbatim>\<open>offset\<close>.\<close>

definition sys_timezone :: "u64 \<Rightarrow> u64 \<Rightarrow> clock \<Rightarrow> u64 \<times> clock" where
  "sys_timezone action offset c =
     (if action = 0 then (word_of_int (time_get_timezone_offset c), c)
      else if action = 1 then
        (if offset > word_of_int (14 * 60) \<or> offset < word_of_int (- (12 * 60)) then (err EINVAL, c)
         else (0, time_set_timezone_offset (sint (ucast offset :: u32)) c))
      else (err EINVAL, c))"

section \<open>Counting days\<close>

text \<open>The Gregorian calendar, from its own rules.\<close>

definition leap_year :: "nat \<Rightarrow> bool" where
  "leap_year y \<longleftrightarrow> (if 100 dvd y then 400 dvd y else 4 dvd y)"

definition days_of :: "nat \<Rightarrow> nat \<Rightarrow> nat" where
  "days_of y m = (if m = 2 then if leap_year y then 29 else 28 else if m \<in> {4, 6, 9, 11} then 30 else 31)"

definition valid_date :: "nat \<times> nat \<times> nat \<Rightarrow> bool" where
  "valid_date D \<longleftrightarrow> (case D of (y, m, d) \<Rightarrow> 1970 \<le> y \<and> 1 \<le> m \<and> m \<le> 12 \<and> 1 \<le> d \<and> d \<le> days_of y m)"

text \<open>The day after a date.\<close>

fun next_day :: "nat \<times> nat \<times> nat \<Rightarrow> nat \<times> nat \<times> nat" where
  "next_day (y, m, d) = (if d < days_of y m then (y, m, d + 1) else if m < 12 then (y, m + 1, 1) else (y + 1, 1, 1))"

definition year_len :: "nat \<Rightarrow> nat" where
  "year_len y = (if leap_year y then 366 else 365)"

definition day_number :: "nat \<times> nat \<times> nat \<Rightarrow> nat" where
  "day_number D = (case D of (y, m, d) \<Rightarrow> sum_list (map year_len [1970..<y]) + sum_list (map (days_of y) [1..<m]) + (d - 1))"

lemma length_table: "length days_in_month = 13" "length tz_days_in_month = 13"
  by (simp_all add: days_in_month_def tz_days_in_month_def)

lemma leap_word:
  assumes "y < 2 ^ 32"
  shows "((of_nat y :: u32) mod 4 = 0 \<and> (of_nat y :: u32) mod 100 \<noteq> 0) \<or> (of_nat y :: u32) mod 400 = 0 \<longleftrightarrow> leap_year y"
proof -
  have u: "unat (of_nat y :: u32) = y" using assms by (simp add: unsigned_of_nat take_bit_nat_eq_self)
  have z: "(of_nat y :: u32) mod k = 0 \<longleftrightarrow> unat k dvd y" for k
    by (metis unsigned_eq_0_iff unat_mod_distrib u mod_eq_0_iff_dvd)
  show ?thesis unfolding z leap_year_def by simp presburger
qed

lemma rtc_years_sum:
  "Y < 2 ^ 31 \<Longrightarrow> y \<le> Y \<Longrightarrow> rtc_years (of_nat Y) (of_nat y) days = Some (days + of_nat (sum_list (map year_len [y..<Y])))"
proof (induction "Y - y" arbitrary: y days)
  case 0
  then show ?case by (subst rtc_years.simps) simp
next
  case (Suc n)
  then have y: "y < Y" "Y < 2 ^ 31" by simp_all
  have lt: "(of_nat y :: u32) < of_nat Y" "(of_nat y :: u32) \<noteq> 0x7FFFFFFF"
    using y word_of_nat_less_iff [of y Y] by (auto simp: take_bit_nat_eq_self word_unat_eq_iff unsigned_of_nat)
  have "rtc_years (of_nat Y) (of_nat y) days = rtc_years (of_nat Y) (of_nat (y + 1)) (days + of_nat (year_len y))"
    using lt y leap_word [of y] by (subst rtc_years.simps) (simp add: year_len_def add.commute)
  moreover have "sum_list (map year_len [y..<Y]) = year_len y + sum_list (map year_len [y + 1..<Y])"
    using y(1) by (simp add: upt_rec)
  ultimately show ?case using Suc.hyps(1) [of "y + 1"] Suc.hyps(2) y by (simp add: add.assoc)
qed

lemma now_years_sum:
  "y \<le> Y \<Longrightarrow> now_years (int Y) (int y) days = days + of_nat (sum_list (map year_len [y..<Y]))"
proof (induction "Y - y" arbitrary: y days)
  case 0
  then show ?case by (subst now_years.simps) simp
next
  case (Suc n)
  have lt: "y < Y" using Suc.hyps(2) by simp
  have z: "int y mod numeral k = 0 \<longleftrightarrow> numeral k dvd y" for k by (metis mod_eq_0_iff_dvd of_nat_dvd_iff of_nat_numeral)
  have "(int y mod 4 = 0 \<and> int y mod 100 \<noteq> 0) \<or> int y mod 400 = 0 \<longleftrightarrow> leap_year y" unfolding z leap_year_def by presburger
  then have "now_years (int Y) (int y) days = now_years (int Y) (int (y + 1)) (days + of_nat (year_len y))"
    using lt by (subst now_years.simps) (simp add: year_len_def add.commute)
  moreover have "sum_list (map year_len [y..<Y]) = year_len y + sum_list (map year_len [y + 1..<Y])"
    using lt by (simp add: upt_rec)
  ultimately show ?case using Suc.hyps(1) [of "y + 1"] Suc.hyps(2) by (simp add: add.assoc)
qed

lemma months_sum:
  assumes "Y < 2 ^ 32" "\<forall>m \<in> set ms. 1 \<le> m \<and> m \<le> 12"
  shows "rtc_months (of_nat Y) ms days = Some (days + of_nat (sum_list (map (days_of Y) ms)))"
    and "now_months (of_nat Y) ms days = Some (days + of_nat (sum_list (map (days_of Y) ms)))"
proof -
  have d: "days_in_month ! m + of_bool (m = 2 \<and> leap_year Y) = days_of Y m" "tz_days_in_month ! m + of_bool (m = 2 \<and> leap_year Y) = days_of Y m"
    if "1 \<le> m" "m \<le> 12" for m
  proof -
    have "m = 1 \<or> m = 2 \<or> m = 3 \<or> m = 4 \<or> m = 5 \<or> m = 6 \<or> m = 7 \<or> m = 8 \<or> m = 9 \<or> m = 10 \<or> m = 11 \<or> m = 12" using that by presburger
    then show "days_in_month ! m + of_bool (m = 2 \<and> leap_year Y) = days_of Y m" "tz_days_in_month ! m + of_bool (m = 2 \<and> leap_year Y) = days_of Y m"
      by (elim disjE, simp_all add: days_in_month_def tz_days_in_month_def days_of_def)+
  qed
  have w: "days + of_nat (xs ! m) + of_bool (m = 2 \<and> leap_year Y) = days + of_nat (xs ! m + of_bool (m = 2 \<and> leap_year Y))" for xs m and days :: u64
    by simp
  show "rtc_months (of_nat Y) ms days = Some (days + of_nat (sum_list (map (days_of Y) ms)))" using assms(2)
    by (induction ms arbitrary: days) (auto simp: leap_word [OF assms(1)] w d simp del: of_nat_add of_nat_of_bool simp add: of_nat_add [of "days_of Y _"] length_table)
  show "now_months (of_nat Y) ms days = Some (days + of_nat (sum_list (map (days_of Y) ms)))" using assms(2)
    by (induction ms arbitrary: days) (auto simp: leap_word [OF assms(1)] w d simp del: of_nat_add of_nat_of_bool simp add: of_nat_add [of "days_of Y _"] length_table)
qed

lemma rtc_to_unix_day:
  assumes v: "valid_date (y, m, d)" and y: "y < 2 ^ 31"
  shows "rtc_to_unix (of_nat y) (of_nat m) (of_nat d) h mi s = Some (of_nat (day_number (y, m, d) * 86400 + unat h * 3600 + unat mi * 60 + unat s))"
    and "rtc_unix_time_now (s, mi, h, of_nat d, of_nat m, of_nat y) = Some (of_nat (day_number (y, m, d) * 86400 + unat h * 3600 + unat mi * 60 + unat s))"
proof -
  have b: "1970 \<le> y" "1 \<le> m" "m \<le> 12" "1 \<le> d" "d \<le> 31" using v by (auto simp: valid_date_def days_of_def split: if_splits)
  have m: "unat (of_nat m :: u8) = m" "uint (of_nat d :: u8) = int d" using b by (simp_all add: unsigned_of_nat take_bit_nat_eq_self)
  have d: "(word_of_int (int d - 1) :: u64) = of_nat (d - 1)" using b(4) by (simp add: of_nat_diff)
  have sy: "sint (of_nat y :: u32) = int y" using y by (simp add: signed_of_nat signed_take_bit_int_eq_self)
  have u: "ucast (of_nat d :: u8) = (of_nat d :: u64)" using b by (simp add: unsigned_of_nat take_bit_nat_eq_self)
  show "rtc_to_unix (of_nat y) (of_nat m) (of_nat d) h mi s = Some (of_nat (day_number (y, m, d) * 86400 + unat h * 3600 + unat mi * 60 + unat s))"
    using rtc_years_sum [OF y b(1), of 0] months_sum(1) [of y "[1..<m]"] y b
    by (simp add: rtc_to_unix_def m d day_number_def algebra_simps)
  show "rtc_unix_time_now (s, mi, h, of_nat d, of_nat m, of_nat y) = Some (of_nat (day_number (y, m, d) * 86400 + unat h * 3600 + unat mi * 60 + unat s))"
    using now_years_sum [OF b(1), of 0] months_sum(2) [of y "[1..<m]"] y b
    by (simp add: rtc_unix_time_now_def m d u sy day_number_def algebra_simps)
qed

lemma year_of_months: "sum_list (map (days_of y) [1..<12]) + days_of y 12 = year_len y"
  by (simp add: days_of_def year_len_def upt_rec)

lemma day_number_next: "valid_date D \<Longrightarrow> day_number (next_day D) = Suc (day_number D)"
proof (cases D)
  case (fields y m d)
  assume v: "valid_date D"
  then have m: "1 \<le> m" "m \<le> 12" "1 \<le> d" "d \<le> days_of y m" "1970 \<le> y" by (auto simp: valid_date_def fields)
  consider "d < days_of y m" | "d = days_of y m" "m < 12" | "d = days_of y m" "m = 12" using m by linarith
  then show ?thesis
  proof cases
    case 3
    then show ?thesis using year_of_months [of y] m by (simp add: day_number_def fields)
  qed (use m in \<open>auto simp: day_number_def fields\<close>)
qed

lemma days_of_pos: "1 \<le> m \<Longrightarrow> m \<le> 12 \<Longrightarrow> 1 \<le> days_of y m"
  by (simp add: days_of_def)

lemma next_day_valid: "valid_date D \<Longrightarrow> valid_date (next_day D)"
  using days_of_pos by (cases D) (auto simp: valid_date_def)

lemma nth_day: "valid_date ((next_day ^^ n) (1970, 1, 1)) \<and> day_number ((next_day ^^ n) (1970, 1, 1)) = n"
proof (induction n)
  case 0
  then show ?case by (simp add: valid_date_def day_number_def days_of_def)
next
  case (Suc n)
  then show ?case using next_day_valid day_number_next by simp
qed

section \<open>Properties\<close>

text \<open>
  C38. The clock counts days: on the \<open>n\<close>-th day after 1 January 1970, in the Gregorian calendar that adds one day at a time, for \<open>n\<close> below \<open>2 ^ 31 - 1970\<close>, and
  at any reading of the time of day, the conversion of \<^verbatim>\<open>syscall.c\<close> and the one of \<^verbatim>\<open>time.c\<close> both answer \<open>n\<close> days and that time of day in seconds.
\<close>

theorem rtc_to_unix_counts:
  assumes "n < 2 ^ 31 - 1970" "(next_day ^^ n) (1970, 1, 1) = (y, m, d)"
  shows "rtc_to_unix (of_nat y) (of_nat m) (of_nat d) h mi s = Some (of_nat (n * 86400 + unat h * 3600 + unat mi * 60 + unat s))
    \<and> rtc_unix_time_now (s, mi, h, of_nat d, of_nat m, of_nat y) = Some (of_nat (n * 86400 + unat h * 3600 + unat mi * 60 + unat s))"
proof -
  have "fst ((next_day ^^ k) (1970, 1, 1)) \<le> 1970 + k" for k
  proof (induction k)
    case (Suc k)
    then show ?case by (cases "(next_day ^^ k) (1970, 1, 1)") auto
  qed simp
  from this [of n] have "y < 2 ^ 31" using assms by simp
  then show ?thesis using rtc_to_unix_day [of y m d] nth_day [of n] assms(2) by simp
qed

theorem rtc_to_unix_counts_witness:
  "rtc_to_unix 1970 3 1 12 30 5 = Some (59 * 86400 + 45005) \<and> rtc_unix_time_now (5, 30, 12, 1, 3, 1970) = Some (59 * 86400 + 45005)"
proof -
  have f: "(next_day ^^ k) (y, m, d) = (y, m, d + k)" if "d + k \<le> days_of y m" for k y m d using that by (induction k) auto
  have "(next_day ^^ Suc 30) (1970, 1, 1) = (1970, 2, 1)" "(next_day ^^ Suc 27) (1970, 2, 1) = (1970, 3, 1)"
    using f [of 1 30 1970 1] f [of 1 27 1970 2] unfolding funpow.simps comp_apply by (simp_all add: days_of_def leap_year_def)
  then have "(next_day ^^ (Suc 27 + Suc 30)) (1970, 1, 1) = (1970, 3, 1)" unfolding funpow_add by simp
  then have "(next_day ^^ 59) (1970, 1, 1) = (1970, 3, 1)" by simp
  from rtc_to_unix_counts [OF _ this, of 12 30 5] show ?thesis by simp
qed

text \<open>
  The time zone cannot be set: \<^verbatim>\<open>sys_timezone\<close> with action 1 answers \<^verbatim>\<open>-EINVAL\<close> for every offset and changes nothing, since the
  lower bound \<^verbatim>\<open>-(12 * 60)\<close> is compared as an unsigned number.
\<close>

theorem sys_timezone_rejects: "sys_timezone 1 offset c = (err EINVAL, c)"
proof -
  have "offset > 840 \<or> offset < - 720" for offset :: u64
    using le_less_trans [of offset 840 "- 720"] by (force simp: word_less_alt)
  then show ?thesis by (simp add: sys_timezone_def)
qed

lemma sleep_until_ends:
  assumes tick: "\<And>c. boot_ticks c < target \<Longrightarrow> boot_ticks c < boot_ticks (Y c)"
  shows "\<exists>c'. sleep_until Y target c = Some c' \<and> target \<le> boot_ticks c'"
proof (induction c rule: measure_induct_rule [where f = "\<lambda>c. unat target - unat (boot_ticks c)"])
  case (less c)
  show ?case
  proof (cases "boot_ticks c < target")
    case True
    then have "unat target - unat (boot_ticks (Y c)) < unat target - unat (boot_ticks c)"
      using tick [OF True] by (simp add: word_less_nat_alt)
    then show ?thesis using less True by (subst sleep_until.simps) simp
  qed (subst sleep_until.simps, auto simp: not_less)
qed

text \<open>
  C39. Sleeping ends: when each yield lets the clock advance by some tick and the target is not past the last tick, \<^verbatim>\<open>msleep\<close>
  returns, and not before its target.
\<close>

theorem msleep_ends:
  assumes "\<And>c'. boot_ticks c' < boot_ticks c + (ms * hz c) div 1000 \<Longrightarrow> boot_ticks c' < boot_ticks (Y c')"
  shows "\<exists>c'. msleep Y ms c = Some c' \<and> boot_ticks c + (ms * hz c) div 1000 \<le> boot_ticks c'"
  unfolding msleep_def by (rule sleep_until_ends [OF assms])

definition clock_demo :: clock where
  "clock_demo = \<lparr>boot_ticks = 5, hz = 100, tz_offset_min = 0, clock_adjust_sec = 0\<rparr>"

theorem msleep_ends_witness: "\<exists>c'. msleep syscall_tick 30 clock_demo = Some c' \<and> 8 \<le> boot_ticks c'"
proof -
  have t: "boot_ticks clock_demo + (30 * hz clock_demo) div 1000 = 8" by (simp add: clock_demo_def)
  have "boot_ticks c' < boot_ticks (syscall_tick c')" if "boot_ticks c' < 8" for c'
    using that by (simp add: syscall_tick_def word_less_nat_alt unat_word_ariths)
  with msleep_ends [of clock_demo 30 syscall_tick] show ?thesis unfolding t by blast
qed

end
