(* ===== verification/Sys_Proc.thy ===== *)
theory Sys_Proc
  imports Sys_Base Vmm Signal Wait
begin

text \<open>
  The process and signal system calls of \<^verbatim>\<open>kernel/syscall.c\<close>, over the process table of \<open>Task\<close>, the signals of
  \<open>Signal\<close> and, where a child's address space is destroyed, the page tables of \<open>Vmm\<close>. User memory is a byte memory.
  \<^verbatim>\<open>sys_wait4\<close> here is the one the system call table uses; \<open>Wait\<close> models the one of \<^verbatim>\<open>kernel/wait.c\<close>.
\<close>

section \<open>Identity\<close>

abbreviation (input) cur :: "kernel \<Rightarrow> task" where "cur k \<equiv> tasks k (current_proc k)"

definition sys_getpid :: "kernel \<Rightarrow> u64" where "sys_getpid k = ucast (pid (cur k))"
definition sys_getuid :: "kernel \<Rightarrow> u64" where "sys_getuid k = ucast (uid (cur k))"
definition sys_getgid :: "kernel \<Rightarrow> u64" where "sys_getgid k = ucast (gid (cur k))"
definition sys_geteuid :: "kernel \<Rightarrow> u64" where "sys_geteuid k = ucast (euid (cur k))"
definition sys_getegid :: "kernel \<Rightarrow> u64" where "sys_getegid k = ucast (egid (cur k))"
definition sys_getppid :: "kernel \<Rightarrow> u64" where "sys_getppid k = ucast (ppid (cur k))"
definition sys_gettid :: "kernel \<Rightarrow> u64" where "sys_gettid k = ucast (pid (cur k))"

definition sys_setuid :: "u64 \<Rightarrow> kernel \<Rightarrow> u64 \<times> kernel" where
  "sys_setuid i k = (0, upd_task (current_proc k) (\<lambda>t. t\<lparr>uid := ucast i\<rparr>) k)"

definition sys_setgid :: "u64 \<Rightarrow> kernel \<Rightarrow> u64 \<times> kernel" where
  "sys_setgid i k = (0, upd_task (current_proc k) (\<lambda>t. t\<lparr>gid := ucast i\<rparr>) k)"

definition sys_getgroups :: "u64 \<Rightarrow> u64 \<Rightarrow> mem \<Rightarrow> kernel \<Rightarrow> u64 \<times> mem" where
  "sys_getgroups n lst m k =
     (if n = 0 then (1, m)
      else if \<not> is_user_range lst (n * 4) then (err EFAULT, m)
      else (1, if n \<ge> 1 then store m (unat lst) (mem32 (gid (cur k))) else m))"

section \<open>Signals\<close>

text \<open>The 32 bytes of \<^verbatim>\<open>struct sigaction\<close>.\<close>

definition sigaction_bytes :: "sigaction \<Rightarrow> u8 list" where
  "sigaction_bytes a = mem64 (sa_handler a) @ mem64 (sa_flags a) @ mem64 (sa_restorer a) @ mem64 (sa_mask a)"

definition load_sigaction :: "mem \<Rightarrow> nat \<Rightarrow> sigaction" where
  "load_sigaction m a = \<lparr>sa_handler = load64 m a, sa_flags = load64 m (a + 8), sa_restorer = load64 m (a + 16), sa_mask = load64 m (a + 24)\<rparr>"

text \<open>The old action is stored before the new one is read.\<close>

definition sys_rt_sigaction :: "u64 \<Rightarrow> u64 \<Rightarrow> u64 \<Rightarrow> mem \<Rightarrow> kernel \<Rightarrow> u64 \<times> mem \<times> kernel" where
  "sys_rt_sigaction signum act oldact m k =
     (if signum = 0 \<or> signum \<ge> 32 \<or> unat signum = SIGKILL \<or> unat signum = SIGSTOP then (err EINVAL, m, k)
      else let i = unat signum - 1;
               m1 = (if oldact \<noteq> 0 \<and> is_user_range oldact 32
                     then store m (unat oldact) (sigaction_bytes (sig_actions (cur k) ! i)) else m);
               k1 = (if act \<noteq> 0 \<and> is_user_range act 32
                     then upd_task (current_proc k) (\<lambda>t. t\<lparr>sig_actions := (sig_actions t)[i := load_sigaction m1 (unat act)]\<rparr>) k else k)
           in (0, m1, k1))"

definition sys_rt_sigprocmask :: "u64 \<Rightarrow> u64 \<Rightarrow> u64 \<Rightarrow> mem \<Rightarrow> kernel \<Rightarrow> u64 \<times> mem \<times> kernel" where
  "sys_rt_sigprocmask how nset oldset m k =
     (let m1 = (if oldset \<noteq> 0 \<and> is_user_range oldset 8 then store m (unat oldset) (mem64 (sig_blocked (cur k))) else m);
          k1 = (if nset \<noteq> 0 \<and> is_user_range nset 8 then
                  (let mask = load64 m1 (unat nset)
                   in upd_task (current_proc k) (\<lambda>t. t\<lparr>sig_blocked :=
                        (if how = 0 then mask else if how = 1 then sig_blocked t OR mask
                         else if how = 2 then sig_blocked t AND NOT mask else sig_blocked t)\<rparr>) k)
                else k)
      in (0, m1, k1))"

definition sys_rt_sigreturn :: u64 where
  "sys_rt_sigreturn = 0"

definition sys_kill :: "u64 \<Rightarrow> u64 \<Rightarrow> kernel \<Rightarrow> (u64 \<times> kernel) option" where
  "sys_kill i sig k =
     (if sig \<ge> 32 then Some (err EINVAL, k)
      else do {
        target \<leftarrow> proc_find (ucast i) k;
        if target = 0 then Some (err ESRCH, k)
        else if sig = 0 then Some (0, k)
        else if unat sig = SIGKILL then do {
          let k1 = upd_task target (\<lambda>t. t\<lparr>exit_status := - 1, state := TASK_ZOMBIE\<rparr>) k;
          parent \<leftarrow> proc_find (ppid (tasks k1 target)) k1;
          k2 \<leftarrow> (if parent \<noteq> 0 \<and> state (tasks k1 parent) = TASK_BLOCKED
                then k_enqueue parent (upd_task parent (\<lambda>t. t\<lparr>state := TASK_READY\<rparr>) k1) else Some k1);
          Some (0, k2)
        }
        else do { (r, k1) \<leftarrow> send_signal (sint (ucast i :: u32)) (sint (ucast sig :: u32)) k; Some (0, k1) }
      })"

section \<open>Creation and end\<close>

definition sys_sched_yield :: "u64 \<Rightarrow> kernel \<Rightarrow> (u64 \<times> kernel) option" where
  "sys_sched_yield user_stack k = map_option (Pair 0) (yield user_stack k)"

definition sb_replicate :: "spawn_env \<Rightarrow> u64 \<Rightarrow> u64 list \<Rightarrow> kernel \<Rightarrow> (u64 \<times> kernel) option" where
  "sb_replicate e fork_child_entry regs k = do {
     (child, k1) \<leftarrow> task_fork e fork_child_entry regs k;
     Some (if child = 0 then err EAGAIN else if current_proc k1 = child then 0 else ucast (pid (tasks k1 child)), k1)
   }"

definition sb_terminate :: "u64 \<Rightarrow> kernel \<Rightarrow> kernel option" where
  "sb_terminate status k = task_exit (sint (ucast status :: u32)) k"

definition sb_terminate_group :: "u64 \<Rightarrow> kernel \<Rightarrow> kernel option" where
  "sb_terminate_group status k = task_exit (sint (ucast status :: u32)) k"

text \<open>
  The walk of \<^verbatim>\<open>sys_wait4\<close>: the first zombie child that \<open>pid\<close> selects, or \<open>0\<close>, whether such a child was seen, and
  whether one of them can still run.
\<close>

definition wait_match :: "u64 \<Rightarrow> u32 \<Rightarrow> task \<Rightarrow> bool" where
  "wait_match i me t \<longleftrightarrow> ppid t = me \<and> (i = 0 \<or> i = - 1 \<or> pid t = ucast i \<or> i = - 2)"

partial_function (option) wait4_scan :: "kernel \<Rightarrow> u64 \<Rightarrow> u32 \<Rightarrow> bool \<Rightarrow> bool \<Rightarrow> nat \<Rightarrow> (nat \<times> bool \<times> bool) option" where
  "wait4_scan k i me found live p =
     (let t = tasks k p; mt = wait_match i me t; found' = (found \<or> mt); live' = (live \<or> (mt \<and> state t < 3))
      in if mt \<and> state t = TASK_ZOMBIE then Some (p, True, live)
         else if pnext t = proc_list k then Some (0, found', live') else wait4_scan k i me found' live' (pnext t))"

definition reap_child :: "nat \<Rightarrow> kernel \<Rightarrow> vmm \<Rightarrow> (kernel \<times> vmm) option" where
  "reap_child p k v = do {
     q \<leftarrow> find_prev k p p;
     let k1 = upd_task q (\<lambda>t. t\<lparr>pnext := pnext (tasks k p)\<rparr>) k;
     let k2 = (if p = proc_list k1 then k1\<lparr>proc_list := pnext (tasks k1 p)\<rparr> else k1);
     let k3 = (if proc_list k2 = p then k2\<lparr>proc_list := 0\<rparr> else k2);
     s \<leftarrow> sched_remove p (ksched k3);
     let v1 = (if cr3 (tasks k3 p) \<noteq> 0 then vmm_destroy_address_space (cr3 (tasks k3 p) AND NOT 0xFFF) v else v);
     Some (k3\<lparr>ksched := s, freed_procs := insert p (freed_procs k3)\<rparr>, v1)
   }"

text \<open>One turn of the loop; no answer means that the caller is blocked, yields and tries again.\<close>

definition sys_wait4_turn :: "u64 \<Rightarrow> u64 \<Rightarrow> u64 \<Rightarrow> mem \<Rightarrow> kernel \<Rightarrow> vmm \<Rightarrow> (u64 option \<times> mem \<times> kernel \<times> vmm) option" where
  "sys_wait4_turn i wstatus options m k v =
     (if proc_list k = 0 then Some (Some (err ECHILD), m, k, v)
      else do {
        (p, found, live) \<leftarrow> wait4_scan k i (pid (cur k)) False False (proc_list k);
        if p \<noteq> 0 then do {
          let m1 = (if wstatus \<noteq> 0 \<and> is_user_range wstatus 4
                    then store m (unat wstatus) (mem32 (word_of_int (exit_status (tasks k p)) AND 0xFF)) else m);
          (k1, v1) \<leftarrow> reap_child p k v;
          Some (Some (ucast (pid (tasks k p))), m1, k1, v1)
        }
        else if \<not> found then Some (Some (err ECHILD), m, k, v)
        else if options AND 1 \<noteq> 0 then Some (Some 0, m, k, v)
        else if \<not> live then Some (Some (err ECHILD), m, k, v)
        else Some (None, m, upd_task (current_proc k) (\<lambda>t. t\<lparr>state := TASK_BLOCKED\<rparr>) k, v)
      })"

section \<open>Answers that do not depend on the state\<close>

text \<open>A string literal with its NUL.\<close>

definition cbytes :: "string \<Rightarrow> u8 list" where
  "cbytes s = map (\<lambda>c. of_char c) s @ [0]"

definition sys_uname :: "u64 \<Rightarrow> mem \<Rightarrow> u64 \<times> mem" where
  "sys_uname buf m =
     (if \<not> is_user_range buf 390 then (err EFAULT, m)
      else let b = unat buf;
               m1 = store m b (cbytes ''ShadowBox'');
               m2 = store m1 (b + 65) (cbytes ''shadowbox'');
               m3 = store m2 (b + 130) (cbytes ''0.1.0'');
               m4 = store m3 (b + 195) (cbytes ''ShadowBox 0.1.0'');
               m5 = store m4 (b + 260) (cbytes ''x86_64'')
           in (0, store m5 (b + 325) [0]))"

definition sys_getcwd :: "u64 \<Rightarrow> u64 \<Rightarrow> mem \<Rightarrow> u64 \<times> mem" where
  "sys_getcwd buf n m =
     (if \<not> is_user_range buf n then (err EFAULT, m)
      else let m1 = (if n > 0 then store m (unat buf) [of_char CHR ''/''] else m)
           in (1, if n > 1 then store m1 (unat buf + 1) [0] else m1))"

definition sys_getrlimit :: "u64 \<Rightarrow> mem \<Rightarrow> u64 \<times> mem" where
  "sys_getrlimit rlim m =
     (if \<not> is_user_range rlim 16 then (err EFAULT, m)
      else (0, store m (unat rlim) (mem64 0xFFFFFFFFFFFFFFFF @ mem64 0xFFFFFFFFFFFFFFFF)))"

definition sys_getrusage :: "u64 \<Rightarrow> mem \<Rightarrow> u64 \<times> mem" where
  "sys_getrusage usage m =
     (if \<not> is_user_range usage 72 then (err EFAULT, m) else (0, store m (unat usage) (replicate 72 0)))"

definition sys_mem_info :: "u64 \<Rightarrow> mem \<Rightarrow> pmm \<Rightarrow> u64 \<times> mem" where
  "sys_mem_info buf m pm =
     (if \<not> is_user_range buf 16 then (err EFAULT, m)
      else let (k_total, k_used) = pmm_get_info pm in (0, store m (unat buf) (mem64 (of_nat k_total) @ mem64 k_used)))"

text \<open>
  The entries of \<^verbatim>\<open>struct proc_info\<close>, 64 bytes each: the four bytes of padding and what follows the name's NUL keep what
  was there.
\<close>

definition store_info :: "mem \<Rightarrow> nat \<Rightarrow> proc_info \<Rightarrow> mem" where
  "store_info m a i =
     store (store m a (mem32 (i_pid i) @ mem32 (i_ppid i) @ mem32 (i_state i))) (a + 16) (mem64 (i_kstack i) @ mem64 (i_cr3 i) @ cbytes (i_name i))"

fun store_infos :: "mem \<Rightarrow> nat \<Rightarrow> proc_info list \<Rightarrow> mem" where
  "store_infos m a [] = m"
| "store_infos m a (i # is) = store_infos (store_info m a i) (a + 64) is"

definition sys_proc_info :: "u64 \<Rightarrow> u64 \<Rightarrow> mem \<Rightarrow> kernel \<Rightarrow> (u64 \<times> mem) option" where
  "sys_proc_info buf mx m k =
     (if \<not> is_user_range buf (mx * 64) then Some (err EFAULT, m)
      else map_option (\<lambda>is. (of_nat (length is), store_infos m (unat buf) is)) (task_proc_info (nat (sint (ucast mx :: u32))) k))"

section \<open>Words in user memory\<close>

lemma store_append: "store m a (xs @ ys) = store (store m a xs) (a + length xs) ys"
  by (rule ext) (auto simp: store_def nth_append)

lemma load64_cong: "(\<And>i. i < 8 \<Longrightarrow> m (a + i) = m' (a + i)) \<Longrightarrow> load64 m a = load64 m' a"
  unfolding load64_def by (rule foldr_cong) auto

lemma load64_other: "a + 8 \<le> b \<or> b + length bs \<le> a \<Longrightarrow> load64 (store m b bs) a = load64 m a"
  by (rule load64_cong) (auto simp: store_def)

lemma load64_at: "a = b \<Longrightarrow> load64 (store m b (mem64 w)) a = w"
  by simp

lemma load_sigaction_store [simp]: "load_sigaction (store m a (sigaction_bytes x)) a = x"
  by (simp add: load_sigaction_def sigaction_bytes_def store_append load64_other load64_at)

section \<open>Properties\<close>

text \<open>
  The action set for a signal is the action read back: for every signal that has a settable action, \<^verbatim>\<open>sys_rt_sigaction\<close> with
  the action at one user address, followed by a query into another, leaves there the 32 bytes that were at the first; for every
  other number the call answers \<^verbatim>\<open>-EINVAL\<close> and changes nothing.
\<close>

theorem sigaction_roundtrip:
  assumes "length (sig_actions (cur k)) = 32" "act \<noteq> 0" "is_user_range act 32" "old \<noteq> 0" "is_user_range old 32"
  shows "if n = 0 \<or> n \<ge> 32 \<or> n = 9 \<or> n = 19 then sys_rt_sigaction n act 0 m k = (err EINVAL, m, k)
    else \<exists>k'. sys_rt_sigaction n act 0 m k = (0, m, k')
      \<and> load_sigaction (fst (snd (sys_rt_sigaction n 0 old m k'))) (unat old) = load_sigaction m (unat act)
      \<and> snd (snd (sys_rt_sigaction n 0 old m k')) = k'"
proof -
  have n9: "unat n = 9 \<longleftrightarrow> n = 9" "unat n = 19 \<longleftrightarrow> n = 19" by (simp_all add: word_unat_eq_iff)
  have "unat n - 1 < 32" if "\<not> n \<ge> 32" using that by (simp add: word_le_nat_alt)
  then show ?thesis using assms unfolding n9 by (auto simp: sys_rt_sigaction_def n9 upd_task_def Let_def)
qed

definition sig_mem :: mem where
  "sig_mem = store (\<lambda>_. 0) 0x1000 (sigaction_bytes \<lparr>sa_handler = 0x4000, sa_flags = 1, sa_restorer = 0, sa_mask = 2\<rparr>)"

theorem sigaction_roundtrip_witness:
  "\<exists>k'. sys_rt_sigaction 15 0x1000 0 sig_mem init_kernel = (0, sig_mem, k')
     \<and> sa_handler (load_sigaction (fst (snd (sys_rt_sigaction 15 0 0x2000 sig_mem k'))) 0x2000) = 0x4000"
proof -
  have "length (sig_actions (cur init_kernel)) = 32" "is_user_range 0x1000 32" "is_user_range 0x2000 32"
    by (simp_all add: init_kernel_simps init_kernel_fields is_user_range_bound)
  from sigaction_roundtrip [of init_kernel "0x1000" "0x2000" 15 sig_mem, OF this(1) _ this(2) _ this(3)] show ?thesis
    by (auto simp: sig_mem_def)
qed

text \<open>
  The system call lets a process block every signal: \<^verbatim>\<open>sys_rt_sigprocmask\<close> with \<open>how\<close> 0 installs the mask it reads from
  user memory unchanged, and with all bits set no signal is delivered any more, \<^verbatim>\<open>SIGKILL\<close> included, whatever is pending. (The
  function of \<^verbatim>\<open>kernel/signal.c\<close> that is not called here removes \<^verbatim>\<open>SIGKILL\<close> and \<^verbatim>\<open>SIGSTOP\<close> from the mask.)
\<close>

theorem sigprocmask_blocks_kill:
  assumes "nset \<noteq> 0" "is_user_range nset 8" "load64 m (unat nset) = - 1"
  shows "\<exists>k'. sys_rt_sigprocmask 0 nset 0 m k = (0, m, k') \<and> sig_blocked (cur k') = - 1
    \<and> check_and_deliver_signals k' = Some (Nothing, k')"
  using assms by (simp add: sys_rt_sigprocmask_def check_and_deliver_signals_def Let_def upd_task_def)

theorem sigprocmask_blocks_kill_witness:
  "\<exists>k'. sys_rt_sigprocmask 0 0x1000 0 (store (\<lambda>_. 0) 0x1000 (mem64 (- 1))) kill_demo = (0, store (\<lambda>_. 0) 0x1000 (mem64 (- 1)), k')
     \<and> check_and_deliver_signals k' = Some (Nothing, k')"
proof -
  have "is_user_range 0x1000 8" by (simp add: is_user_range_bound)
  moreover have "load64 (store (\<lambda>_. 0) 0x1000 (mem64 (- 1))) (unat (0x1000 :: u64)) = - 1" by simp
  ultimately show ?thesis using sigprocmask_blocks_kill [of "0x1000" "store (\<lambda>_. 0) 0x1000 (mem64 (- 1))" kill_demo] by auto
qed

lemma find_ptr_set: "find_ptr P ps = 0 \<or> find_ptr P ps \<in> set ps"
  by (induction ps) (auto simp: find_ptr_def)

text \<open>
  \<^verbatim>\<open>SIGKILL\<close> through the system call asks for no permission and cleans up nothing: for every caller, whatever its user, and every
  process of the table, \<^verbatim>\<open>sys_kill\<close> answers 0 and the target is a zombie with status -1; it keeps its open descriptors, and its place
  in the run queue, and the table stays well formed.
\<close>

theorem sys_kill_unchecked:
  assumes inv: "task_inv k ps" and t: "t \<in> set ps" "ucast i = pid (tasks k t)"
  shows "\<exists>k'. sys_kill i 9 k = Some (0, k') \<and> state (tasks k' t) = TASK_ZOMBIE \<and> exit_status (tasks k' t) = - 1
    \<and> fds (tasks k' t) = fds (tasks k t) \<and> files k' = files k
    \<and> (t \<in> set (runqueue (ksched k)) \<longrightarrow> t \<in> set (runqueue (ksched k'))) \<and> task_inv k' ps"
proof -
  note I = task_invD [OF inv]
  have inj: "q = t" if "q \<in> set ps" "pid (tasks k q) = pid (tasks k t)" for q
    using I(4) t(1) that unfolding pid_part_def by (meson inj_onD)
  have "find (\<lambda>q. pid (tasks k q) = ucast i) ps = Some t"
  proof (cases "find (\<lambda>q. pid (tasks k q) = ucast i) ps")
    case None
    then show ?thesis using t by (auto simp: find_None_iff)
  next
    case (Some q)
    then have "q \<in> set ps" "pid (tasks k q) = ucast i" by (auto simp: find_Some_iff)
    then show ?thesis using inj t(2) Some by simp
  qed
  then have find: "proc_find (ucast i) k = Some t" by (simp add: proc_find_ring [OF I(1)] find_ptr_def)
  have t0: "t \<noteq> 0" using I(6) t(1) by blast
  define k1 where "k1 = upd_task t (\<lambda>t. t\<lparr>exit_status := - 1, state := TASK_ZOMBIE\<rparr>) k"
  have inv1: "task_inv k1 ps" using inv unfolding k1_def by (subst task_inv_cong) (simp_all add: upd_task_def)
  note I1 = task_invD [OF inv1]
  define q where "q = find_ptr (\<lambda>q. pid (tasks k1 q) = ppid (tasks k1 t)) ps"
  have par: "proc_find (ppid (tasks k1 t)) k1 = Some q" by (simp add: proc_find_ring [OF I1(1)] q_def)
  have k1: "tasks k1 t = (tasks k t)\<lparr>exit_status := - 1, state := TASK_ZOMBIE\<rparr>" "ksched k1 = ksched k" "files k1 = files k"
    by (simp_all add: k1_def upd_task_def)
  have run: "sys_kill i 9 k = map_option (Pair 0) (if q \<noteq> 0 \<and> state (tasks k1 q) = TASK_BLOCKED
      then k_enqueue q (upd_task q (\<lambda>t. t\<lparr>state := TASK_READY\<rparr>) k1) else Some k1)"
    using find t0 par by (simp add: sys_kill_def k1_def [symmetric] map_option_case split: option.split)
  show ?thesis
  proof (cases "q \<noteq> 0 \<and> state (tasks k1 q) = TASK_BLOCKED")
    case True
    let ?k2 = "upd_task q (\<lambda>t. t\<lparr>state := TASK_READY\<rparr>) k1"
    have "q = 0 \<or> q \<in> set ps" unfolding q_def by (rule find_ptr_set)
    then have "q \<in> set ps" using True by simp
    moreover have "task_inv ?k2 ps" using inv1 by (subst task_inv_cong) (simp_all add: upd_task_def)
    ultimately obtain k3 where k3: "k_enqueue q ?k2 = Some k3" "task_inv k3 ps" "tasks k3 = tasks ?k2"
        "set (runqueue (ksched k3)) = insert q (set (runqueue (ksched ?k2)))" using k_enqueue_inv [of ?k2 ps q] by metis
    have "q \<noteq> t" using True k1(1) by auto
    moreover have "files k3 = files k1" using k3(1) by (auto simp: k_enqueue_def upd_task_def)
    ultimately show ?thesis using run True k3 k1 by (simp add: upd_task_def)
  qed (use run k1 inv1 in auto)
qed

theorem sys_kill_unchecked_witness: "\<exists>k'. sys_kill 2 9 wait_demo = Some (0, k') \<and> state (tasks k' 16) = TASK_ZOMBIE"
proof -
  have "ucast (2 :: u64) = pid (tasks wait_demo 16)" by (simp add: wait_demo_def)
  then show ?thesis using sys_kill_unchecked [OF wait_demo_inv, of 16 2] by auto
qed

section \<open>Waiting\<close>

definition zombie_match :: "kernel \<Rightarrow> u64 \<Rightarrow> u32 \<Rightarrow> nat \<Rightarrow> bool" where
  "zombie_match k i me p \<longleftrightarrow> wait_match i me (tasks k p) \<and> state (tasks k p) = TASK_ZOMBIE"

definition live_match :: "kernel \<Rightarrow> u64 \<Rightarrow> u32 \<Rightarrow> nat \<Rightarrow> bool" where
  "live_match k i me p \<longleftrightarrow> wait_match i me (tasks k p) \<and> state (tasks k p) < 3"

lemma wait4_scan_chain:
  "chain (\<lambda>p. pnext (tasks k p)) (p # ps) (proc_list k) \<Longrightarrow> proc_list k \<notin> set ps \<Longrightarrow>
   (case find (zombie_match k i me) (p # ps) of
      Some q \<Rightarrow> \<exists>l. wait4_scan k i me found live p = Some (q, True, l)
    | None \<Rightarrow> wait4_scan k i me found live p =
        Some (0, found \<or> (\<exists>q \<in> set (p # ps). wait_match i me (tasks k q)), live \<or> (\<exists>q \<in> set (p # ps). live_match k i me q)))"
proof (induction ps arbitrary: p found live)
  case Nil
  then show ?case by (subst (1 2) wait4_scan.simps) (auto simp: zombie_match_def live_match_def Let_def)
next
  case (Cons q ps)
  then have q: "q \<noteq> proc_list k" "pnext (tasks k p) = q" by auto
  show ?case
  proof (cases "zombie_match k i me p")
    case True
    then show ?thesis by (subst (1 2) wait4_scan.simps) (simp add: zombie_match_def Let_def)
  next
    case False
    then have "wait4_scan k i me found live p =
        wait4_scan k i me (found \<or> wait_match i me (tasks k p)) (live \<or> live_match k i me p) q"
      using q by (subst wait4_scan.simps) (auto simp: zombie_match_def live_match_def Let_def)
    then show ?thesis
      using False Cons.IH [of q "found \<or> wait_match i me (tasks k p)" "live \<or> live_match k i me p"] Cons.prems
      by (auto split: option.splits)
  qed
qed

lemma find_prev_skip:
  "chain (\<lambda>p. pnext (tasks k p)) (r # rs) e \<Longrightarrow> p \<notin> set rs \<Longrightarrow> e \<noteq> p \<Longrightarrow> find_prev k p r = find_prev k p e"
proof (induction rs arbitrary: r)
  case Nil
  then show ?case by (subst find_prev.simps) simp
next
  case (Cons r' rs)
  then show ?case by (subst find_prev.simps) simp
qed

lemma find_prev_from:
  assumes ring: "is_ring k ps" and p: "p \<in> set ps"
  shows "find_prev k p p = find_prev k p (proc_list k)"
proof (cases "p = proc_list k")
  case False
  obtain qs where ps: "ps = proc_list k # qs" "chain (\<lambda>p. pnext (tasks k p)) (proc_list k # qs) (proc_list k)"
    using is_ring_head [OF ring] by blast
  then obtain as ys where as: "qs = as @ p # ys" using p False by (auto dest: split_list)
  have "chain nx (xs @ zs) e \<Longrightarrow> chain nx zs e" for nx xs zs and e :: nat
    by (induction xs) (auto dest: chain_tl)
  then have "chain (\<lambda>p. pnext (tasks k p)) (p # ys) (proc_list k)" using ps as by (metis append_Cons)
  moreover have "p \<notin> set ys" using ring ps(1) as by (auto simp: is_ring_def)
  ultimately show ?thesis using find_prev_skip False by metis
qed simp

lemma reap_child_unlink:
  assumes ring: "is_ring k ps" and p: "p \<in> set ps" and u: "unlink_child p k = Some k'" and pl: "proc_list k' \<noteq> p"
  shows "reap_child p k v = map_option (\<lambda>s. (k'\<lparr>ksched := s\<rparr>,
      if cr3 (tasks k p) \<noteq> 0 then vmm_destroy_address_space (cr3 (tasks k p) AND NOT 0xFFF) v else v)) (sched_remove p (ksched k))"
  using u pl find_prev_from [OF ring p]
  by (cases "find_prev k p (proc_list k)"; cases "sched_remove p (ksched k)")
     (auto simp: reap_child_def unlink_child_def upd_task_def Let_def split: if_splits)

text \<open>Reaping a zombie other than the caller keeps the process table and takes it out of the run queue.\<close>

lemma reap_child_inv:
  assumes inv: "task_inv k ps" and q: "q \<in> set ps" "q \<noteq> current_proc k"
  shows "\<exists>k'. reap_child q k v = Some (k', if cr3 (tasks k q) \<noteq> 0 then vmm_destroy_address_space (cr3 (tasks k q) AND NOT 0xFFF) v else v)
    \<and> is_ring k' (remove1 q ps) \<and> q \<notin> set (runqueue (ksched k')) \<and> q \<in> freed_procs k'
    \<and> ((\<forall>j < MAX_FDS. fds (tasks k q) ! j = 0) \<longrightarrow> task_inv k' (remove1 q ps))"
proof -
  note I = task_invD [OF inv]
  have "ps \<noteq> [q]" using I(5) q(2) by auto
  from unlink_child_ring [OF I(1) q(1) this] obtain r where
    u: "unlink_child q k = Some (k\<lparr>tasks := (tasks k)(r := (tasks k r)\<lparr>pnext := pnext (tasks k q)\<rparr>),
        proc_list := (if proc_list k = q then pnext (tasks k q) else proc_list k), freed_procs := insert q (freed_procs k)\<rparr>)"
    and ring: "is_ring (k\<lparr>tasks := (tasks k)(r := (tasks k r)\<lparr>pnext := pnext (tasks k q)\<rparr>),
        proc_list := (if proc_list k = q then pnext (tasks k q) else proc_list k), freed_procs := insert q (freed_procs k)\<rparr>) (remove1 q ps)" .
  define k1 where "k1 = k\<lparr>tasks := (tasks k)(r := (tasks k r)\<lparr>pnext := pnext (tasks k q)\<rparr>),
        proc_list := (if proc_list k = q then pnext (tasks k q) else proc_list k), freed_procs := insert q (freed_procs k)\<rparr>"
  have sub: "set (remove1 q ps) = set ps - {q}" using I(1) by (simp add: is_ring_def)
  have pl: "proc_list k1 \<noteq> q" using ring sub unfolding k1_def [symmetric] is_ring_def by (metis DiffD2 hd_in_set singletonI)
  obtain s where s: "sched_remove q (ksched k) = Some s" "sched_inv s" "mset (runqueue s) = mset (runqueue (ksched k)) - {#q#}"
      "procs s = procs (ksched k)" using sched_remove_spec [of "ksched k" q] I(3) by (auto simp: sched_part_def)
  define k' where "k' = k1\<lparr>ksched := s\<rparr>"
  have "distinct (runqueue (ksched k))" using I(3) by (simp add: sched_part_def sched_inv_def)
  moreover have "set (runqueue s) = set (remove1 q (runqueue (ksched k)))" using s(3) by (metis mset_remove1 mset_eq_setD)
  ultimately have rq: "set (runqueue s) = set (runqueue (ksched k)) - {q}" by simp
  have fds': "fds (tasks k' x) = fds (tasks k x)" "pid (tasks k' x) = pid (tasks k x)" for x by (auto simp: k'_def k1_def)
  have "fd_inv k' (remove1 q ps)" if fq: "\<forall>j < MAX_FDS. fds (tasks k q) ! j = 0" by (rule fd_inv_reap [OF I(2) q(1) fq]) (simp_all add: k'_def k1_def)
  moreover have "pid_part k' (remove1 q ps)" using I(4) sub fds' by (auto simp: pid_part_def k'_def k1_def inj_on_def)
  moreover have "no_fifo s = no_fifo (ksched k)" using s(4) by (simp add: no_fifo_def)
  then have "sched_part k' (remove1 q ps)" using I(3) sub rq s(2) by (auto simp: sched_part_def k'_def)
  moreover have "current_proc k' \<in> set (remove1 q ps)" using I(5) sub q(2) by (simp add: k'_def k1_def)
  moreover have "is_ring k' (remove1 q ps)" using ring unfolding k1_def [symmetric] by (simp add: k'_def is_ring_def)
  ultimately have "is_ring k' (remove1 q ps) \<and> ((\<forall>j < MAX_FDS. fds (tasks k q) ! j = 0) \<longrightarrow> task_inv k' (remove1 q ps))" by (simp add: task_inv_def)
  moreover have "reap_child q k v = Some (k', if cr3 (tasks k q) \<noteq> 0 then vmm_destroy_address_space (cr3 (tasks k q) AND NOT 0xFFF) v else v)"
    using reap_child_unlink [OF I(1) q(1) u [folded k1_def] pl] s(1) by (simp add: k'_def)
  ultimately show ?thesis using rq by (intro exI [of _ k']) (auto simp: k'_def k1_def)
qed

text \<open>The children that an argument of \<^verbatim>\<open>wait4\<close> selects: all for 0, -1 and -2, otherwise the one with that number.\<close>

definition selected_child :: "kernel \<Rightarrow> u64 \<Rightarrow> nat \<Rightarrow> bool" where
  "selected_child k i p \<longleftrightarrow> ppid (tasks k p) = pid (tasks k (current_proc k)) \<and> (i \<in> {0, - 1, - 2} \<or> pid (tasks k p) = ucast i)"

lemma task_live: "(x :: u32) < 3 \<longleftrightarrow> x = TASK_RUNNING \<or> x = TASK_READY \<or> x = TASK_BLOCKED"
proof -
  have "x < 3 \<longleftrightarrow> unat x = 0 \<or> unat x = 1 \<or> unat x = 2" by (auto simp: word_less_nat_alt)
  then show ?thesis by (simp add: word_unat_eq_iff)
qed

lemma wait_match_selected: "wait_match i (pid (tasks k (current_proc k))) (tasks k p) = selected_child k i p"
  by (auto simp: wait_match_def selected_child_def)

text \<open>
  C25. Waiting through the system call: \<^verbatim>\<open>sys_wait4\<close> reaps the first zombie, in the order of the process ring, among the children that
  \<open>pid\<close> selects: it answers its number, stores the low byte of its status, takes it out of the process ring and of the run queue, frees it and destroys its
  address space; if the zombie had closed its descriptors, as \<^verbatim>\<open>task_exit\<close> does and \<^verbatim>\<open>sys_kill\<close> does not, the process
  table invariant is kept. Without such a zombie it answers \<^verbatim>\<open>-ECHILD\<close> when no child is selected, 0 with \<^verbatim>\<open>WNOHANG\<close>, and otherwise blocks
  the caller if some selected child can still run, and answers \<^verbatim>\<open>-ECHILD\<close> if none can.
\<close>

theorem sys_wait4_reaps:
  assumes inv: "task_inv k ps" and alive: "state (tasks k (current_proc k)) \<noteq> TASK_ZOMBIE" and w: "w \<noteq> 0" "is_user_range w 4"
  shows "hd ps = proc_list k \<and> (case find (\<lambda>q. selected_child k i q \<and> state (tasks k q) = TASK_ZOMBIE) ps of
      Some q \<Rightarrow> \<exists>k'. sys_wait4_turn i w opt m k v = Some (Some (ucast (pid (tasks k q))),
           store m (unat w) (mem32 (word_of_int (exit_status (tasks k q)) AND 0xFF)), k',
           if cr3 (tasks k q) \<noteq> 0 then vmm_destroy_address_space (cr3 (tasks k q) AND NOT 0xFFF) v else v)
        \<and> is_ring k' (remove1 q ps) \<and> q \<notin> set (runqueue (ksched k')) \<and> q \<in> freed_procs k'
        \<and> ((\<forall>j < MAX_FDS. fds (tasks k q) ! j = 0) \<longrightarrow> task_inv k' (remove1 q ps))
    | None \<Rightarrow> sys_wait4_turn i w opt m k v =
        (if \<not> (\<exists>q \<in> set ps. selected_child k i q) then Some (Some (err ECHILD), m, k, v)
         else if opt AND 1 \<noteq> 0 then Some (Some 0, m, k, v)
         else if \<not> (\<exists>q \<in> set ps. selected_child k i q \<and> state (tasks k q) \<in> {TASK_RUNNING, TASK_READY, TASK_BLOCKED})
              then Some (Some (err ECHILD), m, k, v)
         else Some (None, m, upd_task (current_proc k) (\<lambda>t. t\<lparr>state := TASK_BLOCKED\<rparr>) k, v)))"
proof -
  note I = task_invD [OF inv]
  let ?c = "current_proc k"
  let ?me = "pid (tasks k ?c)"
  obtain qs where ps: "ps = proc_list k # qs" "proc_list k \<notin> set qs" "proc_list k \<noteq> 0"
    "chain (\<lambda>p. pnext (tasks k p)) (proc_list k # qs) (proc_list k)" using is_ring_head [OF I(1)] .
  note scan = wait4_scan_chain [OF ps(4,2), of i ?me False False, folded ps(1)]
  have zm: "zombie_match k i ?me = (\<lambda>q. selected_child k i q \<and> state (tasks k q) = TASK_ZOMBIE)"
    by (simp add: zombie_match_def wait_match_selected fun_eq_iff)
  have lm: "live_match k i ?me q \<longleftrightarrow> selected_child k i q \<and> state (tasks k q) \<in> {TASK_RUNNING, TASK_READY, TASK_BLOCKED}" for q
    by (simp add: live_match_def wait_match_selected task_live)
  have hd: "hd ps = proc_list k" using ps(1) by simp
  show ?thesis
  proof (cases "find (zombie_match k i ?me) ps")
    case None
    then have "wait4_scan k i ?me False False (proc_list k) =
        Some (0, \<exists>q \<in> set ps. wait_match i ?me (tasks k q), \<exists>q \<in> set ps. live_match k i ?me q)" using scan by simp
    then show ?thesis using ps(3) None hd unfolding zm by (simp add: sys_wait4_turn_def wait_match_selected lm)
  next
    case (Some q)
    then have q: "q \<in> set ps" "zombie_match k i ?me q" by (auto simp: find_Some_iff)
    obtain l where l: "wait4_scan k i ?me False False (proc_list k) = Some (q, True, l)" using scan Some by auto
    have "q \<noteq> ?c" using q(2) alive by (auto simp: zombie_match_def)
    then obtain k' where r: "reap_child q k v = Some (k', if cr3 (tasks k q) \<noteq> 0 then vmm_destroy_address_space (cr3 (tasks k q) AND NOT 0xFFF) v else v)"
      "is_ring k' (remove1 q ps)" "q \<notin> set (runqueue (ksched k'))" "q \<in> freed_procs k'"
      "(\<forall>j < MAX_FDS. fds (tasks k q) ! j = 0) \<longrightarrow> task_inv k' (remove1 q ps)" using reap_child_inv [OF inv q(1)] by blast
    have "q \<noteq> 0" using I(6) q(1) by blast
    then have "sys_wait4_turn i w opt m k v = Some (Some (ucast (pid (tasks k q))),
        store m (unat w) (mem32 (word_of_int (exit_status (tasks k q)) AND 0xFF)), k',
        if cr3 (tasks k q) \<noteq> 0 then vmm_destroy_address_space (cr3 (tasks k q) AND NOT 0xFFF) v else v)"
      using l ps(3) w r(1) by (simp add: sys_wait4_turn_def)
    then show ?thesis using Some hd r unfolding zm by auto
  qed
qed

theorem sys_wait4_reaps_witness:
  "\<exists>k'. sys_wait4_turn (- 1) 0x5000 0 (\<lambda>_. 0) wait_demo vm_demo = Some (Some 2, store (\<lambda>_. 0) 0x5000 (mem32 7), k', vm_demo) \<and> task_inv k' [8]"
proof -
  have t: "current_proc wait_demo = 8" "pid (tasks wait_demo 8) = 1" "ppid (tasks wait_demo 8) = 0"
    "state (tasks wait_demo 8) = 0" "pid (tasks wait_demo 16) = 2" "ppid (tasks wait_demo 16) = 1"
    "state (tasks wait_demo 16) = 3" "exit_status (tasks wait_demo 16) = 7" "cr3 (tasks wait_demo 16) = 0"
    "fds (tasks wait_demo 16) = replicate MAX_FDS 0"
    by (simp_all add: wait_demo_def init_kernel_fields) (simp_all add: zero_task_def init_kernel_simps)
  have f: "find (\<lambda>q. selected_child wait_demo (- 1) q \<and> state (tasks wait_demo q) = TASK_ZOMBIE) [8, 16] = Some 16"
    by (simp add: selected_child_def t)
  have "is_user_range 0x5000 4" by (simp add: is_user_range_bound)
  then show ?thesis
    using sys_wait4_reaps [OF wait_demo_inv, where i = "- 1" and w = "0x5000" and opt = 0 and m = "\<lambda>_. 0" and v = vm_demo] t
    unfolding f by (simp, blast)
qed

end
