(* ===== verification/Sys_File.thy ===== *)
theory Sys_File
  imports Fs_Layer Sys_Base Ring
begin

text \<open>
  The file system calls of \<^verbatim>\<open>kernel/syscall.c\<close>: descriptors of \<open>Task\<close> over the nodes of \<open>Vfs\<close>, with the file systems of
  \<open>Fs_Layer\<close> and the pipes of the system call layer behind them.

  The state extends that of the file systems by the process table, user memory and the rings of the pipes, so that the
  functions behind a node can reach all of it. A node is one object: \<open>Vfs\<close> holds it, and the process table sees its
  flags, its \<^verbatim>\<open>impl\<close> and whether it has a \<^verbatim>\<open>close\<close> function (\<open>kview\<close>). Open files and pipes get fresh addresses. An
  operation has no result when it uses a freed file or pipe, an uninitialised path component or the result of a failed
  \<^verbatim>\<open>kmalloc\<close>, none of which the code checks.
\<close>

section \<open>State\<close>

record pipe_buf =
  pbuffer :: "u8 list"
  phead :: nat
  ptail :: nat

record sys = tarfs +
  kern :: kernel
  umem :: mem
  pipe_bufs :: "nat \<Rightarrow> pipe_buf"
  next_obj :: nat

definition fnode_of :: "vfs_node \<Rightarrow> fnode" where
  "fnode_of n = \<lparr>nflags = vflags n, impl = vimpl n, has_close = (close_fn n \<noteq> None)\<rparr>"

definition kview :: "'a sys_scheme \<Rightarrow> kernel" where
  "kview s = (kern s)\<lparr>kernel.nodes := \<lambda>p. fnode_of (vfs.nodes s p)\<rparr>"

definition set_kern :: "kernel \<Rightarrow> 'a sys_scheme \<Rightarrow> 'a sys_scheme" where
  "set_kern k s = s\<lparr>kern := k\<rparr>"

abbreviation (input) me :: "'a sys_scheme \<Rightarrow> nat" where "me s \<equiv> current_proc (kern s)"
abbreviation (input) self :: "'a sys_scheme \<Rightarrow> task" where "self s \<equiv> tasks (kern s) (current_proc (kern s))"

text \<open>\<^verbatim>\<open>kmalloc\<close> of a file or a pipe: an address, \<open>0\<close> on failure.\<close>

definition new_obj :: "'a sys_scheme \<Rightarrow> nat \<times> 'a sys_scheme" where
  "new_obj s = (let (ok, s1) = kmalloc_ok s in if ok then (next_obj s1, s1\<lparr>next_obj := next_obj s1 + 1\<rparr>) else (0, s1))"

text \<open>\<^verbatim>\<open>process_fd_get(get_current_process(), fd)\<close>.\<close>

definition fd_file :: "u64 \<Rightarrow> 'a sys_scheme \<Rightarrow> nat" where
  "fd_file fd s = process_fd_get (me s) (fd_arg fd) (kern s)"

definition live_file :: "nat \<Rightarrow> 'a sys_scheme \<Rightarrow> open_file option" where
  "live_file f s = (if f \<in> freed_files (kern s) then None else Some (files (kern s) f))"

definition free_file :: "nat \<Rightarrow> 'a sys_scheme \<Rightarrow> 'a sys_scheme" where
  "free_file f s = set_kern ((kern s)\<lparr>freed_files := insert f (freed_files (kern s))\<rparr>) s"

definition set_offset :: "nat \<Rightarrow> u64 \<Rightarrow> 'a sys_scheme \<Rightarrow> 'a sys_scheme" where
  "set_offset f x s = set_kern (upd_file f (\<lambda>fl. fl\<lparr>foffset := x\<rparr>) (kern s)) s"

section \<open>Pipes\<close>

fun pipe_take :: "nat \<Rightarrow> pipe_buf \<Rightarrow> u8 list \<times> pipe_buf" where
  "pipe_take 0 b = ([], b)"
| "pipe_take (Suc n) b =
     (if phead b \<noteq> ptail b
      then map_prod (Cons (pbuffer b ! ptail b)) id (pipe_take n (b\<lparr>ptail := (ptail b + 1) mod 4096\<rparr>))
      else ([], b))"

definition pipe_read_func :: "ptr \<Rightarrow> u32 \<Rightarrow> u32 \<Rightarrow> 'a sys_scheme \<Rightarrow> (u8 list \<times> 'a sys_scheme) option" where
  "pipe_read_func n offset sz s =
     (let p = vimpl (vfs.nodes s n); (bs, b) = pipe_take (unat sz) (pipe_bufs s p)
      in if p \<in> freed_pipes (kern s) then None else Some (bs, s\<lparr>pipe_bufs := (pipe_bufs s)(p := b)\<rparr>))"

definition pbuf_put :: "u8 \<Rightarrow> pipe_buf \<Rightarrow> pipe_buf" where
  "pbuf_put c b = b\<lparr>pbuffer := (pbuffer b)[phead b := c], phead := (phead b + 1) mod 4096\<rparr>"

text \<open>
  A full pipe with a reader yields; \<open>Y\<close> is what the rest of the system then does. \<open>w\<close> counts the bytes written.
\<close>

partial_function (option) pipe_write_func_loop :: "('a sys_scheme \<Rightarrow> 'a sys_scheme) \<Rightarrow> nat \<Rightarrow> u32 \<Rightarrow> u8 list \<Rightarrow> 'a sys_scheme \<Rightarrow> (u32 \<times> 'a sys_scheme) option" where
  "pipe_write_func_loop Y p w cs s =
     (case cs of [] \<Rightarrow> Some (w, s)
      | c # cs' \<Rightarrow>
          if p \<in> freed_pipes (kern s) then None
          else if (phead (pipe_bufs s p) + 1) mod 4096 \<noteq> ptail (pipe_bufs s p)
          then pipe_write_func_loop Y p (w + 1) cs' (s\<lparr>pipe_bufs := (pipe_bufs s)(p := pbuf_put c (pipe_bufs s p))\<rparr>)
          else if word_of_int (readers (pipes (kern s) p)) = (0 :: u32) then Some (w, s)
          else pipe_write_func_loop Y p w cs (Y s))"

definition pipe_write_func :: "('a sys_scheme \<Rightarrow> 'a sys_scheme) \<Rightarrow> ptr \<Rightarrow> u32 \<Rightarrow> u8 list \<Rightarrow> 'a sys_scheme \<Rightarrow> (u32 \<times> 'a sys_scheme) option" where
  "pipe_write_func Y n offset buf s = pipe_write_func_loop Y (vimpl (vfs.nodes s n)) 0 buf s"

text \<open>The functions that nodes point to.\<close>

definition sys_calls :: "('a sys_scheme \<Rightarrow> 'a sys_scheme) \<Rightarrow> ('a sys_scheme) fs_calls \<Rightarrow> ('a sys_scheme) fs_calls" where
  "sys_calls Y D = (kernel_calls D)\<lparr>
     fn_read := (\<lambda>f. if f = ''pipe_read_func'' then pipe_read_func else fn_read (kernel_calls D) f),
     fn_write := (\<lambda>f. if f = ''pipe_write_func'' then pipe_write_func Y else fn_write (kernel_calls D) f)\<rparr>"

section \<open>Reading, writing, opening, closing\<close>

definition sb_pull :: "('a sys_scheme) fs_calls \<Rightarrow> u64 \<Rightarrow> u64 \<Rightarrow> u64 \<Rightarrow> 'a sys_scheme \<Rightarrow> (u64 \<times> 'a sys_scheme) option" where
  "sb_pull E fd buf cnt s =
     (if \<not> is_user_range buf cnt then Some (err EFAULT, s)
      else let f = fd_file fd s
      in if f = 0 then Some (err EBADF, s)
      else do {
        fl \<leftarrow> live_file f s;
        (bs, s1) \<leftarrow> vfs_read E (node fl) (ucast (foffset fl)) (ucast cnt) s;
        let s2 = s1\<lparr>umem := store (umem s1) (unat buf) bs\<rparr>;
        fl' \<leftarrow> live_file f s2;
        Some (of_nat (length bs), set_offset f (foffset fl' + of_nat (length bs)) s2)
      })"

definition sb_push :: "('a sys_scheme) fs_calls \<Rightarrow> u64 \<Rightarrow> u64 \<Rightarrow> u64 \<Rightarrow> 'a sys_scheme \<Rightarrow> (u64 \<times> 'a sys_scheme) option" where
  "sb_push E fd buf cnt s =
     (if \<not> is_user_range buf cnt then Some (err EFAULT, s)
      else let f = fd_file fd s
      in if f = 0 then Some (err EBADF, s)
      else do {
        fl \<leftarrow> live_file f s;
        (written, s1) \<leftarrow> vfs_write E (node fl) (ucast (foffset fl)) (load (umem s) (unat buf) (unat (ucast cnt :: u32))) s;
        fl' \<leftarrow> live_file f s1;
        Some (ucast written, set_offset f (foffset fl' + ucast written) s1)
      })"

definition check_permissions :: "vfs_node \<Rightarrow> u64 \<Rightarrow> task \<Rightarrow> bool" where
  "check_permissions n flags proc =
     (if uid proc = 0 then True
      else let req_read = (flags AND 3 = 0 \<or> flags AND 3 = 2);
               req_write = (flags AND 3 = 1 \<or> flags AND 3 = 2 \<or> flags AND 0x200 \<noteq> 0);
               perm = (if vuid n = uid proc then drop_bit 6 (vmask n) AND 7
                       else if vgid n = gid proc then drop_bit 3 (vmask n) AND 7
                       else vmask n AND 7)
           in if req_read \<and> perm AND 4 = 0 then False
              else if req_write \<and> perm AND 2 = 0 then False
              else True)"

text \<open>The node of a path: the directory itself when the path has no last component.\<close>

definition resolve_node :: "('a sys_scheme) fs_calls \<Rightarrow> string \<Rightarrow> 'a sys_scheme \<Rightarrow> (ptr \<times> ptr \<times> string \<times> 'a sys_scheme) option" where
  "resolve_node E path s = do {
     ((dir, last_comp), s1) \<leftarrow> vfs_resolve_path E path (cwd (self s)) s;
     if dir = 0 then Some (0, 0, [], s1)
     else do {
       name \<leftarrow> last_comp;
       (n, s2) \<leftarrow> (if name = [] then Some (dir, s1) else vfs_finddir E dir name s1);
       Some (dir, n, name, s2)
     }
   }"

definition sb_acquire :: "('a sys_scheme) fs_calls \<Rightarrow> u64 \<Rightarrow> u64 \<Rightarrow> u64 \<Rightarrow> 'a sys_scheme \<Rightarrow> (u64 \<times> 'a sys_scheme) option" where
  "sb_acquire E pathname flags mode s =
     (if \<not> is_user_range pathname 1 then Some (err EFAULT, s)
      else do {
        (dir, n0, name, s1) \<leftarrow> resolve_node E (path_arg (umem s) pathname) s;
        if dir = 0 then Some (err ENOENT, s1)
        else do {
          (n, s2) \<leftarrow> (if n0 = 0 \<and> flags AND 0x40 \<noteq> 0 then vfs_create E dir name (ucast mode) s1 else Some (n0, s1));
          if n = 0 then Some (err ENOENT, s2)
          else do {
            let (f, s3) = new_obj s2;
            if f = 0 then None
            else do {
              let s4 = set_kern (new_file f n (ucast flags) (kern s3)) s3;
              if \<not> check_permissions (vfs.nodes s4 n) flags (self s4) then Some (err EACCES, free_file f s4)
              else do {
                s5 \<leftarrow> vfs_open E n s4;
                let (fd, k) = process_fd_install (me s5) f (kern s5);
                let s6 = set_kern k s5;
                Some (word_of_int fd, if fd < 0 then free_file f s6 else s6)
              }
            }
          }
        }
      })"

fun run_closes :: "('a sys_scheme) fs_calls \<Rightarrow> ptr list \<Rightarrow> 'a sys_scheme \<Rightarrow> 'a sys_scheme option" where
  "run_closes E [] s = Some s"
| "run_closes E (n # ns) s = Option.bind (vfs_close E n s) (run_closes E ns)"

text \<open>\<^verbatim>\<open>process_fd_close\<close>, with the \<^verbatim>\<open>close\<close> functions it calls.\<close>

definition fd_close :: "('a sys_scheme) fs_calls \<Rightarrow> int \<Rightarrow> 'a sys_scheme \<Rightarrow> 'a sys_scheme option" where
  "fd_close E fd s =
     (let k = process_fd_close (me s) fd (kview s)
      in run_closes E (drop (length (close_calls (kern s))) (close_calls k)) (set_kern k s))"

definition sb_release :: "('a sys_scheme) fs_calls \<Rightarrow> u64 \<Rightarrow> 'a sys_scheme \<Rightarrow> (u64 \<times> 'a sys_scheme) option" where
  "sb_release E fd s = map_option (Pair 0) (fd_close E (fd_arg fd) s)"

section \<open>Status and position\<close>

definition stat_mode :: "vfs_node \<Rightarrow> u32" where
  "stat_mode n =
     (let m = vmask n AND 0xFFF
      in if vflags n AND 2 \<noteq> 0 then m OR 0x4000 else if vflags n AND 3 \<noteq> 0 then m OR 0x2000 else m OR 0x8000)"

text \<open>The 120 bytes of \<^verbatim>\<open>struct stat\<close>.\<close>

definition stat_bytes :: "vfs_node \<Rightarrow> u8 list" where
  "stat_bytes n = replicate 24 0 @ mem32 (stat_mode n) @ mem32 (vuid n) @ mem32 (vgid n) @ replicate 12 0
     @ mem64 (ucast (vlength n)) @ replicate 64 0"

definition sys_stat :: "('a sys_scheme) fs_calls \<Rightarrow> u64 \<Rightarrow> u64 \<Rightarrow> 'a sys_scheme \<Rightarrow> (u64 \<times> 'a sys_scheme) option" where
  "sys_stat E pathname statbuf s =
     (if \<not> is_user_range pathname 1 \<or> \<not> is_user_range statbuf 120 then Some (err EFAULT, s)
      else do {
        (dir, n, name, s1) \<leftarrow> resolve_node E (path_arg (umem s) pathname) s;
        if dir = 0 \<or> n = 0 then Some (err ENOENT, s1)
        else Some (0, s1\<lparr>umem := store (umem s1) (unat statbuf) (stat_bytes (vfs.nodes s1 n))\<rparr>)
      })"

definition sys_fstat :: "u64 \<Rightarrow> u64 \<Rightarrow> 'a sys_scheme \<Rightarrow> (u64 \<times> 'a sys_scheme) option" where
  "sys_fstat fd statbuf s =
     (if \<not> is_user_range statbuf 120 then Some (err EFAULT, s)
      else let f = fd_file fd s
      in if f = 0 then Some (err EBADF, s)
      else do {
        fl \<leftarrow> live_file f s;
        if node fl = 0 then None
        else Some (0, s\<lparr>umem := store (umem s) (unat statbuf) (stat_bytes (vfs.nodes s (node fl)))\<rparr>)
      })"

definition sys_lseek :: "u64 \<Rightarrow> u64 \<Rightarrow> u64 \<Rightarrow> 'a sys_scheme \<Rightarrow> (u64 \<times> 'a sys_scheme) option" where
  "sys_lseek fd offset whence s =
     (let f = fd_file fd s
      in if f = 0 then Some (err EBADF, s)
      else do {
        fl \<leftarrow> live_file f s;
        if whence = 0 then Some (offset, set_offset f offset s)
        else if whence = 1 then Some (foffset fl + offset, set_offset f (foffset fl + offset) s)
        else if whence = 2 then
          (if node fl = 0 then None
           else let x = ucast (vlength (vfs.nodes s (node fl))) + offset in Some (x, set_offset f x s))
        else Some (err EINVAL, s)
      })"

definition sys_ioctl :: "u64 \<Rightarrow> 'a sys_scheme \<Rightarrow> u64" where
  "sys_ioctl fd s = (if fd_file fd s = 0 then err EBADF else err ENOTTY)"

text \<open>The 132 bytes of a directory entry; the name is padded with zeros.\<close>

definition dirent_bytes :: "dirent \<Rightarrow> u8 list" where
  "dirent_bytes d = take 128 (map of_char (dname d) @ replicate 128 0) @ mem32 (dino d)"

definition sys_getdents :: "('a sys_scheme) fs_calls \<Rightarrow> u64 \<Rightarrow> u64 \<Rightarrow> u64 \<Rightarrow> 'a sys_scheme \<Rightarrow> (u64 \<times> 'a sys_scheme) option" where
  "sys_getdents E fd buf cnt s =
     (if \<not> is_user_range buf cnt then Some (err EFAULT, s)
      else let f = fd_file fd s
      in if f = 0 then Some (err EBADF, s)
      else do {
        fl \<leftarrow> live_file f s;
        (r, s1) \<leftarrow> vfs_readdir E (node fl) (ucast (foffset fl)) s;
        case r of None \<Rightarrow> Some (0, s1)
        | Some d \<Rightarrow>
            if cnt < 132 then Some (err EINVAL, s1)
            else do {
              fl' \<leftarrow> live_file f s1;
              Some (132, set_offset f (foffset fl' + 1) (s1\<lparr>umem := store (umem s1) (unat buf) (dirent_bytes d)\<rparr>))
            }
      })"

section \<open>Pipes and duplicates\<close>

definition sys_pipe :: "u64 \<Rightarrow> 'a sys_scheme \<Rightarrow> (u64 \<times> 'a sys_scheme) option" where
  "sys_pipe pipefd s =
     (if \<not> is_user_range pipefd 8 then Some (err EFAULT, s)
      else do {
        let (p, s1) = new_obj s;
        if p = 0 then None else do {
        let k1 = kern s1;
        let s2 = s1\<lparr>pipe_bufs := (pipe_bufs s1)(p := \<lparr>pbuffer = replicate 4096 0, phead = 0, ptail = 0\<rparr>),
                    kern := k1\<lparr>pipes := (pipes k1)(p := \<lparr>readers = 1, writers = 1\<rparr>), freed_pipes := freed_pipes k1 - {p}\<rparr>\<rparr>;
        let (n, s3) = new_node (zero_node\<lparr>vflags := 5, vimpl := p, read_fn := Some ''pipe_read_func'', write_fn := Some ''pipe_write_func''\<rparr>) s2;
        if n = 0 then None else do {
        let (rf, s4) = new_obj s3;
        if rf = 0 then None else do {
        let s5 = set_kern (new_file rf n 0 (kern s4)) s4;
        let (wf, s6) = new_obj s5;
        if wf = 0 then None else do {
        let s7 = set_kern (new_file wf n 1 (kern s6)) s6;
        let (rfd, k8) = process_fd_install (me s7) rf (kern s7);
        let (wfd, k9) = process_fd_install (me s7) wf k8;
        Some (0, s7\<lparr>kern := k9, umem := store (umem s7) (unat pipefd) (mem32 (word_of_int rfd) @ mem32 (word_of_int wfd))\<rparr>)
        }}}}
      })"

definition pipe_count_inc :: "nat \<Rightarrow> 'a sys_scheme \<Rightarrow> 'a sys_scheme" where
  "pipe_count_inc f s =
     (let fl = files (kern s) f; n = vfs.nodes s (node fl)
      in if node fl \<noteq> 0 \<and> vflags n = 5
         then set_kern (if fflags fl = 0 then upd_pipe (vimpl n) (\<lambda>e. e\<lparr>readers := readers e + 1\<rparr>) (kern s)
                        else if fflags fl = 1 then upd_pipe (vimpl n) (\<lambda>e. e\<lparr>writers := writers e + 1\<rparr>) (kern s)
                        else kern s) s
         else s)"

definition sys_dup :: "u64 \<Rightarrow> 'a sys_scheme \<Rightarrow> (u64 \<times> 'a sys_scheme) option" where
  "sys_dup oldfd s =
     (let f = fd_file oldfd s
      in if f = 0 then Some (err EBADF, s)
      else do {
        fl \<leftarrow> live_file f s;
        let s1 = pipe_count_inc f s;
        let (fd, k) = process_fd_install (me s1) f (kern s1);
        Some (word_of_int fd, set_kern k s1)
      })"

definition sys_dup2 :: "('a sys_scheme) fs_calls \<Rightarrow> u64 \<Rightarrow> u64 \<Rightarrow> 'a sys_scheme \<Rightarrow> (u64 \<times> 'a sys_scheme) option" where
  "sys_dup2 E oldfd newfd s =
     (let f = fd_file oldfd s
      in if f = 0 then Some (err EBADF, s)
      else if newfd \<ge> 256 then Some (err EBADF, s)
      else do {
        s1 \<leftarrow> (if fds (self s) ! unat newfd \<noteq> 0 then fd_close E (int (unat newfd)) s else Some s);
        let s2 = set_kern (upd_task (me s1) (\<lambda>t. t\<lparr>fds := (fds t)[unat newfd := f]\<rparr>) (kern s1)) s1;
        fl \<leftarrow> live_file f s2;
        let s3 = set_kern (upd_file f (\<lambda>fl. fl\<lparr>open_file.refcount := open_file.refcount fl + 1\<rparr>) (kern s2)) s2;
        Some (newfd, pipe_count_inc f s3)
      })"

section \<open>Paths\<close>

definition sys_chdir :: "('a sys_scheme) fs_calls \<Rightarrow> u64 \<Rightarrow> 'a sys_scheme \<Rightarrow> (u64 \<times> 'a sys_scheme) option" where
  "sys_chdir E path s =
     (if \<not> is_user_range path 1 then Some (err EFAULT, s)
      else do {
        (dir, n, name, s1) \<leftarrow> resolve_node E (path_arg (umem s) path) s;
        if dir = 0 \<or> n = 0 then Some (err ENOENT, s1)
        else if vflags (vfs.nodes s1 n) AND FS_DIRECTORY = 0 then Some (err ENOTDIR, s1)
        else Some (0, set_kern (upd_task (me s1) (\<lambda>t. t\<lparr>cwd := n\<rparr>) (kern s1)) s1)
      })"

definition sys_mkdir :: "('a sys_scheme) fs_calls \<Rightarrow> u64 \<Rightarrow> 'a sys_scheme \<Rightarrow> (u64 \<times> 'a sys_scheme) option" where
  "sys_mkdir E path s =
     (if \<not> is_user_range path 1 then Some (err EFAULT, s)
      else map_option (map_prod word_of_int id) (vfs_mkdir E (path_arg (umem s) path) (cwd (self s)) s))"

definition sys_rmdir :: "('a sys_scheme) fs_calls \<Rightarrow> u64 \<Rightarrow> 'a sys_scheme \<Rightarrow> (u64 \<times> 'a sys_scheme) option" where
  "sys_rmdir E path s =
     (if \<not> is_user_range path 1 then Some (err EFAULT, s)
      else map_option (map_prod word_of_int id) (vfs_rmdir E (path_arg (umem s) path) (cwd (self s)) s))"

definition sys_unlink :: "('a sys_scheme) fs_calls \<Rightarrow> u64 \<Rightarrow> 'a sys_scheme \<Rightarrow> (u64 \<times> 'a sys_scheme) option" where
  "sys_unlink E path s =
     (if \<not> is_user_range path 1 then Some (err EFAULT, s)
      else map_option (map_prod word_of_int id) (vfs_unlink E (path_arg (umem s) path) (cwd (self s)) s))"

definition sys_rename :: "u64 \<Rightarrow> u64 \<Rightarrow> 'a sys_scheme \<Rightarrow> (u64 \<times> 'a sys_scheme) option" where
  "sys_rename oldpath newpath s =
     (if \<not> is_user_range oldpath 1 \<or> \<not> is_user_range newpath 1 then Some (err EFAULT, s)
      else do {
        (r, s1) \<leftarrow> tmpfs_rename (path_arg (umem s) oldpath) (path_arg (umem s) newpath) s;
        Some (if r = 0 then 0 else err ENOENT, s1)
      })"

definition sys_access :: "('a sys_scheme) fs_calls \<Rightarrow> u64 \<Rightarrow> 'a sys_scheme \<Rightarrow> (u64 \<times> 'a sys_scheme) option" where
  "sys_access E path s =
     (if \<not> is_user_range path 1 then Some (err EFAULT, s)
      else do {
        r \<leftarrow> tmpfs_access (path_arg (umem s) path) s;
        if r = 0 then Some (0, s)
        else do {
          (dir, n, name, s1) \<leftarrow> resolve_node E (path_arg (umem s) path) s;
          Some (if dir = 0 \<or> n = 0 then err ENOENT else 0, s1)
        }
      })"

text \<open>\<^verbatim>\<open>chmod\<close> and \<^verbatim>\<open>chown\<close> look a name up in the working directory, then in the root.\<close>

definition lookup_name :: "('a sys_scheme) fs_calls \<Rightarrow> string \<Rightarrow> 'a sys_scheme \<Rightarrow> (ptr \<times> 'a sys_scheme) option" where
  "lookup_name E name s = do {
     (n, s1) \<leftarrow> vfs_finddir E (cwd (self s)) name s;
     if n \<noteq> 0 then Some (n, s1) else vfs_finddir E (fs_root s1) name s1
   }"

definition sys_chmod :: "('a sys_scheme) fs_calls \<Rightarrow> u64 \<Rightarrow> u64 \<Rightarrow> 'a sys_scheme \<Rightarrow> (u64 \<times> 'a sys_scheme) option" where
  "sys_chmod E pathname mode s =
     (if \<not> is_user_range pathname 1 then Some (err EFAULT, s)
      else do {
        (n, s1) \<leftarrow> lookup_name E (path_arg (umem s) pathname) s;
        if n = 0 then Some (err ENOENT, s1)
        else if uid (self s1) \<noteq> 0 \<and> uid (self s1) \<noteq> vuid (vfs.nodes s1 n) then Some (err EPERM, s1)
        else Some (0, set_node n (\<lambda>x. x\<lparr>vmask := ucast (mode AND 0xFFF)\<rparr>) s1)
      })"

definition sys_chown :: "('a sys_scheme) fs_calls \<Rightarrow> u64 \<Rightarrow> u64 \<Rightarrow> u64 \<Rightarrow> 'a sys_scheme \<Rightarrow> (u64 \<times> 'a sys_scheme) option" where
  "sys_chown E pathname owner grp s =
     (if \<not> is_user_range pathname 1 then Some (err EFAULT, s)
      else do {
        (n, s1) \<leftarrow> lookup_name E (path_arg (umem s) pathname) s;
        if n = 0 then Some (err ENOENT, s1)
        else if uid (self s1) \<noteq> 0 then Some (err EPERM, s1)
        else let s2 = (if (ucast owner :: u32) \<noteq> - 1 then set_node n (\<lambda>x. x\<lparr>vuid := ucast owner\<rparr>) s1 else s1)
             in Some (0, if (ucast grp :: u32) \<noteq> - 1 then set_node n (\<lambda>x. x\<lparr>vgid := ucast grp\<rparr>) s2 else s2)
      })"

definition sys_mount :: "u64 \<Rightarrow> u64 \<Rightarrow> u64 \<Rightarrow> 'a sys_scheme \<Rightarrow> u64 \<times> 'a sys_scheme" where
  "sys_mount target fstype flags s =
     (if \<not> is_user_range target 1 then (err EFAULT, s)
      else if \<not> is_user_range fstype 1 then (err EFAULT, s)
      else let t = path_arg (umem s) target; fs = path_arg (umem s) fstype;
               mnt = (\<lambda>root. (0, snd (vfs_mount t root flags s)))
           in if fs = ''tmpfs'' \<and> tmpfs_root s \<noteq> 0 then mnt (tmpfs_root s)
              else if fs = ''devfs'' \<and> devfs_root s \<noteq> 0 then mnt (devfs_root s)
              else if fs = ''proc'' \<and> procfs_root s \<noteq> 0 then mnt (procfs_root s)
              else (err EINVAL, s))"

definition sys_umount2 :: "u64 \<Rightarrow> 'a sys_scheme \<Rightarrow> u64 \<times> 'a sys_scheme" where
  "sys_umount2 target s =
     (if \<not> is_user_range target 1 then (err EFAULT, s)
      else map_prod word_of_int id (vfs_unmount (path_arg (umem s) target) s))"

section \<open>Permissions\<close>

text \<open>The three permission bits that apply to a process, and the access an open mode asks for.\<close>

definition perm_class :: "vfs_node \<Rightarrow> task \<Rightarrow> nat" where
  "perm_class n t = (if vuid n = uid t then 6 else if vgid n = gid t then 3 else 0)"

definition wants_read :: "u64 \<Rightarrow> bool" where
  "wants_read flags \<longleftrightarrow> \<not> bit flags 0"

definition wants_write :: "u64 \<Rightarrow> bool" where
  "wants_write flags \<longleftrightarrow> (bit flags 0 \<noteq> bit flags 1) \<or> bit flags 9"

lemma bit_3: "bit (3 :: u64) k \<longleftrightarrow> k < 2"
proof -
  have "(3 :: u64) = mask 2" by (simp add: mask_eq_exp_minus_1)
  then show ?thesis by (simp only: bit_mask_iff) auto
qed

lemma and_3_eq: "(w :: u64) AND 3 = of_bool (bit w 0) OR (of_bool (bit w 1) * 2)"
proof (rule bit_word_eqI)
  fix n
  have "bit (w AND 3) n \<longleftrightarrow> bit w n \<and> n < 2" by (simp only: bit_and_iff bit_3)
  then show "bit (w AND 3) n \<longleftrightarrow> bit (of_bool (bit w 0) OR (of_bool (bit w 1) * 2) :: u64) n"
    by (auto simp: bit_or_iff bit_of_bool_iff bit_simps less_2_cases_iff split: if_splits)
qed

text \<open>
  C27. Permission bits: for a process that is not the superuser \<^verbatim>\<open>check_permissions\<close> allows an open exactly when the permission bits of its
  class (owner, else group, else others) include reading if the access mode is 0 or 2, and writing if it is 1 or 2 or the file is to be truncated.
  Access mode 3 asks for neither, so it passes for every file.
\<close>

theorem check_permissions_correct:
  "check_permissions n flags t \<longleftrightarrow> uid t = 0 \<or>
     (wants_read flags \<longrightarrow> bit (vmask n) (perm_class n t + 2)) \<and> (wants_write flags \<longrightarrow> bit (vmask n) (perm_class n t + 1))"
proof -
  have f: "flags AND 3 = 0 \<longleftrightarrow> \<not> bit flags 0 \<and> \<not> bit flags 1" "flags AND 3 = 1 \<longleftrightarrow> bit flags 0 \<and> \<not> bit flags 1"
    "flags AND 3 = 2 \<longleftrightarrow> \<not> bit flags 0 \<and> bit flags 1" "flags AND 0x200 \<noteq> 0 \<longleftrightarrow> bit flags 9"
    using and_shift_eq_0 [of flags 9] by (cases "bit flags 0"; cases "bit flags 1"; simp add: and_3_eq)+
  have p: "(drop_bit k (vmask n) AND 7) AND 4 = 0 \<longleftrightarrow> \<not> bit (vmask n) (k + 2)" "(drop_bit k (vmask n) AND 7) AND 2 = 0 \<longleftrightarrow> \<not> bit (vmask n) (k + 1)" for k
    using and_shift_eq_0 [of "drop_bit k (vmask n)" 2] and_shift_eq_0 [of "drop_bit k (vmask n)" 1]
    by (simp_all add: and.assoc bit_drop_bit_eq)
  show ?thesis
    using p [of 6] p [of 3] p [of 0]
    by (auto simp: check_permissions_def f perm_class_def wants_read_def wants_write_def Let_def)
qed

section \<open>Files of the RAM file system\<close>

lemma vfs_read_sys:
  assumes "n \<noteq> 0" "read_fn (vfs.nodes s n) = Some ''tmpfs_read''"
  shows "vfs_read (sys_calls Y D) n off z s = tmpfs_read n off z s"
  using assms by (simp add: vfs_read_def sys_calls_def kernel_calls_def)

lemma vfs_write_sys:
  assumes "n \<noteq> 0" "write_fn (vfs.nodes s n) = Some ''tmpfs_write''" "\<forall>m \<in> set (mount_table s). mnode m \<noteq> n"
  shows "vfs_write (sys_calls Y D) n off b s = tmpfs_write n off b s"
  using assms by (auto simp: vfs_write_def sys_calls_def kernel_calls_def)

text \<open>An open descriptor for a file of the RAM file system.\<close>

definition tmpfs_fd :: "u64 \<Rightarrow> nat \<Rightarrow> ptr \<Rightarrow> tmpfs_entry \<Rightarrow> 'a sys_scheme \<Rightarrow> bool" where
  "tmpfs_fd fd f n e s \<longleftrightarrow> fd_file fd s = f \<and> f \<noteq> 0 \<and> f \<notin> freed_files (kern s) \<and> node (files (kern s) f) = n \<and> n \<noteq> 0
     \<and> read_fn (vfs.nodes s n) = Some ''tmpfs_read'' \<and> write_fn (vfs.nodes s n) = Some ''tmpfs_write''
     \<and> (\<forall>m \<in> set (mount_table s). mnode m \<noteq> n) \<and> file_at s n e \<and> plan s = []"

lemma set_offset_simps [simp]:
  "vfs.nodes (set_offset f x s) = vfs.nodes s" "mount_table (set_offset f x s) = mount_table s" "plan (set_offset f x s) = plan s"
  "ents (set_offset f x s) = ents s" "umem (set_offset f x s) = umem s" "freed_files (kern (set_offset f x s)) = freed_files (kern s)"
  "foffset (files (kern (set_offset f x s)) f) = x" "node (files (kern (set_offset f x s)) f) = node (files (kern s) f)"
  "fd_file fd (set_offset f x s) = fd_file fd s"
  by (simp_all add: set_offset_def set_kern_def upd_file_def fd_file_def process_fd_get_def)

lemma tmpfs_fd_offset: "tmpfs_fd fd f n e s \<Longrightarrow> tmpfs_fd fd f n e (set_offset f x s)"
  by (simp add: tmpfs_fd_def file_at_def)

lemma sb_push_tmpfs:
  assumes fd: "tmpfs_fd fd f n e s" and r: "is_user_range buf cnt" and off: "off = foffset (files (kern s) f)"
    and fits: "unat off + unat cnt \<le> 1048576"
  shows "\<exists>s' e'. sb_push (sys_calls Y D) fd buf cnt s = Some (cnt, s') \<and> tmpfs_fd fd f n e' s' \<and> umem s' = umem s
    \<and> contents e' = pwrite (unat off) (load (umem s) (unat buf) (unat cnt)) (contents e) \<and> foffset (files (kern s') f) = off + cnt"
proof -
  note F = fd [unfolded tmpfs_fd_def]
  let ?bs = "load (umem s) (unat buf) (unat cnt)"
  have c: "unat (ucast cnt :: u32) = unat cnt" "unat (ucast off :: u32) = unat off"
    using fits by (simp_all add: unsigned_ucast_eq take_bit_nat_eq_self)
  have cc: "ucast (of_nat (unat cnt) :: u32) = cnt" 
    using fits by (simp add: word_unat_eq_iff unsigned_ucast_eq unsigned_take_bit_eq take_bit_nat_eq_self)
  have "file_at s n e" "plan s = []" "unat (ucast off :: u32) + length ?bs \<le> 1048576" using F fits c by simp_all
  from tmpfs_write_spec [OF this] obtain s1 e' len where w: "tmpfs_write n (ucast off) ?bs s = Some (of_nat (unat cnt), s1)" "file_at s1 n e'"
      "contents e' = pwrite (unat off) ?bs (contents e)" "s1 = set_node n (\<lambda>x. x\<lparr>vlength := len\<rparr>) (set_ent (vimpl (vfs.nodes s n)) (Some e') s)"
    using c(2) by auto
  have k: "kern s1 = kern s" "umem s1 = umem s" "mount_table s1 = mount_table s" "plan s1 = plan s"
    "read_fn (vfs.nodes s1 n) = read_fn (vfs.nodes s n)" "write_fn (vfs.nodes s1 n) = write_fn (vfs.nodes s n)"
    by (simp_all add: w(4) set_node_def set_ent_def)
  have "tmpfs_fd fd f n e' s1" using F w(2) k by (simp add: tmpfs_fd_def fd_file_def)
  moreover have "sb_push (sys_calls Y D) fd buf cnt s = Some (cnt, set_offset f (off + cnt) s1)"
    using F r w(1) k off c cc vfs_write_sys [of n s Y D] by (simp add: sb_push_def live_file_def)
  ultimately show ?thesis
    using w(3) k tmpfs_fd_offset by (intro exI [of _ "set_offset f (off + cnt) s1"] exI [of _ e']) simp
qed

lemma sb_pull_tmpfs:
  assumes fd: "tmpfs_fd fd f n e s" and r: "is_user_range buf cnt" and off: "off = foffset (files (kern s) f)"
    and fits: "unat off + unat cnt \<le> 1048576" and bs: "bs = take (unat cnt) (drop (unat off) (contents e))"
  shows "sb_pull (sys_calls Y D) fd buf cnt s =
    Some (of_nat (length bs), set_offset f (off + of_nat (length bs)) (s\<lparr>umem := store (umem s) (unat buf) bs\<rparr>))"
proof -
  note F = fd [unfolded tmpfs_fd_def]
  have c: "unat (ucast cnt :: u32) = unat cnt" "unat (ucast off :: u32) = unat off"
    using fits by (simp_all add: unsigned_ucast_eq take_bit_nat_eq_self)
  have "tmpfs_read n (ucast off) (ucast cnt) s = Some (bs, s)"
    using tmpfs_read_contents [of s n e "ucast off" "ucast cnt"] F fits bs c by simp
  then show ?thesis using F r off vfs_read_sys [of n s Y D] by (simp add: sb_pull_def live_file_def)
qed

text \<open>
  C14. What is written can be read back: through one descriptor of a file of the RAM file system, and inside its first megabyte, writing the bytes of
  a user buffer answers their number; after seeking back, reading as many bytes into another buffer answers the same number and leaves in
  it exactly the bytes that were written, through system call, virtual file system and file system.
\<close>

theorem file_write_read:
  assumes fd: "tmpfs_fd fd f n e s" and r: "is_user_range buf cnt" "is_user_range buf2 cnt" and off: "off = foffset (files (kern s) f)"
    and fits: "unat off + unat cnt \<le> 1048576"
  shows "\<exists>s1 s2 s3. sb_push (sys_calls Y D) fd buf cnt s = Some (cnt, s1) \<and> sys_lseek fd off 0 s1 = Some (off, s2)
    \<and> sb_pull (sys_calls Y D) fd buf2 cnt s2 = Some (cnt, s3)
    \<and> load (umem s3) (unat buf2) (unat cnt) = load (umem s) (unat buf) (unat cnt)"
proof -
  let ?bs = "load (umem s) (unat buf) (unat cnt)"
  obtain s1 e' where 1: "sb_push (sys_calls Y D) fd buf cnt s = Some (cnt, s1)" "tmpfs_fd fd f n e' s1"
      "contents e' = pwrite (unat off) ?bs (contents e)" using sb_push_tmpfs [OF fd r(1) off fits] by blast
  have 2: "sys_lseek fd off 0 s1 = Some (off, set_offset f off s1)"
    using 1(2) by (simp add: sys_lseek_def tmpfs_fd_def live_file_def)
  have t: "take (unat cnt) (drop (unat off) (contents e')) = ?bs" unfolding 1(3) by (simp add: pwrite_def)
  have "sb_pull (sys_calls Y D) fd buf2 cnt (set_offset f off s1) = Some (of_nat (length ?bs),
      set_offset f (off + of_nat (length ?bs)) ((set_offset f off s1)\<lparr>umem := store (umem (set_offset f off s1)) (unat buf2) ?bs\<rparr>))"
    by (rule sb_pull_tmpfs [OF tmpfs_fd_offset [OF 1(2)] r(2)]) (use fits t in simp_all)
  then show ?thesis using 1(1) 2 load_store [of _ "unat buf2" ?bs] by simp
qed

section \<open>A read stays in its buffer\<close>

lemma clamp_le: "off < len \<Longrightarrow> off + sz > len \<Longrightarrow> unat (len - off) \<le> unat sz" for off len sz :: u32
proof -
  assume a: "off < len" "off + sz > len"
  then have "off \<le> off + sz" by (simp add: less_imp_le order.strict_trans)
  then have "unat (off + sz) = unat off + unat sz" by (metis add_diff_cancel_left' le_add_diff_inverse unat_sub word_le_nat_alt)
  moreover have "unat (len - off) = unat len - unat off" using a(1) by (simp add: unat_sub less_imp_le)
  ultimately show ?thesis using a(2) by (simp add: word_less_nat_alt)
qed

lemma tmpfs_read_frame: "tmpfs_read n off sz s = Some (bs, s') \<Longrightarrow> length bs \<le> unat sz \<and> s' = s"
  by (auto simp: tmpfs_read_def Let_def bind_eq_Some_conv not_le clamp_le split: if_splits option.splits)

lemma tarfs_read_frame: "tarfs_read n off sz s = Some (bs, s') \<Longrightarrow> length bs \<le> unat sz \<and> s' = s"
  by (auto simp: tarfs_read_def Let_def not_le clamp_le split: if_splits)

lemma length_pipe_take: "length (fst (pipe_take n b)) \<le> n"
  by (induction n b rule: pipe_take.induct) auto

lemma pipe_read_frame: "pipe_read_func n off sz s = Some (bs, s') \<Longrightarrow> length bs \<le> unat sz \<and> umem s' = umem s"
  using length_pipe_take [of "unat sz" "pipe_bufs s (vimpl (vfs.nodes s n))"]
  by (auto simp: pipe_read_func_def Let_def split: if_splits prod.splits)

text \<open>A read function fills at most the buffer it is given and leaves user memory alone.\<close>

definition reads_bounded :: "('a sys_scheme) fs_calls \<Rightarrow> bool" where
  "reads_bounded D \<longleftrightarrow> (\<forall>f n off z t bs t'. fn_read D f n off z t = Some (bs, t') \<longrightarrow> length bs \<le> unat z \<and> umem t' = umem t)"

lemma fn_read_sys: "fn_read (sys_calls Y D) f =
    (if f = ''pipe_read_func'' then pipe_read_func else if f = ''tmpfs_read'' then tmpfs_read else if f = ''tarfs_read'' then tarfs_read else fn_read D f)"
  by (simp add: sys_calls_def kernel_calls_def)

lemma reads_bounded_sys:
  assumes D: "reads_bounded D"
  shows "reads_bounded (sys_calls Y D)"
  unfolding reads_bounded_def
proof (intro allI impI)
  fix f n off z t bs t'
  assume "fn_read (sys_calls Y D) f n off z t = Some (bs, t')"
  then consider "pipe_read_func n off z t = Some (bs, t')" | "tmpfs_read n off z t = Some (bs, t')" | "tarfs_read n off z t = Some (bs, t')"
    | "fn_read D f n off z t = Some (bs, t')"
    unfolding fn_read_sys by (simp only: if_distribR split: if_split_asm)
  then show "length bs \<le> unat z \<and> umem t' = umem t"
    using D by cases (auto simp: reads_bounded_def dest: tmpfs_read_frame tarfs_read_frame pipe_read_frame)
qed

lemma vfs_read_bounded:
  "reads_bounded E \<Longrightarrow> vfs_read E n off z s = Some (bs, s') \<Longrightarrow> length bs \<le> unat z \<and> umem s' = umem s"
  unfolding vfs_read_def reads_bounded_def by (auto split: if_splits option.splits)

text \<open>
  C16. A read stays in its buffer: whatever the descriptor and the pointer, a \<^verbatim>\<open>read\<close> changes no byte of memory outside the buffer that the caller
  named, and none outside user space, provided that the other file systems' read functions keep to the size they are given, as those of the RAM file system, of the archive and of
  pipes do.
\<close>

theorem read_stays_in_buffer:
  assumes "reads_bounded D" "sb_pull (sys_calls Y D) fd buf cnt s = Some (r, s')" "umem s' x \<noteq> umem s x"
  shows "unat buf \<le> x \<and> x < unat buf + unat cnt \<and> x < unat USER_SPACE_END"
proof -
  have u: "is_user_range buf cnt" using assms(2,3) by (auto simp: sb_pull_def split: if_splits)
  then have "fd_file fd s \<noteq> 0" using assms(2,3) by (auto simp: sb_pull_def Let_def split: if_splits)
  then obtain fl :: open_file and bs s1 where v: "vfs_read (sys_calls Y D) (node fl) (ucast (foffset fl)) (ucast cnt) s = Some (bs, s1)"
      "umem s' = store (umem s1) (unat buf) bs"
    using assms(2) u unfolding sb_pull_def Let_def by (auto simp: bind_eq_Some_conv)
  from vfs_read_bounded [OF reads_bounded_sys [OF assms(1)] v(1)]
  have b: "length bs \<le> unat (ucast cnt :: u32)" "umem s1 = umem s" by simp_all
  have "unat (ucast cnt :: u32) \<le> unat cnt" by (simp add: unsigned_ucast_eq take_bit_nat_less_eq_self)
  moreover have "unat buf \<le> x \<and> x < unat buf + length bs" using assms(3) v(2) b(2) by (auto simp: store_def split: if_splits)
  moreover have "unat buf + unat cnt \<le> unat USER_SPACE_END" using u by (simp only: is_user_range_bound)
  ultimately show ?thesis using b(1) by linarith
qed

text \<open>Closing a descriptor in range: what is left of the kernel's part of the state.\<close>

lemma fd_entry:
  assumes "fd_file fd s = f" "fd < 256"
  shows "fd_arg fd = int (unat fd)" "fds (self s) ! unat fd = f" "\<not> uint fd \<ge> 256"
proof -
  have u: "unat fd < 256" using assms(2) by (simp add: word_less_nat_alt)
  show arg: "fd_arg fd = int (unat fd)" using u by (intro fd_arg_small) simp
  have "\<not> int (unat fd) < 0 \<and> \<not> int (unat fd) \<ge> 256" using u by linarith
  then show "fds (self s) ! unat fd = f" using assms(1) unfolding fd_file_def process_fd_get_def arg by (simp only: nat_int) simp
  have "\<not> 256 \<le> int (unat fd)" using u by linarith
  then show "\<not> uint fd \<ge> 256" by simp
qed

lemma pipe_count_inc_frame: "files (kern (pipe_count_inc f s)) = files (kern s)" "tasks (kern (pipe_count_inc f s)) = tasks (kern s)"
  "current_proc (kern (pipe_count_inc f s)) = current_proc (kern s)"
  by (simp_all add: pipe_count_inc_def set_kern_def upd_pipe_def Let_def)

text \<open>
  C40. Duplicating a descriptor onto itself: when the descriptor is the only reference to its file and the node has no \<^verbatim>\<open>close\<close>
  function, the close inside \<^verbatim>\<open>dup2(fd, fd)\<close> returns with the file freed, and the call, which goes on to increment the count of that file,
  is a memory error. When the file has further references, as after a fork, the call answers \<^verbatim>\<open>fd\<close> and the descriptors of the caller and the
  reference count are as before.
\<close>

theorem dup2_self_use_after_free:
  assumes fd: "fd_file fd s = f" "f \<noteq> 0" "fd < 256" and live: "f \<notin> freed_files (kern s)"
    and nc: "close_fn (vfs.nodes s (node (files (kern s) f))) = None"
  shows "(open_file.refcount (files (kern s) f) = 1 \<longrightarrow>
      (\<exists>s1. fd_close E (int (unat fd)) s = Some s1 \<and> f \<in> freed_files (kern s1)) \<and> sys_dup2 E fd fd s = None)
    \<and> (1 < open_file.refcount (files (kern s) f) \<longrightarrow>
      (\<exists>s'. sys_dup2 E fd fd s = Some (fd, s') \<and> fds (self s') = fds (self s)
        \<and> open_file.refcount (files (kern s') f) = open_file.refcount (files (kern s) f)))"
proof (intro conjI impI)
  note e = fd_entry [OF fd(1,3)]
  define k where "k = process_fd_close (me s) (int (unat fd)) (kview s)"
  assume one: "open_file.refcount (files (kern s) f) = 1"
  have k: "f \<in> freed_files k" "close_calls k = close_calls (kern s)"
    using e fd(2) one nc
    by (simp_all add: k_def process_fd_close_def kview_def release_node_def upd_task_def upd_file_def upd_pipe_def fnode_of_def Let_def)
  have c: "fd_close E (int (unat fd)) s = Some (set_kern k s)"
    unfolding fd_close_def Let_def k_def [symmetric] k(2) by simp
  then show "\<exists>s1. fd_close E (int (unat fd)) s = Some s1 \<and> f \<in> freed_files (kern s1)" using k(1) by (simp add: set_kern_def)
  show "sys_dup2 E fd fd s = None"
    using c fd e k by (simp add: sys_dup2_def live_file_def set_kern_def upd_task_def)
next
  note e = fd_entry [OF fd(1,3)]
  define k where "k = process_fd_close (me s) (int (unat fd)) (kview s)"
  assume "1 < open_file.refcount (files (kern s) f)"
  then have "open_file.refcount (files (kern s) f) - 1 \<noteq> 0" by auto
  then have k: "k = upd_file f (\<lambda>fl. fl\<lparr>open_file.refcount := open_file.refcount fl - 1\<rparr>) (upd_task (me s) (\<lambda>t. t\<lparr>fds := (fds t)[unat fd := 0]\<rparr>) (kview s))"
    using e fd(2) by (simp add: k_def process_fd_close_def kview_def upd_task_def upd_file_def Let_def)
  then have "close_calls k = close_calls (kern s)" by (simp add: upd_file_def upd_task_def kview_def)
  then have c: "fd_close E (int (unat fd)) s = Some (set_kern k s)"
    unfolding fd_close_def Let_def k_def [symmetric] by simp
  have "(fds (self s))[unat fd := f] = fds (self s)" using e(2) by (metis list_update_id)
  then show "\<exists>s'. sys_dup2 E fd fd s = Some (fd, s') \<and> fds (self s') = fds (self s)
      \<and> open_file.refcount (files (kern s') f) = open_file.refcount (files (kern s) f)"
    using c fd(1,2) fd(3) [folded not_le] e live
    by (simp add: sys_dup2_def live_file_def Let_def pipe_count_inc_frame set_kern_def k upd_task_def upd_file_def kview_def)
qed

section \<open>Witnesses\<close>

text \<open>Descriptor 0 of process 8 is file 5; its node 9 is an empty file of the RAM file system.\<close>

definition sample_entry :: tmpfs_entry where
  "sample_entry = \<lparr>ename = ''log'', eflags = FS_FILE, edata = None, elength = 0, ecapacity = 0, eparent = 0, echildren = [], einode = 1\<rparr>"

definition sample_sys :: sys where
  "sample_sys = \<lparr>fs_root = 0, mount_table = [],
     nodes = (\<lambda>_. zero_node\<lparr>vflags := FS_FILE, vimpl := 1, read_fn := Some ''tmpfs_read'', write_fn := Some ''tmpfs_write''\<rparr>),
     next_node = 20, plan = [], ents = [1 \<mapsto> sample_entry], next_ent = 2, tmpfs_next_inode = 2, tmpfs_root_entry = 0, tmpfs_root = 0,
     tmem = (\<lambda>_. CHR 0x00), tar_address = 0, tar_size = 0, tarfs_root_node = 0, prefixes = (\<lambda>_. []), next_prefix = 1, devfs_root = 0, procfs_root = 0,
     kern = open_kernel, umem = (\<lambda>x. of_nat x), pipe_bufs = (\<lambda>_. \<lparr>pbuffer = [], phead = 0, ptail = 0\<rparr>), next_obj = 30\<rparr>"

lemma open_kernel_fields:
  "current_proc open_kernel = 8" "fds (tasks open_kernel 8) = (replicate 256 0)[0 := 5]" "5 \<notin> freed_files open_kernel"
  "files open_kernel 5 = \<lparr>node = 9, foffset = 0, fflags = 0, refcount = 1\<rparr>"
  unfolding open_kernel_eq by (simp_all add: new_file_def upd_file_def upd_task_def init_kernel_fields)

lemma sample_sys_simps:
  "kern sample_sys = open_kernel" "mount_table sample_sys = []" "plan sample_sys = []" "next_node sample_sys = 20" "next_obj sample_sys = 30"
  "vfs.nodes sample_sys n = zero_node\<lparr>vflags := FS_FILE, vimpl := 1, read_fn := Some ''tmpfs_read'', write_fn := Some ''tmpfs_write''\<rparr>"
  "ents sample_sys = [1 \<mapsto> sample_entry]" "umem sample_sys = of_nat"
  by (simp_all add: sample_sys_def)

lemma sample_fd: "fd_arg 0 = 0" "fd_file 0 sample_sys = 5" "tmpfs_fd 0 5 9 sample_entry sample_sys"
proof -
  show a: "fd_arg 0 = 0" by (simp add: fd_arg_def)
  show f: "fd_file 0 sample_sys = 5" by (simp add: fd_file_def a sample_sys_simps process_fd_get_def open_kernel_fields)
  show "tmpfs_fd 0 5 9 sample_entry sample_sys"
    by (simp add: tmpfs_fd_def f sample_sys_simps open_kernel_fields file_at_def file_ok_def sample_entry_def zero_node_def)
qed

theorem check_permissions_correct_witness:
  "check_permissions (zero_node\<lparr>vmask := 0x1A4, vuid := 1\<rparr>) 0 (zero_task\<lparr>uid := 2\<rparr>) \<and>
   \<not> check_permissions (zero_node\<lparr>vmask := 0x1A4, vuid := 1\<rparr>) 1 (zero_task\<lparr>uid := 2, gid := 3\<rparr>)"
  unfolding check_permissions_correct
  by (simp add: perm_class_def wants_read_def wants_write_def zero_node_def zero_task_def bit_iff_odd)

theorem file_write_read_witness:
  "\<exists>s1 s2 s3. sb_push (sys_calls id no_calls) 0 100 3 sample_sys = Some (3, s1) \<and> sys_lseek 0 0 0 s1 = Some (0, s2)
    \<and> sb_pull (sys_calls id no_calls) 0 200 3 s2 = Some (3, s3) \<and> load (umem s3) 200 3 = [100, 101, 102]"
proof -
  have "is_user_range 100 3" "is_user_range 200 3" by (simp_all add: is_user_range_bound)
  moreover have "load of_nat 100 3 = [100, 101, 102]" by (simp add: load_def upt_rec)
  ultimately show ?thesis
    using file_write_read [OF sample_fd(3), of 100 3 200 0 id no_calls] by (simp add: sample_sys_simps open_kernel_fields)
qed

theorem read_stays_in_buffer_witness:
  "reads_bounded (no_calls :: sys fs_calls) \<and> (\<exists>s1 :: sys. \<exists>s'. sb_pull (sys_calls id no_calls) 0 200 3 s1 = Some (3, s') \<and> umem s' 201 \<noteq> umem s1 201
     \<and> 201 < unat USER_SPACE_END)"
proof -
  have D: "reads_bounded (no_calls :: sys fs_calls)" by (simp add: reads_bounded_def no_calls_def)
  have r: "is_user_range 100 3" "is_user_range 200 3" by (simp_all add: is_user_range_bound)
  obtain s1 :: sys and e where 1: "tmpfs_fd 0 5 9 e s1" "umem s1 = of_nat" "contents e = pwrite 0 (load of_nat 100 3) (contents sample_entry)"
    using sb_push_tmpfs [OF sample_fd(3) r(1) refl, of id no_calls] by (auto simp: sample_sys_simps open_kernel_fields)
  have c: "take 3 (contents e) = [100, 101, 102]" unfolding 1(3) by (simp add: pwrite_def load_def upt_rec)
  define s2 where "s2 = set_offset 5 0 s1"
  have f: "foffset (files (kern s2) 5) = 0" "umem s2 = of_nat" by (simp_all add: s2_def 1(2))
  obtain s' where 2: "sb_pull (sys_calls id no_calls) 0 200 3 s2 = Some (3, s')" "umem s' = store of_nat 200 [100, 101, 102]"
    using sb_pull_tmpfs [OF tmpfs_fd_offset [OF 1(1), of 0] r(2) refl _ refl, of id no_calls] c f unfolding s2_def [symmetric] by simp
  have "umem s' 201 \<noteq> umem s2 201" by (simp add: 2(2) f(2) store_def)
  then show ?thesis using D read_stays_in_buffer [OF D 2(1), of 201] 2(1) by auto
qed

theorem dup2_self_use_after_free_witness:
  "sys_dup2 (sys_calls id no_calls) 0 0 sample_sys = None
   \<and> (\<exists>s1. fd_close (sys_calls id no_calls) 0 sample_sys = Some s1 \<and> 5 \<in> freed_files (kern s1))"
  using dup2_self_use_after_free [OF sample_fd(2), of "sys_calls id no_calls"]
  by (simp add: sample_sys_simps open_kernel_fields zero_node_def)

end
