(* ===== verification/Sys_Pipe.thy ===== *)
theory Sys_Pipe
  imports Sys_File
begin

text \<open>
  Pipes, from \<^verbatim>\<open>sys_pipe\<close> through the descriptors to the ring: the definitions are those of \<open>Sys_File\<close>. The ring
  of a pipe is one more instance of \<open>fifo_stream\<close>; the system calls inherit its laws.
\<close>

section \<open>The ring of a pipe is a bounded queue\<close>

definition pbuf_bytes :: "pipe_buf \<Rightarrow> u8 list" where
  "pbuf_bytes b = ring_list (pbuffer b) (phead b) (ptail b)"

definition pbuf_ok :: "pipe_buf \<Rightarrow> bool" where
  "pbuf_ok b \<longleftrightarrow> ring_ok 4096 (pbuffer b) (phead b) (ptail b)"

definition pbuf_put1 :: "u8 \<Rightarrow> pipe_buf \<Rightarrow> pipe_buf option" where
  "pbuf_put1 c b = (if (phead b + 1) mod 4096 \<noteq> ptail b then Some (pbuf_put c b) else None)"

definition pbuf_get1 :: "pipe_buf \<Rightarrow> (u8 \<times> pipe_buf) option" where
  "pbuf_get1 b = (if phead b \<noteq> ptail b then Some (pbuffer b ! ptail b, b\<lparr>ptail := (ptail b + 1) mod 4096\<rparr>) else None)"

text \<open>The bytes a writer queues before it meets a full ring.\<close>

fun pipe_fill :: "u8 list \<Rightarrow> pipe_buf \<Rightarrow> nat \<times> pipe_buf" where
  "pipe_fill [] b = (0, b)"
| "pipe_fill (c # cs) b = (case pbuf_put1 c b of None \<Rightarrow> (0, b) | Some b' \<Rightarrow> map_prod Suc id (pipe_fill cs b'))"

interpretation pp: fifo_stream pbuf_ok pbuf_bytes 4095 pbuf_put1 pbuf_get1 pipe_fill pipe_take
proof
  fix b :: pipe_buf and c
  assume "pbuf_ok b"
  then have ok: "ring_ok 4096 (pbuffer b) (phead b) (ptail b)" by (simp add: pbuf_ok_def)
  show "length (pbuf_bytes b) \<le> 4095" using ring_list_bound [OF ok] by (simp add: pbuf_bytes_def)
  show "pbuf_put1 c b = None" if "length (pbuf_bytes b) = 4095"
    using ring_full_iff [OF ok] that by (simp add: pbuf_put1_def pbuf_bytes_def)
  show "\<exists>s'. pbuf_put1 c b = Some s' \<and> pbuf_ok s' \<and> pbuf_bytes s' = pbuf_bytes b @ [c]" if "length (pbuf_bytes b) < 4095"
    using ring_full_iff [OF ok] ring_list_put [OF ok, of c] ring_ok_put [OF ok, of c] that
    by (auto simp: pbuf_put1_def pbuf_put_def pbuf_bytes_def pbuf_ok_def simp del: One_nat_def)
  show "pbuf_get1 b = None" if "pbuf_bytes b = []"
    using ring_empty_iff [OF ok] that by (simp add: pbuf_get1_def pbuf_bytes_def)
  show "\<exists>s'. pbuf_get1 b = Some (c, s') \<and> pbuf_ok s' \<and> pbuf_bytes s' = xs" if "pbuf_bytes b = c # xs" for xs
    using ring_empty_iff [OF ok] ring_list_get [OF ok] ring_ok_get [OF ok] that
    by (auto simp: pbuf_get1_def pbuf_bytes_def pbuf_ok_def simp del: One_nat_def)
qed (simp_all add: pbuf_get1_def)

section \<open>Reading and writing through descriptors\<close>

text \<open>An open descriptor of pipe \<open>p\<close>.\<close>

definition pipe_fd :: "u64 \<Rightarrow> nat \<Rightarrow> nat \<Rightarrow> 'a sys_scheme \<Rightarrow> bool" where
  "pipe_fd fd f p s \<longleftrightarrow> fd_file fd s = f \<and> f \<noteq> 0 \<and> f \<notin> freed_files (kern s) \<and> p \<notin> freed_pipes (kern s)
     \<and> (let n = node (files (kern s) f) in n \<noteq> 0 \<and> vimpl (vfs.nodes s n) = p
         \<and> read_fn (vfs.nodes s n) = Some ''pipe_read_func'' \<and> write_fn (vfs.nodes s n) = Some ''pipe_write_func''
         \<and> (\<forall>m \<in> set (mount_table s). mnode m \<noteq> n))"

definition set_ring :: "nat \<Rightarrow> pipe_buf \<Rightarrow> 'a sys_scheme \<Rightarrow> 'a sys_scheme" where
  "set_ring p b s = s\<lparr>pipe_bufs := (pipe_bufs s)(p := b)\<rparr>"

lemma set_ring_simps [simp]:
  "kern (set_ring p b s) = kern s" "umem (set_ring p b s) = umem s" "pipe_bufs (set_ring p b s) p = b" "fd_file fd (set_ring p b s) = fd_file fd s"
  "vfs.nodes (set_ring p b s) = vfs.nodes s" "mount_table (set_ring p b s) = mount_table s"
  "set_ring p b (set_ring p b' s) = set_ring p b s" "set_ring p (pipe_bufs s p) s = s"
  by (simp_all add: set_ring_def fd_file_def)

lemma pipe_fd_set_ring [simp]: "pipe_fd fd f p (set_ring q b s) = pipe_fd fd f p s"
  by (simp add: pipe_fd_def)

lemma pipe_fd_moved [simp]:
  "pipe_fd fd f p (set_offset g x s) = pipe_fd fd f p s" "pipe_fd fd f p (s\<lparr>umem := m\<rparr>) = pipe_fd fd f p s"
  by (simp_all add: pipe_fd_def set_offset_def set_kern_def upd_file_def fd_file_def process_fd_get_def)

text \<open>A write that fits does not wait, whatever the rest of the system would do.\<close>

lemma pipe_write_func_loop_fits:
  assumes "p \<notin> freed_pipes (kern s)" "pbuf_ok (pipe_bufs s p)" "length (pbuf_bytes (pipe_bufs s p)) + length cs \<le> 4095"
  shows "pipe_write_func_loop Y p w cs s = Some (w + of_nat (length cs), set_ring p (snd (pipe_fill cs (pipe_bufs s p))) s)"
  using assms
proof (induction cs arbitrary: w s)
  case Nil
  then show ?case by (simp add: pipe_write_func_loop.simps)
next
  case (Cons c cs)
  have "length (pbuf_bytes (pipe_bufs s p)) < 4095" using Cons.prems(3) by simp
  from pp.put_room [OF Cons.prems(2) this, of c] obtain b where
    b: "pbuf_put1 c (pipe_bufs s p) = Some b" "pbuf_ok b" "pbuf_bytes b = pbuf_bytes (pipe_bufs s p) @ [c]" by blast
  then have g: "(phead (pipe_bufs s p) + 1) mod 4096 \<noteq> ptail (pipe_bufs s p)" "b = pbuf_put c (pipe_bufs s p)"
    by (auto simp: pbuf_put1_def simp del: One_nat_def split: if_splits)
  have "pipe_write_func_loop Y p w (c # cs) s = pipe_write_func_loop Y p (w + 1) cs (set_ring p b s)"
    using Cons.prems(1) g by (subst pipe_write_func_loop.simps) (simp add: set_ring_def)
  also have "\<dots> = Some (w + 1 + of_nat (length cs), set_ring p (snd (pipe_fill cs b)) (set_ring p b s))"
    using Cons.IH [of "set_ring p b s" "w + 1"] Cons.prems b by simp
  finally show ?case using b(1) by (simp add: algebra_simps)
qed

lemma sb_push_pipe:
  assumes fd: "pipe_fd fd f p s" and r: "is_user_range buf cnt" and ok: "pbuf_ok (pipe_bufs s p)"
    and fits: "length (pbuf_bytes (pipe_bufs s p)) + unat cnt \<le> 4095"
  shows "\<exists>s'. sb_push (sys_calls Y D) fd buf cnt s = Some (cnt, s') \<and> pbuf_ok (pipe_bufs s' p) \<and> umem s' = umem s
    \<and> pbuf_bytes (pipe_bufs s' p) = pbuf_bytes (pipe_bufs s p) @ load (umem s) (unat buf) (unat cnt)
    \<and> (\<forall>fd' f'. pipe_fd fd' f' p s' = pipe_fd fd' f' p s)"
proof -
  note F = fd [unfolded pipe_fd_def Let_def]
  let ?bs = "load (umem s) (unat buf) (unat cnt)"
  have c: "unat (ucast cnt :: u32) = unat cnt" and cc: "ucast (of_nat (unat cnt) :: u32) = cnt"
    using fits by (simp_all add: word_unat_eq_iff unsigned_ucast_eq unsigned_take_bit_eq take_bit_nat_eq_self)
  from pp.put_all_spec [OF ok, of ?bs] fits obtain b where
    b: "pipe_fill ?bs (pipe_bufs s p) = (unat cnt, b)" "pbuf_ok b" "pbuf_bytes b = pbuf_bytes (pipe_bufs s p) @ ?bs" by auto
  have w: "pipe_write_func_loop Y p 0 ?bs s = Some (of_nat (unat cnt), set_ring p b s)"
    using pipe_write_func_loop_fits [of p s ?bs Y 0] F ok fits b(1) by simp
  have "vfs_write (sys_calls Y D) (node (files (kern s) f)) off ?bs s = Some (of_nat (unat cnt), set_ring p b s)" for off
    using F w by (auto simp: vfs_write_def sys_calls_def pipe_write_func_def)
  then have "sb_push (sys_calls Y D) fd buf cnt s = Some (cnt, set_offset f (foffset (files (kern s) f) + cnt) (set_ring p b s))"
    using F r c cc by (simp add: sb_push_def live_file_def)
  moreover have "pipe_bufs (set_offset f x (set_ring p b s)) p = b" for x
    by (simp add: set_offset_def set_kern_def set_ring_def)
  ultimately show ?thesis using b by auto
qed

lemma sb_pull_pipe:
  assumes fd: "pipe_fd fd f p s" and r: "is_user_range buf cnt" and ok: "pbuf_ok (pipe_bufs s p)" and small: "unat cnt < 2 ^ 32"
    and bs: "bs = take (unat cnt) (pbuf_bytes (pipe_bufs s p))"
  shows "\<exists>s'. sb_pull (sys_calls Y D) fd buf cnt s = Some (of_nat (length bs), s') \<and> pbuf_ok (pipe_bufs s' p)
    \<and> umem s' = store (umem s) (unat buf) bs \<and> pbuf_bytes (pipe_bufs s' p) = drop (unat cnt) (pbuf_bytes (pipe_bufs s p))"
proof -
  note F = fd [unfolded pipe_fd_def Let_def]
  have c: "unat (ucast cnt :: u32) = unat cnt" using small by (simp add: unsigned_ucast_eq take_bit_nat_eq_self)
  from pp.get_upto_spec [OF ok, of "unat cnt"] bs obtain b where
    b: "pipe_take (unat cnt) (pipe_bufs s p) = (bs, b)" "pbuf_ok b" "pbuf_bytes b = drop (unat cnt) (pbuf_bytes (pipe_bufs s p))" by auto
  have "vfs_read (sys_calls Y D) (node (files (kern s) f)) off (ucast cnt) s = Some (bs, set_ring p b s)" for off
    using F b(1) c by (simp add: vfs_read_def sys_calls_def pipe_read_func_def set_ring_def)
  then have "sb_pull (sys_calls Y D) fd buf cnt s = Some (of_nat (length bs), set_offset f (foffset (files (kern s) f) + of_nat (length bs))
      ((set_ring p b s)\<lparr>umem := store (umem s) (unat buf) bs\<rparr>))"
    using F r by (simp add: sb_pull_def live_file_def)
  moreover have "pipe_bufs (set_offset f x ((set_ring p b s)\<lparr>umem := m\<rparr>)) p = b" for x m
    by (simp add: set_offset_def set_kern_def set_ring_def)
  ultimately show ?thesis using b by auto
qed

section \<open>Creating a pipe\<close>

lemma first_free_exists: "i < length xs \<Longrightarrow> xs ! i = 0 \<Longrightarrow> \<exists>j < length xs. first_free xs 0 = Some j"
  using first_free_None [of xs 0] first_free_Some [of xs 0] by (cases "first_free xs 0") (force simp: in_set_conv_nth)+

text \<open>Installing two files takes two different free slots.\<close>

lemma install_two:
  assumes len: "length (fds (tasks k q)) = 256" and free: "i < 256" "j < 256" "i \<noteq> j" "fds (tasks k q) ! i = 0" "fds (tasks k q) ! j = 0"
    and fg: "f \<noteq> 0" "g \<noteq> 0" "f \<noteq> g"
  shows "\<exists>a b k1 k2. a < 256 \<and> b < 256 \<and> process_fd_install q f k = (int a, k1) \<and> process_fd_install q g k1 = (int b, k2)
    \<and> fds (tasks k2 q) ! a = f \<and> fds (tasks k2 q) ! b = g \<and> current_proc k2 = current_proc k \<and> freed_files k2 = freed_files k
    \<and> freed_pipes k2 = freed_pipes k \<and> (\<forall>h. node (files k2 h) = node (files k h))"
proof -
  obtain a where a: "a < 256" "first_free (fds (tasks k q)) 0 = Some a" using first_free_exists [of i "fds (tasks k q)"] free(1,4) len by auto
  let ?fds = "(fds (tasks k q))[a := f]"
  define c where "c = (if a = i then j else i)"
  have "c < length ?fds" "?fds ! c = 0" using free len by (auto simp: c_def)
  then obtain b where b: "b < 256" "first_free ?fds 0 = Some b" using first_free_exists [of c ?fds] len by auto
  have "b \<noteq> a" using first_free_Some [OF b(2)] a(1) len fg(1) by auto
  define inst where "inst = (\<lambda>i h k. upd_file h (\<lambda>fl. fl\<lparr>open_file.refcount := open_file.refcount fl + 1\<rparr>) (upd_task q (\<lambda>t. t\<lparr>fds := (fds t)[i := h]\<rparr>) k))"
  have 1: "process_fd_install q f k = (int a, inst a f k)" using a(2) fg(1) by (simp add: process_fd_install_def inst_def)
  have "fds (tasks (inst a f k) q) = ?fds" by (simp add: inst_def upd_task_def upd_file_def)
  then have 2: "process_fd_install q g (inst a f k) = (int b, inst b g (inst a f k))" using b(2) fg(2) by (simp add: process_fd_install_def inst_def)
  show ?thesis
    by (rule exI [of _ a], rule exI [of _ b], rule exI [of _ "inst a f k"], rule exI [of _ "inst b g (inst a f k)"])
      (use 1 2 a(1) b(1) len \<open>b \<noteq> a\<close> in \<open>simp add: inst_def upd_task_def upd_file_def\<close>)
qed

lemma fd_arg_slot: "a < 256 \<Longrightarrow> fd_arg (ucast (of_nat a :: u32)) = int a"
  by (subst fd_arg_small) (simp_all add: unsigned_ucast_eq unsigned_of_nat take_bit_nat_eq_self)

text \<open>What \<^verbatim>\<open>sys_pipe\<close> needs: memory, two free descriptors, and a new node that no mount names.\<close>

definition can_pipe :: "'a sys_scheme \<Rightarrow> bool" where
  "can_pipe s \<longleftrightarrow> plan s = [] \<and> next_obj s \<noteq> 0 \<and> next_node s \<noteq> 0 \<and> (\<forall>m \<in> set (mount_table s). mnode m \<noteq> next_node s)
     \<and> length (fds (self s)) = 256 \<and> (\<exists>i < 256. \<exists>j < 256. i \<noteq> j \<and> fds (self s) ! i = 0 \<and> fds (self s) ! j = 0)"

lemma sys_pipe_spec:
  assumes "is_user_range pipefd 8" "can_pipe s"
  shows "\<exists>rfd wfd rf wf p s'. sys_pipe pipefd s = Some (0, s') \<and> load (umem s') (unat pipefd) 8 = mem32 rfd @ mem32 wfd
    \<and> pipe_fd (ucast rfd) rf p s' \<and> pipe_fd (ucast wfd) wf p s' \<and> pbuf_ok (pipe_bufs s' p) \<and> pbuf_bytes (pipe_bufs s' p) = []"
proof -
  let ?o = "next_obj s" let ?n = "next_node s"
  define k where "k = new_file (Suc (Suc ?o)) ?n 1 (new_file (Suc ?o) ?n 0
    ((kern s)\<lparr>pipes := (pipes (kern s))(?o := \<lparr>readers = 1, writers = 1\<rparr>), freed_pipes := freed_pipes (kern s) - {?o}\<rparr>))"
  have k: "tasks k = tasks (kern s)" "current_proc k = me s" "Suc ?o \<notin> freed_files k" "Suc (Suc ?o) \<notin> freed_files k" "?o \<notin> freed_pipes k"
    "node (files k (Suc ?o)) = ?n" "node (files k (Suc (Suc ?o))) = ?n" by (simp_all add: k_def new_file_def)
  obtain i j where "i < 256" "j < 256" "i \<noteq> j" "fds (tasks k (me s)) ! i = 0" "fds (tasks k (me s)) ! j = 0" "length (fds (tasks k (me s))) = 256"
    using assms(2) k(1) by (auto simp: can_pipe_def)
  with install_two [of k "me s" i j "Suc ?o" "Suc (Suc ?o)"] obtain a b k1 k2 where
    I: "a < 256" "b < 256" "process_fd_install (me s) (Suc ?o) k = (int a, k1)" "process_fd_install (me s) (Suc (Suc ?o)) k1 = (int b, k2)"
      "fds (tasks k2 (me s)) ! a = Suc ?o" "fds (tasks k2 (me s)) ! b = Suc (Suc ?o)" "current_proc k2 = me s"
    and J: "freed_files k2 = freed_files k" "freed_pipes k2 = freed_pipes k" "node (files k2 (Suc ?o)) = ?n" "node (files k2 (Suc (Suc ?o))) = ?n"
    using k by auto
  let ?fds = "mem32 (word_of_int (int a)) @ mem32 (word_of_int (int b))"
  let ?N = "zero_node\<lparr>vflags := 5, vimpl := ?o, read_fn := Some ''pipe_read_func'', write_fn := Some ''pipe_write_func''\<rparr>"
  let ?b = "\<lparr>pbuffer = replicate 4096 0, phead = 0, ptail = 0\<rparr> :: pipe_buf"
  define s' where "s' = s\<lparr>pipe_bufs := (pipe_bufs s)(?o := ?b), vfs.nodes := (vfs.nodes s)(?n := ?N), next_node := Suc ?n,
    next_obj := Suc (Suc (Suc ?o)), kern := k2, umem := store (umem s) (unat pipefd) ?fds\<rparr>"
  have "current_proc (new_file f n fl x) = current_proc x" for f n fl x by (simp add: new_file_def)
  then have "sys_pipe pipefd s = Some (0, s')"
    using assms I(3,4) by (simp add: sys_pipe_def can_pipe_def new_obj_def new_node_def kmalloc_ok_def set_kern_def k_def s'_def)
  moreover have "load (umem s') (unat pipefd) 8 = ?fds" using load_store [of "umem s" "unat pipefd" ?fds] by (simp add: s'_def)
  moreover have "pipe_fd (ucast (word_of_int (int a) :: u32)) (Suc ?o) ?o s'" "pipe_fd (ucast (word_of_int (int b) :: u32)) (Suc (Suc ?o)) ?o s'"
    using assms(2) I J k by (auto simp: pipe_fd_def fd_file_def process_fd_get_def fd_arg_slot s'_def can_pipe_def zero_node_def)
  moreover have "pbuf_ok (pipe_bufs s' ?o)" "pbuf_bytes (pipe_bufs s' ?o) = []"
    by (simp_all add: s'_def pbuf_ok_def ring_ok_def pbuf_bytes_def ring_list_def)
  ultimately show ?thesis by blast
qed

text \<open>
  C15. A pipe carries bytes: when there is memory and two descriptors are free, \<^verbatim>\<open>pipe\<close> stores two descriptors in the user's array; writing up to
  4095 bytes to the second answers their number without waiting, and reading as many from the first answers the same number and puts
  the same bytes, in order, into the reader's buffer.
\<close>

theorem pipe_carries_bytes:
  assumes "can_pipe s" "is_user_range pipefd 8" "is_user_range buf cnt" "is_user_range buf2 cnt" "cnt \<le> 4095"
  shows "\<exists>rfd wfd s1 s2 s3. sys_pipe pipefd s = Some (0, s1) \<and> load (umem s1) (unat pipefd) 8 = mem32 rfd @ mem32 wfd
    \<and> sb_push (sys_calls Y D) (ucast wfd) buf cnt s1 = Some (cnt, s2) \<and> sb_pull (sys_calls Y D) (ucast rfd) buf2 cnt s2 = Some (cnt, s3)
    \<and> load (umem s3) (unat buf2) (unat cnt) = load (umem s1) (unat buf) (unat cnt)"
proof -
  have c: "unat cnt \<le> 4095" using assms(5) by (simp add: word_le_nat_alt)
  obtain rfd wfd rf wf p s1 where 1: "sys_pipe pipefd s = Some (0, s1)" "load (umem s1) (unat pipefd) 8 = mem32 rfd @ mem32 wfd"
      "pipe_fd (ucast rfd) rf p s1" "pipe_fd (ucast wfd) wf p s1" "pbuf_ok (pipe_bufs s1 p)" "pbuf_bytes (pipe_bufs s1 p) = []"
    using sys_pipe_spec [OF assms(2,1)] by blast
  let ?bs = "load (umem s1) (unat buf) (unat cnt)"
  obtain s2 where 2: "sb_push (sys_calls Y D) (ucast wfd) buf cnt s1 = Some (cnt, s2)" "pbuf_ok (pipe_bufs s2 p)" "pbuf_bytes (pipe_bufs s2 p) = ?bs"
      "pipe_fd (ucast rfd) rf p s2" using sb_push_pipe [OF 1(4) assms(3) 1(5), of Y D] 1(3,6) c by auto
  obtain s3 where "sb_pull (sys_calls Y D) (ucast rfd) buf2 cnt s2 = Some (of_nat (length ?bs), s3)" "umem s3 = store (umem s2) (unat buf2) ?bs"
    using sb_pull_pipe [OF 2(4) assms(4) 2(2) _ refl, of Y D] 2(3) c by auto
  then show ?thesis using 1(1,2) 2(1) load_store [of "umem s2" "unat buf2" ?bs]
    by (intro exI [of _ rfd] exI [of _ wfd] exI [of _ s1] exI [of _ s2] exI [of _ s3]) simp
qed

section \<open>A full pipe\<close>

text \<open>A reader that takes something whenever the ring is full.\<close>

definition drains :: "nat \<Rightarrow> ('a sys_scheme \<Rightarrow> 'a sys_scheme) \<Rightarrow> bool" where
  "drains p Y \<longleftrightarrow> (\<forall>t. p \<notin> freed_pipes (kern t) \<longrightarrow> p \<notin> freed_pipes (kern (Y t)) \<and> pbuf_ok (pipe_bufs (Y t) p)
     \<and> length (pbuf_bytes (pipe_bufs (Y t) p)) < 4095)"

lemma pipe_full_iff: "pbuf_ok b \<Longrightarrow> Suc (phead b) mod 4096 = ptail b \<longleftrightarrow> length (pbuf_bytes b) = 4095"
  using ring_full_iff [of 4096 "pbuffer b" "phead b" "ptail b"] by (simp add: pbuf_ok_def pbuf_bytes_def)

lemma pbuf_put_ok: "pbuf_ok b \<Longrightarrow> length (pbuf_bytes b) < 4095 \<Longrightarrow> pbuf_ok (pbuf_put c b) \<and> pbuf_bytes (pbuf_put c b) = pbuf_bytes b @ [c]"
  using pp.put_room [of b c] by (auto simp: pbuf_put1_def split: if_splits)

lemma pipe_write_func_loop_room:
  assumes "p \<notin> freed_pipes (kern s)" "pbuf_ok (pipe_bufs s p)" "length (pbuf_bytes (pipe_bufs s p)) < 4095"
  shows "pipe_write_func_loop Y p w (c # cs) s = pipe_write_func_loop Y p (w + 1) cs (set_ring p (pbuf_put c (pipe_bufs s p)) s)"
  using assms by (subst pipe_write_func_loop.simps) (simp add: set_ring_def pipe_full_iff)

lemma pipe_write_func_loop_drained:
  assumes Y: "drains p Y" and r: "\<And>t. readers (pipes (kern (Y t)) p) = readers (pipes (kern t) p) \<and> freed_files (kern (Y t)) = freed_files (kern t)"
  shows "p \<notin> freed_pipes (kern s) \<Longrightarrow> pbuf_ok (pipe_bufs s p) \<Longrightarrow> word_of_int (readers (pipes (kern s) p)) \<noteq> (0 :: u32)
    \<Longrightarrow> \<exists>s'. pipe_write_func_loop Y p w cs s = Some (w + of_nat (length cs), s') \<and> freed_files (kern s') = freed_files (kern s)"
proof (induction cs arbitrary: w s)
  case Nil
  then show ?case by (simp add: pipe_write_func_loop.simps)
next
  case (Cons c cs)
  define t where "t = (if length (pbuf_bytes (pipe_bufs s p)) < 4095 then s else Y s)"
  have t: "p \<notin> freed_pipes (kern t)" "pbuf_ok (pipe_bufs t p)" "length (pbuf_bytes (pipe_bufs t p)) < 4095" "readers (pipes (kern t) p) = readers (pipes (kern s) p)"
    "freed_files (kern t) = freed_files (kern s)" using Y r Cons.prems by (auto simp: t_def drains_def)
  have "pipe_write_func_loop Y p w (c # cs) s = pipe_write_func_loop Y p w (c # cs) t"
    using Cons.prems pp.contents_bound [OF Cons.prems(2)]
    by (cases "length (pbuf_bytes (pipe_bufs s p)) < 4095") (simp_all add: t_def pipe_write_func_loop.simps [of Y p w "c # cs" s] pipe_full_iff)
  also have "\<dots> = pipe_write_func_loop Y p (w + 1) cs (set_ring p (pbuf_put c (pipe_bufs t p)) t)" using pipe_write_func_loop_room [OF t(1-3)] .
  finally show ?case
    using Cons.IH [of "set_ring p (pbuf_put c (pipe_bufs t p)) t" "w + 1"] Cons.prems(3) t pbuf_put_ok [OF t(2,3), of c] by (simp add: algebra_simps)
qed

text \<open>A scheduler under which nobody reads.\<close>

definition ignores :: "nat \<Rightarrow> ('a sys_scheme \<Rightarrow> 'a sys_scheme) \<Rightarrow> bool" where
  "ignores p Y \<longleftrightarrow> (\<forall>t. pipe_bufs (Y t) p = pipe_bufs t p \<and> readers (pipes (kern (Y t)) p) = readers (pipes (kern t) p))"

lemma pipe_write_func_loop_stuck:
  assumes Y: "ignores p Y" and ok: "pbuf_ok (pipe_bufs s p)" and rd: "word_of_int (readers (pipes (kern s) p)) \<noteq> (0 :: u32)"
    and big: "4095 < length (pbuf_bytes (pipe_bufs s p)) + length cs"
  shows "pipe_write_func_loop Y p w cs s = None"
proof (rule ccontr)
  assume "pipe_write_func_loop Y p w cs s \<noteq> None"
  then obtain r where r: "pipe_write_func_loop Y p w cs s = Some r" by blast
  have "Y = Y \<longrightarrow> p = p \<longrightarrow> pbuf_ok (pipe_bufs s p) \<longrightarrow> word_of_int (readers (pipes (kern s) p)) \<noteq> (0 :: u32)
      \<longrightarrow> \<not> 4095 < length (pbuf_bytes (pipe_bufs s p)) + length cs"
  proof (rule pipe_write_func_loop.raw_induct [OF _ r, where P = "\<lambda>Y' p' w' cs' s' _. Y' = Y \<longrightarrow> p' = p \<longrightarrow> pbuf_ok (pipe_bufs s' p')
        \<longrightarrow> word_of_int (readers (pipes (kern s') p')) \<noteq> (0 :: u32) \<longrightarrow> \<not> 4095 < length (pbuf_bytes (pipe_bufs s' p')) + length cs'"], intro impI notI, goal_cases)
    case (1 rec Y' p' w' ds t r')
    let ?b = "pipe_bufs t p"
    have le: "length (pbuf_bytes ?b) \<le> 4095" using pp.contents_bound 1 by blast
    show False
    proof (cases ds)
      case Nil
      then show ?thesis using 1 le by simp
    next
      case (Cons d ds')
      show ?thesis
      proof (cases "length (pbuf_bytes ?b) < 4095")
        case True
        then show ?thesis
          using 1(1) [of Y p "w' + 1" ds' "set_ring p (pbuf_put d ?b) t" r'] 1(2-) Cons pbuf_put_ok [of ?b d]
          by (simp add: pipe_full_iff set_ring_def split: if_splits)
      next
        case False
        then show ?thesis
          using 1(1) [of Y p w' ds "Y t" r'] 1(2-) Cons Y le by (simp add: pipe_full_iff ignores_def split: if_splits)
      qed
    qed
  qed
  then show False using ok rd big by simp
qed

lemma vfs_write_pipe:
  assumes "pipe_fd fd f p s"
  shows "vfs_write (sys_calls Y D) (node (files (kern s) f)) off bs s = pipe_write_func_loop Y p 0 bs s"
  using assms by (auto simp: pipe_fd_def Let_def vfs_write_def sys_calls_def pipe_write_func_def)

text \<open>
  C28. Writing to a pipe waits for a reader: through a descriptor of a pipe whose read end is open, a write returns when
  every time the ring is full the rest of the system takes something from it, and never returns when more bytes are written than the ring has room for and nothing
  is ever taken from it.
\<close>

theorem pipe_write_waits:
  assumes fd: "pipe_fd fd f p s" and r: "is_user_range buf cnt" and ok: "pbuf_ok (pipe_bufs s p)" and rd: "word_of_int (readers (pipes (kern s) p)) \<noteq> (0 :: u32)"
    and keep: "\<forall>t. readers (pipes (kern (Y t)) p) = readers (pipes (kern t) p) \<and> freed_files (kern (Y t)) = freed_files (kern t)"
  shows "(drains p Y \<longrightarrow> (\<exists>s'. sb_push (sys_calls Y D) fd buf cnt s = Some (ucast (ucast cnt :: u32), s'))) \<and>
    (ignores p Y \<and> 4095 < length (pbuf_bytes (pipe_bufs s p)) + unat (ucast cnt :: u32) \<longrightarrow> sb_push (sys_calls Y D) fd buf cnt s = None)"
proof (intro conjI impI; (elim conjE)?)
  note F = fd [unfolded pipe_fd_def Let_def]
  let ?bs = "load (umem s) (unat buf) (unat (ucast cnt :: u32))"
  show "\<exists>s'. sb_push (sys_calls Y D) fd buf cnt s = Some (ucast (ucast cnt :: u32), s')" if "drains p Y"
    using pipe_write_func_loop_drained [OF that, of s 0 ?bs] keep F ok rd r vfs_write_pipe [OF fd] by (auto simp: sb_push_def live_file_def)
  show "sb_push (sys_calls Y D) fd buf cnt s = None" if "ignores p Y" "4095 < length (pbuf_bytes (pipe_bufs s p)) + unat (ucast cnt :: u32)"
    using pipe_write_func_loop_stuck [OF that(1) ok rd, of ?bs 0] that(2) F r vfs_write_pipe [OF fd] by (simp add: sb_push_def live_file_def)
qed

section \<open>Witnesses\<close>

lemma sample_can_pipe: "can_pipe sample_sys"
proof -
  have "fds (self sample_sys) ! 1 = 0" "fds (self sample_sys) ! 2 = 0" by (simp_all add: sample_sys_simps open_kernel_fields)
  moreover have "\<exists>i < 256. \<exists>j < 256. i \<noteq> j \<and> xs ! i = 0 \<and> xs ! j = 0" if "xs ! 1 = 0" "xs ! 2 = 0" for xs :: "nat list"
    by (rule exI [of _ 1], simp, rule exI [of _ 2]) (use that in simp)
  ultimately show ?thesis unfolding can_pipe_def by (simp add: sample_sys_simps open_kernel_fields)
qed

theorem pipe_carries_bytes_witness:
  "\<exists>rfd wfd s1 s2 s3. sys_pipe 64 sample_sys = Some (0, s1) \<and> load (umem s1) 64 8 = mem32 rfd @ mem32 wfd
    \<and> sb_push (sys_calls id no_calls) (ucast wfd) 100 3 s1 = Some (3, s2) \<and> sb_pull (sys_calls id no_calls) (ucast rfd) 200 3 s2 = Some (3, s3)
    \<and> load (umem s3) 200 3 = load (umem s1) 100 3"
  using pipe_carries_bytes [OF sample_can_pipe, of 64 100 3 200 id no_calls] by (simp add: is_user_range_bound)

text \<open>A pipe in which one byte is queued, and a system that empties or ignores it.\<close>

definition pipe_sys :: sys where
  "pipe_sys = sample_sys\<lparr>vfs.nodes := (\<lambda>_. zero_node\<lparr>vflags := 5, vimpl := 1, read_fn := Some ''pipe_read_func'', write_fn := Some ''pipe_write_func''\<rparr>),
     kern := open_kernel\<lparr>pipes := (\<lambda>_. \<lparr>readers = 1, writers = 1\<rparr>), freed_pipes := {}\<rparr>,
     pipe_bufs := (\<lambda>_. \<lparr>pbuffer = replicate 4096 7, phead = 1, ptail = 0\<rparr>)\<rparr>"

lemma pipe_sys_fd: "pipe_fd 0 5 1 pipe_sys" "pbuf_ok (pipe_bufs pipe_sys p)" "length (pbuf_bytes (pipe_bufs pipe_sys p)) = 1" "readers (pipes (kern pipe_sys) p) = 1"
  by (simp_all add: pipe_fd_def pipe_sys_def sample_sys_simps open_kernel_fields fd_file_def sample_fd(1) process_fd_get_def zero_node_def
      pbuf_ok_def ring_ok_def pbuf_bytes_def length_ring_list)

definition drain :: "sys \<Rightarrow> sys" where
  "drain s = s\<lparr>pipe_bufs := pipe_bufs pipe_sys\<rparr>"

theorem pipe_write_waits_witness:
  "(\<exists>s'. sb_push (sys_calls drain no_calls) 0 100 5000 pipe_sys = Some (5000, s')) \<and> sb_push (sys_calls id no_calls) 0 100 5000 pipe_sys = None"
proof -
  have 1: "drains 1 drain" "\<forall>t. readers (pipes (kern (drain t)) 1) = readers (pipes (kern t) 1) \<and> freed_files (kern (drain t)) = freed_files (kern t)"
    and 2: "ignores 1 (id :: sys \<Rightarrow> sys)" by (simp_all add: drains_def drain_def pipe_sys_fd ignores_def)
  have r: "is_user_range 100 5000" "word_of_int (readers (pipes (kern pipe_sys) 1)) \<noteq> (0 :: u32)" by (simp_all add: is_user_range_bound pipe_sys_fd)
  note W = pipe_write_waits [OF pipe_sys_fd(1) r(1) pipe_sys_fd(2) r(2), where D = no_calls]
  show ?thesis using W [OF 1(2)] 1(1) W [of id] 2 pipe_sys_fd(3) by simp
qed

end
