(* ===== verification/Syscall.thy ===== *)
theory Syscall
  imports Sys_Mem Sys_Time Sys_Proc Sys_Pipe
begin

text \<open>
  The entry of \<^verbatim>\<open>kernel/syscall.c\<close>: the table of handlers and \<^verbatim>\<open>syscall_handler\<close>, over one state that holds the files, processes and
  user memory of \<open>Sys_File\<close>, the address spaces of \<open>Sys_Mem\<close> and the clock of \<open>Sys_Time\<close>.

  A handler is named by the function the table points to. \<open>X\<close> stands for the handlers that leave the calling process (fork,
  exec, exit, yield, sleep, wait) or reach a device, the network or another server.
\<close>

record machine = sys +
  mvmm :: vmm
  mclock :: clock
  mrtc :: rtc

type_synonym args = "u64 \<times> u64 \<times> u64 \<times> u64 \<times> u64"
type_synonym handler = "args \<Rightarrow> machine \<Rightarrow> (u64 \<times> machine) option"

section \<open>Handlers on the whole state\<close>

definition put_mem :: "u64 \<times> mem \<Rightarrow> machine \<Rightarrow> (u64 \<times> machine) option" where
  "put_mem r s = Some (fst r, s\<lparr>umem := snd r\<rparr>)"

definition put_kern :: "u64 \<times> kernel \<Rightarrow> machine \<Rightarrow> (u64 \<times> machine) option" where
  "put_kern r s = Some (fst r, set_kern (snd r) s)"

definition put_vmm :: "u64 \<times> vmm \<Rightarrow> machine \<Rightarrow> (u64 \<times> machine) option" where
  "put_vmm r s = Some (fst r, s\<lparr>mvmm := snd r\<rparr>)"

definition put_both :: "u64 \<times> mem \<times> kernel \<Rightarrow> machine \<Rightarrow> (u64 \<times> machine) option" where
  "put_both r s = (case r of (x, m, k) \<Rightarrow> Some (x, set_kern k (s\<lparr>umem := m\<rparr>)))"

definition sys_getpriority :: "u64 \<Rightarrow> u64 \<Rightarrow> u64" where "sys_getpriority which who = 0"
definition sys_setpriority :: "u64 \<Rightarrow> u64 \<Rightarrow> u64 \<Rightarrow> u64" where "sys_setpriority which who prio = 0"
definition sys_setrlimit :: "u64 \<Rightarrow> u64 \<Rightarrow> u64" where "sys_setrlimit resource rlim = 0"
definition sys_sync :: u64 where "sys_sync = 0"
definition sys_fsync :: "u64 \<Rightarrow> u64" where "sys_fsync fd = 0"
definition sys_setgroups :: "u64 \<Rightarrow> u64 \<Rightarrow> u64" where "sys_setgroups sz lst = 0"

definition sb_socket_sendto_wrapper :: "machine fs_calls \<Rightarrow> u64 \<Rightarrow> u64 \<Rightarrow> u64 \<Rightarrow> machine \<Rightarrow> (u64 \<times> machine) option" where
  "sb_socket_sendto_wrapper E sockfd buf l s = sb_push E sockfd buf l s"

definition sb_socket_recvfrom_wrapper :: "machine fs_calls \<Rightarrow> u64 \<Rightarrow> u64 \<Rightarrow> u64 \<Rightarrow> machine \<Rightarrow> (u64 \<times> machine) option" where
  "sb_socket_recvfrom_wrapper E sockfd buf l s = sb_pull E sockfd buf l s"

definition brk_call :: "u64 \<Rightarrow> machine \<Rightarrow> (u64 \<times> machine) option" where
  "brk_call b s = map_option (\<lambda>(r, t, v). (r, set_kern (upd_task (me s) (\<lambda>_. t) (kern s)) (s\<lparr>mvmm := v\<rparr>))) (sys_brk b (self s) (mvmm s))"

text \<open>What each entry of the table runs.\<close>

definition handlers :: "machine fs_calls \<Rightarrow> (string \<times> handler) list" where
  "handlers E =
    [(''sb_pull'', \<lambda>(a, b, c, d, e) s. sb_pull E a b c s), (''sb_push'', \<lambda>(a, b, c, d, e) s. sb_push E a b c s),
     (''sb_acquire'', \<lambda>(a, b, c, d, e) s. sb_acquire E a b c s), (''sb_release'', \<lambda>(a, b, c, d, e) s. sb_release E a s),
     (''sys_stat'', \<lambda>(a, b, c, d, e) s. sys_stat E a b s), (''sys_fstat'', \<lambda>(a, b, c, d, e) s. sys_fstat a b s),
     (''sys_lseek'', \<lambda>(a, b, c, d, e) s. sys_lseek a b c s), (''sys_ioctl'', \<lambda>(a, b, c, d, e) s. Some (sys_ioctl a s, s)),
     (''sys_getdents'', \<lambda>(a, b, c, d, e) s. sys_getdents E a b c s), (''sys_pipe'', \<lambda>(a, b, c, d, e) s. sys_pipe a s),
     (''sys_dup'', \<lambda>(a, b, c, d, e) s. sys_dup a s), (''sys_dup2'', \<lambda>(a, b, c, d, e) s. sys_dup2 E a b s),
     (''sys_chdir'', \<lambda>(a, b, c, d, e) s. sys_chdir E a s), (''sys_mkdir'', \<lambda>(a, b, c, d, e) s. sys_mkdir E a s),
     (''sys_rmdir'', \<lambda>(a, b, c, d, e) s. sys_rmdir E a s), (''sys_unlink'', \<lambda>(a, b, c, d, e) s. sys_unlink E a s),
     (''sys_rename'', \<lambda>(a, b, c, d, e) s. sys_rename a b s), (''sys_access'', \<lambda>(a, b, c, d, e) s. sys_access E a s),
     (''sys_chmod'', \<lambda>(a, b, c, d, e) s. sys_chmod E a b s), (''sys_chown'', \<lambda>(a, b, c, d, e) s. sys_chown E a b c s),
     (''sys_mount'', \<lambda>(a, b, c, d, e) s. Some (sys_mount b c d s)), (''sys_umount2'', \<lambda>(a, b, c, d, e) s. Some (sys_umount2 a s)),
     (''sb_socket_sendto_wrapper'', \<lambda>(a, b, c, d, e) s. sb_socket_sendto_wrapper E a b c s),
     (''sb_socket_recvfrom_wrapper'', \<lambda>(a, b, c, d, e) s. sb_socket_recvfrom_wrapper E a b c s),
     (''sys_mmap'', \<lambda>(a, b, c, d, e) s. Option.bind (sys_mmap a b c (self s) (mvmm s)) (\<lambda>r. put_vmm r s)),
     (''sys_mprotect'', \<lambda>(a, b, c, d, e) s. put_vmm (sys_mprotect a b c (self s) (mvmm s)) s),
     (''sys_munmap'', \<lambda>(a, b, c, d, e) s. put_vmm (sys_munmap a b (self s) (mvmm s)) s), (''sys_brk'', \<lambda>(a, b, c, d, e) s. brk_call a s),
     (''sys_time'', \<lambda>(a, b, c, d, e) s. put_mem (sys_time a (umem s) (mclock s)) s),
     (''sys_clock_gettime'', \<lambda>(a, b, c, d, e) s. put_mem (sys_clock_gettime b (umem s) (mclock s)) s),
     (''sys_times'', \<lambda>(a, b, c, d, e) s. put_mem (sys_times a (umem s) (mclock s)) s),
     (''sys_gettimeofday'', \<lambda>(a, b, c, d, e) s. Option.bind (sys_gettimeofday (mrtc s) a (umem s) (mclock s)) (\<lambda>r. put_mem r s)),
     (''sys_timezone'', \<lambda>(a, b, c, d, e) s. let (r, t) = sys_timezone a b (mclock s) in Some (r, s\<lparr>mclock := t\<rparr>)),
     (''sys_getpid'', \<lambda>_ s. Some (sys_getpid (kern s), s)), (''sys_getuid'', \<lambda>_ s. Some (sys_getuid (kern s), s)),
     (''sys_getgid'', \<lambda>_ s. Some (sys_getgid (kern s), s)), (''sys_geteuid'', \<lambda>_ s. Some (sys_geteuid (kern s), s)),
     (''sys_getegid'', \<lambda>_ s. Some (sys_getegid (kern s), s)), (''sys_getppid'', \<lambda>_ s. Some (sys_getppid (kern s), s)),
     (''sys_gettid'', \<lambda>_ s. Some (sys_gettid (kern s), s)), (''sys_setuid'', \<lambda>(a, b, c, d, e) s. put_kern (sys_setuid a (kern s)) s),
     (''sys_setgid'', \<lambda>(a, b, c, d, e) s. put_kern (sys_setgid a (kern s)) s),
     (''sys_getgroups'', \<lambda>(a, b, c, d, e) s. put_mem (sys_getgroups a b (umem s) (kern s)) s),
     (''sys_rt_sigaction'', \<lambda>(a, b, c, d, e) s. put_both (sys_rt_sigaction a b c (umem s) (kern s)) s),
     (''sys_rt_sigprocmask'', \<lambda>(a, b, c, d, e) s. put_both (sys_rt_sigprocmask a b c (umem s) (kern s)) s),
     (''sys_rt_sigreturn'', \<lambda>_ s. Some (sys_rt_sigreturn, s)),
     (''sys_kill'', \<lambda>(a, b, c, d, e) s. Option.bind (sys_kill a b (kern s)) (\<lambda>r. put_kern r s)),
     (''sys_uname'', \<lambda>(a, b, c, d, e) s. put_mem (sys_uname a (umem s)) s), (''sys_getcwd'', \<lambda>(a, b, c, d, e) s. put_mem (sys_getcwd a b (umem s)) s),
     (''sys_getrlimit'', \<lambda>(a, b, c, d, e) s. put_mem (sys_getrlimit b (umem s)) s),
     (''sys_getrusage'', \<lambda>(a, b, c, d, e) s. put_mem (sys_getrusage b (umem s)) s),
     (''sys_mem_info'', \<lambda>(a, b, c, d, e) s. put_mem (sys_mem_info a (umem s) (vpmm (mvmm s))) s),
     (''sys_proc_info'', \<lambda>(a, b, c, d, e) s. Option.bind (sys_proc_info a b (umem s) (kern s)) (\<lambda>r. put_mem r s)),
     (''sys_getpriority'', \<lambda>(a, b, c, d, e) s. Some (sys_getpriority a b, s)), (''sys_setpriority'', \<lambda>(a, b, c, d, e) s. Some (sys_setpriority a b c, s)),
     (''sys_setrlimit'', \<lambda>(a, b, c, d, e) s. Some (sys_setrlimit a b, s)), (''sys_sync'', \<lambda>_ s. Some (sys_sync, s)),
     (''sys_fsync'', \<lambda>(a, b, c, d, e) s. Some (sys_fsync a, s)), (''sys_setgroups'', \<lambda>(a, b, c, d, e) s. Some (sys_setgroups a b, s))]"

definition run_handler :: "machine fs_calls \<Rightarrow> (string \<Rightarrow> handler) \<Rightarrow> string \<Rightarrow> handler" where
  "run_handler E X h = (case map_of (handlers E) h of Some f \<Rightarrow> f | None \<Rightarrow> X h)"

section \<open>The table\<close>

text \<open>The designated initialisers, in their order; a later one for the same index replaces an earlier one.\<close>

definition syscall_entries :: "(nat \<times> string) list" where
  "syscall_entries =
    [(0, ''sb_pull''), (1, ''sb_push''), (2, ''sb_acquire''), (3, ''sb_release''), (4, ''sys_stat''), (5, ''sys_fstat''),
     (8, ''sys_lseek''), (9, ''sys_mmap''), (10, ''sys_mprotect''), (11, ''sys_munmap''), (12, ''sys_brk''),
     (41, ''sb_socket_create_wrapper''), (42, ''sb_socket_connect_wrapper''), (43, ''sb_socket_accept_wrapper''),
     (44, ''sb_socket_sendto_wrapper''), (45, ''sb_socket_recvfrom_wrapper''), (49, ''sb_socket_bind_wrapper''),
     (50, ''sb_socket_listen_wrapper''), (13, ''sys_rt_sigaction''), (14, ''sys_rt_sigprocmask''), (15, ''sys_rt_sigreturn''),
     (16, ''sys_ioctl''), (22, ''sys_pipe''), (24, ''sys_sched_yield''), (32, ''sys_dup''), (33, ''sys_dup2''), (35, ''sys_nanosleep''),
     (39, ''sys_getpid''), (57, ''sb_replicate''), (59, ''sb_morph''), (60, ''sb_terminate''), (61, ''sys_wait4''), (62, ''sys_kill''),
     (63, ''sys_uname''), (78, ''sys_getdents''), (79, ''sys_getcwd''), (80, ''sys_chdir''), (102, ''sys_getuid''), (104, ''sys_getgid''),
     (107, ''sys_geteuid''), (108, ''sys_getegid''), (110, ''sys_getppid''), (158, ''sys_arch_prctl''), (186, ''sys_gettid''),
     (201, ''sys_time''), (228, ''sys_clock_gettime''), (231, ''sb_terminate_group''), (100, ''sys_times''), (101, ''sys_proc_info''),
     (120, ''sys_mem_info''), (21, ''sys_access''), (83, ''sys_mkdir''), (84, ''sys_rmdir''), (87, ''sys_unlink''), (90, ''sys_chmod''),
     (92, ''sys_chown''), (100, ''sys_times''), (82, ''sys_rename''), (96, ''sys_gettimeofday''), (105, ''sys_setuid''),
     (106, ''sys_setgid''), (140, ''sys_getpriority''), (141, ''sys_setpriority''), (97, ''sys_getrlimit''), (160, ''sys_setrlimit''),
     (165, ''sys_getrusage''), (162, ''sys_sync''), (74, ''sys_fsync''), (115, ''sys_getgroups''), (116, ''sys_setgroups''),
     (169, ''sys_mount''), (52, ''sys_umount2''), (200, ''sys_fb_mmap''), (202, ''sys_fb_info''), (203, ''sys_sys_status''),
     (204, ''sys_notify_peek''), (205, ''sys_notify_dismiss''), (210, ''sys_power''), (211, ''sys_timezone''), (212, ''sys_dns_resolve''),
     (213, ''sys_ntp_sync''), (214, ''sys_ping''), (215, ''sys_netinfo''), (250, ''sys_sb_ipc_call''), (251, ''sys_sb_ipc_reply_wait'')]"

definition SYSCALL_COUNT :: nat where
  "SYSCALL_COUNT = Suc (foldr max (map fst syscall_entries) 0)"

definition syscall_table :: "string option list" where
  "syscall_table = foldl (\<lambda>t (i, h). t[i := Some h]) (replicate SYSCALL_COUNT None) syscall_entries"

definition syscall_handler :: "machine fs_calls \<Rightarrow> (string \<Rightarrow> handler) \<Rightarrow> u64 \<Rightarrow> handler" where
  "syscall_handler E X rax a s =
     (if unat rax < SYSCALL_COUNT
      then case syscall_table ! unat rax of Some h \<Rightarrow> run_handler E X h a s | None \<Rightarrow> Some (err ENOSYS, s)
      else Some (err ENOSYS, s))"

section \<open>Lookup\<close>

lemma foldl_table:
  assumes "\<forall>(i, h) \<in> set es. i < length t" "n < length t"
  shows "foldl (\<lambda>t (i, h). t[i := Some h]) t es ! n = (case map_of (rev es) n of Some h \<Rightarrow> Some h | None \<Rightarrow> t ! n)"
  using assms
proof (induction es rule: rev_induct)
  case (snoc e es)
  have "length (foldl (\<lambda>t (i, h). t[i := Some h]) t es) = length t" by (induction es rule: rev_induct) (auto split: prod.split)
  then show ?case using snoc by (cases e) (auto simp: nth_list_update)
qed simp

lemma map_of_consistent:
  assumes "\<forall>e \<in> set es. \<forall>e' \<in> set es. fst e = fst e' \<longrightarrow> e = e'"
  shows "map_of (rev es) n = map_of es n"
proof (cases "map_of es n")
  case None
  then show ?thesis by (metis map_of_eq_None_iff set_rev set_map)
next
  case (Some h)
  then obtain g where "map_of (rev es) n = Some g" by (metis map_of_eq_None_iff not_None_eq option.distinct(1) set_map set_rev)
  then have "(n, g) \<in> set es" "(n, h) \<in> set es" using Some map_of_SomeD by (metis set_rev)+
  then show ?thesis using \<open>map_of (rev es) n = Some g\<close> Some assms by fastforce
qed

text \<open>Sorted by number, neighbours differ in their number or not at all.\<close>

definition before :: "nat \<times> string \<Rightarrow> nat \<times> string \<Rightarrow> bool" where
  "before x y \<longleftrightarrow> fst x < fst y \<or> x = y"

lemma sorted_before_unique: "sorted_wrt before xs \<Longrightarrow> e \<in> set xs \<Longrightarrow> e' \<in> set xs \<Longrightarrow> fst e = fst e' \<Longrightarrow> e = e'"
  by (induction xs) (auto simp: before_def)

lemma successively_consistent:
  assumes "successively before (sort_key fst es)"
  shows "\<forall>e \<in> set es. \<forall>e' \<in> set es. fst e = fst e' \<longrightarrow> e = e'"
proof -
  have "sorted_wrt before (sort_key fst es)"
    using assms by (subst (asm) successively_conv_sorted_wrt) (auto simp: transp_def before_def)
  then show ?thesis using sorted_before_unique [of "sort_key fst es"] by auto
qed

lemma SYSCALL_COUNT_eq: "SYSCALL_COUNT = 252"
  by (simp add: SYSCALL_COUNT_def syscall_entries_def)

lemma entries_bound: "\<forall>(i, h) \<in> set syscall_entries. i < 252"
  by (simp add: syscall_entries_def)

lemma entries_consistent: "\<forall>e \<in> set syscall_entries. \<forall>e' \<in> set syscall_entries. fst e = fst e' \<longrightarrow> e = e'"
  by (rule successively_consistent) (simp add: syscall_entries_def before_def)

text \<open>
  C26. The system call table: a call runs the handler that the table lists for its number, no number being listed with two handlers, and
  every number that the table does not list, however large, answers \<^verbatim>\<open>-ENOSYS\<close> and changes nothing.
\<close>

theorem syscall_handler_dispatch:
  "syscall_handler E X rax a s =
     (case map_of syscall_entries (unat rax) of Some h \<Rightarrow> run_handler E X h a s | None \<Rightarrow> Some (err ENOSYS, s))"
proof (cases "unat rax < 252")
  case True
  have "syscall_table ! unat rax = map_of syscall_entries (unat rax)"
    using foldl_table [of syscall_entries "replicate 252 None" "unat rax"] entries_bound True
    by (simp add: syscall_table_def SYSCALL_COUNT_eq map_of_consistent [OF entries_consistent] split: option.split)
  then show ?thesis using True by (simp add: syscall_handler_def SYSCALL_COUNT_eq)
next
  case False
  then have "map_of syscall_entries (unat rax) = None"
    using entries_bound by (auto simp: map_of_eq_None_iff)
  then show ?thesis using False by (simp add: syscall_handler_def SYSCALL_COUNT_eq)
qed

end
