(* ===== verification/Buddy.thy ===== *)
theory Buddy
  imports Prelude
begin

text \<open>
  The buddy allocator, \<^verbatim>\<open>arch/x86_64/mm/buddy.c\<close>: free blocks of \<open>2 ^ order\<close> pages, one linked list per order. The header of a
  block lies in its first page, at the page's address in the kernel's window; \<open>pages\<close> is that memory. Page numbers are
  natural numbers, addresses are words. Walking a list that does not end has no result.
\<close>

section \<open>State and operations\<close>

record buddy_page =
  bp_next :: u64
  bp_order :: u32
  bp_free :: bool

record buddy =
  free_areas :: "u64 list"
  pages :: "u64 \<Rightarrow> buddy_page"
  total_page_count :: u64
  free_page_count :: u64
  used_page_count :: u64
  buddy_base :: u64

abbreviation (input) MAX_ORDER :: nat where "MAX_ORDER \<equiv> 16"
abbreviation (input) KERNEL_WINDOW :: u64 where "KERNEL_WINDOW \<equiv> 0xFFFFFFFF80000000"

definition page_ptr :: "nat \<Rightarrow> u64" where
  "page_ptr i = of_nat i * 4096 + KERNEL_WINDOW"

definition set_page :: "u64 \<Rightarrow> (buddy_page \<Rightarrow> buddy_page) \<Rightarrow> buddy \<Rightarrow> buddy" where
  "set_page p f s = s\<lparr>pages := (pages s)(p := f (pages s p))\<rparr>"

definition buddy_remove_from_list :: "nat \<Rightarrow> buddy \<Rightarrow> u64 \<times> buddy" where
  "buddy_remove_from_list order s =
     (let page = free_areas s ! order
      in if page \<noteq> 0
         then (page, set_page page (\<lambda>b. b\<lparr>bp_next := 0, bp_free := False\<rparr>)
                       (s\<lparr>free_areas := (free_areas s)[order := bp_next (pages s page)]\<rparr>))
         else (page, s))"

definition buddy_add_to_list :: "u64 \<Rightarrow> nat \<Rightarrow> buddy \<Rightarrow> buddy" where
  "buddy_add_to_list page order s =
     (set_page page (\<lambda>_. \<lparr>bp_next = free_areas s ! order, bp_order = of_nat order, bp_free = True\<rparr>) s)
       \<lparr>free_areas := (free_areas s)[order := page]\<rparr>"

text \<open>The blocks of one order that \<^verbatim>\<open>buddy_init\<close> makes.\<close>

function fill_order :: "nat \<Rightarrow> nat \<Rightarrow> nat \<Rightarrow> buddy \<Rightarrow> nat \<times> nat \<times> buddy" where
  "fill_order order remaining addr s =
     (if remaining \<ge> 2 ^ order
      then fill_order order (remaining - 2 ^ order) (addr + 2 ^ order)
             (let s1 = buddy_add_to_list (page_ptr addr) order s in s1\<lparr>free_page_count := free_page_count s1 + 2 ^ order\<rparr>)
      else (remaining, addr, s))"
  by auto
termination
  by (relation "measure (\<lambda>(order, remaining, addr, s). remaining)") (auto intro!: diff_less simp: Suc_le_eq elim: less_le_trans [rotated])

declare fill_order.simps [simp del]

fun fill_orders :: "nat list \<Rightarrow> nat \<Rightarrow> nat \<Rightarrow> buddy \<Rightarrow> buddy" where
  "fill_orders [] remaining addr s = s"
| "fill_orders (order # orders) remaining addr s =
     (let (r, a, s1) = fill_order order remaining addr s in fill_orders orders r a s1)"

definition buddy_init :: "nat \<Rightarrow> nat \<Rightarrow> buddy \<Rightarrow> buddy" where
  "buddy_init base_addr page_count s =
     fill_orders (rev [0..<MAX_ORDER + 1]) page_count base_addr
       (s\<lparr>free_areas := replicate (MAX_ORDER + 1) 0, buddy_base := of_nat base_addr, total_page_count := of_nat page_count,
          free_page_count := 0, used_page_count := 0\<rparr>)"

fun split_loop :: "u64 \<Rightarrow> nat \<Rightarrow> nat \<Rightarrow> buddy \<Rightarrow> buddy" where
  "split_loop page order cur s =
     (if cur > order
      then split_loop page order (cur - 1) (buddy_add_to_list (page + 2 ^ (cur - 1) * 4096) (cur - 1) s)
      else s)"

declare split_loop.simps [simp del]

definition buddy_alloc :: "nat \<Rightarrow> buddy \<Rightarrow> u64 \<times> buddy" where
  "buddy_alloc order s =
     (if order > MAX_ORDER then (0, s)
      else case find (\<lambda>o'. free_areas s ! o' \<noteq> 0) [order..<MAX_ORDER + 1] of
        None \<Rightarrow> (0, s)
      | Some cur \<Rightarrow>
          let (page, s1) = buddy_remove_from_list cur s; s2 = split_loop page order cur s1
          in (page - KERNEL_WINDOW, s2\<lparr>free_page_count := free_page_count s2 - 2 ^ order, used_page_count := used_page_count s2 + 2 ^ order\<rparr>))"

text \<open>The walk that takes a buddy out of its list, from the node \<open>prev\<close> on.\<close>

partial_function (option) unlink_walk :: "u64 \<Rightarrow> u64 \<Rightarrow> buddy \<Rightarrow> buddy option" where
  "unlink_walk bud prev s =
     (let p = bp_next (pages s prev)
      in if p = 0 then Some s
         else if p = bud then Some (set_page prev (\<lambda>b. b\<lparr>bp_next := bp_next (pages s bud)\<rparr>) s)
         else unlink_walk bud p s)"

definition unlink_buddy :: "u64 \<Rightarrow> nat \<Rightarrow> buddy \<Rightarrow> buddy option" where
  "unlink_buddy bud order s =
     (let p = free_areas s ! order
      in if p = 0 then Some s
         else if p = bud then Some (s\<lparr>free_areas := (free_areas s)[order := bp_next (pages s bud)]\<rparr>)
         else unlink_walk bud p s)"

text \<open>\<^verbatim>\<open>base & ~((1 << (current_order + 1)) - 1)\<close> clears the low bits.\<close>

function buddy_merge_loop :: "nat \<Rightarrow> nat \<Rightarrow> buddy \<Rightarrow> (nat \<times> nat \<times> buddy) option" where
  "buddy_merge_loop base cur s =
     (if cur < MAX_ORDER
      then let bud = page_ptr (xor base (2 ^ cur))
           in if \<not> bp_free (pages s bud) \<or> bp_order (pages s bud) \<noteq> of_nat cur then Some (base, cur, s)
              else (case unlink_buddy bud cur s of None \<Rightarrow> None
                    | Some s1 \<Rightarrow> buddy_merge_loop (push_bit (cur + 1) (drop_bit (cur + 1) base)) (cur + 1)
                                   (set_page bud (\<lambda>b. b\<lparr>bp_free := False\<rparr>) s1))
      else Some (base, cur, s))"
  by auto
termination
  by (relation "measure (\<lambda>(base, cur, s). MAX_ORDER - cur)") auto

declare buddy_merge_loop.simps [simp del]

definition buddy_free :: "u64 \<Rightarrow> nat \<Rightarrow> buddy \<Rightarrow> buddy option" where
  "buddy_free addr order s =
     (if addr = 0 \<or> order > MAX_ORDER then Some s
      else let page_idx = unat addr div 4096;
               s1 = set_page (page_ptr page_idx) (\<lambda>b. b\<lparr>bp_free := False\<rparr>) s
           in case buddy_merge_loop page_idx order s1 of None \<Rightarrow> None
              | Some (base, cur, s2) \<Rightarrow>
                  let s3 = buddy_add_to_list (page_ptr base) cur s2
                  in Some (s3\<lparr>free_page_count := free_page_count s3 + 2 ^ order, used_page_count := used_page_count s3 - 2 ^ order\<rparr>))"

definition buddy_free_pages :: "buddy \<Rightarrow> u64" where "buddy_free_pages s = free_page_count s"
definition buddy_total_pages :: "buddy \<Rightarrow> u64" where "buddy_total_pages s = total_page_count s"
definition buddy_used_pages :: "buddy \<Rightarrow> u64" where "buddy_used_pages s = used_page_count s"

section \<open>Blocks\<close>

type_synonym block = "nat \<times> nat"

definition pgs :: "block \<Rightarrow> nat set" where
  "pgs b = {fst b..<fst b + 2 ^ snd b}"

definition block_ok :: "block \<Rightarrow> bool" where
  "block_ok b \<longleftrightarrow> snd b \<le> MAX_ORDER \<and> fst b mod 2 ^ snd b = 0 \<and> 0 < fst b \<and> fst b + 2 ^ snd b \<le> 2 ^ 19"

lemma page_ptr_unat: "i < 2 ^ 19 \<Longrightarrow> unat (page_ptr i - KERNEL_WINDOW) = i * 4096"
proof -
  assume "i < 2 ^ 19"
  then have "i * 4096 < 2 ^ 64" by simp
  moreover have "page_ptr i - KERNEL_WINDOW = of_nat (i * 4096)" unfolding page_ptr_def by simp
  ultimately show ?thesis using take_bit_nat_eq_self [of "i * 4096" 64] by (simp only: unsigned_of_nat len_num1 len_bit0 len_bit1) simp
qed

lemma page_ptr_inj: "i < 2 ^ 19 \<Longrightarrow> j < 2 ^ 19 \<Longrightarrow> page_ptr i = page_ptr j \<longleftrightarrow> i = j"
  by (metis page_ptr_unat mult_cancel2 zero_neq_numeral)

lemma page_ptr_nz: "i < 2 ^ 19 \<Longrightarrow> page_ptr i \<noteq> 0"
proof
  assume i: "i < 2 ^ 19" "page_ptr i = 0"
  then have "i * 4096 = 2 ^ 31" using page_ptr_unat [OF i(1)] by (simp add: i(2))
  then show False using i(1) by simp
qed

lemma page_ptr_add: "page_ptr i + of_nat n * 4096 = page_ptr (i + n)"
  by (simp add: page_ptr_def algebra_simps)

section \<open>Aligned blocks\<close>

lemma xor_flip:
  fixes i :: nat
  assumes "i mod 2 ^ k = 0"
  shows "xor i (2 ^ k) = (if bit i k then i - 2 ^ k else i + 2 ^ k)"
proof -
  have e: "i = push_bit k (drop_bit k i)" using assms by (metis bits_ident take_bit_eq_mod add.right_neutral)
  have *: "xor n 1 = (if odd n then n - 1 else n + 1)" for n :: nat by (cases "odd n") (simp_all add: xor_Suc_0_eq)
  have "push_bit k (xor (drop_bit k i) 1) = xor (push_bit k (drop_bit k i)) (push_bit k 1)" by (simp only: push_bit_xor)
  then have "xor i (2 ^ k) = push_bit k (xor (drop_bit k i) 1)" by (simp only: e [symmetric] push_bit_of_1)
  also have "\<dots> = (if odd (drop_bit k i) then push_bit k (drop_bit k i - 1) else push_bit k (drop_bit k i + 1))" unfolding * by (simp only: if_distrib [of "push_bit k"])
  finally show ?thesis using e by (auto simp: bit_iff_odd_drop_bit push_bit_eq_mult algebra_simps)
qed

lemma buddy_cases:
  fixes i :: nat
  assumes "i mod 2 ^ k = 0"
  obtains "\<not> bit i k" "i mod 2 ^ Suc k = 0" "xor i (2 ^ k) = i + 2 ^ k" "push_bit (Suc k) (drop_bit (Suc k) i) = i"
  | j where "bit i k" "i = j + 2 ^ k" "j mod 2 ^ Suc k = 0" "xor i (2 ^ k) = j" "push_bit (Suc k) (drop_bit (Suc k) i) = j"
proof -
  obtain q where q: "i = 2 ^ k * q" using assms by auto
  have b: "bit i k \<longleftrightarrow> odd q" by (simp add: q bit_iff_odd)
  have p: "push_bit (Suc k) (drop_bit (Suc k) i) = 2 ^ Suc k * (q div 2)"
    by (simp add: q push_bit_eq_mult drop_bit_eq_div mult.commute)
  show ?thesis
  proof (cases "odd q")
    case True
    then obtain r where r: "q = 2 * r + 1" by (elim oddE)
    show ?thesis by (rule that(2) [of "2 ^ Suc k * r"]) (use xor_flip [OF assms] b p True in \<open>auto simp: q r algebra_simps\<close>)
  next
    case False
    then have "even q" by simp
    then obtain r where r: "q = 2 * r" by (elim evenE)
    show ?thesis by (rule that(1)) (use xor_flip [OF assms] b p False in \<open>auto simp: q r algebra_simps\<close>)
  qed
qed

section \<open>The free lists\<close>

fun linked :: "(u64 \<Rightarrow> buddy_page) \<Rightarrow> u64 \<Rightarrow> u64 list \<Rightarrow> bool" where
  "linked m p [] \<longleftrightarrow> p = 0"
| "linked m p (x # xs) \<longleftrightarrow> p = x \<and> linked m (bp_next (m x)) xs"

lemma linked_cong: "(\<And>x. x \<in> set xs \<Longrightarrow> bp_next (m' x) = bp_next (m x)) \<Longrightarrow> linked m' p xs = linked m p xs"
  by (induction xs arbitrary: p) auto

text \<open>\<open>F\<close> gives the page numbers on the list of each order; a page number starts at most one free block.\<close>

definition lists_ok :: "buddy \<Rightarrow> (nat \<Rightarrow> nat list) \<Rightarrow> bool" where
  "lists_ok s F \<longleftrightarrow> length (free_areas s) = 17
     \<and> (\<forall>k \<le> 16. linked (pages s) (free_areas s ! k) (map page_ptr (F k)) \<and> distinct (F k) \<and> (\<forall>i \<in> set (F k). i < 2 ^ 19))
     \<and> (\<forall>k \<le> 16. \<forall>k' \<le> 16. k \<noteq> k' \<longrightarrow> set (F k) \<inter> set (F k') = {})
     \<and> (\<forall>i < 2 ^ 19. \<forall>k \<le> 16. bp_free (pages s (page_ptr i)) \<and> bp_order (pages s (page_ptr i)) = of_nat k \<longrightarrow> i \<in> set (F k))"

lemma lists_okD:
  assumes "lists_ok s F"
  shows "length (free_areas s) = 17" "k \<le> 16 \<Longrightarrow> linked (pages s) (free_areas s ! k) (map page_ptr (F k))" "k \<le> 16 \<Longrightarrow> distinct (F k)"
    "k \<le> 16 \<Longrightarrow> i \<in> set (F k) \<Longrightarrow> i < 2 ^ 19" "k \<le> 16 \<Longrightarrow> k' \<le> 16 \<Longrightarrow> i \<in> set (F k) \<Longrightarrow> i \<in> set (F k') \<Longrightarrow> k = k'"
    "i < 2 ^ 19 \<Longrightarrow> k \<le> 16 \<Longrightarrow> bp_free (pages s (page_ptr i)) \<Longrightarrow> bp_order (pages s (page_ptr i)) = of_nat k \<Longrightarrow> i \<in> set (F k)"
  using assms unfolding lists_ok_def by blast+

lemma lists_okI:
  assumes "length (free_areas s) = 17"
    and "\<And>k. k \<le> 16 \<Longrightarrow> linked (pages s) (free_areas s ! k) (map page_ptr (F k))" and "\<And>k. k \<le> 16 \<Longrightarrow> distinct (F k)"
    and "\<And>k i. k \<le> 16 \<Longrightarrow> i \<in> set (F k) \<Longrightarrow> i < 2 ^ 19" and "\<And>k k' i. k \<le> 16 \<Longrightarrow> k' \<le> 16 \<Longrightarrow> i \<in> set (F k) \<Longrightarrow> i \<in> set (F k') \<Longrightarrow> k = k'"
    and "\<And>i k. i < 2 ^ 19 \<Longrightarrow> k \<le> 16 \<Longrightarrow> bp_free (pages s (page_ptr i)) \<Longrightarrow> bp_order (pages s (page_ptr i)) = of_nat k \<Longrightarrow> i \<in> set (F k)"
  shows "lists_ok s F"
  using assms unfolding lists_ok_def by blast

definition unlisted :: "(nat \<Rightarrow> nat list) \<Rightarrow> nat \<Rightarrow> bool" where
  "unlisted F i \<longleftrightarrow> (\<forall>k \<le> 16. i \<notin> set (F k))"

lemma of_nat_order: "k \<le> 16 \<Longrightarrow> k' \<le> 16 \<Longrightarrow> (of_nat k :: u32) = of_nat k' \<longleftrightarrow> k = k'"
  by (simp add: word_of_nat_eq_iff take_bit_nat_eq_self)

lemma push_lists:
  assumes L: "lists_ok s F" and i: "i < 2 ^ 19" "unlisted F i" and k: "k \<le> 16"
  shows "lists_ok (buddy_add_to_list (page_ptr i) k s) (F(k := i # F k))"
proof (rule lists_okI)
  let ?s = "buddy_add_to_list (page_ptr i) k s"
  note D = lists_okD [OF L]
  have m: "pages ?s = (pages s)(page_ptr i := \<lparr>bp_next = free_areas s ! k, bp_order = of_nat k, bp_free = True\<rparr>)"
    and a: "free_areas ?s = (free_areas s)[k := page_ptr i]" by (simp_all add: buddy_add_to_list_def set_page_def)
  show "length (free_areas ?s) = 17" using D(1) by (simp add: a)
  have fr: "linked (pages ?s) p (map page_ptr (F k')) = linked (pages s) p (map page_ptr (F k'))" if "k' \<le> 16" for p k'
    by (rule linked_cong) (use i that page_ptr_inj D(4) in \<open>auto simp: m unlisted_def\<close>)
  fix k' :: nat assume k': "k' \<le> 16"
  show "linked (pages ?s) (free_areas ?s ! k') (map page_ptr ((F(k := i # F k)) k'))"
    using fr D(2) k k' D(1) by (cases "k' = k") (auto simp: a m)
  show "distinct ((F(k := i # F k)) k')" using D(3) [OF k'] i(2) k' by (auto simp: unlisted_def)
  show "j < 2 ^ 19" if "j \<in> set ((F(k := i # F k)) k')" for j using that D(4) k' i(1) k by (auto split: if_splits)
  show "k' = k2" if "k2 \<le> 16" "j \<in> set ((F(k := i # F k)) k')" "j \<in> set ((F(k := i # F k)) k2)" for k2 j
    using that D(5) [OF k' that(1)] i(2) k k' by (auto simp: unlisted_def split: if_splits)
  show "j \<in> set ((F(k := i # F k)) k')" if "j < 2 ^ 19" "bp_free (pages ?s (page_ptr j))" "bp_order (pages ?s (page_ptr j)) = of_nat k'" for j
    using that D(6) [OF that(1) k'] page_ptr_inj [OF that(1) i(1)] of_nat_order [OF k k'] by (auto simp: m split: if_splits)
qed

lemma pop_lists:
  assumes L: "lists_ok s F" and k: "k \<le> 16" and x: "F k = i # xs"
  shows "\<exists>s'. buddy_remove_from_list k s = (page_ptr i, s') \<and> lists_ok s' (F(k := xs)) \<and> free_page_count s' = free_page_count s
    \<and> used_page_count s' = used_page_count s \<and> total_page_count s' = total_page_count s"
proof -
  note D = lists_okD [OF L]
  have i: "i < 2 ^ 19" "page_ptr i \<noteq> 0" "i \<notin> set xs" using D(3,4) [OF k] x page_ptr_nz by auto
  have h: "free_areas s ! k = page_ptr i" "linked (pages s) (bp_next (pages s (page_ptr i))) (map page_ptr xs)" using D(2) [OF k] x by auto
  define s' where "s' = set_page (page_ptr i) (\<lambda>b. b\<lparr>bp_next := 0, bp_free := False\<rparr>) (s\<lparr>free_areas := (free_areas s)[k := bp_next (pages s (page_ptr i))]\<rparr>)"
  have m: "pages s' = (pages s)(page_ptr i := (pages s (page_ptr i))\<lparr>bp_next := 0, bp_free := False\<rparr>)"
    and a: "free_areas s' = (free_areas s)[k := bp_next (pages s (page_ptr i))]" by (simp_all add: s'_def set_page_def)
  have fr: "linked (pages s') p (map page_ptr ys) = linked (pages s) p (map page_ptr ys)" if "i \<notin> set ys" "\<forall>j \<in> set ys. j < 2 ^ 19" for p ys
    by (rule linked_cong) (use i that page_ptr_inj in \<open>auto simp: m\<close>)
  have other: "i \<notin> set (F k')" if "k' \<le> 16" "k' \<noteq> k" for k' using D(5) [OF k that(1)] that(2) x by auto
  have "lists_ok s' (F(k := xs))"
  proof (rule lists_okI)
    show "length (free_areas s') = 17" using D(1) by (simp add: a)
    fix k' :: nat assume k': "k' \<le> 16"
    show "linked (pages s') (free_areas s' ! k') (map page_ptr ((F(k := xs)) k'))"
      using fr [OF i(3)] fr [OF other [OF k']] D(2) [OF k'] D(4) k k' x h D(1) by (cases "k' = k") (auto simp: a)
    show "distinct ((F(k := xs)) k')" using D(3) [OF k'] x by auto
    show "j < 2 ^ 19" if "j \<in> set ((F(k := xs)) k')" for j using that D(4) k' x by (auto split: if_splits)
    show "k' = k2" if "k2 \<le> 16" "j \<in> set ((F(k := xs)) k')" "j \<in> set ((F(k := xs)) k2)" for k2 j
      using that D(5) [OF k' that(1), of j] x by (auto split: if_splits)
    show "j \<in> set ((F(k := xs)) k')" if "j < 2 ^ 19" "bp_free (pages s' (page_ptr j))" "bp_order (pages s' (page_ptr j)) = of_nat k'" for j
      using that D(6) [OF that(1) k'] x by (auto simp: m split: if_splits)
  qed
  moreover have "buddy_remove_from_list k s = (page_ptr i, s')" using h(1) i(2) by (simp add: buddy_remove_from_list_def s'_def Let_def)
  ultimately show ?thesis by (intro exI [of _ s']) (simp add: s'_def set_page_def)
qed

text \<open>Taking a block out of the middle of its list.\<close>

abbreviation (input) skip :: "u64 \<Rightarrow> u64 \<Rightarrow> buddy \<Rightarrow> buddy" where
  "skip q j s \<equiv> set_page q (\<lambda>b. b\<lparr>bp_next := bp_next (pages s j)\<rparr>) s"

lemma skip_pages [simp]: "bp_next (pages (skip q j s) x) = (if x = q then bp_next (pages s j) else bp_next (pages s x))"
  "bp_free (pages (skip q j s) x) = bp_free (pages s x)" "bp_order (pages (skip q j s) x) = bp_order (pages s x)"
  "free_areas (skip q j s) = free_areas s"
  by (simp_all add: set_page_def)

lemma unlink_walk_spec:
  assumes "linked (pages s) (bp_next (pages s a)) ys" "j \<in> set ys" "distinct (a # ys)" "0 \<notin> set ys"
  shows "\<exists>q \<in> set (a # ys) - {j}. unlink_walk j a s = Some (skip q j s)
    \<and> linked (pages (skip q j s)) (bp_next (pages (skip q j s) a)) (remove1 j ys)"
  using assms
proof (induction ys arbitrary: a)
  case (Cons y ys)
  have n: "bp_next (pages s a) = y" "y \<noteq> 0" "linked (pages s) (bp_next (pages s y)) ys" using Cons.prems by auto
  show ?case
  proof (cases "y = j")
    case True
    have "linked (pages (skip a j s)) (bp_next (pages s j)) ys"
      using n(3) True Cons.prems(3) by (subst linked_cong [of _ _ "pages s"]) auto
    then show ?thesis using n True Cons.prems(3) by (intro bexI [of _ a]) (auto simp: unlink_walk.simps)
  next
    case False
    then obtain q where q: "q \<in> set (y # ys) - {j}" "unlink_walk j y s = Some (skip q j s)"
        "linked (pages (skip q j s)) (bp_next (pages (skip q j s) y)) (remove1 j ys)"
      using Cons.IH [OF n(3)] Cons.prems by auto
    then show ?thesis using n False Cons.prems(3) by (intro bexI [of _ q]) (auto simp: unlink_walk.simps [of j a])
  qed
qed simp

lemma map_remove1_inj: "inj_on f (insert j (set ys)) \<Longrightarrow> map f (remove1 j ys) = remove1 (f j) (map f ys)"
  by (induction ys) (auto simp: inj_on_def)

lemma unlink_shape:
  assumes L: "lists_ok s F" and k: "k \<le> 16" and j: "j \<in> set (F k)"
  shows "\<exists>s' q. unlink_buddy (page_ptr j) k s = Some s' \<and> q \<in> set (F k)
    \<and> (s' = s\<lparr>free_areas := (free_areas s)[k := bp_next (pages s (page_ptr j))]\<rparr> \<or> s' = skip (page_ptr q) (page_ptr j) s)
    \<and> linked (pages s') (free_areas s' ! k) (map page_ptr (remove1 j (F k)))"
proof -
  note D = lists_okD [OF L]
  obtain a ys where x: "F k = a # ys" using j by (cases "F k") auto
  have jb: "j < 2 ^ 19" and ab: "a < 2 ^ 19" using D(4) [OF k] j x by auto
  have h: "free_areas s ! k = page_ptr a" "linked (pages s) (bp_next (pages s (page_ptr a))) (map page_ptr ys)" using D(2) [OF k] x by auto
  have inj: "inj_on page_ptr (set (F k))" using D(4) [OF k] page_ptr_inj by (auto simp: inj_on_def)
  show ?thesis
  proof (cases "a = j")
    case True
    then show ?thesis using h x k D(1) page_ptr_nz [OF ab] by (auto simp: unlink_buddy_def)
  next
    case False
    then have jy: "j \<in> set ys" using j x by simp
    have "page_ptr a \<notin> page_ptr ` set ys" "distinct (map page_ptr ys)" using D(3) [OF k] inj x by (auto simp: distinct_map inj_on_def)
    moreover have "0 \<notin> set (map page_ptr ys)" using D(4) [OF k] x page_ptr_nz by (auto simp: image_iff)
    ultimately obtain q where q: "q \<in> set (page_ptr a # map page_ptr ys) - {page_ptr j}" "unlink_walk (page_ptr j) (page_ptr a) s = Some (skip q (page_ptr j) s)"
        "linked (pages (skip q (page_ptr j) s)) (bp_next (pages (skip q (page_ptr j) s) (page_ptr a))) (remove1 (page_ptr j) (map page_ptr ys))"
      using unlink_walk_spec [OF h(2), of "page_ptr j"] jy by auto
    then obtain r where r: "q = page_ptr r" "r \<in> set (F k)" using x by auto
    have "page_ptr a \<noteq> page_ptr j" using page_ptr_inj [OF ab jb] False by simp
    moreover have "map page_ptr (remove1 j ys) = remove1 (page_ptr j) (map page_ptr ys)"
      using inj jy x by (intro map_remove1_inj) (auto simp: inj_on_def)
    ultimately show ?thesis using q r h x False page_ptr_nz [OF ab] by (auto simp: unlink_buddy_def)
  qed
qed

lemma unlink_lists:
  assumes L: "lists_ok s F" and k: "k \<le> 16" and j: "j \<in> set (F k)"
  shows "\<exists>s'. unlink_buddy (page_ptr j) k s = Some s' \<and> lists_ok (set_page (page_ptr j) (\<lambda>b. b\<lparr>bp_free := False\<rparr>) s') (F(k := remove1 j (F k)))
    \<and> free_page_count s' = free_page_count s \<and> used_page_count s' = used_page_count s \<and> total_page_count s' = total_page_count s"
proof -
  note D = lists_okD [OF L]
  obtain s' q where s': "unlink_buddy (page_ptr j) k s = Some s'" "q \<in> set (F k)"
      "s' = s\<lparr>free_areas := (free_areas s)[k := bp_next (pages s (page_ptr j))]\<rparr> \<or> s' = skip (page_ptr q) (page_ptr j) s"
      "linked (pages s') (free_areas s' ! k) (map page_ptr (remove1 j (F k)))" using unlink_shape [OF assms] by blast
  let ?s = "set_page (page_ptr j) (\<lambda>b. b\<lparr>bp_free := False\<rparr>) s'"
  have nx: "bp_next (pages ?s x) = bp_next (pages s' x)" "free_areas ?s = free_areas s'" for x by (simp_all add: set_page_def)
  have keep: "bp_next (pages s' (page_ptr x)) = bp_next (pages s (page_ptr x))" if "x \<notin> set (F k)" "x < 2 ^ 19" for x
    using s'(2,3) that page_ptr_inj D(4) [OF k] by auto
  have fl: "bp_free (pages ?s (page_ptr x)) \<longleftrightarrow> page_ptr x \<noteq> page_ptr j \<and> bp_free (pages s (page_ptr x))" "bp_order (pages ?s (page_ptr x)) = bp_order (pages s (page_ptr x))" for x
    using s'(3) by (auto simp: set_page_def split: if_splits)
  have fa: "length (free_areas s') = 17" "k' \<noteq> k \<Longrightarrow> free_areas s' ! k' = free_areas s ! k'" for k' using s'(3) D(1) by (auto simp: set_page_def)
  have "lists_ok ?s (F(k := remove1 j (F k)))"
  proof (rule lists_okI)
    show "length (free_areas ?s) = 17" using fa(1) by (simp add: nx)
    fix k' :: nat assume k': "k' \<le> 16"
    have "linked (pages s') (free_areas s' ! k') (map page_ptr (F k'))" if "k' \<noteq> k"
      using D(2) [OF k'] D(4) [OF k'] D(5) [OF k k'] keep that by (subst linked_cong [of _ _ "pages s"]) (auto simp: fa(2))
    then have "linked (pages s') (free_areas s' ! k') (map page_ptr ((F(k := remove1 j (F k))) k'))" using s'(4) by simp
    then show "linked (pages ?s) (free_areas ?s ! k') (map page_ptr ((F(k := remove1 j (F k))) k'))"
      by (subst linked_cong [of _ _ "pages s'"]) (simp_all add: nx)
    show "distinct ((F(k := remove1 j (F k))) k')" using D(3) [OF k'] D(3) [OF k] by simp
    show "i < 2 ^ 19" if "i \<in> set ((F(k := remove1 j (F k))) k')" for i using that D(4) k' k by (auto split: if_splits dest: notin_set_remove1)
    show "k' = k2" if "k2 \<le> 16" "i \<in> set ((F(k := remove1 j (F k))) k')" "i \<in> set ((F(k := remove1 j (F k))) k2)" for k2 i
      using that D(5) [OF k' that(1), of i] by (auto split: if_splits dest: notin_set_remove1)
    show "i \<in> set ((F(k := remove1 j (F k))) k')" if "i < 2 ^ 19" "bp_free (pages ?s (page_ptr i))" "bp_order (pages ?s (page_ptr i)) = of_nat k'" for i
      using that D(6) [OF that(1) k'] fl D(3) [OF k] by (auto simp: set_remove1_eq)
  qed
  moreover have "free_page_count s' = free_page_count s \<and> used_page_count s' = used_page_count s \<and> total_page_count s' = total_page_count s"
    using s'(3) by (auto simp: set_page_def)
  ultimately show ?thesis using s'(1) by blast
qed

lemma unflag_lists:
  assumes L: "lists_ok s F" and i: "i < 2 ^ 19" "unlisted F i"
  shows "lists_ok (set_page (page_ptr i) (\<lambda>b. b\<lparr>bp_free := False\<rparr>) s) F"
proof (rule lists_okI)
  let ?s = "set_page (page_ptr i) (\<lambda>b. b\<lparr>bp_free := False\<rparr>) s"
  note D = lists_okD [OF L]
  show "length (free_areas ?s) = 17" using D(1) by (simp add: set_page_def)
  show "linked (pages ?s) (free_areas ?s ! k) (map page_ptr (F k))" if "k \<le> 16" for k
    using D(2) [OF that] by (subst linked_cong [of _ _ "pages s"]) (simp_all add: set_page_def)
  show "i' \<in> set (F k)" if "i' < 2 ^ 19" "k \<le> 16" "bp_free (pages ?s (page_ptr i'))" "bp_order (pages ?s (page_ptr i')) = of_nat k" for i' k
    using that D(6) [OF that(1,2)] by (auto simp: set_page_def split: if_splits)
qed (use lists_okD [OF L] in blast)+

section \<open>Blocks partition the pages\<close>

definition free_blocks :: "(nat \<Rightarrow> nat list) \<Rightarrow> block set" where
  "free_blocks F = {(i, k). k \<le> 16 \<and> i \<in> set (F k)}"

definition partitions :: "block set \<Rightarrow> nat set \<Rightarrow> bool" where
  "partitions B R \<longleftrightarrow> (\<forall>b \<in> B. block_ok b) \<and> (\<forall>x \<in> B. \<forall>y \<in> B. x \<noteq> y \<longrightarrow> pgs x \<inter> pgs y = {}) \<and> \<Union>(pgs ` B) = R"

lemma pgs_start: "fst b \<in> pgs b"
  by (simp add: pgs_def)

lemma partitions_start: "partitions B R \<Longrightarrow> (i, k) \<in> B \<Longrightarrow> (i, k') \<in> B \<Longrightarrow> k = k'"
  unfolding partitions_def by (metis disjoint_iff fst_conv pgs_start snd_conv)

lemma partitionsI:
  assumes "\<And>b. b \<in> B \<Longrightarrow> block_ok b" "\<And>x y. x \<in> B \<Longrightarrow> y \<in> B \<Longrightarrow> x \<noteq> y \<Longrightarrow> pgs x \<inter> pgs y = {}" "\<Union>(pgs ` B) = R"
  shows "partitions B R"
  using assms by (simp add: partitions_def)

lemma partitionsD:
  assumes "partitions B R"
  shows "b \<in> B \<Longrightarrow> block_ok b" "x \<in> B \<Longrightarrow> y \<in> B \<Longrightarrow> x \<noteq> y \<Longrightarrow> pgs x \<inter> pgs y = {}" "\<Union>(pgs ` B) = R"
  using assms by (simp_all add: partitions_def)

lemma partitions_replace:
  assumes P: "partitions (insert x B) R" and x: "x \<notin> B" and ok: "block_ok y" "block_ok z" and u: "pgs x = pgs y \<union> pgs z" "pgs y \<inter> pgs z = {}"
  shows "partitions (insert y (insert z B)) R"
proof (rule partitionsI)
  have d: "pgs b \<inter> pgs y = {} \<and> pgs b \<inter> pgs z = {}" if "b \<in> B" for b
    using partitionsD(2) [OF P, of b x] x that u(1) by auto
  show "block_ok b" if "b \<in> insert y (insert z B)" for b using that ok partitionsD(1) [OF P, of b] by auto
  show "pgs a \<inter> pgs b = {}" if "a \<in> insert y (insert z B)" "b \<in> insert y (insert z B)" "a \<noteq> b" for a b
    using that d [of a] d [of b] u(2) partitionsD(2) [OF P, of a b] by (auto simp only: insert_iff Int_commute)
  show "\<Union>(pgs ` insert y (insert z B)) = R" using partitionsD(3) [OF P] u(1) by (simp add: Un_assoc)
qed

lemma partitions_join:
  assumes P: "partitions (insert y (insert z B)) R" and ok: "block_ok x" and u: "pgs x = pgs y \<union> pgs z" and n: "y \<notin> B" "z \<notin> B"
  shows "partitions (insert x B) R"
proof (rule partitionsI)
  have d: "pgs b \<inter> pgs x = {}" if "b \<in> B" for b
    using partitionsD(2) [OF P, of b y] partitionsD(2) [OF P, of b z] n that by (auto simp: u)
  show "block_ok b" if "b \<in> insert x B" for b using that ok partitionsD(1) [OF P, of b] by auto
  show "pgs a \<inter> pgs b = {}" if "a \<in> insert x B" "b \<in> insert x B" "a \<noteq> b" for a b
    using that d [of a] d [of b] partitionsD(2) [OF P, of a b] by (auto simp only: insert_iff Int_commute)
  show "\<Union>(pgs ` insert x B) = R" using partitionsD(3) [OF P] u by (simp add: Un_assoc)
qed

lemma pgs_halves: "pgs (i, Suc k) = pgs (i, k) \<union> pgs (i + 2 ^ k, k)" "pgs (i, k) \<inter> pgs (i + 2 ^ k, k) = {}"
  by (auto simp: pgs_def)

lemma block_halves: "block_ok (i, Suc k) \<Longrightarrow> block_ok (i, k) \<and> block_ok (i + 2 ^ k, k)"
proof -
  assume a: "block_ok (i, Suc k)"
  then have "i mod 2 ^ k = 0" unfolding block_ok_def by (metis dvd_imp_mod_0 fst_conv mod_0_imp_dvd dvd_trans le_imp_power_dvd le_SucI order_refl snd_conv)
  then show ?thesis using a by (auto simp: block_ok_def)
qed

text \<open>The allocator's state: free lists \<open>F\<close>, blocks in use \<open>A\<close>, pages \<open>R\<close>.\<close>

definition buddy_ok :: "buddy \<Rightarrow> (nat \<Rightarrow> nat list) \<Rightarrow> block set \<Rightarrow> nat set \<Rightarrow> bool" where
  "buddy_ok s F A R \<longleftrightarrow> lists_ok s F \<and> free_blocks F \<inter> A = {} \<and> partitions (free_blocks F \<union> A) R"

lemma free_blocks_push: "k \<le> 16 \<Longrightarrow> free_blocks (F(k := i # F k)) = insert (i, k) (free_blocks F)"
  by (auto simp: free_blocks_def split: if_splits)

lemma free_blocks_remove: "k \<le> 16 \<Longrightarrow> distinct (F k) \<Longrightarrow> free_blocks (F(k := remove1 i (F k))) = free_blocks F - {(i, k)}"
  by (auto simp: free_blocks_def split: if_splits)

lemma used_unlisted: "buddy_ok s F A R \<Longrightarrow> (i, k) \<in> A \<Longrightarrow> unlisted F i"
  unfolding unlisted_def
proof (intro allI impI notI)
  fix k' assume a: "buddy_ok s F A R" "(i, k) \<in> A" "k' \<le> 16" "i \<in> set (F k')"
  then have f: "(i, k') \<in> free_blocks F" by (simp add: free_blocks_def)
  then have "k = k'" using a partitions_start [of "free_blocks F \<union> A" R i k k'] by (simp add: buddy_ok_def)
  then show False using f a by (auto simp: buddy_ok_def)
qed

lemma buddy_ok_block: "buddy_ok s F A R \<Longrightarrow> (i, k) \<in> A \<Longrightarrow> block_ok (i, k) \<and> i < 2 ^ 19 \<and> k \<le> 16"
  unfolding buddy_ok_def using partitionsD(1) [of "free_blocks F \<union> A" R "(i, k)"] by (auto simp: block_ok_def intro: less_le_trans [of i "i + 2 ^ k"])

lemma ok_push:
  assumes O: "buddy_ok s F (insert (i, k) A) R" and n: "(i, k) \<notin> A"
  shows "buddy_ok (buddy_add_to_list (page_ptr i) k s) (F(k := i # F k)) A R"
proof -
  have b: "i < 2 ^ 19" "k \<le> 16" "unlisted F i" using buddy_ok_block [OF O] used_unlisted [OF O] by auto
  show ?thesis using O n push_lists [OF _ b(1,3,2), of s] free_blocks_push [OF b(2), of F i] unfolding buddy_ok_def by auto
qed

lemma ok_pop:
  assumes O: "buddy_ok s F A R" and k: "k \<le> 16" and x: "F k = i # xs"
  shows "\<exists>s'. buddy_remove_from_list k s = (page_ptr i, s') \<and> buddy_ok s' (F(k := xs)) (insert (i, k) A) R \<and> (i, k) \<notin> A
    \<and> free_page_count s' = free_page_count s \<and> used_page_count s' = used_page_count s \<and> total_page_count s' = total_page_count s"
proof -
  have L: "lists_ok s F" using O by (simp add: buddy_ok_def)
  have "free_blocks (F(k := xs)) = free_blocks F - {(i, k)}" "(i, k) \<in> free_blocks F"
    using free_blocks_remove [of k F i] lists_okD(3) [OF L k] x k by (auto simp: free_blocks_def)
  moreover have "insert (i, k) (free_blocks F - {(i, k)} \<union> A) = free_blocks F \<union> A" if "(i, k) \<in> free_blocks F" using that by blast
  ultimately show ?thesis using pop_lists [OF L k x] O unfolding buddy_ok_def by (auto simp: insert_absorb)
qed

lemma ok_split:
  assumes O: "buddy_ok s F (insert (i, Suc k) A) R" and n: "(i, Suc k) \<notin> A"
  shows "buddy_ok s F (insert (i, k) (insert (i + 2 ^ k, k) A)) R" "(i, k) \<notin> A" "(i + 2 ^ k, k) \<notin> insert (i, k) A"
proof -
  let ?B = "free_blocks F \<union> A"
  have P: "partitions (insert (i, Suc k) ?B) R" and n': "(i, Suc k) \<notin> ?B" using O n by (auto simp: buddy_ok_def)
  have ok: "block_ok (i, k)" "block_ok (i + 2 ^ k, k)" using block_halves buddy_ok_block [OF O] by auto
  have x: "b \<notin> ?B" if "pgs b \<subseteq> pgs (i, Suc k)" for b
  proof
    assume "b \<in> ?B"
    then have "pgs b \<inter> pgs (i, Suc k) = {}" using partitionsD(2) [OF P, of b "(i, Suc k)"] n' by blast
    then show False using that pgs_start [of b] by blast
  qed
  have "(i, k) \<notin> ?B" "(i + 2 ^ k, k) \<notin> ?B" by (rule x, simp add: pgs_halves(1))+
  then show "(i, k) \<notin> A" "(i + 2 ^ k, k) \<notin> insert (i, k) A" by auto
  show "buddy_ok s F (insert (i, k) (insert (i + 2 ^ k, k) A)) R"
    using partitions_replace [OF P n' ok pgs_halves] O \<open>(i, k) \<notin> ?B\<close> \<open>(i + 2 ^ k, k) \<notin> ?B\<close> by (auto simp: buddy_ok_def)
qed

lemma aligned_room:
  fixes i :: nat
  assumes "i mod 2 ^ k = 0" "i < 2 ^ n" "k \<le> n"
  shows "i + 2 ^ k \<le> 2 ^ n"
proof -
  obtain q where q: "i = 2 ^ k * q" using assms(1) by auto
  have e: "(2 :: nat) ^ n = 2 ^ k * 2 ^ (n - k)" using assms(3) by (simp add: power_add [symmetric])
  then have "q < 2 ^ (n - k)" using assms(2) q by simp
  then have "2 ^ k * (q + 1) \<le> (2 :: nat) ^ k * 2 ^ (n - k)" by (intro mult_le_mono2) simp
  then show ?thesis using q e by simp
qed

lemma ok_merge:
  assumes O: "buddy_ok s F (insert (i, k) A) R" and n: "(i, k) \<notin> A" and k: "k < 16"
    and fr: "bp_free (pages s (page_ptr (xor i (2 ^ k))))" "bp_order (pages s (page_ptr (xor i (2 ^ k)))) = of_nat k"
  defines "j \<equiv> push_bit (k + 1) (drop_bit (k + 1) i)" and "bud \<equiv> xor i (2 ^ k)"
  shows "\<exists>s'. unlink_buddy (page_ptr bud) k s = Some s'
    \<and> buddy_ok (set_page (page_ptr bud) (\<lambda>b. b\<lparr>bp_free := False\<rparr>) s') (F(k := remove1 bud (F k))) (insert (j, k + 1) A) R \<and> (j, k + 1) \<notin> A
    \<and> free_page_count s' = free_page_count s \<and> used_page_count s' = used_page_count s \<and> total_page_count s' = total_page_count s"
proof -
  have L: "lists_ok s F" and k16: "k \<le> 16" using O k by (auto simp: buddy_ok_def)
  have bi: "block_ok (i, k)" "i mod 2 ^ k = 0" "0 < i" "i + 2 ^ k \<le> 2 ^ 19" using buddy_ok_block [OF O, of i k] by (auto simp: block_ok_def)
  have j: "pgs (j, Suc k) = pgs (i, k) \<union> pgs (bud, k) \<and> j mod 2 ^ Suc k = 0 \<and> bud < i + 2 ^ Suc k \<and> bud \<noteq> i \<and> (j = i \<and> bud = i + 2 ^ k \<or> j = bud \<and> i = bud + 2 ^ k)"
    unfolding j_def bud_def Suc_eq_plus1 [symmetric] by (rule buddy_cases [OF bi(2)]) (auto simp: pgs_halves(1))
  have bb: "bud < 2 ^ 19"
  proof (cases "bud = i + 2 ^ k")
    case True
    then have "j = i" using j by auto
    then have "i + 2 ^ Suc k \<le> 2 ^ 19" using aligned_room [of i "Suc k" 19] j buddy_ok_block [OF O, of i k] k by simp
    moreover have "bud < i + 2 ^ Suc k" using j by blast
    ultimately show ?thesis by (rule less_le_trans [rotated])
  qed (use j bi in auto)
  have bF: "bud \<in> set (F k)" using lists_okD(6) [OF L bb k16] fr by (simp add: bud_def)
  then have f: "(bud, k) \<in> free_blocks F" by (simp add: free_blocks_def k16)
  then have ok: "block_ok (bud, k)" using O partitionsD(1) by (auto simp: buddy_ok_def)
  define B where "B = free_blocks F - {(bud, k)} \<union> A"
  have B: "free_blocks F \<union> insert (i, k) A = insert (i, k) (insert (bud, k) B)" using f by (auto simp: B_def)
  have nB: "(i, k) \<notin> B" "(bud, k) \<notin> B" using O n f by (auto simp: B_def buddy_ok_def)
  have okj: "block_ok (j, Suc k)" using j bi ok k by (auto simp: block_ok_def)
  have P: "partitions (insert (j, Suc k) B) R"
    using partitions_join [of "(i, k)" "(bud, k)" B R "(j, Suc k)"] O B nB okj j by (simp add: buddy_ok_def)
  have njB: "(j, Suc k) \<notin> B"
  proof
    assume a: "(j, Suc k) \<in> B"
    then have "pgs (j, Suc k) \<inter> pgs (i, k) = {}"
      using O B partitionsD(2) [of "insert (i, k) (insert (bud, k) B)" R "(j, Suc k)" "(i, k)"] nB by (auto simp: buddy_ok_def)
    then show False using j pgs_start [of "(i, k)"] by auto
  qed
  obtain s' where s': "unlink_buddy (page_ptr bud) k s = Some s'"
      "lists_ok (set_page (page_ptr bud) (\<lambda>b. b\<lparr>bp_free := False\<rparr>) s') (F(k := remove1 bud (F k)))"
      "free_page_count s' = free_page_count s" "used_page_count s' = used_page_count s" "total_page_count s' = total_page_count s"
    using unlink_lists [OF L k16 bF] by blast
  have "free_blocks (F(k := remove1 bud (F k))) = free_blocks F - {(bud, k)}" using free_blocks_remove [of k F bud] k16 lists_okD(3) [OF L k16] by simp
  then have "buddy_ok (set_page (page_ptr bud) (\<lambda>b. b\<lparr>bp_free := False\<rparr>) s') (F(k := remove1 bud (F k))) (insert (j, k + 1) A) R"
    using s'(2) P njB O by (auto simp: buddy_ok_def B_def Un_insert_right)
  then show ?thesis using s' njB by (auto simp: B_def)
qed

abbreviation (input) same_counts :: "buddy \<Rightarrow> buddy \<Rightarrow> bool" where
  "same_counts s' s \<equiv> free_page_count s' = free_page_count s \<and> used_page_count s' = used_page_count s \<and> total_page_count s' = total_page_count s"

lemma add_to_list_counts [simp]: "free_page_count (buddy_add_to_list p k s) = free_page_count s"
  "used_page_count (buddy_add_to_list p k s) = used_page_count s" "total_page_count (buddy_add_to_list p k s) = total_page_count s"
  by (simp_all add: buddy_add_to_list_def set_page_def)

lemma set_page_counts [simp]: "free_page_count (set_page p f s) = free_page_count s"
  "used_page_count (set_page p f s) = used_page_count s" "total_page_count (set_page p f s) = total_page_count s"
  by (simp_all add: set_page_def)

lemma buddy_ok_counts [simp]:
  "buddy_ok (s\<lparr>free_page_count := x\<rparr>) F A R = buddy_ok s F A R" "buddy_ok (s\<lparr>used_page_count := x\<rparr>) F A R = buddy_ok s F A R"
  by (simp_all add: buddy_ok_def lists_ok_def)

section \<open>Allocating and freeing\<close>

lemma split_loop_ok:
  assumes "buddy_ok s F (insert (i, c) A) R" "(i, c) \<notin> A" "k \<le> c"
  shows "\<exists>F'. buddy_ok (split_loop (page_ptr i) k c s) F' (insert (i, k) A) R \<and> (i, k) \<notin> A \<and> same_counts (split_loop (page_ptr i) k c s) s"
  using assms
proof (induction c arbitrary: s F)
  case 0
  then show ?case by (auto simp: split_loop.simps)
next
  case (Suc c)
  show ?case
  proof (cases "k = Suc c")
    case True
    then show ?thesis using Suc.prems by (auto simp: split_loop.simps)
  next
    case False
    note S = ok_split [OF Suc.prems(1,2)]
    let ?s = "buddy_add_to_list (page_ptr (i + 2 ^ c)) c s"
    have ok: "buddy_ok ?s (F(c := (i + 2 ^ c) # F c)) (insert (i, c) A) R"
      using ok_push [of s F "i + 2 ^ c" c "insert (i, c) A" R] S by (simp add: insert_commute)
    moreover have "split_loop (page_ptr i) k (Suc c) s = split_loop (page_ptr i) k c ?s"
      using False Suc.prems(3) page_ptr_add [of i "2 ^ c"] by (simp add: split_loop.simps [of _ _ "Suc c"])
    moreover have "k \<le> c" using False Suc.prems(3) by simp
    ultimately show ?thesis using Suc.IH [OF ok S(2)] by simp
  qed
qed

lemma linked_nz: "lists_ok s F \<Longrightarrow> k \<le> 16 \<Longrightarrow> free_areas s ! k \<noteq> 0 \<longleftrightarrow> F k \<noteq> []"
  using lists_okD(2,4) [of s F k] page_ptr_nz by (cases "F k") auto

lemma buddy_alloc_ok:
  assumes O: "buddy_ok s F A R" and k: "k \<le> 16"
  shows "(buddy_alloc k s = (0, s) \<and> (\<forall>(i, c) \<in> free_blocks F. c < k)) \<or>
    (\<exists>i s' F'. buddy_alloc k s = (of_nat (i * 4096), s') \<and> buddy_ok s' F' (insert (i, k) A) R \<and> (i, k) \<notin> A
      \<and> free_page_count s' = free_page_count s - 2 ^ k \<and> used_page_count s' = used_page_count s + 2 ^ k)"
proof (cases "find (\<lambda>c. free_areas s ! c \<noteq> 0) [k..<17]")
  case None
  then have z: "F c = []" if "k \<le> c" "c \<le> 16" for c using that linked_nz [of s F c] O by (auto simp: find_None_iff buddy_ok_def)
  have "\<forall>(i, c) \<in> free_blocks F. c < k"
  proof (clarsimp simp: free_blocks_def)
    fix i c assume "c \<le> 16" "i \<in> set (F c)"
    then show "c < k" using z [of c] by (cases "k \<le> c") auto
  qed
  then show ?thesis using None k by (simp add: buddy_alloc_def)
next
  case (Some c)
  have "c \<in> set [k..<17] \<and> free_areas s ! c \<noteq> 0" using Some by (auto simp: find_Some_iff)
  then have c: "k \<le> c" "c \<le> 16" "F c \<noteq> []" using linked_nz [of s F c] O by (auto simp: buddy_ok_def)
  then obtain i xs where x: "F c = i # xs" by (cases "F c") auto
  obtain s1 where s1: "buddy_remove_from_list c s = (page_ptr i, s1)" "buddy_ok s1 (F(c := xs)) (insert (i, c) A) R" "(i, c) \<notin> A" "same_counts s1 s"
    using ok_pop [OF O c(2) x] by blast
  let ?s = "split_loop (page_ptr i) k c s1"
  obtain F' where F': "buddy_ok ?s F' (insert (i, k) A) R" "(i, k) \<notin> A" "same_counts ?s s1" using split_loop_ok [OF s1(2,3) c(1)] by blast
  have "page_ptr i - KERNEL_WINDOW = of_nat (i * 4096)" by (simp add: page_ptr_def)
  then show ?thesis using Some k s1 F'
    by (intro disjI2 exI [of _ i] exI [of _ "?s\<lparr>free_page_count := free_page_count ?s - 2 ^ k, used_page_count := used_page_count ?s + 2 ^ k\<rparr>"] exI [of _ F'])
       (simp add: buddy_alloc_def)
qed

lemma merge_loop_ok:
  assumes "buddy_ok s F (insert (i, k) A) R" "(i, k) \<notin> A"
  shows "\<exists>j c s' F'. buddy_merge_loop i k s = Some (j, c, s') \<and> buddy_ok s' F' (insert (j, c) A) R \<and> (j, c) \<notin> A \<and> same_counts s' s"
  using assms
proof (induction i k s arbitrary: F rule: buddy_merge_loop.induct)
  case (1 i k s)
  let ?b = "page_ptr (xor i (2 ^ k))"
  show ?case
  proof (cases "k < 16 \<and> bp_free (pages s ?b) \<and> bp_order (pages s ?b) = of_nat k")
    case False
    then show ?thesis using 1(2,3) by (subst buddy_merge_loop.simps) auto
  next
    case True
    let ?j = "push_bit (k + 1) (drop_bit (k + 1) i)"
    obtain s1 where s1: "unlink_buddy ?b k s = Some s1" "buddy_ok (set_page ?b (\<lambda>b. b\<lparr>bp_free := False\<rparr>) s1) (F(k := remove1 (xor i (2 ^ k)) (F k))) (insert (?j, k + 1) A) R"
        "(?j, k + 1) \<notin> A" "same_counts s1 s" using ok_merge [OF 1(2,3)] True by blast
    have eq: "buddy_merge_loop i k s = buddy_merge_loop ?j (k + 1) (set_page ?b (\<lambda>b. b\<lparr>bp_free := False\<rparr>) s1)"
      using True s1(1) by (subst buddy_merge_loop.simps) simp
    have c: "k < 16" "\<not> (\<not> bp_free (pages s ?b) \<or> bp_order (pages s ?b) \<noteq> of_nat k)" using True by auto
    show ?thesis unfolding eq using 1(1) [OF c(1) refl c(2) s1(1-3)] s1(4) by (simp only: set_page_counts)
  qed
qed

lemma buddy_free_ok:
  assumes O: "buddy_ok s F A R" and b: "(i, k) \<in> A"
  shows "\<exists>s' F'. buddy_free (of_nat (i * 4096)) k s = Some s' \<and> buddy_ok s' F' (A - {(i, k)}) R
    \<and> free_page_count s' = free_page_count s + 2 ^ k \<and> used_page_count s' = used_page_count s - 2 ^ k"
proof -
  have i: "i < 2 ^ 19" "0 < i" "k \<le> 16" "unlisted F i" using buddy_ok_block [OF O b] used_unlisted [OF O b] by (auto simp: block_ok_def)
  have a: "unat (of_nat (i * 4096) :: u64) = i * 4096" using page_ptr_unat [OF i(1)] by (simp add: page_ptr_def)
  then have nz: "(of_nat (i * 4096) :: u64) \<noteq> 0" using i(2) by auto
  let ?s = "set_page (page_ptr i) (\<lambda>b. b\<lparr>bp_free := False\<rparr>) s"
  have "buddy_ok ?s F (insert (i, k) (A - {(i, k)})) R" using O b unflag_lists [OF _ i(1,4)] by (simp add: buddy_ok_def insert_absorb)
  then obtain j c s2 F2 where m: "buddy_merge_loop i k ?s = Some (j, c, s2)" "buddy_ok s2 F2 (insert (j, c) (A - {(i, k)})) R" "(j, c) \<notin> A - {(i, k)}" "same_counts s2 ?s"
    using merge_loop_ok [of ?s F i k "A - {(i, k)}" R] by auto
  from ok_push [OF m(2,3)] show ?thesis using m i nz a by (auto simp: buddy_free_def Let_def)
qed

section \<open>Initialisation\<close>

lemma ok_extend:
  assumes O: "buddy_ok s F A R" and x: "block_ok x" "pgs x \<inter> R = {}"
  shows "buddy_ok s F (insert x A) (R \<union> pgs x)" "x \<notin> A"
proof -
  note P = partitionsD [of "free_blocks F \<union> A" R]
  have O': "lists_ok s F" "free_blocks F \<inter> A = {}" "partitions (free_blocks F \<union> A) R" using O by (simp_all add: buddy_ok_def)
  have d: "pgs b \<inter> pgs x = {}" if "b \<in> free_blocks F \<union> A" for b using P(3) [OF O'(3)] x(2) that by blast
  have n: "x \<notin> free_blocks F \<union> A" using d [of x] pgs_start [of x] by blast
  have "partitions (insert x (free_blocks F \<union> A)) (R \<union> pgs x)"
  proof (rule partitionsI)
    show "block_ok b" if "b \<in> insert x (free_blocks F \<union> A)" for b using that x(1) P(1) [OF O'(3), of b] by auto
    show "pgs a \<inter> pgs b = {}" if "a \<in> insert x (free_blocks F \<union> A)" "b \<in> insert x (free_blocks F \<union> A)" "a \<noteq> b" for a b
      using that d [of a] d [of b] P(2) [OF O'(3), of a b] by (auto simp only: insert_iff Int_commute)
    show "\<Union>(pgs ` insert x (free_blocks F \<union> A)) = R \<union> pgs x" using P(3) [OF O'(3)] by auto
  qed
  then show "buddy_ok s F (insert x A) (R \<union> pgs x)" "x \<notin> A" using O' n by (auto simp: buddy_ok_def)
qed

lemma fill_order_ok:
  assumes "buddy_ok s F {} {b..<a}" "k \<le> 16" "a mod 2 ^ k = 0" "0 < b" "b \<le> a" "a + r \<le> 2 ^ 19" "free_page_count s = of_nat (a - b)"
  shows "\<exists>r' a' s' F'. fill_order k r a s = (r', a', s') \<and> r' < 2 ^ k \<and> a' + r' = a + r \<and> a' mod 2 ^ k = 0 \<and> b \<le> a'
    \<and> buddy_ok s' F' {} {b..<a'} \<and> free_page_count s' = of_nat (a' - b) \<and> used_page_count s' = used_page_count s"
  using assms
proof (induction k r a s arbitrary: F rule: fill_order.induct)
  case (1 k r a s)
  show ?case
  proof (cases "r \<ge> 2 ^ k")
    case False
    then show ?thesis using 1(2-) by (subst fill_order.simps) auto
  next
    case True
    let ?s = "(buddy_add_to_list (page_ptr a) k s)\<lparr>free_page_count := free_page_count s + 2 ^ k\<rparr>"
    have x: "block_ok (a, k)" "pgs (a, k) \<inter> {b..<a} = {}" using 1(3-7) True by (auto simp: block_ok_def pgs_def)
    have "{b..<a} \<union> pgs (a, k) = {b..<a + 2 ^ k}" using 1(6) by (auto simp: pgs_def)
    then have ok: "buddy_ok ?s (F(k := a # F k)) {} {b..<a + 2 ^ k}" using ok_push [of s F a k "{}"] ok_extend [OF 1(2) x] by simp
    have "fill_order k r a s = fill_order k (r - 2 ^ k) (a + 2 ^ k) ?s" using True by (subst fill_order.simps) (simp add: Let_def)
    moreover have c: "free_page_count ?s = of_nat (a + 2 ^ k - b)" using 1(6,8) by (simp add: of_nat_diff)
    have al: "(a + 2 ^ k) mod 2 ^ k = 0" "b \<le> a + 2 ^ k" "a + 2 ^ k + (r - 2 ^ k) \<le> 2 ^ 19" using 1(4,6,7) True by auto
    note IH = 1(1) [OF True, unfolded Let_def add_to_list_counts, OF ok 1(3) al(1) 1(5) al(2,3) c]
    ultimately show ?thesis using IH True by simp
  qed
qed

lemma fill_orders_ok:
  assumes "buddy_ok s F {} {b..<a}" "n \<le> 17" "a mod 2 ^ (n - 1) = 0" "0 < b" "b \<le> a" "a + r \<le> 2 ^ 19" "free_page_count s = of_nat (a - b)" "n = 0 \<Longrightarrow> r = 0"
  shows "\<exists>F'. buddy_ok (fill_orders (rev [0..<n]) r a s) F' {} {b..<a + r}
    \<and> free_page_count (fill_orders (rev [0..<n]) r a s) = of_nat (a + r - b) \<and> used_page_count (fill_orders (rev [0..<n]) r a s) = used_page_count s"
  using assms
proof (induction n arbitrary: s F a r)
  case 0
  then show ?case by auto
next
  case (Suc n)
  have n16: "n \<le> 16" and al: "a mod 2 ^ n = 0" using Suc.prems by auto
  obtain r' a' s' F' where f: "fill_order n r a s = (r', a', s')" "r' < 2 ^ n" "a' + r' = a + r" "a' mod 2 ^ n = 0" "b \<le> a'"
      "buddy_ok s' F' {} {b..<a'}" "free_page_count s' = of_nat (a' - b)" "used_page_count s' = used_page_count s"
    using fill_order_ok [OF Suc.prems(1) n16 al Suc.prems(4-7)] by (elim exE conjE) (rule that)
  have al': "a' mod 2 ^ (n - 1) = 0" using f(4) by (metis dvd_imp_mod_0 mod_0_imp_dvd dvd_trans le_imp_power_dvd diff_le_self)
  have "\<exists>F''. buddy_ok (fill_orders (rev [0..<n]) r' a' s') F'' {} {b..<a' + r'}
    \<and> free_page_count (fill_orders (rev [0..<n]) r' a' s') = of_nat (a' + r' - b) \<and> used_page_count (fill_orders (rev [0..<n]) r' a' s') = used_page_count s'"
    by (rule Suc.IH [OF f(6) _ al' Suc.prems(4) f(5) _ f(7)]) (use f n16 Suc.prems(6) in simp_all)
  then show ?case unfolding f(3) using f(1,8) by simp
qed

definition clean :: "buddy \<Rightarrow> bool" where
  "clean s \<longleftrightarrow> (\<forall>i < 2 ^ 19. \<not> bp_free (pages s (page_ptr i)))"

lemma buddy_init_ok:
  assumes "clean s" "base mod 2 ^ 16 = 0" "0 < base" "base + cnt \<le> 2 ^ 19"
  shows "\<exists>F. buddy_ok (buddy_init base cnt s) F {} {base..<base + cnt} \<and> free_page_count (buddy_init base cnt s) = of_nat cnt
    \<and> used_page_count (buddy_init base cnt s) = 0"
proof -
  let ?s = "s\<lparr>free_areas := replicate 17 0, buddy_base := of_nat base, total_page_count := of_nat cnt, free_page_count := 0, used_page_count := 0\<rparr>"
  have "lists_ok ?s (\<lambda>_. [])" using assms(1) by (intro lists_okI) (auto simp: clean_def)
  then have "buddy_ok ?s (\<lambda>_. []) {} {base..<base}" by (auto simp: buddy_ok_def free_blocks_def partitions_def)
  then show ?thesis using fill_orders_ok [of ?s "\<lambda>_. []" base base 17 cnt] assms(2-4) by (simp add: buddy_init_def)
qed

section \<open>Every history\<close>

text \<open>Blocks are returned with the order they were handed out with; nobody else writes a header.\<close>

inductive buddy_reach :: "buddy \<Rightarrow> buddy \<Rightarrow> block set \<Rightarrow> bool" for s0 where
  reach_init: "buddy_reach s0 s0 {}"
| reach_alloc: "buddy_reach s0 s A \<Longrightarrow> buddy_alloc k s = (p, s') \<Longrightarrow> p \<noteq> 0 \<Longrightarrow> buddy_reach s0 s' (insert (unat p div 4096, k) A)"
| reach_none: "buddy_reach s0 s A \<Longrightarrow> buddy_alloc k s = (0, s') \<Longrightarrow> buddy_reach s0 s' A"
| reach_free: "buddy_reach s0 s A \<Longrightarrow> (i, k) \<in> A \<Longrightarrow> buddy_free (of_nat (i * 4096)) k s = Some s' \<Longrightarrow> buddy_reach s0 s' (A - {(i, k)})"

lemma card_pgs: "card (pgs b) = 2 ^ snd b"
  by (simp add: pgs_def)

lemma used_pages_sum:
  assumes "buddy_ok s F A R" "finite A"
  shows "card (\<Union>(pgs ` A)) = (\<Sum>b \<in> A. 2 ^ snd b)"
proof -
  have "\<forall>x \<in> A. \<forall>y \<in> A. x \<noteq> y \<longrightarrow> pgs x \<inter> pgs y = {}" using assms(1) partitionsD(2) unfolding buddy_ok_def by blast
  then have "card (\<Union>(pgs ` A)) = (\<Sum>b \<in> A. card (pgs b))" using assms(2) by (intro card_UN_disjoint) (auto simp: pgs_def)
  then show ?thesis by (simp add: card_pgs)
qed

definition counted :: "nat \<Rightarrow> buddy \<Rightarrow> block set \<Rightarrow> bool" where
  "counted cnt s A \<longleftrightarrow> finite A \<and> used_page_count s = of_nat (\<Sum>b \<in> A. 2 ^ snd b) \<and> free_page_count s = of_nat cnt - of_nat (\<Sum>b \<in> A. 2 ^ snd b)"

lemma buddy_alloc_new:
  assumes O: "buddy_ok s F A R" and p: "buddy_alloc k s = (p, s')" "p \<noteq> 0"
  shows "\<exists>F'. buddy_ok s' F' (insert (unat p div 4096, k) A) R \<and> (unat p div 4096, k) \<notin> A
    \<and> free_page_count s' = free_page_count s - 2 ^ k \<and> used_page_count s' = used_page_count s + 2 ^ k"
proof -
  have k: "k \<le> 16" using p by (auto simp: buddy_alloc_def split: if_splits)
  obtain i F' where i: "p = of_nat (i * 4096)" "buddy_ok s' F' (insert (i, k) A) R" "(i, k) \<notin> A"
      "free_page_count s' = free_page_count s - 2 ^ k" "used_page_count s' = used_page_count s + 2 ^ k"
    using buddy_alloc_ok [OF O k] p by auto
  have "i < 2 ^ 19" using buddy_ok_block [OF i(2)] by blast
  then have "unat p div 4096 = i" using page_ptr_unat [of i] i(1) by (simp add: page_ptr_def)
  then show ?thesis using i by auto
qed

lemma buddy_alloc_none:
  assumes O: "buddy_ok s F A R" and p: "buddy_alloc k s = (0, s')"
  shows "s' = s \<and> (k \<le> 16 \<longrightarrow> (\<forall>(i, c) \<in> free_blocks F. c < k))"
proof (cases "k \<le> 16")
  case True
  have "of_nat (i * 4096) \<noteq> (0 :: u64)" if "buddy_ok s'' F' (insert (i, k) A) R" for i s'' F'
    using buddy_ok_block [OF that, of i k] page_ptr_unat [of i] by (auto simp: page_ptr_def block_ok_def)
  then show ?thesis using buddy_alloc_ok [OF O True] p by fastforce
qed (use p in \<open>auto simp: buddy_alloc_def\<close>)

lemma buddy_reach_ok:
  assumes "buddy_reach s0 s A" "buddy_ok s0 F0 {} R" "counted cnt s0 {}"
  shows "\<exists>F. buddy_ok s F A R \<and> counted cnt s A"
  using assms
proof (induction rule: buddy_reach.induct)
  case (reach_alloc s A k p s')
  then obtain F where F: "buddy_ok s F A R" "counted cnt s A" by blast
  show ?case using buddy_alloc_new [OF F(1) reach_alloc(2,3)] F(2) by (auto simp: counted_def)
next
  case (reach_none s A k s')
  then obtain F where F: "buddy_ok s F A R" "counted cnt s A" by blast
  then show ?case using buddy_alloc_none [OF F(1) reach_none(2)] by blast
next
  case (reach_free s A i k s')
  then obtain F where F: "buddy_ok s F A R" "counted cnt s A" by blast
  obtain F' where F': "buddy_ok s' F' (A - {(i, k)}) R" "free_page_count s' = free_page_count s + 2 ^ k" "used_page_count s' = used_page_count s - 2 ^ k"
    using buddy_free_ok [OF F(1) reach_free(2)] reach_free(3) by auto
  have "(\<Sum>b \<in> A. 2 ^ snd b) = 2 ^ k + (\<Sum>b \<in> A - {(i, k)}. (2 :: nat) ^ snd b)"
    using F(2) reach_free(2) by (subst sum.remove [of A "(i, k)"]) (auto simp: counted_def)
  then show ?case using F' F(2) by (auto simp: counted_def)
qed auto

text \<open>
  C8. The buddy allocator neither shares nor loses a page: after an initialisation whose base is a multiple of the largest block, in a window that holds no
  stale header, every history of allocations and releases, in which blocks are returned with their order and nobody else writes a header,
  leaves the blocks in use and the blocks on the free lists aligned and pairwise disjoint, and together they are exactly the managed pages; the two
  counters are exact. A further allocation fails, changing nothing, only when no free block is large enough; otherwise it moves pages
  from the free lists into one new block in use. Releasing any block in use returns, and its pages are on the free lists again.
\<close>

theorem buddy_exclusive:
  assumes "clean s" "base mod 2 ^ 16 = 0" "0 < base" "base + cnt \<le> 2 ^ 19" and r: "buddy_reach (buddy_init base cnt s) s' A"
  defines "R \<equiv> {base..<base + cnt}"
  shows "\<exists>F. lists_ok s' F \<and> free_blocks F \<inter> A = {} \<and> partitions (free_blocks F \<union> A) R
    \<and> (\<forall>x \<in> A. \<forall>y \<in> A \<union> free_blocks F. x \<noteq> y \<longrightarrow> pgs x \<inter> pgs y = {})
    \<and> unat (buddy_used_pages s') = card (\<Union>(pgs ` A)) \<and> unat (buddy_free_pages s') = cnt - card (\<Union>(pgs ` A))
    \<and> (\<forall>k \<le> 16. \<forall>p s''. buddy_alloc k s' = (p, s'') \<longrightarrow>
        (if p = 0 then s'' = s' \<and> (\<forall>(i, c) \<in> free_blocks F. c < k)
         else pgs (unat p div 4096, k) \<inter> \<Union>(pgs ` A) = {} \<and> (\<exists>F''. buddy_ok s'' F'' (insert (unat p div 4096, k) A) R)))
    \<and> (\<forall>(i, k) \<in> A. \<exists>s'' F''. buddy_free (of_nat (i * 4096)) k s' = Some s'' \<and> buddy_ok s'' F'' (A - {(i, k)}) R)"
proof -
  obtain F0 where F0: "buddy_ok (buddy_init base cnt s) F0 {} R" "counted cnt (buddy_init base cnt s) {}"
    using buddy_init_ok [OF assms(1-4)] by (auto simp: counted_def R_def)
  obtain F where F: "buddy_ok s' F A R" "counted cnt s' A" using buddy_reach_ok [OF r F0] by blast
  have O: "lists_ok s' F" "free_blocks F \<inter> A = {}" "partitions (free_blocks F \<union> A) R" using F(1) by (simp_all add: buddy_ok_def)
  have "\<Union>(pgs ` A) \<subseteq> R" using partitionsD(3) [OF O(3)] by blast
  then have le: "card (\<Union>(pgs ` A)) \<le> cnt" using card_mono [of R "\<Union>(pgs ` A)"] by (simp add: R_def)
  have u: "used_page_count s' = of_nat (card (\<Union>(pgs ` A)))" "free_page_count s' = of_nat (cnt - card (\<Union>(pgs ` A)))"
    using F(2) used_pages_sum [OF F(1)] le by (auto simp: counted_def of_nat_diff)
  have small: "unat (of_nat n :: u64) = n" if "n \<le> cnt" for n using that assms(4) by (simp add: unsigned_of_nat take_bit_nat_eq_self)
  have cnt: "unat (buddy_used_pages s') = card (\<Union>(pgs ` A))" "unat (buddy_free_pages s') = cnt - card (\<Union>(pgs ` A))"
    unfolding buddy_used_pages_def buddy_free_pages_def u by (rule small, use le in simp)+
  have new: "pgs (unat p div 4096, k) \<inter> \<Union>(pgs ` A) = {} \<and> (\<exists>F''. buddy_ok s'' F'' (insert (unat p div 4096, k) A) R)"
    if p: "buddy_alloc k s' = (p, s'')" "p \<noteq> 0" for k p s''
  proof -
    obtain F'' where F'': "buddy_ok s'' F'' (insert (unat p div 4096, k) A) R" "(unat p div 4096, k) \<notin> A"
      using buddy_alloc_new [OF F(1) p] by blast
    then show ?thesis using partitionsD(2) [of "free_blocks F'' \<union> insert (unat p div 4096, k) A" R "(unat p div 4096, k)"]
      by (auto simp: buddy_ok_def)
  qed
  have alloc: "\<forall>k \<le> 16. \<forall>p s''. buddy_alloc k s' = (p, s'') \<longrightarrow>
      (if p = 0 then s'' = s' \<and> (\<forall>(i, c) \<in> free_blocks F. c < k)
       else pgs (unat p div 4096, k) \<inter> \<Union>(pgs ` A) = {} \<and> (\<exists>F''. buddy_ok s'' F'' (insert (unat p div 4096, k) A) R))"
    using new buddy_alloc_none [OF F(1)] by simp
  have "\<forall>x \<in> A. \<forall>y \<in> A \<union> free_blocks F. x \<noteq> y \<longrightarrow> pgs x \<inter> pgs y = {}" using partitionsD(2) [OF O(3)] by blast
  moreover have "\<forall>(i, k) \<in> A. \<exists>s'' F''. buddy_free (of_nat (i * 4096)) k s' = Some s'' \<and> buddy_ok s'' F'' (A - {(i, k)}) R"
    using buddy_free_ok [OF F(1)] by blast
  ultimately show ?thesis using O cnt alloc by blast
qed

section \<open>Headers in memory that others own\<close>

lemma unlink_absent:
  assumes "linked (pages s) (free_areas s ! k) xs" "b \<notin> set xs" "0 \<notin> set xs"
  shows "unlink_buddy b k s = Some s"
proof -
  have w: "unlink_walk b p s = Some s" if "linked (pages s) (bp_next (pages s p)) xs" "b \<notin> set xs" "0 \<notin> set xs" for p xs
    using that by (induction xs arbitrary: p) (auto simp: unlink_walk.simps)
  show ?thesis using assms w by (cases xs) (auto simp: unlink_buddy_def)
qed

text \<open>
  A header that its owner wrote is believed: when two buddies are in use and the owner of one has written, at its start, what looks like the header
  of a free block of that order, releasing the other merges both, and the next allocation of the doubled order hands out pages
  that are still in use.
\<close>

theorem buddy_forged_header:
  assumes O: "buddy_ok s F A R" and i: "(i, k) \<in> A" and b: "(xor i (2 ^ k), k) \<in> A" and k: "k < 16"
    and t: "t = s\<lparr>pages := (pages s)(page_ptr (xor i (2 ^ k)) := \<lparr>bp_next = x, bp_order = of_nat k, bp_free = True\<rparr>)\<rparr>"
    and j: "j = push_bit (k + 1) (drop_bit (k + 1) i)" and stop: "k = 15 \<or> \<not> bp_free (pages t (page_ptr (xor j (2 ^ (k + 1)))))"
  shows "\<exists>t'. buddy_free (of_nat (i * 4096)) k t = Some t' \<and> fst (buddy_alloc (k + 1) t') = of_nat (j * 4096) \<and> pgs (xor i (2 ^ k), k) \<subseteq> pgs (j, k + 1)"
proof -
  let ?b = "xor i (2 ^ k)"
  have L: "lists_ok s F" and bi: "i < 2 ^ 19" "0 < i" "i mod 2 ^ k = 0" and bb: "?b < 2 ^ 19" "unlisted F ?b" and ui: "unlisted F i"
    using O buddy_ok_block [OF O i] buddy_ok_block [OF O b] used_unlisted [OF O i] used_unlisted [OF O b] by (auto simp: buddy_ok_def block_ok_def)
  have J: "pgs (?b, k) \<subseteq> pgs (j, k + 1) \<and> j \<le> i \<and> i \<noteq> ?b" unfolding j Suc_eq_plus1 [symmetric] by (rule buddy_cases [OF bi(3)]) (auto simp: pgs_halves(1))
  define u where "u = set_page (page_ptr i) (\<lambda>h. h\<lparr>bp_free := False\<rparr>) t"
  define v where "v = set_page (page_ptr ?b) (\<lambda>h. h\<lparr>bp_free := False\<rparr>) u"
  have ptr: "page_ptr ?b \<noteq> page_ptr i" using page_ptr_inj [OF bb(1) bi(1)] J by simp
  have nb: "page_ptr ?b \<notin> set (map page_ptr (F k))" "0 \<notin> set (map page_ptr (F k))"
    using lists_okD(4) [OF L, of k] k bb page_ptr_inj page_ptr_nz by (auto simp: unlisted_def image_iff)
  have "linked (pages u) (free_areas u ! k) (map page_ptr (F k))"
    using lists_okD(2) [OF L, of k] k nb(1) by (subst linked_cong [of _ _ "pages s"]) (auto simp: u_def t set_page_def image_iff eq_commute [of "page_ptr (xor i (2 ^ k))"])
  then have un: "unlink_buddy (page_ptr ?b) k u = Some u" using nb by (rule unlink_absent)
  have "buddy_merge_loop i k u = buddy_merge_loop j (k + 1) v"
    using k ptr un by (subst buddy_merge_loop.simps) (simp add: u_def t set_page_def v_def j)
  also have "\<dots> = Some (j, k + 1, v)"
  proof -
    have "k + 1 < 16 \<Longrightarrow> \<not> bp_free (pages v (page_ptr (xor j (2 ^ (k + 1)))))" using stop by (auto simp: v_def u_def set_page_def)
    then show ?thesis by (subst buddy_merge_loop.simps) (simp add: Let_def)
  qed
  finally have m: "buddy_merge_loop i k u = Some (j, k + 1, v)" .
  have a: "unat (of_nat (i * 4096) :: u64) = i * 4096" using page_ptr_unat [OF bi(1)] by (simp add: page_ptr_def)
  then have nz: "(of_nat (i * 4096) :: u64) \<noteq> 0" using bi(2) by auto
  define t' where "t' = (let s3 = buddy_add_to_list (page_ptr j) (k + 1) v in s3\<lparr>free_page_count := free_page_count s3 + 2 ^ k, used_page_count := used_page_count s3 - 2 ^ k\<rparr>)"
  have "buddy_free (of_nat (i * 4096)) k t = Some t'" using nz a k m by (simp add: buddy_free_def u_def t'_def Let_def)
  moreover have "free_areas t' ! (k + 1) = page_ptr j"
    using lists_okD(1) [OF L] k by (simp add: t'_def Let_def buddy_add_to_list_def v_def u_def t set_page_def)
  then have "fst (buddy_alloc (k + 1) t') = of_nat (j * 4096)"
    using k page_ptr_nz [of j] bi(1) J by (simp add: buddy_alloc_def upt_rec [of "Suc k"] buddy_remove_from_list_def Let_def page_ptr_def split: prod.split)
  ultimately show ?thesis using J by blast
qed

section \<open>Witnesses\<close>

definition buddy_boot :: buddy where
  "buddy_boot = \<lparr>free_areas = replicate 17 0, pages = (\<lambda>_. \<lparr>bp_next = 0, bp_order = 0, bp_free = False\<rparr>), total_page_count = 0,
     free_page_count = 0, used_page_count = 0, buddy_base = 0\<rparr>"

lemma buddy_boot_clean: "clean buddy_boot"
  by (simp add: clean_def buddy_boot_def)

theorem buddy_exclusive_witness:
  "\<exists>p s1 s2. buddy_alloc 0 (buddy_init 65536 3 buddy_boot) = (p, s1) \<and> p \<noteq> 0 \<and> unat (buddy_used_pages s1) = 1 \<and> unat (buddy_free_pages s1) = 2
     \<and> buddy_free (of_nat (unat p div 4096 * 4096)) 0 s1 = Some s2 \<and> unat (buddy_used_pages s2) = 0 \<and> unat (buddy_free_pages s2) = 3"
proof -
  let ?i = "buddy_init 65536 3 buddy_boot"
  note T = buddy_exclusive [OF buddy_boot_clean, of 65536 3]
  obtain p s1 where a: "buddy_alloc 0 ?i = (p, s1)" by fastforce
  obtain F where F: "partitions (free_blocks F) {65536..<65539}" "p = 0 \<longrightarrow> (\<forall>(i, c) \<in> free_blocks F. c < 0)"
    using T [OF _ _ _ reach_init] a by (auto split: if_splits)
  have "free_blocks F \<noteq> {}" using partitionsD(3) [OF F(1)] by auto
  then have p: "p \<noteq> 0" using F(2) by auto
  note r1 = reach_alloc [OF reach_init a p]
  let ?b = "(unat p div 4096, 0 :: nat)"
  have u1: "unat (buddy_used_pages s1) = 1" "unat (buddy_free_pages s1) = 2"
    and "\<exists>s2. buddy_free (of_nat (unat p div 4096 * 4096)) 0 s1 = Some s2"
    using T [OF _ _ _ r1] by (auto simp: pgs_def)
  then obtain s2 where s2: "buddy_free (of_nat (unat p div 4096 * 4096)) 0 s1 = Some s2" by blast
  from T [OF _ _ _ reach_free [OF r1 _ this]] have "unat (buddy_used_pages s2) = 0" "unat (buddy_free_pages s2) = 3" by auto
  then show ?thesis using a p u1 s2 by blast
qed

lemma buddy_pair_ok: "buddy_ok buddy_boot (\<lambda>_. []) {(65536, 0), (65537, 0)} {65536, 65537}"
proof -
  have "lists_ok buddy_boot (\<lambda>_. [])" by (rule lists_okI) (auto simp: buddy_boot_def)
  then show ?thesis by (auto simp: buddy_ok_def free_blocks_def partitions_def block_ok_def pgs_def)
qed

theorem buddy_forged_header_witness:
  "\<exists>t'. buddy_free 0x10000000 0 (buddy_boot\<lparr>pages := (pages buddy_boot)(page_ptr 65537 := \<lparr>bp_next = 0, bp_order = 0, bp_free = True\<rparr>)\<rparr>) = Some t'
    \<and> fst (buddy_alloc 1 t') = 0x10000000 \<and> 65537 \<in> pgs (65536, 1)"
proof -
  have x: "xor (65536 :: nat) (2 ^ 0) = 65537" "push_bit (0 + 1) (drop_bit (0 + 1) 65536) = (65536 :: nat)" by (simp_all add: push_bit_eq_mult drop_bit_eq_div)
  let ?t = "buddy_boot\<lparr>pages := (pages buddy_boot)(page_ptr 65537 := \<lparr>bp_next = 0, bp_order = of_nat 0, bp_free = True\<rparr>)\<rparr>"
  have "page_ptr 65538 \<noteq> page_ptr 65537" by (simp add: page_ptr_inj)
  then have "\<not> bp_free (pages ?t (page_ptr (xor 65536 (2 ^ (0 + 1)))))" by (simp add: buddy_boot_def)
  then show ?thesis
    using buddy_forged_header [OF buddy_pair_ok, of 65536 0 ?t 0 65536, unfolded x] by (auto simp: pgs_def)
qed

end
