(* ===== verification/Printk.thy ===== *)
theory Printk
  imports Prelude
begin

text \<open>
  The kernel log, \<^verbatim>\<open>kernel/printk.c\<close>: the text screen, and the formatting of \<^verbatim>\<open>printk\<close>. The screen is the list of its 2000 cells; a
  write outside of it has no result. The serial port and the frame buffer console get the same characters, which \<open>out\<close>
  collects. A variable argument is a string or a 64-bit slot; \<^verbatim>\<open>int\<close> arguments are the low half of one.
\<close>

record console =
  vga_buffer :: "u16 list"
  vga_col :: int
  vga_row :: int
  out :: string

abbreviation (input) VGA_WIDTH :: int where "VGA_WIDTH \<equiv> 80"
abbreviation (input) VGA_HEIGHT :: int where "VGA_HEIGHT \<equiv> 25"

section \<open>The text screen\<close>

definition vga_scroll :: "console \<Rightarrow> console" where
  "vga_scroll s = s\<lparr>vga_buffer := drop 80 (take 2000 (vga_buffer s)) @ replicate 80 0x0F20, vga_row := VGA_HEIGHT - 1, vga_col := 0\<rparr>"

definition vga_write :: "int \<Rightarrow> u16 \<Rightarrow> console \<Rightarrow> console option" where
  "vga_write i v s = (if 0 \<le> i \<and> i < int (length (vga_buffer s)) then Some (s\<lparr>vga_buffer := (vga_buffer s)[nat i := v]\<rparr>) else None)"

definition vga_putchar :: "char \<Rightarrow> console \<Rightarrow> console option" where
  "vga_putchar c s = map_option (\<lambda>s. if vga_row s \<ge> VGA_HEIGHT then vga_scroll s else s)
     (if c = CHR 0x0A then Some (s\<lparr>vga_col := 0, vga_row := vga_row s + 1\<rparr>)
      else if c = CHR 0x0D then Some (s\<lparr>vga_col := 0\<rparr>)
      else if c = CHR 0x09 then Some (s\<lparr>vga_col := (vga_col s + 8) AND NOT 7\<rparr>)
      else if c = CHR 0x08 then Some (if vga_col s > 0 then s\<lparr>vga_col := vga_col s - 1\<rparr> else s)
      else map_option (\<lambda>s1. let s2 = s1\<lparr>vga_col := vga_col s1 + 1\<rparr>
                            in if vga_col s2 \<ge> VGA_WIDTH then s2\<lparr>vga_col := 0, vga_row := vga_row s2 + 1\<rparr> else s2)
             (vga_write (vga_row s * VGA_WIDTH + vga_col s) (0x0F00 OR of_char c) s))"

definition put_char :: "char \<Rightarrow> console \<Rightarrow> console option" where
  "put_char c s = vga_putchar c (s\<lparr>out := out s @ [c]\<rparr>)"

fun put_chars :: "string \<Rightarrow> console \<Rightarrow> console option" where
  "put_chars [] s = Some s"
| "put_chars (c # cs) s = Option.bind (put_char c s) (put_chars cs)"

section \<open>Numbers\<close>

text \<open>The digits of a number in a buffer of \<open>n\<close> characters, least significant first; \<open>None\<close> when they do not fit.\<close>

fun digits :: "nat \<Rightarrow> nat \<Rightarrow> nat \<Rightarrow> string option" where
  "digits b 0 v = (if v = 0 then Some [] else None)"
| "digits b (Suc n) v = (if v = 0 then Some [] else map_option (Cons (''0123456789abcdef'' ! (v mod b))) (digits b n (v div b)))"

definition unsigned_text :: "nat \<Rightarrow> nat \<Rightarrow> nat \<Rightarrow> string option" where
  "unsigned_text b n v = (if v = 0 then Some ''0'' else map_option rev (digits b n v))"

text \<open>\<^verbatim>\<open>if (val < 0) { put_char('-'); val = -val; }\<close>: the negation of the most negative value overflows, which C leaves undefined: no result.\<close>

definition signed_text :: "nat \<Rightarrow> 'w :: len word \<Rightarrow> string option" where
  "signed_text n w =
     (if sint w = - (2 ^ (LENGTH('w) - 1)) then None
      else let (sign, v) = (if sint w < 0 then (''-'', - w) else ([], w))
           in if v = 0 then Some (sign @ ''0'')
              else map_option (\<lambda>ds. sign @ rev ds) (digits 10 n (if sint v > 0 then unat v else 0)))"

section \<open>Formatting\<close>

datatype arg = AStr "string option" | AWord u64

definition int_arg :: "arg \<Rightarrow> u32 option" where
  "int_arg a = (case a of AWord w \<Rightarrow> Some (ucast w) | AStr _ \<Rightarrow> None)"

definition long_arg :: "arg \<Rightarrow> u64 option" where
  "long_arg a = (case a of AWord w \<Rightarrow> Some w | AStr _ \<Rightarrow> None)"

definition str_arg :: "arg \<Rightarrow> string option" where
  "str_arg a = (case a of AStr (Some s) \<Rightarrow> Some s | AStr None \<Rightarrow> Some ''(null)'' | AWord _ \<Rightarrow> None)"

text \<open>One conversion: the text it prints, and whether it takes an argument.\<close>

definition conv :: "char \<Rightarrow> arg list \<Rightarrow> (string \<times> arg list) option" where
  "conv c as =
     (if c = CHR ''s'' then (case as of a # as' \<Rightarrow> map_option (\<lambda>s. (s, as')) (str_arg a) | [] \<Rightarrow> None)
      else if c = CHR ''d'' \<or> c = CHR ''i'' then
        (case as of a # as' \<Rightarrow> map_option (\<lambda>s. (s, as')) (Option.bind (int_arg a) (signed_text 12)) | [] \<Rightarrow> None)
      else if c = CHR ''x'' then
        (case as of a # as' \<Rightarrow> map_option (\<lambda>s. (s, as')) (Option.bind (int_arg a) (\<lambda>w. unsigned_text 16 8 (unat w))) | [] \<Rightarrow> None)
      else if c = CHR ''p'' then
        (case as of a # as' \<Rightarrow> map_option (\<lambda>s. (''0x'' @ s, as')) (Option.bind (long_arg a) (\<lambda>w. unsigned_text 16 16 (unat w))) | [] \<Rightarrow> None)
      else if c = CHR ''u'' then
        (case as of a # as' \<Rightarrow> map_option (\<lambda>s. (s, as')) (Option.bind (int_arg a) (\<lambda>w. unsigned_text 10 12 (unat w))) | [] \<Rightarrow> None)
      else if c = CHR ''c'' then
        (case as of a # as' \<Rightarrow> map_option (\<lambda>w. ([char_of (unat (ucast w :: 8 word))], as')) (int_arg a) | [] \<Rightarrow> None)
      else if c = CHR ''%'' then Some (''%'', as)
      else Some ([CHR ''%'', c], as))"

text \<open>After \<^verbatim>\<open>%l\<close> or \<^verbatim>\<open>%ll\<close>; any other letter takes no argument and prints nothing.\<close>

definition long_conv :: "char \<Rightarrow> arg list \<Rightarrow> (string \<times> arg list) option" where
  "long_conv c as =
     (if c = CHR ''x'' \<or> c = CHR ''X'' then
        (case as of a # as' \<Rightarrow> map_option (\<lambda>s. (s, as')) (Option.bind (long_arg a) (\<lambda>w. unsigned_text 16 16 (unat w))) | [] \<Rightarrow> None)
      else if c = CHR ''u'' then
        (case as of a # as' \<Rightarrow> map_option (\<lambda>s. (s, as')) (Option.bind (long_arg a) (\<lambda>w. unsigned_text 10 20 (unat w))) | [] \<Rightarrow> None)
      else if c = CHR ''d'' then
        (case as of a # as' \<Rightarrow> map_option (\<lambda>s. (s, as')) (Option.bind (long_arg a) (signed_text 20)) | [] \<Rightarrow> None)
      else Some ([], as))"

text \<open>The format that ends inside a conversion is read past its end: no result.\<close>

fun format :: "string \<Rightarrow> arg list \<Rightarrow> string option" where
  "format [] as = Some []"
| "format (c # fmt) as =
     (if c \<noteq> CHR ''%'' then map_option (Cons c) (format fmt as)
      else case fmt of [] \<Rightarrow> None
      | d # fmt1 \<Rightarrow>
          if d = CHR ''l'' then
            (case fmt1 of [] \<Rightarrow> None
             | e # fmt2 \<Rightarrow>
                 if e = CHR ''l'' then
                   (case fmt2 of [] \<Rightarrow> None
                    | g # fmt3 \<Rightarrow> Option.bind (long_conv g as) (\<lambda>(s, as'). map_option (append s) (format fmt3 as')))
                 else Option.bind (long_conv e as) (\<lambda>(s, as'). map_option (append s) (format fmt2 as')))
          else Option.bind (conv d as) (\<lambda>(s, as'). map_option (append s) (format fmt1 as')))"

definition printk :: "string \<Rightarrow> arg list \<Rightarrow> console \<Rightarrow> console option" where
  "printk fmt as s = Option.bind (format fmt as) (\<lambda>txt. put_chars txt s)"

record loglevel_state =
  current_loglevel :: int

definition printk_set_loglevel :: "int \<Rightarrow> loglevel_state \<Rightarrow> int \<times> loglevel_state" where
  "printk_set_loglevel level s =
     (current_loglevel s, if 0 \<le> level \<and> level \<le> 7 then s\<lparr>current_loglevel := level\<rparr> else s)"

section \<open>The cursor stays on the screen\<close>

definition in_screen :: "console \<Rightarrow> bool" where
  "in_screen s \<longleftrightarrow> length (vga_buffer s) = 2000 \<and> 0 \<le> vga_col s \<and> vga_col s < 80 \<and> 0 \<le> vga_row s \<and> vga_row s < 25"

lemma put_char_ok:
  assumes s: "in_screen s" and c: "c \<noteq> CHR 0x09"
  shows "\<exists>s'. put_char c s = Some s' \<and> in_screen s' \<and> out s' = out s @ [c]"
proof -
  have "0 \<le> vga_row s * 80 + vga_col s \<and> vga_row s * 80 + vga_col s < 2000" using s by (auto simp: in_screen_def)
  then show ?thesis using s c
    by (auto simp: put_char_def vga_putchar_def vga_write_def vga_scroll_def in_screen_def Let_def)
qed

lemma put_chars_ok: "in_screen s \<Longrightarrow> CHR 0x09 \<notin> set cs \<Longrightarrow> \<exists>s'. put_chars cs s = Some s' \<and> in_screen s' \<and> out s' = out s @ cs"
proof (induction cs arbitrary: s)
  case (Cons c cs)
  obtain s1 where s1: "put_char c s = Some s1" "in_screen s1" "out s1 = out s @ [c]" using put_char_ok [OF Cons.prems(1), of c] Cons.prems(2) by auto
  then show ?case using Cons.IH [OF s1(2)] Cons.prems(2) by auto
qed simp

text \<open>
  The log is complete and stays on the screen: with the cursor on the screen and a text without tabs, \<^verbatim>\<open>printk\<close> writes inside the
  text buffer only, leaves the cursor on the screen and sends exactly the formatted text to the serial port.
\<close>

theorem printk_on_screen:
  assumes "in_screen s" "format fmt as = Some txt" "CHR 0x09 \<notin> set txt"
  shows "\<exists>s'. printk fmt as s = Some s' \<and> in_screen s' \<and> out s' = out s @ txt"
  using put_chars_ok [OF assms(1,3)] assms(2) by (simp add: printk_def)

text \<open>
  A tab leaves the screen: from the last eight columns of the last row, a tab followed by a printable character writes behind the
  end of the text buffer.
\<close>

theorem vga_tab_overrun:
  assumes "in_screen s" "vga_row s = 24" "72 \<le> vga_col s" "c \<notin> {CHR 0x08, CHR 0x09, CHR 0x0A, CHR 0x0D}"
  shows "put_chars [CHR 0x09, c] s = None"
proof -
  have "vga_col s = 72 \<or> vga_col s = 73 \<or> vga_col s = 74 \<or> vga_col s = 75 \<or> vga_col s = 76 \<or> vga_col s = 77 \<or> vga_col s = 78 \<or> vga_col s = 79"
    using assms(1,3) by (auto simp: in_screen_def)
  then have "(vga_col s + 8) AND NOT 7 = 80" by (elim disjE) simp_all
  then show ?thesis using assms by (simp add: put_char_def vga_putchar_def vga_write_def in_screen_def)
qed

section \<open>Numbers are printed exactly\<close>

definition hexval :: "char \<Rightarrow> nat" where
  "hexval c = length (takeWhile (\<lambda>d. d \<noteq> c) ''0123456789abcdef'')"

definition read_num :: "nat \<Rightarrow> string \<Rightarrow> nat" where
  "read_num b cs = foldl (\<lambda>v c. v * b + hexval c) 0 cs"

definition read_int :: "string \<Rightarrow> int" where
  "read_int cs = (case cs of c # ds \<Rightarrow> if c = CHR ''-'' then - int (read_num 10 ds) else int (read_num 10 cs) | [] \<Rightarrow> 0)"

lemma hexval_digit: "k < 16 \<Longrightarrow> hexval (''0123456789abcdef'' ! k) = k" "k < 16 \<Longrightarrow> CHR ''-'' \<noteq> ''0123456789abcdef'' ! k"
proof -
  have "list_all (\<lambda>k. hexval (''0123456789abcdef'' ! k) = k) [0..<16]" by code_simp
  then show "k < 16 \<Longrightarrow> hexval (''0123456789abcdef'' ! k) = k" by (simp only: list_all_iff set_upt atLeastLessThan_iff) simp
  show "k < 16 \<Longrightarrow> CHR ''-'' \<noteq> ''0123456789abcdef'' ! k" using nth_mem [of k "''0123456789abcdef''"] by auto
qed

lemma digits_ok:
  assumes "2 \<le> b" "b \<le> 16" "v < b ^ n"
  shows "\<exists>ds. digits b n v = Some ds \<and> foldr (\<lambda>c a. a * b + hexval c) ds 0 = v \<and> (v \<noteq> 0 \<longrightarrow> ds \<noteq> []) \<and> CHR ''-'' \<notin> set ds"
  using assms
proof (induction n arbitrary: v)
  case (Suc n)
  have "v div b < b ^ n" using Suc.prems by (simp add: less_mult_imp_div_less mult.commute)
  then obtain ds where ds: "digits b n (v div b) = Some ds" "foldr (\<lambda>c a. a * b + hexval c) ds 0 = v div b" "CHR ''-'' \<notin> set ds"
    using Suc.IH [of "v div b"] Suc.prems by blast
  have m: "v mod b < 16" using Suc.prems by (meson mod_less_divisor less_le_trans zero_less_numeral order.strict_trans2)
  show ?case using ds hexval_digit [OF m] by (auto simp del: nth_Cons_numeral)
qed simp

lemma digits_zero: "digits b n 0 = Some []"
  by (cases n) simp_all

lemma read_num_rev: "read_num b (rev ds) = foldr (\<lambda>c a. a * b + hexval c) ds 0"
  by (simp add: read_num_def foldl_conv_foldr)

lemma unsigned_text_ok:
  assumes "2 \<le> b" "b \<le> 16" "v < b ^ n"
  shows "\<exists>s. unsigned_text b n v = Some s \<and> read_num b s = v"
proof (cases "v = 0")
  case True
  then show ?thesis by (simp add: unsigned_text_def read_num_def hexval_def)
next
  case False
  then show ?thesis using digits_ok [OF assms] by (auto simp: unsigned_text_def read_num_rev)
qed

lemma unat_positive:
  fixes v :: "'w :: len word"
  assumes "0 \<le> sint v"
  shows "int (unat v) = sint v"
proof -
  have l: "sint v < 2 ^ (LENGTH('w) - 1)" by (rule sint_lt)
  have "(2 :: int) ^ (LENGTH('w) - 1) \<le> 2 ^ LENGTH('w)" by simp
  then have "sint v < 2 ^ LENGTH('w)" using l by linarith
  then show ?thesis using assms by (simp add: uint_sint take_bit_int_eq_self)
qed

lemma signed_text_ok:
  fixes w :: "'w :: len word"
  assumes n: "2 ^ (LENGTH('w) - 1) \<le> (10 :: nat) ^ n" and w: "sint w \<noteq> - (2 ^ (LENGTH('w) - 1))"
  shows "\<exists>s. signed_text n w = Some s \<and> read_int s = sint w"
proof -
  define neg where "neg \<longleftrightarrow> sint w < 0"
  define v where "v = (if neg then - w else w)"
  have "- (2 ^ (LENGTH('w) - 1)) < sint w" using w sint_ge [of w] by linarith
  then have "sint (- w) = - sint w" using sint_lt [of w] by (simp add: sint_word_minus signed_take_bit_int_eq_self)
  then have sv: "sint v = (if neg then - sint w else sint w)" "0 \<le> sint v" by (auto simp: v_def neg_def)
  have u: "int (unat v) = sint v" using unat_positive [OF sv(2)] .
  then have "int (unat v) < int (2 ^ (LENGTH('w) - 1))" using sint_lt [of v] by simp
  then have "unat v < 10 ^ n" using n by (simp only: of_nat_less_iff)
  then obtain ds where ds: "digits 10 n (unat v) = Some ds" "read_num 10 (rev ds) = unat v" "unat v \<noteq> 0 \<Longrightarrow> ds \<noteq> []" "CHR ''-'' \<notin> set ds"
    using digits_ok [of 10 "unat v" n] by (auto simp: read_num_rev)
  have t: "signed_text n w = (if v = 0 then Some ((if neg then ''-'' else []) @ ''0'')
      else map_option (\<lambda>ds. (if neg then ''-'' else []) @ rev ds) (digits 10 n (if sint v > 0 then unat v else 0)))"
    using w by (simp add: signed_text_def v_def neg_def Let_def)
  show ?thesis
  proof (cases "v = 0")
    case True
    then show ?thesis using sv t by (auto simp: read_int_def read_num_def hexval_def neg_def split: if_splits)
  next
    case False
    then have p: "sint v > 0" "unat v \<noteq> 0" using sv(2) signed_eq_0_iff [of v] by (auto simp: order.order_iff_strict unsigned_eq_0_iff)
    obtain c cs where r: "rev ds = c # cs" using ds(3) [OF p(2)] by (cases "rev ds") auto
    then have "c \<in> set ds" by (metis list.set_intros(1) set_rev)
    then have "c \<noteq> CHR ''-''" using ds(4) by auto
    then show ?thesis using False p t ds(1,2) u sv(1) r by (auto simp: read_int_def)
  qed
qed

lemma format_steps:
  "format (CHR ''%'' # CHR ''u'' # fmt) (AWord w # as) = Option.bind (unsigned_text 10 12 (unat (ucast w :: u32))) (\<lambda>s. map_option (append s) (format fmt as))"
  "format (CHR ''%'' # CHR ''x'' # fmt) (AWord w # as) = Option.bind (unsigned_text 16 8 (unat (ucast w :: u32))) (\<lambda>s. map_option (append s) (format fmt as))"
  "format (CHR ''%'' # CHR ''p'' # fmt) (AWord w # as) = Option.bind (unsigned_text 16 16 (unat w)) (\<lambda>s. map_option (append (''0x'' @ s)) (format fmt as))"
  "format (CHR ''%'' # CHR ''d'' # fmt) (AWord w # as) = Option.bind (signed_text 12 (ucast w :: u32)) (\<lambda>s. map_option (append s) (format fmt as))"
  "format (CHR ''%'' # CHR ''l'' # CHR ''u'' # fmt) (AWord w # as) = Option.bind (unsigned_text 10 20 (unat w)) (\<lambda>s. map_option (append s) (format fmt as))"
  "format (CHR ''%'' # CHR ''l'' # CHR ''x'' # fmt) (AWord w # as) = Option.bind (unsigned_text 16 16 (unat w)) (\<lambda>s. map_option (append s) (format fmt as))"
  "format (CHR ''%'' # CHR ''l'' # CHR ''d'' # fmt) (AWord w # as) = Option.bind (signed_text 20 w) (\<lambda>s. map_option (append s) (format fmt as))"
  "format (CHR ''%'' # CHR ''%'' # fmt) as = map_option (Cons (CHR ''%'')) (format fmt as)"
  "c \<noteq> CHR ''%'' \<Longrightarrow> format (c # fmt) as = map_option (Cons c) (format fmt as)"
proof -
  show "c \<noteq> CHR ''%'' \<Longrightarrow> format (c # fmt) as = map_option (Cons c) (format fmt as)" by simp
  show "format (CHR ''%'' # CHR ''%'' # fmt) as = map_option (Cons (CHR ''%'')) (format fmt as)" by (cases "format fmt as") (simp_all add: conv_def)
  show "format (CHR ''%'' # CHR ''u'' # fmt) (AWord w # as) = Option.bind (unsigned_text 10 12 (unat (ucast w :: u32))) (\<lambda>s. map_option (append s) (format fmt as))"
    by (cases "unsigned_text 10 12 (unat (ucast w :: u32))") (simp_all add: conv_def int_arg_def)
  show "format (CHR ''%'' # CHR ''x'' # fmt) (AWord w # as) = Option.bind (unsigned_text 16 8 (unat (ucast w :: u32))) (\<lambda>s. map_option (append s) (format fmt as))"
    by (cases "unsigned_text 16 8 (unat (ucast w :: u32))") (simp_all add: conv_def int_arg_def)
  show "format (CHR ''%'' # CHR ''p'' # fmt) (AWord w # as) = Option.bind (unsigned_text 16 16 (unat w)) (\<lambda>s. map_option (append (''0x'' @ s)) (format fmt as))"
    by (cases "unsigned_text 16 16 (unat w)") (simp_all add: conv_def long_arg_def)
  show "format (CHR ''%'' # CHR ''d'' # fmt) (AWord w # as) = Option.bind (signed_text 12 (ucast w :: u32)) (\<lambda>s. map_option (append s) (format fmt as))"
    by (cases "signed_text 12 (ucast w :: u32)") (simp_all add: conv_def int_arg_def)
  show "format (CHR ''%'' # CHR ''l'' # CHR ''u'' # fmt) (AWord w # as) = Option.bind (unsigned_text 10 20 (unat w)) (\<lambda>s. map_option (append s) (format fmt as))"
    by (cases "unsigned_text 10 20 (unat w)") (simp_all add: long_conv_def long_arg_def)
  show "format (CHR ''%'' # CHR ''l'' # CHR ''x'' # fmt) (AWord w # as) = Option.bind (unsigned_text 16 16 (unat w)) (\<lambda>s. map_option (append s) (format fmt as))"
    by (cases "unsigned_text 16 16 (unat w)") (simp_all add: long_conv_def long_arg_def)
  show "format (CHR ''%'' # CHR ''l'' # CHR ''d'' # fmt) (AWord w # as) = Option.bind (signed_text 20 w) (\<lambda>s. map_option (append s) (format fmt as))"
    by (cases "signed_text 20 w") (simp_all add: long_conv_def long_arg_def)
qed

declare format.simps(2) [simp del]

text \<open>
  C36. Numbers are printed exactly: reading back what \<^verbatim>\<open>%u\<close>, \<^verbatim>\<open>%x\<close>, \<^verbatim>\<open>%p\<close>, \<^verbatim>\<open>%lu\<close>, \<^verbatim>\<open>%lx\<close>, \<^verbatim>\<open>%d\<close> and \<^verbatim>\<open>%ld\<close> print gives the argument, whose digits always fit
  the buffer on the stack. The most negative \<^verbatim>\<open>int\<close> and \<^verbatim>\<open>long\<close> are the exception: the code negates them, which is undefined, and the model has no result.
\<close>

theorem printk_numbers:
  "(\<exists>s. format ''%u'' [AWord w] = Some s \<and> read_num 10 s = unat (ucast w :: u32)) \<and> (\<exists>s. format ''%x'' [AWord w] = Some s \<and> read_num 16 s = unat (ucast w :: u32))
   \<and> (\<exists>s. format ''%p'' [AWord w] = Some (''0x'' @ s) \<and> read_num 16 s = unat w) \<and> (\<exists>s. format ''%lu'' [AWord w] = Some s \<and> read_num 10 s = unat w)
   \<and> (\<exists>s. format ''%lx'' [AWord w] = Some s \<and> read_num 16 s = unat w)
   \<and> (if sint (ucast w :: u32) = - (2 ^ 31) then format ''%d'' [AWord w] = None
      else \<exists>s. format ''%d'' [AWord w] = Some s \<and> read_int s = sint (ucast w :: u32))
   \<and> (if sint w = - (2 ^ 63) then format ''%ld'' [AWord w] = None else \<exists>s. format ''%ld'' [AWord w] = Some s \<and> read_int s = sint w)"
proof -
  let ?v = "ucast w :: u32"
  have b: "unat ?v < 10 ^ 12" "unat ?v < 16 ^ 8" "unat w < 16 ^ 16" "unat w < 10 ^ 20"
    using unsigned_less [of ?v, where 'a = nat] unsigned_less [of w, where 'a = nat] by simp_all
  note U = unsigned_text_ok [OF _ _ b(1)] unsigned_text_ok [OF _ _ b(2)] unsigned_text_ok [OF _ _ b(3)] unsigned_text_ok [OF _ _ b(4)]
  have "if sint ?v = - (2 ^ 31) then signed_text 12 ?v = None else \<exists>s. signed_text 12 ?v = Some s \<and> read_int s = sint ?v"
    using signed_text_ok [of 12 ?v] by (cases "sint ?v = - (2 ^ 31)") (simp_all add: signed_text_def)
  moreover have "if sint w = - (2 ^ 63) then signed_text 20 w = None else \<exists>s. signed_text 20 w = Some s \<and> read_int s = sint w"
    using signed_text_ok [of 20 w] by (cases "sint w = - (2 ^ 63)") (simp_all add: signed_text_def)
  moreover note U
  ultimately show ?thesis by (auto simp: format_steps)
qed

section \<open>Witnesses\<close>

definition blank :: console where
  "blank = \<lparr>vga_buffer = replicate 2000 0x0F20, vga_col = 75, vga_row = 24, out = []\<rparr>"

lemma blank_in_screen: "in_screen blank"
  by (simp add: in_screen_def blank_def)

theorem printk_on_screen_witness: "\<exists>s'. printk ''pid %d%%'' [AWord 7] blank = Some s' \<and> in_screen s' \<and> out s' = ''pid 7%''"
proof -
  have d: "digits 10 12 7 = Some ''7''" by code_simp
  have "format ''pid %d%%'' [AWord 7] = Some ''pid 7%''" by (simp add: format_steps signed_text_def d)
  moreover have "out blank = []" by (simp add: blank_def)
  ultimately show ?thesis using printk_on_screen [OF blank_in_screen, of "''pid %d%%''" "[AWord 7]" "''pid 7%''"] by simp
qed

theorem vga_tab_overrun_witness: "put_chars [CHR 0x09, CHR ''a''] blank = None"
  using vga_tab_overrun [OF blank_in_screen, of "CHR ''a''"] by (simp add: blank_def)

end
