(* ===== verification/Spec2Isabelle.thy ===== *)
theory Spec2Isabelle
  imports Kstring Input_Ring Pty Pmm Sched Task Signal Wait Micro_Ipc Vmm Kheap Fs_Layer Security Ipc Dns Unix_Socket Syscall Buddy Printk
begin

text \<open>
  ShadowBox OS: a verification library of its kernel.

  \<^bold>\<open>The program.\<close> ShadowBox OS is a small x86-64 operating system in C. The boot code hands the
  Multiboot memory map to the page allocator (\<^verbatim>\<open>arch/x86_64/mm/pmm.c\<close>); the page tables
  (\<^verbatim>\<open>vmm.c\<close>) take their frames from it, and the kernel heap (\<^verbatim>\<open>malloc.c\<close>) takes frames and maps
  them. On the heap live the processes (\<^verbatim>\<open>kernel/task.c\<close>), which the run queue
  (\<^verbatim>\<open>kernel/sched.c\<close>) orders; signals, \<^verbatim>\<open>wait4\<close> and the two message systems block and wake them;
  the virtual file system (\<^verbatim>\<open>kernel/vfs.c\<close>) dispatches through function pointers in its nodes to
  the RAM file system (\<^verbatim>\<open>fs/tmpfs.c\<close>) and the boot archive (\<^verbatim>\<open>kernel/tarfs.c\<close>). The network stack
  (\<^verbatim>\<open>net/\<close>) and the table of system calls (\<^verbatim>\<open>kernel/syscall.c\<close>) rest on all of these; drivers and a
  graphical user land surround them.

  \<^bold>\<open>Conventions.\<close> Machine integers are words of the C width, so additions wrap; signed results
  are \<open>int\<close>. Shared objects are entries of a store indexed by addresses (\<open>nat\<close> or \<open>u64\<close>, \<open>0\<close> is the
  null pointer). A loop that follows pointers is a \<open>partial_function (option)\<close>: \<open>None\<close> is a loop
  that never ends or, where a theory says so, an access through a dangling or null pointer, past
  the end of an array, or a signed overflow: whatever C leaves undefined. So a
  statement of the form \<open>f x = Some y\<close> includes that the code returns and stays defined. No definition uses
  fuel. A spin lock that one processor already holds is a hang, so \<open>None\<close>. The places where the
  code leaves the modelled part are parameters: whether an allocation succeeds (\<open>mem\<close>,
  \<open>plan\<close>), what other processes do while one yields (\<open>Y\<close>), the operations of file systems that
  are not modelled (\<open>D\<close>, and \<open>E\<close> in the system calls), and the system calls that leave the calling
  process or reach a device or the network (\<open>X\<close>).

  \<^bold>\<open>The theories.\<close>

  \<^item> \<open>Prelude\<close>: integer types, error numbers, generic lemmas on words, lists and folds.
  \<^item> \<open>Kstring\<close>: \<^verbatim>\<open>lib/kstring.c\<close> over a byte memory, and the user pointer checks of
    \<^verbatim>\<open>include/memory.h\<close> and \<^verbatim>\<open>kernel/memory.c\<close>. \<^verbatim>\<open>memmove\<close> is a parallel copy for every overlap
    that does not wrap; \<^verbatim>\<open>copy_to_user\<close> writes nothing outside the user half.
  \<^item> \<open>Ring\<close>: the locale \<open>fifo_stream\<close> of a bounded queue with a representation invariant, and the
    arithmetic of positions in a ring; interpreted by \<open>Input_Ring\<close> (\<^verbatim>\<open>kernel/input.c\<close>), \<open>Pty\<close>
    (\<^verbatim>\<open>kernel/pty.c\<close>, both directions), the pipes of \<open>Ipc\<close> and the sockets of \<open>Unix_Socket\<close>.
  \<^item> \<open>Pmm\<close>: \<^verbatim>\<open>arch/x86_64/mm/pmm.c\<close>. The bitmap after \<^verbatim>\<open>pmm_init\<close> is the reserved memory, a page
    handed out is not handed out again before it is freed.
  \<^item> \<open>Buddy\<close>: \<^verbatim>\<open>arch/x86_64/mm/buddy.c\<close>. The blocks in use and the blocks in the free lists partition the
    pages; an allocation fails only when no free block is large enough, freeing gives the pages back.
  \<^item> \<open>Sched\<close>: \<^verbatim>\<open>kernel/sched.c\<close>. The run queue is a binary heap, every operation keeps the multiset
    it should and the heap order, and the process picked has the least virtual run time.
  \<^item> \<open>Task\<close>: \<^verbatim>\<open>kernel/task.c\<close>. The circular process list, descriptor tables with reference counts,
    creation, fork, exit and the switch; under the operations of this file the reference count of
    every open file is the number of descriptors that name it, and no descriptor names a freed file.
    (\<^verbatim>\<open>net/socket.c\<close> and \<^verbatim>\<open>sys_dup2\<close> on one descriptor break this; \<open>Unix_Socket\<close> and \<open>Sys_File\<close> show how.)
  \<^item> \<open>Signal\<close>, \<open>Wait\<close>: \<^verbatim>\<open>kernel/signal.c\<close> and \<^verbatim>\<open>kernel/wait.c\<close> over the state of \<open>Task\<close>.
  \<^item> \<open>Micro_Ipc\<close>: \<^verbatim>\<open>kernel/micro_ipc.c\<close>, the send queue of each process and the copy of a message
    between address spaces.
  \<^item> \<open>Vmm\<close>: \<^verbatim>\<open>arch/x86_64/mm/vmm.c\<close> over \<open>Pmm\<close>. Mapping changes the translation of one page only,
    2 MB pages are split first into the 512 pages they stood for (\<open>large_page\<close>, stated apart from
    the code's formula), fork shares pages read-only and a write fault copies and keeps the flags.
  \<^item> \<open>Kheap\<close>: \<^verbatim>\<open>arch/x86_64/mm/malloc.c\<close> over \<open>Vmm\<close> and \<open>Pmm\<close>. Blocks never overlap, \<^verbatim>\<open>kmalloc\<close>
    returns, \<^verbatim>\<open>kfree\<close> merges neighbours and keeps the list in order.
  \<^item> \<open>Vfs\<close>: \<^verbatim>\<open>kernel/vfs.c\<close> and the inline operations of \<^verbatim>\<open>include/vfs.h\<close>. The locales
    \<open>fs_frame\<close> and \<open>fs_safe\<close> say what path resolution asks of the file systems below.
  \<^item> \<open>Tmpfs\<close>, \<open>Tarfs\<close>: the two file systems. The entries of the RAM file system always form a
    tree with distinct names, directories are finite maps and files are byte lists; the octal
    size field is read as a number.
  \<^item> \<open>Fs_Layer\<close>: the dispatch of node pointers to these two, the interpretations of the locales of
    \<open>Vfs\<close> and the properties of whole paths: resolution is the walk over the components, through
    mount points, \<^verbatim>\<open>.\<close> and \<^verbatim>\<open>..\<close> and from the working directory; while only these two are mounted it
    never touches freed memory; a file of the archive has the bytes of the archive.
  \<^item> \<open>Security\<close>: \<^verbatim>\<open>kernel/security.c\<close>. Capability words are sets, hooks ask the modules in order,
    the audit ring keeps the last 256 entries, and the rule for signals, which nothing calls.
  \<^item> \<open>Ipc\<close>: \<^verbatim>\<open>kernel/ipc.c\<close>. Pipes and message queues are first-in first-out, semaphores.
  \<^item> \<open>Net_Base\<close>: the headers of \<^verbatim>\<open>include/net.h\<close> byte by byte, the Internet checksum and the state
    the protocols share; the checksum is the one's complement sum and a header that carries its
    own checksum sums to zero.
  \<^item> \<open>Udp\<close>, \<open>Tcp\<close>: \<^verbatim>\<open>net/udp.c\<close> and \<^verbatim>\<open>net/tcp.c\<close>. Datagram queues are first-in first-out; the states of a
    connection that a step relation reaches, in which no call and no segment runs over a buffer of
    the socket, the handshake, the byte stream with its acknowledgements, and the bounds of window and
    timer. \<^verbatim>\<open>tcp_checksum\<close> writes up to four bytes past its own heap buffer; the model counts these bytes
    and goes on with the heap intact.
  \<^item> \<open>Net\<close>: \<^verbatim>\<open>net/net.c\<close>, from the Ethernet frame to the sockets: address resolution, echo, the
    waiting loop of ping, and a datagram that one machine sends arrives in the socket of another.
  \<^item> \<open>Dns\<close>: \<^verbatim>\<open>net/dns.c\<close>. Names survive encoding, replies are parsed inside their bytes.
  \<^item> \<open>Unix_Socket\<close>: \<^verbatim>\<open>net/socket.c\<close> over \<open>Task\<close> and \<open>Ring\<close>; a connected pair is two streams.
  \<^item> \<open>Printk\<close>: \<^verbatim>\<open>kernel/printk.c\<close>. The text screen is never written outside of its cells; numbers print as
    their digits, except that the code negates the most negative one, which C leaves undefined.
  \<^item> \<open>Sys_Base\<close>, \<open>Sys_Mem\<close>, \<open>Sys_Time\<close>, \<open>Sys_Proc\<close>, \<open>Sys_File\<close>: the system calls of \<^verbatim>\<open>kernel/syscall.c\<close> by the part they
    act on, and \<^verbatim>\<open>kernel/time.c\<close>. \<^verbatim>\<open>brk\<close> and \<^verbatim>\<open>mmap\<close> give pages on demand; the calendar is checked against a
    Gregorian calendar stated apart from the code; \<^verbatim>\<open>wait4\<close> reaps the first matching zombie; what is
    written to a file is read back; \<^verbatim>\<open>read\<close> stays in the caller's buffer.
  \<^item> \<open>Sys_Pipe\<close>: the pipes of the system call layer, one more instance of \<open>fifo_stream\<close>.
  \<^item> \<open>Syscall\<close>: the table and \<^verbatim>\<open>syscall_handler\<close> over the record \<open>machine\<close>, which joins the files, processes
    and user memory of \<open>Sys_File\<close> with the address spaces, the clock and the real-time clock.

  \<^bold>\<open>Not modelled.\<close> Drivers, interrupt and boot code, power, audio and video touch devices and
  privileged registers; so do the deferred work they queue (\<^verbatim>\<open>kernel/softirq.c\<close>) and most of the other
  memory management. The graphical programs draw into a frame buffer, the shell and the utilities
  are user programs. The on-disk file system works on a block device; \<^verbatim>\<open>devfs\<close>, \<^verbatim>\<open>procfs\<close> and \<^verbatim>\<open>sysfs\<close>
  print device state and counters. \<^verbatim>\<open>task_exec\<close> and the program loader end in a switch to user mode.
  Of the system calls, \<^verbatim>\<open>exec\<close> and the thin wrappers around sockets, the network, the frame buffer, notifications and
  power are part of \<open>X\<close>. Sessions, name spaces and filters are stubs; IPv6, NTP, DHCP and the wireless
  parts are clients of the modelled stack. Translation look-aside buffers, cache behaviour and
  true parallelism between processors are outside the model: an operation that holds a lock or
  has interrupts disabled is one step.
\<close>

end
